(* ===== verification/Sptag_Prelude.thy ===== *)
theory Sptag_Prelude
  imports Complex_Main "HOL-Library.Word" "HOL-Library.Multiset"
begin

text \<open>
  Shared ground of the development: names for the machine types of the sources, the collections
  the components put their facts into, the error codes of \<^verbatim>\<open>AnnService/inc/Core/DefinitionList.h\<close>,
  and generic facts on lists and multisets that several components use.

  Conventions. A finite IEEE single is a rational number (\<open>dist\<close>): comparisons of distances are
  exact on it, and NaN is not a distance. A C \<^verbatim>\<open>int\<close>, \<^verbatim>\<open>SizeType\<close> or \<^verbatim>\<open>AddressType\<close> is an
  \<^typ>\<open>int\<close> or, where it is an array index that the code never makes negative, a \<^typ>\<open>nat\<close>; where
  the width matters the conversion is written out, or a word is used. A read or write outside an
  allocation is the value \<^const>\<open>None\<close>, never an unspecified value of a total function.
\<close>

named_theorems heap_facts \<open>facts on the binary heaps of the search\<close>
named_theorems store_facts \<open>facts on the posting store\<close>
named_theorems codec_facts \<open>facts on encoders and decoders\<close>

type_synonym u8 = "8 word"
type_synonym u16 = "16 word"
type_synonym u32 = "32 word"
type_synonym u64 = "64 word"
type_synonym bytes = "8 word list"
type_synonym dist = rat

subsection \<open>Error codes\<close>

text \<open>The enumeration that \<^verbatim>\<open>Common.h\<close> builds from \<^verbatim>\<open>DefinitionList.h\<close>.\<close>

datatype ErrorCode =
    Success | Fail | FailedOpenFile | FailedCreateFile | ParamNotFound | FailedParseValue
  | MemoryOverFlow | LackOfInputs | VectorNotFound | EmptyIndex | EmptyData
  | DimensionSizeMismatch | ExternalAbort | EmptyDiskIO | DiskIOFail
  | ReadIni_FailedParseSection | ReadIni_FailedParseParam | ReadIni_DuplicatedSection
  | ReadIni_DuplicatedParam
  | Socket_FailedResolveEndPoint | Socket_FailedConnectToEndPoint
  | Key_OverFlow | Key_NotFound | Posting_OverFlow | Posting_SizeError | Block_IDError

text \<open>Conversion of a 64-bit value to the 32-bit \<^verbatim>\<open>SizeType\<close> or \<^verbatim>\<open>int\<close> (two's complement).\<close>

definition to_int32 :: "int \<Rightarrow> int" where
  "to_int32 x = sint (word_of_int x :: 32 word)"

lemma to_int32_id: "- (2 ^ 31) \<le> x \<Longrightarrow> x < 2 ^ 31 \<Longrightarrow> to_int32 x = x"
  by (simp add: to_int32_def sint_sbintrunc' signed_take_bit_int_eq_self)

lemma to_int32_le: "0 \<le> x \<Longrightarrow> to_int32 x \<le> x"
  by (simp add: to_int32_def sint_sbintrunc' signed_take_bit_int_less_eq_self_iff)

subsection \<open>Exchanging two array cells\<close>

definition swap :: "'a list \<Rightarrow> nat \<Rightarrow> nat \<Rightarrow> 'a list" where
  "swap xs i j = xs[i := xs ! j, j := xs ! i]"

lemma length_swap [simp]: "length (swap xs i j) = length xs"
  by (simp add: swap_def)

lemma nth_swap:
  "i < length xs \<Longrightarrow> j < length xs \<Longrightarrow> k < length xs \<Longrightarrow>
     swap xs i j ! k = (if k = i then xs ! j else if k = j then xs ! i else xs ! k)"
  by (auto simp: swap_def nth_list_update)

lemma swap_other: "k \<noteq> i \<Longrightarrow> k \<noteq> j \<Longrightarrow> swap xs i j ! k = xs ! k"
  by (simp add: swap_def)

lemma mset_swap_eq [simp]:
  "i < length xs \<Longrightarrow> j < length xs \<Longrightarrow> mset (swap xs i j) = mset xs"
  by (simp add: swap_def mset_swap)

lemma mset_list_update:
  "i < length xs \<Longrightarrow> mset (xs[i := v]) = add_mset v (mset xs - {#xs ! i#})"
  by (simp add: mset_update)

subsection \<open>Counting and concatenating\<close>

lemma length_filter_update:
  "i < length xs \<Longrightarrow>
     length (filter P (xs[i := v])) + (if P (xs ! i) then 1 else 0) =
     length (filter P xs) + (if P v then 1 else 0)"
proof (induction xs arbitrary: i)
  case (Cons x xs)
  show ?case
  proof (cases i)
    case (Suc j)
    then show ?thesis using Cons.IH[of j] Cons.prems by simp
  qed simp
qed simp

lemma length_concat_uniform:
  "\<forall>r \<in> set rs. length r = w \<Longrightarrow> length (concat rs) = length rs * w"
  by (induction rs) auto

end
