(* ===== verification/Binary_Heap.thy ===== *)
theory Binary_Heap
  imports Sptag_Prelude
begin

text \<open>
  The binary heap \<^verbatim>\<open>COMMON::Heap<T>\<close> of \<^verbatim>\<open>AnnService/inc/Core/Common/Heap.h\<close>: a bounded min-heap in
  a 1-based array. The element type is a template parameter compared by \<open><\<close> and \<open>>\<close>; the
  operations take the two comparisons as arguments, and the locale \<open>heap_order\<close> states what the
  heap needs of them. \<open>NodeDistPair\<close> of \<^verbatim>\<open>SearchResult.h\<close> is the instance the search uses.
\<close>

subsection \<open>State and operations\<close>

record 'a heap =
  hp_heap :: "'a list"
  hp_length :: nat
  hp_count :: nat
  hp_lastlevel :: nat

text \<open>\<^verbatim>\<open>int(pow(2.0, floor(log2(size))))\<close>, the first index of the last level (0 for size 0); the
  logarithm is computed exactly here.\<close>

fun lastlevel_of :: "nat \<Rightarrow> nat" where
  "lastlevel_of n = (if n = 0 then 0 else if n = 1 then 1 else 2 * lastlevel_of (n div 2))"

declare lastlevel_of.simps [simp del]

text \<open>\<^verbatim>\<open>new T[length + 1]\<close> fills the array with the default value of the element type.\<close>

definition heap_Resize :: "'a \<Rightarrow> nat \<Rightarrow> 'a heap" where
  "heap_Resize dflt sz =
     \<lparr>hp_heap = replicate (sz + 1) dflt, hp_length = sz, hp_count = 0,
      hp_lastlevel = lastlevel_of sz\<rparr>"

definition heap_size :: "'a heap \<Rightarrow> nat" where
  "heap_size h = hp_count h"

definition heap_empty :: "'a heap \<Rightarrow> bool" where
  "heap_empty h \<longleftrightarrow> hp_count h = 0"

definition heap_clear :: "'a \<Rightarrow> nat \<Rightarrow> 'a heap \<Rightarrow> 'a heap" where
  "heap_clear dflt sz h =
     (if sz > hp_length h then heap_Resize dflt sz else h)\<lparr>hp_count := 0\<rparr>"

definition heap_Top :: "'a heap \<Rightarrow> 'a" where
  "heap_Top h = (if hp_count h = 0 then hp_heap h ! 0 else hp_heap h ! 1)"

text \<open>The scan for the largest element of the last level.\<close>

fun scan_max :: "('a \<Rightarrow> 'a \<Rightarrow> bool) \<Rightarrow> 'a list \<Rightarrow> nat \<Rightarrow> nat list \<Rightarrow> nat" where
  "scan_max lt arr maxi [] = maxi"
| "scan_max lt arr maxi (i # is) =
     scan_max lt arr (if lt (arr ! maxi) (arr ! i) then i else maxi) is"

text \<open>Moving parents down until the place of the new value is found.\<close>

fun sift_up :: "('a \<Rightarrow> 'a \<Rightarrow> bool) \<Rightarrow> 'a \<Rightarrow> 'a list \<Rightarrow> nat \<Rightarrow> 'a list" where
  "sift_up lt value arr loc =
     (let par = loc div 2
      in if par > 0 \<and> lt value (arr ! par)
         then sift_up lt value (arr[loc := arr ! par]) par
         else arr[loc := value])"

declare sift_up.simps [simp del]

definition heap_insert ::
  "('a \<Rightarrow> 'a \<Rightarrow> bool) \<Rightarrow> ('a \<Rightarrow> 'a \<Rightarrow> bool) \<Rightarrow> 'a \<Rightarrow> 'a heap \<Rightarrow> 'a heap" where
  "heap_insert lt gt value h =
     (if hp_count h = hp_length h
      then let maxi = scan_max lt (hp_heap h) (hp_lastlevel h)
                        [hp_lastlevel h + 1 ..< hp_length h + 1]
           in if gt value (hp_heap h ! maxi) then h
              else h\<lparr>hp_heap := sift_up lt value (hp_heap h) maxi\<rparr>
      else let loc = hp_count h + 1
           in h\<lparr>hp_count := loc, hp_heap := sift_up lt value (hp_heap h) loc\<rparr>)"

text \<open>
  The loop of \<^verbatim>\<open>heapify\<close>: it returns the array with the values of \<^verbatim>\<open>parent\<close> and \<^verbatim>\<open>next\<close> when it
  stops, by its guard or by the \<^verbatim>\<open>break\<close>. The guard \<open>0 < next\<close> is not in the source; it is
  what makes the equation terminate for every argument, and both callers start at \<open>next = 2\<close>.
\<close>

function heapify_loop ::
  "('a \<Rightarrow> 'a \<Rightarrow> bool) \<Rightarrow> ('a \<Rightarrow> 'a \<Rightarrow> bool) \<Rightarrow> nat \<Rightarrow> 'a list \<Rightarrow> nat \<Rightarrow> nat \<Rightarrow> 'a list \<times> nat \<times> nat"
where
  "heapify_loop lt gt cnt arr parent next =
     (if 0 < next \<and> next < cnt
      then let next' = (if gt (arr ! next) (arr ! (next + 1)) then next + 1 else next)
           in if lt (arr ! next') (arr ! parent)
              then heapify_loop lt gt cnt (swap arr parent next') next' (2 * next')
              else (arr, parent, next')
      else (arr, parent, next))"
  by pat_completeness auto
termination
  by (relation "measure (\<lambda>(lt, gt, cnt, arr, parent, next). cnt - next)") auto

declare heapify_loop.simps [simp del]

definition heapify_from ::
  "('a \<Rightarrow> 'a \<Rightarrow> bool) \<Rightarrow> ('a \<Rightarrow> 'a \<Rightarrow> bool) \<Rightarrow> nat \<Rightarrow> 'a list \<Rightarrow> nat \<Rightarrow> nat \<Rightarrow> 'a list" where
  "heapify_from lt gt cnt arr parent next =
     (case heapify_loop lt gt cnt arr parent next of
        (arr', parent', next') \<Rightarrow>
          if next' = cnt \<and> lt (arr' ! next') (arr' ! parent') then swap arr' parent' next'
          else arr')"

definition heapify :: "('a \<Rightarrow> 'a \<Rightarrow> bool) \<Rightarrow> ('a \<Rightarrow> 'a \<Rightarrow> bool) \<Rightarrow> 'a heap \<Rightarrow> 'a heap" where
  "heapify lt gt h = h\<lparr>hp_heap := heapify_from lt gt (hp_count h) (hp_heap h) 1 2\<rparr>"

text \<open>\<^verbatim>\<open>bool pop(T& value)\<close>: \<^const>\<open>None\<close> is the result \<^verbatim>\<open>false\<close>, which leaves \<^verbatim>\<open>value\<close> alone.\<close>

definition heap_pop ::
  "('a \<Rightarrow> 'a \<Rightarrow> bool) \<Rightarrow> ('a \<Rightarrow> 'a \<Rightarrow> bool) \<Rightarrow> 'a heap \<Rightarrow> 'a option \<times> 'a heap" where
  "heap_pop lt gt h =
     (if hp_count h = 0 then (None, h)
      else (Some (hp_heap h ! 1),
            heapify lt gt (h\<lparr>hp_heap := swap (hp_heap h) 1 (hp_count h),
                             hp_count := hp_count h - 1\<rparr>)))"

text \<open>\<^verbatim>\<open>T& pop()\<close>: the popped element is read from the slot behind the shrunk heap.\<close>

definition heap_pop_ref ::
  "('a \<Rightarrow> 'a \<Rightarrow> bool) \<Rightarrow> ('a \<Rightarrow> 'a \<Rightarrow> bool) \<Rightarrow> 'a heap \<Rightarrow> 'a \<times> 'a heap" where
  "heap_pop_ref lt gt h =
     (if hp_count h = 0 then (hp_heap h ! 0, h)
      else let h' = heapify lt gt (h\<lparr>hp_heap := swap (hp_heap h) 1 (hp_count h),
                                     hp_count := hp_count h - 1\<rparr>)
           in (hp_heap h' ! (hp_count h' + 1), h'))"

subsection \<open>Invariant and contents\<close>

definition heap_elems :: "'a list \<Rightarrow> nat \<Rightarrow> 'a list" where
  "heap_elems arr cnt = take cnt (drop 1 arr)"

definition heap_contents :: "'a heap \<Rightarrow> 'a multiset" where
  "heap_contents h = mset (heap_elems (hp_heap h) (hp_count h))"

definition ordered_upto :: "('a \<Rightarrow> 'a \<Rightarrow> bool) \<Rightarrow> 'a list \<Rightarrow> nat \<Rightarrow> bool" where
  "ordered_upto lt arr cnt \<longleftrightarrow> (\<forall>i \<in> {2..cnt}. \<not> lt (arr ! i) (arr ! (i div 2)))"

definition heap_shape :: "'a heap \<Rightarrow> bool" where
  "heap_shape h \<longleftrightarrow>
     length (hp_heap h) = hp_length h + 1 \<and> hp_count h \<le> hp_length h \<and>
     hp_lastlevel h = lastlevel_of (hp_length h)"

definition heap_inv :: "('a \<Rightarrow> 'a \<Rightarrow> bool) \<Rightarrow> 'a heap \<Rightarrow> bool" where
  "heap_inv lt h \<longleftrightarrow> heap_shape h \<and> ordered_upto lt (hp_heap h) (hp_count h)"

text \<open>Ordered but for the children of \<open>p\<close>, which are still above the parent of \<open>p\<close>: the state
  of the array while a value sinks.\<close>

definition ordered_except :: "('a \<Rightarrow> 'a \<Rightarrow> bool) \<Rightarrow> 'a list \<Rightarrow> nat \<Rightarrow> nat \<Rightarrow> bool" where
  "ordered_except lt arr cnt p \<longleftrightarrow>
     (\<forall>i. 2 \<le> i \<longrightarrow> i \<le> cnt \<longrightarrow> i div 2 \<noteq> p \<longrightarrow> \<not> lt (arr ! i) (arr ! (i div 2))) \<and>
     (\<forall>i. 2 \<le> i \<longrightarrow> i \<le> cnt \<longrightarrow> i div 2 = p \<longrightarrow> 2 \<le> p \<longrightarrow> \<not> lt (arr ! i) (arr ! (p div 2)))"

text \<open>Where the new value enters.\<close>

definition insert_loc :: "('a \<Rightarrow> 'a \<Rightarrow> bool) \<Rightarrow> 'a heap \<Rightarrow> nat" where
  "insert_loc lt h = scan_max lt (hp_heap h) (hp_lastlevel h) [hp_lastlevel h + 1 ..< hp_length h + 1]"

text \<open>Popping \<open>n\<close> times.\<close>

fun heap_drain :: "('a \<Rightarrow> 'a \<Rightarrow> bool) \<Rightarrow> ('a \<Rightarrow> 'a \<Rightarrow> bool) \<Rightarrow> nat \<Rightarrow> 'a heap \<Rightarrow> 'a list" where
  "heap_drain lt gt 0 h = []"
| "heap_drain lt gt (Suc n) h =
     (case heap_pop lt gt h of (None, h') \<Rightarrow> [] | (Some v, h') \<Rightarrow> v # heap_drain lt gt n h')"

subsection \<open>The element type of the search queues\<close>

record NodeDistPair =
  node :: int
  distance :: dist

definition ndp_less :: "NodeDistPair \<Rightarrow> NodeDistPair \<Rightarrow> bool" where
  "ndp_less a b \<longleftrightarrow> distance a < distance b"

definition ndp_greater :: "NodeDistPair \<Rightarrow> NodeDistPair \<Rightarrow> bool" where
  "ndp_greater a b \<longleftrightarrow> distance a > distance b"

subsection \<open>The array segment that holds the heap\<close>

lemma heap_elems_nth: "i < cnt \<Longrightarrow> cnt < length arr \<Longrightarrow> heap_elems arr cnt ! i = arr ! (i + 1)"
  by (simp add: heap_elems_def)

lemma length_heap_elems: "cnt < length arr \<Longrightarrow> length (heap_elems arr cnt) = cnt"
  by (simp add: heap_elems_def)

lemma heap_elems_update:
  "1 \<le> i \<Longrightarrow> i \<le> cnt \<Longrightarrow> cnt < length arr \<Longrightarrow>
     heap_elems (arr[i := v]) cnt = (heap_elems arr cnt)[i - 1 := v]"
  by (rule nth_equalityI) (auto simp: length_heap_elems heap_elems_nth nth_list_update)

lemma mset_heap_elems_swap:
  assumes "1 \<le> i" "i \<le> cnt" "1 \<le> j" "j \<le> cnt" "cnt < length arr"
  shows "mset (heap_elems (swap arr i j) cnt) = mset (heap_elems arr cnt)"
proof -
  have "heap_elems (swap arr i j) cnt = swap (heap_elems arr cnt) (i - 1) (j - 1)"
    using assms by (simp add: swap_def heap_elems_update heap_elems_nth)
  then show ?thesis using assms by (simp add: length_heap_elems)
qed

lemma heap_elems_Suc:
  "Suc cnt < length arr \<Longrightarrow> heap_elems arr (Suc cnt) = heap_elems arr cnt @ [arr ! Suc cnt]"
  by (simp add: heap_elems_def take_Suc_conv_app_nth)

lemma sift_up_stop:
  "\<not> (0 < loc div 2 \<and> lt v (arr ! (loc div 2))) \<Longrightarrow> sift_up lt v arr loc = arr[loc := v]"
  by (subst sift_up.simps) (simp only: Let_def if_False)

lemma sift_up_step:
  "0 < loc div 2 \<and> lt v (arr ! (loc div 2)) \<Longrightarrow>
     sift_up lt v arr loc = sift_up lt v (arr[loc := arr ! (loc div 2)]) (loc div 2)"
  by (subst sift_up.simps) (simp only: Let_def if_True simp_thms)

lemma length_sift_up [simp]: "length (sift_up lt v arr loc) = length arr"
proof (induction lt v arr loc rule: sift_up.induct)
  case (1 lt v arr loc)
  then show ?case by (subst sift_up.simps) (auto simp: Let_def)
qed

lemma mset_sift_up:
  "1 \<le> loc \<Longrightarrow> loc \<le> cnt \<Longrightarrow> cnt < length arr \<Longrightarrow>
     mset (heap_elems (sift_up lt v arr loc) cnt)
       = add_mset v (mset (heap_elems arr cnt) - {#arr ! loc#})"
proof (induction lt v arr loc rule: sift_up.induct)
  case (1 lt v arr loc)
  let ?par = "loc div 2"
  have upd: "mset (heap_elems (arr[loc := x]) cnt) = add_mset x (mset (heap_elems arr cnt) - {#arr ! loc#})" for x
    using 1(2-4) by (simp add: heap_elems_update mset_list_update length_heap_elems heap_elems_nth)
  show ?case
  proof (cases "?par > 0 \<and> lt v (arr ! ?par)")
    case True
    have "mset (heap_elems (sift_up lt v arr loc) cnt)
        = add_mset v (mset (heap_elems (arr[loc := arr ! ?par]) cnt) - {#arr[loc := arr ! ?par] ! ?par#})"
      using True 1(2-4) 1(1)[OF refl True] by (subst sift_up.simps) (simp add: Let_def)
    moreover have "?par \<noteq> loc" using True by auto
    ultimately show ?thesis by (simp add: upd)
  next
    case False
    show ?thesis unfolding sift_up_stop[of loc lt v arr, OF False] by (rule upd)
  qed
qed

lemma mset_sift_up_leaf:
  "cnt + 1 < length arr \<Longrightarrow>
     mset (heap_elems (sift_up lt v arr (cnt + 1)) (cnt + 1)) = add_mset v (mset (heap_elems arr cnt))"
  by (subst mset_sift_up) (simp_all add: heap_elems_Suc)

lemma length_heapify_loop:
  "heapify_loop lt gt cnt arr parent next = (arr', parent', next') \<Longrightarrow> length arr' = length arr"
proof (induction lt gt cnt arr parent "next" rule: heapify_loop.induct)
  case (1 lt gt cnt arr parent "next")
  then show ?case
    by (subst (asm) (2) heapify_loop.simps) (auto simp: Let_def split: if_splits)
qed

lemma length_heapify_from [simp]: "length (heapify_from lt gt cnt arr p n) = length arr"
  by (auto simp: heapify_from_def dest: length_heapify_loop split: prod.splits)

text \<open>The loop permutes the heap and touches nothing outside it.\<close>

lemma heapify_loop_frame:
  assumes "heapify_loop lt gt cnt arr parent next = (arr', parent', next')"
    and "1 \<le> parent" "parent \<le> cnt" "cnt < length arr" "0 < next"
  shows "1 \<le> parent' \<and> parent' \<le> cnt \<and> length arr' = length arr \<and> next' > 0 \<and>
         mset (heap_elems arr' cnt) = mset (heap_elems arr cnt) \<and> (\<forall>k. k = 0 \<or> cnt < k \<longrightarrow> arr' ! k = arr ! k)"
  using assms
proof (induction lt gt cnt arr parent "next" rule: heapify_loop.induct)
  case (1 lt gt cnt arr parent "next")
  let ?n = "if gt (arr ! next) (arr ! (next + 1)) then next + 1 else next"
  show ?case
  proof (cases "next < cnt \<and> lt (arr ! ?n) (arr ! parent)")
    case True
    have n: "1 \<le> ?n" "?n \<le> cnt" using True 1(6) by auto
    have e: "heapify_loop lt gt cnt (swap arr parent ?n) ?n (2 * ?n) = (arr', parent', next')"
      using 1(2) True 1(6) by (subst (asm) heapify_loop.simps) (simp add: Let_def)
    have "1 \<le> parent' \<and> parent' \<le> cnt \<and> length arr' = length (swap arr parent ?n) \<and> next' > 0 \<and>
         mset (heap_elems arr' cnt) = mset (heap_elems (swap arr parent ?n) cnt) \<and>
         (\<forall>k. k = 0 \<or> cnt < k \<longrightarrow> arr' ! k = swap arr parent ?n ! k)"
      by (rule 1(1)[OF _ refl _ e]) (use True 1(3-6) n in auto)
    then show ?thesis using n 1(3-6)
      by (auto simp: mset_heap_elems_swap swap_other)
  next
    case False
    then show ?thesis using 1(2-6) by (subst (asm) heapify_loop.simps) (auto simp: Let_def split: if_splits)
  qed
qed

lemma heap_insert_alt:
  "heap_insert lt gt v h =
     (if hp_count h = hp_length h
      then if gt v (hp_heap h ! insert_loc lt h) then h
           else h\<lparr>hp_heap := sift_up lt v (hp_heap h) (insert_loc lt h)\<rparr>
      else h\<lparr>hp_count := hp_count h + 1, hp_heap := sift_up lt v (hp_heap h) (hp_count h + 1)\<rparr>)"
  by (simp add: heap_insert_def insert_loc_def Let_def)

lemma lastlevel_of_bounds: "0 < n \<Longrightarrow> 1 \<le> lastlevel_of n \<and> lastlevel_of n \<le> n \<and> n < 2 * lastlevel_of n"
proof (induction n rule: lastlevel_of.induct)
  case (1 n)
  show ?case
  proof (cases "n = 1")
    case True
    then show ?thesis by (simp add: lastlevel_of.simps)
  next
    case False
    then have "1 \<le> lastlevel_of (n div 2) \<and> lastlevel_of (n div 2) \<le> n div 2 \<and> n div 2 < 2 * lastlevel_of (n div 2)"
      using 1 by auto
    moreover have "lastlevel_of n = 2 * lastlevel_of (n div 2)"
      using 1(2) False by (subst lastlevel_of.simps) simp
    ultimately show ?thesis by linarith
  qed
qed

lemma scan_max_in: "scan_max lt arr m is = m \<or> scan_max lt arr m is \<in> set is"
proof (induction "is" arbitrary: m)
  case (Cons i "is")
  show ?case using Cons.IH[of i] Cons.IH[of m] by auto
qed simp

lemma insert_loc_full:
  assumes "heap_shape h" "0 < hp_length h" "hp_count h = hp_length h"
  shows "1 \<le> insert_loc lt h \<and> insert_loc lt h \<le> hp_length h \<and> hp_length h < 2 * insert_loc lt h"
proof -
  have "hp_lastlevel h \<le> insert_loc lt h \<and> insert_loc lt h \<le> hp_length h"
    using scan_max_in[of lt "hp_heap h" "hp_lastlevel h" "[hp_lastlevel h + 1 ..< hp_length h + 1]"]
      lastlevel_of_bounds[OF assms(2)] assms(1)
    unfolding insert_loc_def[symmetric] heap_shape_def set_upt by auto
  then show ?thesis using lastlevel_of_bounds[OF assms(2)] assms(1) by (auto simp: heap_shape_def)
qed

lemma in_heap_elems:
  assumes "cnt < length arr"
  shows "x \<in> set (heap_elems arr cnt) \<longleftrightarrow> (\<exists>i. 1 \<le> i \<and> i \<le> cnt \<and> x = arr ! i)"
proof -
  have "x \<in> set (heap_elems arr cnt) \<longleftrightarrow> (\<exists>k < cnt. x = arr ! (k + 1))"
    using assms by (auto simp: in_set_conv_nth length_heap_elems heap_elems_nth)
  also have "\<dots> \<longleftrightarrow> (\<exists>i. 1 \<le> i \<and> i \<le> cnt \<and> x = arr ! i)"
    by (metis Suc_eq_plus1 Suc_le_D Suc_le_eq Suc_le_mono le_add2 One_nat_def)
  finally show ?thesis .
qed

lemma nth_in_heap_contents:
  "1 \<le> i \<Longrightarrow> 0 < hp_count h \<Longrightarrow> hp_count h < length (hp_heap h) \<Longrightarrow> i \<le> hp_count h \<Longrightarrow>
     hp_heap h ! i \<in># heap_contents h"
  by (auto simp: heap_contents_def in_heap_elems)

lemma heap_contents_nth:
  "x \<in># heap_contents h \<Longrightarrow> hp_count h < length (hp_heap h) \<Longrightarrow>
     \<exists>i. 1 \<le> i \<and> i \<le> hp_count h \<and> x = hp_heap h ! i"
  by (simp add: heap_contents_def in_heap_elems)

lemma heapify_from_frame:
  assumes "1 \<le> p" "p \<le> cnt" "cnt < length arr" "0 < n"
  shows "mset (heap_elems (heapify_from lt gt cnt arr p n) cnt) = mset (heap_elems arr cnt)"
    and "k = 0 \<or> cnt < k \<Longrightarrow> heapify_from lt gt cnt arr p n ! k = arr ! k"
proof -
  obtain arr' p' n' where e: "heapify_loop lt gt cnt arr p n = (arr', p', n')" by (metis prod_cases3)
  note f = heapify_loop_frame[OF e assms]
  show "mset (heap_elems (heapify_from lt gt cnt arr p n) cnt) = mset (heap_elems arr cnt)"
    using f assms by (auto simp: heapify_from_def e mset_heap_elems_swap)
  show "k = 0 \<or> cnt < k \<Longrightarrow> heapify_from lt gt cnt arr p n ! k = arr ! k"
    using f by (auto simp: heapify_from_def e swap_other)
qed

lemma heap_pop_contents:
  assumes "0 < hp_count h" "hp_count h < length (hp_heap h)"
  shows "heap_contents (snd (heap_pop lt gt h)) = heap_contents h - {#hp_heap h ! 1#}"
proof -
  let ?c = "hp_count h - 1" and ?a = "swap (hp_heap h) 1 (hp_count h)"
  have c: "hp_count h = Suc ?c" "Suc ?c < length ?a" using assms by auto
  have "add_mset (hp_heap h ! 1) (mset (heap_elems ?a ?c)) = mset (heap_elems ?a (Suc ?c))"
    using assms by (subst heap_elems_Suc[OF c(2)]) (simp add: swap_def)
  also have "\<dots> = heap_contents h"
    using mset_heap_elems_swap[of 1 "hp_count h" "hp_count h" "hp_heap h"] assms
    by (simp add: heap_contents_def)
  finally have e: "mset (heap_elems ?a ?c) = heap_contents h - {#hp_heap h ! 1#}" by (metis add_mset_remove_trivial)
  show ?thesis
  proof (cases "?c = 0")
    case True
    then show ?thesis using e assms by (simp add: heap_pop_def heapify_def heap_contents_def heap_elems_def)
  next
    case False
    then show ?thesis using e assms heapify_from_frame(1)[of 1 ?c ?a 2 lt gt]
      by (simp add: heap_pop_def heapify_def heap_contents_def)
  qed
qed

lemma heap_pop_ref_eq:
  assumes "heap_shape h" "0 < hp_count h"
  shows "heap_pop_ref lt gt h = (v, h') \<longleftrightarrow> heap_pop lt gt h = (Some v, h')"
proof -
  let ?c = "hp_count h - 1" and ?a = "swap (hp_heap h) 1 (hp_count h)"
  have c: "Suc ?c = hp_count h" "hp_count h < length (hp_heap h)"
    using assms by (auto simp: heap_shape_def)
  have "heapify_from lt gt ?c ?a 1 2 ! (?c + 1) = ?a ! (?c + 1)"
  proof (cases "?c = 0")
    case True
    then show ?thesis by (simp add: heapify_from_def heapify_loop.simps)
  next
    case False
    then show ?thesis using c by (intro heapify_from_frame(2)) auto
  qed
  moreover have "?a ! (?c + 1) = hp_heap h ! 1" using c by (simp add: swap_def)
  ultimately show ?thesis using assms(2) c(1) by (auto simp: heap_pop_ref_def heap_pop_def heapify_def Let_def)
qed

lemma heap_insert_contents:
  assumes "heap_shape h" "0 < hp_length h"
  shows "hp_count h < hp_length h \<Longrightarrow> heap_contents (heap_insert lt gt v h) = add_mset v (heap_contents h)"
    and "hp_count h = hp_length h \<Longrightarrow> \<not> gt v (hp_heap h ! insert_loc lt h) \<Longrightarrow>
      heap_contents (heap_insert lt gt v h) = add_mset v (heap_contents h - {#hp_heap h ! insert_loc lt h#})"
proof -
  have len: "length (hp_heap h) = hp_length h + 1" using assms(1) by (simp add: heap_shape_def)
  show "heap_contents (heap_insert lt gt v h) = add_mset v (heap_contents h)" if "hp_count h < hp_length h"
    using that len mset_sift_up_leaf[of "hp_count h" "hp_heap h" lt v]
    by (simp add: heap_insert_alt heap_contents_def)
  show "heap_contents (heap_insert lt gt v h) = add_mset v (heap_contents h - {#hp_heap h ! insert_loc lt h#})"
    if "hp_count h = hp_length h" "\<not> gt v (hp_heap h ! insert_loc lt h)"
    using that len mset_sift_up[of "insert_loc lt h" "hp_length h" "hp_heap h" lt v]
      insert_loc_full[OF assms that(1), of lt]
    by (simp add: heap_insert_alt heap_contents_def)
qed




lemma ordered_exceptD1:
  "ordered_except lt arr cnt p \<Longrightarrow> 2 \<le> i \<Longrightarrow> i \<le> cnt \<Longrightarrow> i div 2 \<noteq> p \<Longrightarrow> \<not> lt (arr ! i) (arr ! (i div 2))"
  by (simp add: ordered_except_def)

lemma ordered_exceptD2:
  "ordered_except lt arr cnt p \<Longrightarrow> 2 \<le> p \<Longrightarrow> i \<le> cnt \<Longrightarrow> i div 2 = p \<Longrightarrow> \<not> lt (arr ! i) (arr ! (p div 2))"
  by (auto simp: ordered_except_def)

lemma ordered_except_cong:
  assumes "\<And>k. k \<le> cnt \<Longrightarrow> a ! k = b ! k" "ordered_except lt a cnt p"
  shows "ordered_except lt b cnt p"
  unfolding ordered_except_def
proof (intro conjI allI impI)
  fix i assume i: "2 \<le> i" "i \<le> cnt"
  have e: "a ! i = b ! i" "a ! (i div 2) = b ! (i div 2)" "a ! (i div 2 div 2) = b ! (i div 2 div 2)"
    using i assms(1) by simp_all
  show "\<not> lt (b ! i) (b ! (i div 2))" if "i div 2 \<noteq> p"
    using ordered_exceptD1[OF assms(2) i that] e by simp
  show "\<not> lt (b ! i) (b ! (p div 2))" if "i div 2 = p" "2 \<le> p"
    using ordered_exceptD2[OF assms(2) that(2) i(2) that(1)] e that(1) by simp
qed

subsection \<open>What the heap needs of the comparisons\<close>

text \<open>A strict weak order, the requirement of the C++ library on \<open><\<close>; \<open>\<not> lt b a\<close> reads
  \<open>a\<close> is not after \<open>b\<close>.\<close>

locale weak_order =
  fixes lt :: "'a \<Rightarrow> 'a \<Rightarrow> bool"
  assumes asym: "lt x y \<Longrightarrow> \<not> lt y x"
    and neg_trans: "lt x z \<Longrightarrow> lt x y \<or> lt y z"
begin

lemma irrefl [simp]: "\<not> lt x x"
  using asym by blast

lemma le_trans: "\<not> lt y x \<Longrightarrow> \<not> lt z y \<Longrightarrow> \<not> lt z x"
  using neg_trans by blast

lemma lt_le_trans: "lt x y \<Longrightarrow> \<not> lt z y \<Longrightarrow> lt x z"
  using neg_trans by blast

lemma ordered_root_least:
  assumes "ordered_upto lt arr cnt" "1 \<le> i" "i \<le> cnt"
  shows "\<not> lt (arr ! i) (arr ! 1)"
  using assms(2,3)
proof (induction i rule: less_induct)
  case (less i)
  show ?case
  proof (cases "i = 1")
    case False
    then have "i \<in> {2..cnt}" "i div 2 < i" "1 \<le> i div 2" "i div 2 \<le> cnt"
      using less.prems by auto
    then show ?thesis
      using less.IH[of "i div 2"] assms(1) le_trans by (auto simp: ordered_upto_def)
  qed simp
qed

lemma ordered_root_least_elem:
  assumes "ordered_upto lt arr cnt" "cnt < length arr" "x \<in> set (heap_elems arr cnt)"
  shows "\<not> lt x (arr ! 1)"
  using assms ordered_root_least[OF assms(1)] by (auto simp: in_heap_elems)

text \<open>Replacing the root leaves an array that is ordered but for the root's children.\<close>

lemma ordered_except_root:
  assumes "ordered_upto lt arr cnt"
  shows "ordered_except lt (arr[1 := v]) cnt 1"
proof -
  have "i div 2 \<noteq> 1 \<Longrightarrow> 2 \<le> i \<Longrightarrow> i div 2 \<noteq> Suc 0 \<and> i \<noteq> Suc 0" for i by auto
  then show ?thesis using assms by (auto simp: ordered_except_def ordered_upto_def)
qed

lemma scan_max_max: "i = m \<or> i \<in> set is \<Longrightarrow> \<not> lt (arr ! scan_max lt arr m is) (arr ! i)"
proof (induction "is" arbitrary: m i)
  case (Cons j "is")
  let ?m = "if lt (arr ! m) (arr ! j) then j else m"
  have "\<not> lt (arr ! scan_max lt arr ?m is) (arr ! ?m)" using Cons.IH[of ?m ?m] by simp
  moreover have "\<not> lt (arr ! ?m) (arr ! m)" "\<not> lt (arr ! ?m) (arr ! j)" using asym by auto
  ultimately show ?case using Cons.IH[of i ?m] Cons.prems le_trans by (metis scan_max.simps(2) set_ConsD)
qed simp

text \<open>Ordered but for the value to be placed at \<open>loc\<close>.\<close>

lemma sift_up_ordered:
  "1 \<le> loc \<Longrightarrow> loc \<le> cnt \<Longrightarrow> cnt < length arr \<Longrightarrow>
   \<forall>i. 2 \<le> i \<longrightarrow> i \<le> cnt \<longrightarrow> i \<noteq> loc \<longrightarrow> i div 2 \<noteq> loc \<longrightarrow> \<not> lt (arr ! i) (arr ! (i div 2)) \<Longrightarrow>
   \<forall>i. 2 \<le> i \<longrightarrow> i \<le> cnt \<longrightarrow> i div 2 = loc \<longrightarrow>
      \<not> lt (arr ! i) v \<and> (2 \<le> loc \<longrightarrow> \<not> lt (arr ! i) (arr ! (loc div 2))) \<Longrightarrow>
   ordered_upto lt (sift_up lt v arr loc) cnt"
proof (induction loc arbitrary: arr rule: less_induct)
  case (less loc)
  let ?p = "loc div 2"
  show ?case
  proof (cases "0 < ?p \<and> lt v (arr ! ?p)")
    case True
    let ?a = "arr[loc := arr ! ?p]"
    have p: "?p < loc" "1 \<le> ?p" "2 \<le> loc" using True by auto
    have "ordered_upto lt (sift_up lt v ?a ?p) cnt"
    proof (rule less.IH[OF p(1,2)])
      show "?p \<le> cnt" "cnt < length ?a" using p less.prems by auto
      show "\<forall>i. 2 \<le> i \<longrightarrow> i \<le> cnt \<longrightarrow> i \<noteq> ?p \<longrightarrow> i div 2 \<noteq> ?p \<longrightarrow> \<not> lt (?a ! i) (?a ! (i div 2))"
        using less.prems p by (auto simp: nth_list_update)
      show "\<forall>i. 2 \<le> i \<longrightarrow> i \<le> cnt \<longrightarrow> i div 2 = ?p \<longrightarrow>
        \<not> lt (?a ! i) v \<and> (2 \<le> ?p \<longrightarrow> \<not> lt (?a ! i) (?a ! (?p div 2)))"
      proof (intro allI impI)
        fix i assume i: "2 \<le> i" "i \<le> cnt" "i div 2 = ?p"
        have a: "\<not> lt (?a ! i) (arr ! ?p)"
          using i less.prems p by (cases "i = loc") (auto simp: nth_list_update)
        have gp: "2 \<le> ?p \<Longrightarrow> \<not> lt (arr ! ?p) (arr ! (?p div 2))"
          using less.prems(2,4) p by auto
        have "?a ! (?p div 2) = arr ! (?p div 2)" using p by simp
        then show "\<not> lt (?a ! i) v \<and> (2 \<le> ?p \<longrightarrow> \<not> lt (?a ! i) (?a ! (?p div 2)))"
          using a gp True neg_trans[of "?a ! i"] asym by metis
      qed
    qed
    then show ?thesis unfolding sift_up_step[of loc lt v arr, OF True] .
  next
    case False
    have "ordered_upto lt (arr[loc := v]) cnt"
      unfolding ordered_upto_def
    proof
      fix i assume i: "i \<in> {2..cnt}"
      then have "i div 2 \<noteq> i" "i < length arr" "i div 2 < length arr" using less.prems(3) by auto
      moreover have "i = loc \<Longrightarrow> \<not> lt v (arr ! ?p)" using False i by auto
      ultimately show "\<not> lt (arr[loc := v] ! i) (arr[loc := v] ! (i div 2))"
        using i less.prems(4,5)
        by (cases "i = loc"; cases "i div 2 = loc") simp_all
    qed
    then show ?thesis unfolding sift_up_stop[of loc lt v arr, OF False] .
  qed
qed

text \<open>Appending a leaf.\<close>

lemma sift_up_leaf_ordered:
  assumes "ordered_upto lt arr cnt" "cnt + 1 < length arr"
  shows "ordered_upto lt (sift_up lt v arr (cnt + 1)) (cnt + 1)"
proof (rule sift_up_ordered)
  show "\<forall>i. 2 \<le> i \<longrightarrow> i \<le> cnt + 1 \<longrightarrow> i \<noteq> cnt + 1 \<longrightarrow> i div 2 \<noteq> cnt + 1 \<longrightarrow>
      \<not> lt (arr ! i) (arr ! (i div 2))"
    using assms(1) by (auto simp: ordered_upto_def)
  show "\<forall>i. 2 \<le> i \<longrightarrow> i \<le> cnt + 1 \<longrightarrow> i div 2 = cnt + 1 \<longrightarrow>
      \<not> lt (arr ! i) v \<and> (2 \<le> cnt + 1 \<longrightarrow> \<not> lt (arr ! i) (arr ! ((cnt + 1) div 2)))"
    by auto
qed (use assms in auto)

text \<open>Sinking one step: the smaller child of \<open>p\<close> takes its place.\<close>

lemma ordered_except_sink:
  assumes oe: "ordered_except lt arr cnt p" and p: "1 \<le> p" "cnt < length arr"
    and n: "n \<le> cnt" "n div 2 = p" and least: "\<And>i. i div 2 = p \<Longrightarrow> i \<le> cnt \<Longrightarrow> \<not> lt (arr ! i) (arr ! n)"
    and sink: "lt (arr ! n) (arr ! p)"
  shows "ordered_except lt (swap arr p n) cnt n"
proof -
  have pn: "p < n" using p(1) n(2) by auto
  have sw: "swap arr p n ! k = (if k = p then arr ! n else if k = n then arr ! p else arr ! k)"
    if "k \<le> cnt" for k
    using that n pn p(2) by (intro nth_swap) auto
  have out: "\<not> lt (swap arr p n ! i) (swap arr p n ! (i div 2))"
    if i: "2 \<le> i" "i \<le> cnt" "i div 2 \<noteq> n" for i
  proof -
    have i2: "i div 2 \<le> cnt" "i div 2 < i" using i by auto
    consider "i = n" | "i \<noteq> n" "i div 2 = p" | "i = p" | "i \<noteq> n" "i \<noteq> p" "i div 2 \<noteq> p" by blast
    then show ?thesis
      unfolding sw[OF i(2)] sw[OF i2(1)]
      using n pn i i2 least sink asym ordered_exceptD1[OF oe i(1,2)] ordered_exceptD2[OF oe _ n(1,2)]
      by cases simp_all
  qed
  have kid: "\<not> lt (swap arr p n ! i) (swap arr p n ! (n div 2))"
    if i: "2 \<le> i" "i \<le> cnt" "i div 2 = n" for i
  proof -
    have "i \<noteq> p" "i \<noteq> n" "p \<le> cnt" using n pn i by linarith+
    then show ?thesis
      unfolding n(2) sw[OF i(2)] sw[OF \<open>p \<le> cnt\<close>]
      using ordered_exceptD1[OF oe i(1,2)] i(3) pn by simp
  qed
  show ?thesis using out kid by (simp add: ordered_except_def)
qed

lemma ordered_except_done:
  assumes oe: "ordered_except lt arr cnt p"
    and kids: "\<And>i. 2 \<le> i \<Longrightarrow> i \<le> cnt \<Longrightarrow> i div 2 = p \<Longrightarrow> \<not> lt (arr ! i) (arr ! p)"
  shows "ordered_upto lt arr cnt"
  unfolding ordered_upto_def
proof
  fix i assume i: "i \<in> {2..cnt}"
  then show "\<not> lt (arr ! i) (arr ! (i div 2))"
    using ordered_exceptD1[OF oe, of i] kids[of i] by (cases "i div 2 = p") simp_all
qed

lemma heapify_from_ordered:
  assumes "1 \<le> p" "p \<le> cnt" "cnt < length arr" "ordered_except lt arr cnt p"
  shows "ordered_upto lt (heapify_from lt (\<lambda>a b. lt b a) cnt arr p (2 * p)) cnt"
  using assms
proof (induction "cnt - p" arbitrary: arr p rule: less_induct)
  case less
  let ?n = "if lt (arr ! (2 * p + 1)) (arr ! (2 * p)) then 2 * p + 1 else 2 * p"
  note oe = less.prems(4)
  have least: "\<not> lt (arr ! i) (arr ! ?n)" if "i div 2 = p" for i
  proof -
    have "i = 2 * p \<or> i = 2 * p + 1" using that by auto
    then show ?thesis using asym by auto
  qed
  consider (sink) "2 * p < cnt" "lt (arr ! ?n) (arr ! p)" | (stop) "2 * p < cnt" "\<not> lt (arr ! ?n) (arr ! p)"
    | (last) "2 * p = cnt" | (leaf) "cnt < 2 * p" by linarith
  then show ?case
  proof cases
    case sink
    have n: "?n \<le> cnt" "p < ?n" "?n div 2 = p" using sink(1) less.prems(1) by auto
    have "heapify_from lt (\<lambda>a b. lt b a) cnt arr p (2 * p)
        = heapify_from lt (\<lambda>a b. lt b a) cnt (swap arr p ?n) ?n (2 * ?n)"
      unfolding heapify_from_def
      by (subst heapify_loop.simps) (use sink less.prems(1) in \<open>simp add: Let_def\<close>)
    moreover have "ordered_except lt (swap arr p ?n) cnt ?n"
      using less.prems n sink(2) least by (intro ordered_except_sink[OF oe]) auto
    ultimately show ?thesis
      using less.hyps[of ?n "swap arr p ?n"] n less.prems(3) by auto
  next
    case stop
    have "heapify_from lt (\<lambda>a b. lt b a) cnt arr p (2 * p) = arr"
      unfolding heapify_from_def
      by (subst heapify_loop.simps) (use stop less.prems(1) in \<open>auto simp: Let_def\<close>)
    then show ?thesis
      using ordered_except_done[OF oe] le_trans[OF stop(2) least] by simp
  next
    case last
    have sib: "i div 2 = p \<Longrightarrow> i \<le> cnt \<Longrightarrow> i = cnt" for i using last by auto
    have e: "heapify_from lt (\<lambda>a b. lt b a) cnt arr p (2 * p)
        = (if lt (arr ! cnt) (arr ! p) then swap arr p cnt else arr)"
      unfolding heapify_from_def by (subst heapify_loop.simps) (simp add: last)
    show ?thesis
    proof (cases "lt (arr ! cnt) (arr ! p)")
      case True
      then have "ordered_except lt (swap arr p cnt) cnt cnt"
        using less.prems(1,3) last sib by (intro ordered_except_sink[OF oe]) (auto, fastforce)
      moreover have "i div 2 \<noteq> cnt" if "2 \<le> i" "i \<le> cnt" for i using that by auto
      ultimately show ?thesis using e True ordered_except_done by simp
    next
      case False
      then show ?thesis using e ordered_except_done[OF oe] sib by auto
    qed
  next
    case leaf
    have "heapify_from lt (\<lambda>a b. lt b a) cnt arr p (2 * p) = arr"
      unfolding heapify_from_def by (subst heapify_loop.simps) (use leaf in auto)
    then show ?thesis using leaf ordered_except_done[OF oe] by auto
  qed
qed

end

text \<open>The heap also calls \<open>>\<close>, which must be the converse of \<open><\<close>.\<close>

locale heap_order = weak_order lt for lt :: "'a \<Rightarrow> 'a \<Rightarrow> bool" +
  fixes gt :: "'a \<Rightarrow> 'a \<Rightarrow> bool"
  assumes gt_iff: "gt a b \<longleftrightarrow> lt b a"
begin

lemma gt_flip: "gt = (\<lambda>a b. lt b a)"
  by (simp add: fun_eq_iff gt_iff)

lemma insert_inv:
  assumes "heap_inv lt h" "0 < hp_length h"
  shows "heap_inv lt (heap_insert lt gt v h)"
proof -
  let ?arr = "hp_heap h" and ?len = "hp_length h" and ?m = "insert_loc lt h"
  have sh: "heap_shape h" and ord: "ordered_upto lt ?arr (hp_count h)"
    using assms(1) by (auto simp: heap_inv_def)
  show ?thesis
  proof (cases "hp_count h = ?len")
    case True
    have m: "1 \<le> ?m" "?m \<le> ?len" "?len < 2 * ?m"
      using insert_loc_full[OF sh assms(2) True] by auto
    have "ordered_upto lt (sift_up lt v ?arr ?m) ?len"
    proof (rule sift_up_ordered[OF m(1,2)])
      show "?len < length ?arr" using sh by (simp add: heap_shape_def)
      show "\<forall>i. 2 \<le> i \<longrightarrow> i \<le> ?len \<longrightarrow> i \<noteq> ?m \<longrightarrow> i div 2 \<noteq> ?m \<longrightarrow> \<not> lt (?arr ! i) (?arr ! (i div 2))"
        using ord True by (auto simp: ordered_upto_def)
      show "\<forall>i. 2 \<le> i \<longrightarrow> i \<le> ?len \<longrightarrow> i div 2 = ?m \<longrightarrow>
          \<not> lt (?arr ! i) v \<and> (2 \<le> ?m \<longrightarrow> \<not> lt (?arr ! i) (?arr ! (?m div 2)))"
        using m(3) by auto
    qed
    then show ?thesis using True assms(1) sh
      by (auto simp: heap_insert_alt heap_inv_def heap_shape_def)
  next
    case False
    then have "ordered_upto lt (sift_up lt v ?arr (hp_count h + 1)) (hp_count h + 1)"
      using sh sift_up_leaf_ordered[OF ord] by (simp add: heap_shape_def)
    then show ?thesis using False sh
      by (auto simp: heap_insert_alt heap_inv_def heap_shape_def)
  qed
qed

lemma pop_inv:
  assumes "heap_inv lt h"
  shows "heap_inv lt (snd (heap_pop lt gt h))"
proof (cases "hp_count h \<le> 1")
  case True
  then show ?thesis using assms
    by (auto simp: heap_pop_def heap_inv_def heap_shape_def heapify_def ordered_upto_def)
next
  case False
  let ?c = "hp_count h - 1" and ?a = "swap (hp_heap h) 1 (hp_count h)"
  have sh: "hp_count h < length (hp_heap h)"
    using assms by (auto simp: heap_inv_def heap_shape_def)
  have nth: "?a ! k = hp_heap h ! k" if "2 \<le> k" "k \<le> ?c" for k
    using that False by (simp add: swap_def)
  have "ordered_except lt ?a ?c 1"
    unfolding ordered_except_def
  proof (intro conjI allI impI)
    fix i assume i: "2 \<le> i" "i \<le> ?c" "i div 2 \<noteq> 1"
    then have "2 \<le> i div 2" "i div 2 \<le> ?c" by auto
    moreover have "\<not> lt (hp_heap h ! i) (hp_heap h ! (i div 2))"
      using assms i by (auto simp: heap_inv_def ordered_upto_def)
    ultimately show "\<not> lt (?a ! i) (?a ! (i div 2))" using nth i by simp
  qed auto
  then have "ordered_upto lt (heapify_from lt gt ?c ?a 1 2) ?c"
    using heapify_from_ordered[of 1 ?c ?a] False sh by (simp add: gt_flip)
  then show ?thesis using assms False
    by (auto simp: heap_pop_def heap_inv_def heap_shape_def heapify_def)
qed

lemma pop_min:
  assumes "heap_inv lt h" "heap_pop lt gt h = (Some v, h')"
  shows "v \<in># heap_contents h \<and> heap_contents h' = heap_contents h - {#v#} \<and>
         (\<forall>x \<in># heap_contents h. \<not> lt x v)"
proof -
  have c: "0 < hp_count h" "hp_count h < length (hp_heap h)"
    using assms by (auto simp: heap_pop_def heap_inv_def heap_shape_def split: if_splits)
  have v: "v = hp_heap h ! 1" using assms(2) by (auto simp: heap_pop_def split: if_splits)
  have "heap_contents h' = heap_contents h - {#v#}"
    using assms(2) heap_pop_contents[OF c, of lt gt] v by simp
  moreover have "\<not> lt x v" if x: "x \<in># heap_contents h" for x
  proof -
    obtain i where "1 \<le> i" "i \<le> hp_count h" "x = hp_heap h ! i"
      using heap_contents_nth[OF x c(2)] by blast
    then show ?thesis using ordered_root_least[of "hp_heap h" "hp_count h" i] assms(1) v
      by (simp add: heap_inv_def)
  qed
  ultimately show ?thesis using nth_in_heap_contents[OF _ c, of 1] c v by simp
qed

text \<open>Popping until the heap is empty.\<close>

lemma drain_sorted:
  "heap_inv lt h \<Longrightarrow> n = hp_count h \<Longrightarrow>
     sorted_wrt (\<lambda>a b. \<not> lt b a) (heap_drain lt gt n h) \<and> mset (heap_drain lt gt n h) = heap_contents h"
proof (induction n arbitrary: h)
  case 0
  then show ?case by (simp add: heap_contents_def heap_elems_def)
next
  case (Suc n)
  obtain v h' where p: "heap_pop lt gt h = (Some v, h')"
    using Suc.prems(2) by (auto simp: heap_pop_def)
  have inv: "heap_inv lt h'" using pop_inv[OF Suc.prems(1)] p by simp
  have cnt: "n = hp_count h'" using p Suc.prems(2) by (auto simp: heap_pop_def heapify_def)
  note min = pop_min[OF Suc.prems(1) p]
  then show ?case using Suc.IH[OF inv cnt] p
    by (auto simp flip: set_mset_mset dest: in_diffD)
qed

end

interpretation ndp: heap_order ndp_less ndp_greater
  by unfold_locales (auto simp: ndp_less_def ndp_greater_def)

subsection \<open>Properties of the search queues\<close>

text \<open>A queue with room for three nodes, filled by four insertions: the input of the witnesses.\<close>

definition sample_node :: "int \<Rightarrow> dist \<Rightarrow> NodeDistPair" where
  "sample_node n d = \<lparr>node = n, distance = d\<rparr>"

definition sample_heap :: "NodeDistPair heap" where
  "sample_heap = fold (heap_insert ndp_less ndp_greater)
     [sample_node 7 5, sample_node 8 2, sample_node 9 4, sample_node 5 3]
     (heap_Resize (sample_node (-1) 100) 3)"

lemma sample_heap_eq:
  "sample_heap = \<lparr>hp_heap = [sample_node (-1) 100, sample_node 8 2, sample_node 5 3, sample_node 9 4],
     hp_length = 3, hp_count = 3, hp_lastlevel = 2\<rparr>"
  by code_simp

lemma sample_heap_inv: "heap_inv ndp_less sample_heap"
  by code_simp

text \<open>C27. Every operation of the queue keeps the heap order and the bounds of its array:
  inserting (full or not), popping and clearing.\<close>

theorem search_heap_invariant:
  assumes "heap_inv ndp_less h" "0 < hp_length h"
  shows "heap_inv ndp_less (heap_insert ndp_less ndp_greater v h) \<and>
         heap_inv ndp_less (snd (heap_pop ndp_less ndp_greater h)) \<and>
         heap_inv ndp_less (heap_clear dflt n h)"
  using ndp.insert_inv[OF assms] ndp.pop_inv[OF assms(1)] assms(1)
  by (auto simp: heap_inv_def heap_shape_def heap_clear_def heap_Resize_def ordered_upto_def)

theorem search_heap_invariant_witness:
  "heap_inv ndp_less (heap_insert ndp_less ndp_greater (sample_node 3 1) sample_heap) \<and>
   heap_inv ndp_less (snd (heap_pop ndp_less ndp_greater sample_heap)) \<and>
   heap_inv ndp_less (heap_clear (sample_node (-1) 100) 5 sample_heap)"
  using search_heap_invariant[OF sample_heap_inv, of "sample_node 3 1" "sample_node (-1) 100" 5]
  by (simp add: sample_heap_eq)

text \<open>Popping a queue until it is empty returns all its nodes, in the order of their
  distances.\<close>

theorem search_heap_drain_sorted:
  assumes "heap_inv ndp_less h"
  shows "sorted (map distance (heap_drain ndp_less ndp_greater (hp_count h) h)) \<and>
         mset (heap_drain ndp_less ndp_greater (hp_count h) h) = heap_contents h"
  using ndp.drain_sorted[OF assms refl]
  by (simp add: ndp_less_def sorted_map not_less)

theorem search_heap_drain_sorted_witness:
  "sorted (map distance (heap_drain ndp_less ndp_greater 3 sample_heap)) \<and>
   mset (heap_drain ndp_less ndp_greater 3 sample_heap) =
     {#sample_node 8 2, sample_node 5 3, sample_node 9 4#}"
  using search_heap_drain_sorted[OF sample_heap_inv]
  by (simp add: sample_heap_eq heap_contents_def heap_elems_def)

text \<open>Inserting into a full queue drops the farthest node \<open>d\<close> of the last level when the new
  node is not farther than it, and changes nothing otherwise; a nearer node is never displaced.\<close>

theorem search_heap_insert_full:
  assumes "heap_inv ndp_less h" "0 < hp_length h" "hp_count h = hp_length h"
  shows "\<exists>d \<in># heap_contents h.
     (\<forall>i \<in> {hp_lastlevel h..hp_length h}. distance (hp_heap h ! i) \<le> distance d) \<and>
     (if distance d < distance v then heap_insert ndp_less ndp_greater v h = h
      else heap_contents (heap_insert ndp_less ndp_greater v h) = add_mset v (heap_contents h - {#d#}))"
proof -
  let ?m = "insert_loc ndp_less h" and ?d = "hp_heap h ! insert_loc ndp_less h"
  have sh: "heap_shape h" using assms(1) by (simp add: heap_inv_def)
  have "distance (hp_heap h ! i) \<le> distance ?d" if "i \<in> {hp_lastlevel h..hp_length h}" for i
  proof -
    have "i = hp_lastlevel h \<or> i \<in> set [hp_lastlevel h + 1 ..< hp_length h + 1]" using that by auto
    from ndp.scan_max_max[OF this, of "hp_heap h"] show ?thesis
      by (simp add: ndp_less_def not_less flip: insert_loc_def[simplified])
  qed
  moreover have "?d \<in># heap_contents h"
    using insert_loc_full[OF sh assms(2,3), of ndp_less] sh assms(2,3)
    by (intro nth_in_heap_contents) (auto simp: heap_shape_def)
  moreover have "if distance ?d < distance v then heap_insert ndp_less ndp_greater v h = h
      else heap_contents (heap_insert ndp_less ndp_greater v h) = add_mset v (heap_contents h - {#?d#})"
    using heap_insert_contents(2)[OF sh assms(2,3), of ndp_greater v ndp_less] assms(3)
    by (simp add: ndp_greater_def heap_insert_alt)
  ultimately show ?thesis by blast
qed

theorem search_heap_insert_full_witness:
  "\<exists>d \<in># heap_contents sample_heap.
     (\<forall>i \<in> {hp_lastlevel sample_heap..hp_length sample_heap}.
        distance (hp_heap sample_heap ! i) \<le> distance d) \<and>
     (if distance d < distance (sample_node 3 1)
      then heap_insert ndp_less ndp_greater (sample_node 3 1) sample_heap = sample_heap
      else heap_contents (heap_insert ndp_less ndp_greater (sample_node 3 1) sample_heap)
             = add_mset (sample_node 3 1) (heap_contents sample_heap - {#d#}))"
  by (rule search_heap_insert_full[OF sample_heap_inv]) (simp_all add: sample_heap_eq)

text \<open>The two \<^verbatim>\<open>pop\<close> overloads agree: the reference the second one returns, read behind the
  shrunk heap, is the minimum the first one copies out before the exchange.\<close>

theorem search_heap_pop_overloads:
  assumes "heap_inv ndp_less h" "0 < hp_count h"
  shows "heap_pop_ref ndp_less ndp_greater h = (v, h') \<longleftrightarrow>
         heap_pop ndp_less ndp_greater h = (Some v, h')"
  using assms by (intro heap_pop_ref_eq) (simp_all add: heap_inv_def)

theorem search_heap_pop_overloads_witness:
  "\<exists>h'. heap_pop_ref ndp_less ndp_greater sample_heap = (sample_node 8 2, h') \<and>
        heap_pop ndp_less ndp_greater sample_heap = (Some (sample_node 8 2), h')"
proof -
  let ?h = "snd (heap_pop ndp_less ndp_greater sample_heap)"
  have "heap_pop ndp_less ndp_greater sample_heap = (Some (sample_node 8 2), ?h)"
    by (simp add: heap_pop_def sample_heap_eq)
  then show ?thesis
    using search_heap_pop_overloads[OF sample_heap_inv, of "sample_node 8 2" ?h]
    by (simp add: sample_heap_eq)
qed

end
