(* ===== verification/Result_Set.thy ===== *)
theory Result_Set
  imports Binary_Heap "HOL-Library.Product_Lexorder"
begin

text \<open>
  The two bounded collections in which a search keeps its best answers.
  \<^item> \<open>DistPriorityQueue\<close> (\<^verbatim>\<open>AnnService/inc/Core/Common/WorkSpace.h\<close>): a 1-based max-heap of the best
    distances, which starts with the sentinel \<open>MaxDist\<close>.
  \<^item> \<open>QueryResult\<close> (\<^verbatim>\<open>SearchQuery.h\<close>) and \<open>QueryResultSet\<close> (\<^verbatim>\<open>QueryResultSet.h\<close>): the results of a
    query, a 0-based max-heap on (distance, identifier), sorted in place at the end.
  Both are shown to hold exactly the best \<open>k\<close> of what was offered to them. The 0-based loop is
  related to the loop of \<open>Binary_Heap\<close> by a simulation, so the heap lemmas are proved once.
\<close>

subsection \<open>Distances\<close>

definition MaxDist :: dist where
  "MaxDist = (2 - 1 / 2 ^ 23) * 2 ^ 127 / 10"

record DistPriorityQueue =
  dpq_size :: nat
  dpq_data :: "dist list"
  dpq_length :: nat
  dpq_count :: nat

text \<open>\<open>mem\<close> is what the fresh memory of \<^verbatim>\<open>new float[n]\<close> holds. Cell 1 is written whatever the size
  is: with size 0 that write is outside the allocation.\<close>

definition dpq_start :: "nat \<Rightarrow> dist list \<Rightarrow> nat \<Rightarrow> DistPriorityQueue option" where
  "dpq_start sz data cnt =
     (if 1 < length data
      then Some \<lparr>dpq_size = sz, dpq_data = data[1 := MaxDist], dpq_length = 1, dpq_count = cnt\<rparr>
      else None)"

definition dpq_Resize :: "(nat \<Rightarrow> dist) \<Rightarrow> nat \<Rightarrow> DistPriorityQueue option" where
  "dpq_Resize mem sz = dpq_start sz (map mem [0 ..< sz + 1]) sz"

definition dpq_clear :: "(nat \<Rightarrow> dist) \<Rightarrow> nat \<Rightarrow> DistPriorityQueue \<Rightarrow> DistPriorityQueue option" where
  "dpq_clear mem cnt q =
     (if cnt > dpq_size q then dpq_start cnt (map mem [0 ..< cnt + 1]) cnt
      else dpq_start (dpq_size q) (dpq_data q) cnt)"

definition dpq_insert :: "dist \<Rightarrow> DistPriorityQueue \<Rightarrow> bool \<times> DistPriorityQueue" where
  "dpq_insert d q =
     (if d > dpq_data q ! 1 then (False, q)
      else if dpq_length q = dpq_count q
      then (True, q\<lparr>dpq_data :=
              heapify_from (\<lambda>a b. a > b) (\<lambda>a b. a < b) (dpq_length q) ((dpq_data q)[1 := d]) 1 2\<rparr>)
      else (True, q\<lparr>dpq_length := dpq_length q + 1,
                    dpq_data := sift_up (\<lambda>a b. a > b) d (dpq_data q) (dpq_length q + 1)\<rparr>))"

definition dpq_worst :: "DistPriorityQueue \<Rightarrow> dist" where
  "dpq_worst q = dpq_data q ! 1"

subsection \<open>Query results\<close>

record BasicResult =
  VID :: int
  Dist :: dist
  Meta :: bytes
  RelaxedMono :: bool

definition empty_result :: BasicResult where
  "empty_result = \<lparr>VID = -1, Dist = MaxDist, Meta = [], RelaxedMono = False\<rparr>"

definition br_less :: "BasicResult \<Rightarrow> BasicResult \<Rightarrow> bool" where
  "br_less lhs rhs \<longleftrightarrow> Dist lhs < Dist rhs \<or> (Dist lhs = Dist rhs \<and> VID lhs < VID rhs)"

record QueryResult =
  m_resultNum :: nat
  m_withMeta :: bool
  m_results :: "BasicResult list"
  m_scanned :: int

definition qr_Init :: "nat \<Rightarrow> bool \<Rightarrow> QueryResult" where
  "qr_Init resultNum withMeta =
     \<lparr>m_resultNum = resultNum, m_withMeta = withMeta,
      m_results = replicate resultNum empty_result, m_scanned = 0\<rparr>"

definition qr_GetResult :: "int \<Rightarrow> QueryResult \<Rightarrow> int option" where
  \<comment> \<open>the index the returned pointer addresses; \<^const>\<open>None\<close> is \<^verbatim>\<open>nullptr\<close>\<close>
  "qr_GetResult i q = (if i < int (m_resultNum q) then Some i else None)"

definition qr_SetResult :: "nat \<Rightarrow> int \<Rightarrow> dist \<Rightarrow> QueryResult \<Rightarrow> QueryResult" where
  "qr_SetResult index vid d q =
     (if index < m_resultNum q
      then q\<lparr>m_results := (m_results q)[index := (m_results q ! index)\<lparr>VID := vid, Dist := d\<rparr>]\<rparr>
      else q)"

definition qr_GetMetadata :: "nat \<Rightarrow> QueryResult \<Rightarrow> bytes" where
  "qr_GetMetadata index q =
     (if index < m_resultNum q \<and> m_withMeta q then Meta (m_results q ! index) else [])"

definition qr_SetMetadata :: "nat \<Rightarrow> bytes \<Rightarrow> QueryResult \<Rightarrow> QueryResult" where
  "qr_SetMetadata index meta q =
     (if index < m_resultNum q \<and> m_withMeta q
      then q\<lparr>m_results := (m_results q)[index := (m_results q ! index)\<lparr>Meta := meta\<rparr>]\<rparr>
      else q)"

definition reset_result :: "BasicResult \<Rightarrow> BasicResult" where
  "reset_result r = r\<lparr>VID := -1, Dist := MaxDist, Meta := []\<rparr>"

definition qr_Reset :: "QueryResult \<Rightarrow> QueryResult" where
  "qr_Reset q = q\<lparr>m_results :=
     map reset_result (take (m_resultNum q) (m_results q)) @ drop (m_resultNum q) (m_results q)\<rparr>"

text \<open>\<^verbatim>\<open>QueryResultSet::Heapify\<close>. With \<open>cnt = 0\<close> the source has \<^verbatim>\<open>maxidx = -1\<close> and the model 0; no
  \<^verbatim>\<open>next\<close> (at least 1) is below or equal to either.\<close>

function qrs_loop ::
  "nat \<Rightarrow> BasicResult list \<Rightarrow> nat \<Rightarrow> nat \<Rightarrow> BasicResult list \<times> nat \<times> nat"
where
  "qrs_loop maxidx rs parent next =
     (if next < maxidx
      then let next' = (if br_less (rs ! next) (rs ! (next + 1)) then next + 1 else next)
           in if br_less (rs ! parent) (rs ! next')
              then qrs_loop maxidx (swap rs next' parent) next' (2 * next' + 1)
              else (rs, parent, next')
      else (rs, parent, next))"
  by pat_completeness auto
termination
  by (relation "measure (\<lambda>(maxidx, rs, parent, next). maxidx - next)") auto

declare qrs_loop.simps [simp del]

definition qrs_Heapify :: "nat \<Rightarrow> BasicResult list \<Rightarrow> BasicResult list" where
  "qrs_Heapify cnt rs =
     (case qrs_loop (cnt - 1) rs 0 1 of
        (rs', parent, next) \<Rightarrow>
          if next = cnt - 1 \<and> br_less (rs' ! parent) (rs' ! next) then swap rs' parent next else rs')"

definition qrs_worstDist :: "QueryResult \<Rightarrow> dist" where
  "qrs_worstDist q = Dist (m_results q ! 0)"

definition qrs_AddPoint :: "int \<Rightarrow> dist \<Rightarrow> QueryResult \<Rightarrow> bool \<times> QueryResult" where
  "qrs_AddPoint index d q =
     (let r0 = m_results q ! 0
      in if d < Dist r0 \<or> (d = Dist r0 \<and> index < VID r0)
         then (True, q\<lparr>m_results := qrs_Heapify (m_resultNum q)
                 ((m_results q)[0 := r0\<lparr>VID := index, Dist := d\<rparr>])\<rparr>)
         else (False, q))"

text \<open>The loop of \<^verbatim>\<open>SortResult\<close>, \<open>i\<close> counting down.\<close>

fun qrs_sort_loop :: "nat \<Rightarrow> BasicResult list \<Rightarrow> BasicResult list" where
  "qrs_sort_loop 0 rs = rs"
| "qrs_sort_loop (Suc i) rs = qrs_sort_loop i (qrs_Heapify i (swap rs 0 i))"

definition qrs_SortResult :: "QueryResult \<Rightarrow> QueryResult" where
  "qrs_SortResult q = q\<lparr>m_results := qrs_sort_loop (m_resultNum q) (m_results q)\<rparr>"

definition qrs_Reverse :: "QueryResult \<Rightarrow> QueryResult" where
  "qrs_Reverse q = q\<lparr>m_results :=
     rev (take (m_resultNum q) (m_results q)) @ drop (m_resultNum q) (m_results q)\<rparr>"

subsection \<open>The best k of a list\<close>

definition best :: "nat \<Rightarrow> 'a::linorder list \<Rightarrow> 'a list" where
  "best k xs = take k (sort xs)"

text \<open>Offering a list of distances, or of points, one after the other.\<close>

definition dpq_insert_all :: "dist list \<Rightarrow> DistPriorityQueue \<Rightarrow> DistPriorityQueue" where
  "dpq_insert_all ds q = fold (\<lambda>d q. snd (dpq_insert d q)) ds q"

definition qrs_AddPoints :: "(int \<times> dist) list \<Rightarrow> QueryResult \<Rightarrow> QueryResult" where
  "qrs_AddPoints ps q = fold (\<lambda>(v, d) q. snd (qrs_AddPoint v d q)) ps q"

definition br_key :: "BasicResult \<Rightarrow> dist \<times> int" where
  "br_key r = (Dist r, VID r)"

text \<open>The invariants: the array is a heap, and it holds the best of the list \<open>xs\<close> offered so far.
  Results are compared backwards (\<open>br_worse\<close>): the root is the worst one.\<close>

definition dpq_inv :: "dist list \<Rightarrow> DistPriorityQueue \<Rightarrow> bool" where
  "dpq_inv xs q \<longleftrightarrow>
     0 < dpq_count q \<and> dpq_count q < length (dpq_data q) \<and>
     dpq_length q = min (dpq_count q) (length xs) \<and>
     ordered_upto (\<lambda>a b. a > b) (dpq_data q) (dpq_length q) \<and>
     mset (heap_elems (dpq_data q) (dpq_length q)) = mset (best (dpq_count q) xs)"

definition br_worse :: "BasicResult \<Rightarrow> BasicResult \<Rightarrow> bool" where
  "br_worse a b \<longleftrightarrow> br_less b a"

definition qrs_ordered :: "nat \<Rightarrow> BasicResult list \<Rightarrow> bool" where
  "qrs_ordered cnt rs \<longleftrightarrow> (\<forall>d. ordered_upto br_worse (d # rs) cnt)"

definition qrs_inv :: "(dist \<times> int) list \<Rightarrow> QueryResult \<Rightarrow> bool" where
  "qrs_inv xs q \<longleftrightarrow>
     0 < m_resultNum q \<and> m_resultNum q \<le> length (m_results q) \<and> m_resultNum q \<le> length xs \<and>
     qrs_ordered (m_resultNum q) (m_results q) \<and>
     mset (map br_key (take (m_resultNum q) (m_results q))) = mset (best (m_resultNum q) xs)"

definition sample_dpq :: DistPriorityQueue where
  "sample_dpq = \<lparr>dpq_size = 2, dpq_data = [0, 7, 3], dpq_length = 2, dpq_count = 2\<rparr>"

lemma length_best [simp]: "length (best k xs) = min k (length xs)"
  by (simp add: best_def)

lemma sorted_best [simp]: "sorted (best k xs)"
  by (simp add: best_def sorted_wrt_take)

lemma take_insort_take: "take k (insort d (take k s)) = take k (insort d s)"
proof (induction s arbitrary: k)
  case (Cons a s)
  show ?case
  proof (cases k)
    case (Suc m)
    have "take m (a # take m s) = take m (a # s)" by (cases m) auto
    then show ?thesis using Cons.IH[of m] Suc by simp
  qed simp
qed simp

lemma best_Cons: "best k (d # xs) = take k (insort d (best k xs))"
  by (simp add: best_def take_insort_take)

lemma best_notfull: "length xs < k \<Longrightarrow> mset (best k (d # xs)) = add_mset d (mset (best k xs))"
  by (simp add: best_def)

lemma best_short: "length xs \<le> k \<Longrightarrow> mset (best k xs) = mset xs"
  by (simp add: best_def)

lemma sorted_last_ge: "sorted ys \<Longrightarrow> x \<in> set ys \<Longrightarrow> x \<le> last ys"
  by (induction ys rule: rev_induct) (auto simp: sorted_append)

lemma mset_take_butlast:
  "length ys = Suc k \<Longrightarrow> mset (take k ys) = mset ys - {#last ys#}"
  by (cases ys rule: rev_cases) auto

text \<open>Offering \<open>d\<close> to a full collection whose maximum is \<open>m\<close>.\<close>

lemma best_full:
  assumes hs: "mset hs = mset (best k xs)" and k: "k \<le> length xs" "0 < k"
    and m: "m \<in> set hs" "\<forall>x \<in> set hs. x \<le> m"
  shows "d \<le> m \<Longrightarrow> mset (best k (d # xs)) = add_mset d (mset hs - {#m#})"
    and "m \<le> d \<Longrightarrow> mset (best k (d # xs)) = mset hs"
proof -
  let ?ys = "insort d (best k xs)"
  have len: "length ?ys = Suc k" using k by simp
  have set: "set (best k xs) = set hs" using hs by (metis set_mset_mset)
  have b: "mset (best k (d # xs)) = mset ?ys - {#last ?ys#}"
    unfolding best_Cons by (rule mset_take_butlast[OF len])
  have srt: "sorted ?ys" by (simp add: sorted_insort)
  have in_ys: "last ?ys \<in> set ?ys" using len by (intro last_in_set) auto
  show "mset (best k (d # xs)) = add_mset d (mset hs - {#m#})" if d: "d \<le> m"
  proof -
    have "m \<le> last ?ys" using sorted_last_ge[OF srt] m(1) set by (simp add: set_insort_key)
    moreover have "last ?ys \<le> m" using in_ys m(2) d set by (auto simp: set_insort_key)
    ultimately have "last ?ys = m" by simp
    then show ?thesis using b hs m(1) by (simp add: diff_union_swap2 flip: set_mset_mset)
  qed
  show "mset (best k (d # xs)) = mset hs" if d: "m \<le> d"
  proof -
    have "d \<le> last ?ys" using sorted_last_ge[OF srt] by (simp add: set_insort_key)
    moreover have "last ?ys \<le> d" using in_ys m(2) d set by (force simp: set_insort_key)
    ultimately have "last ?ys = d" by simp
    then show ?thesis using b hs by simp
  qed
qed

subsection \<open>The queue of distances\<close>

interpretation far: heap_order "\<lambda>a b :: dist. a > b" "\<lambda>a b. a < b"
  by unfold_locales auto

text \<open>One insertion adds one element to what was offered.\<close>

lemma dpq_root:
  assumes "dpq_inv xs q" "xs \<noteq> []"
  shows "dpq_data q ! 1 \<in> set (heap_elems (dpq_data q) (dpq_length q))"
    and "\<forall>x \<in> set (heap_elems (dpq_data q) (dpq_length q)). x \<le> dpq_data q ! 1"
proof -
  have l: "0 < dpq_length q" "dpq_length q < length (dpq_data q)"
    using assms by (auto simp: dpq_inv_def)
  show "dpq_data q ! 1 \<in> set (heap_elems (dpq_data q) (dpq_length q))"
    using l by (auto simp: in_heap_elems)
  show "\<forall>x \<in> set (heap_elems (dpq_data q) (dpq_length q)). x \<le> dpq_data q ! 1"
    using far.ordered_root_least_elem[of "dpq_data q" "dpq_length q"] assms l
    by (auto simp: dpq_inv_def not_less)
qed

lemma dpq_insert_inv:
  assumes inv: "dpq_inv xs q" and xs: "MaxDist \<in> set xs" "\<forall>x \<in> set xs. x \<le> MaxDist" and d: "d \<le> MaxDist"
  shows "dpq_inv (d # xs) (snd (dpq_insert d q))"
proof -
  let ?a = "dpq_data q" and ?l = "dpq_length q" and ?c = "dpq_count q"
  have ne: "xs \<noteq> []" using xs by auto
  note root = dpq_root[OF inv ne]
  have lc: "0 < ?l" "?l \<le> ?c" "?c < length ?a" and ms: "mset (heap_elems ?a ?l) = mset (best ?c xs)"
    and ord: "ordered_upto (\<lambda>a b. a > b) ?a ?l" and l: "?l = min ?c (length xs)"
    using inv ne by (auto simp: dpq_inv_def)
  show ?thesis
  proof (cases "?l = ?c")
    case True
    then have full: "?c \<le> length xs" "0 < ?c" using l lc by auto
    note bf = best_full[OF ms full root, of d]
    let ?b = "heapify_from (\<lambda>a b. a > b) (\<lambda>a b. a < b) ?l (?a[1 := d]) 1 2"
    have "ordered_upto (\<lambda>a b. a > b) ?b ?l"
      using far.heapify_from_ordered[of 1 ?l "?a[1 := d]"] far.ordered_except_root[OF ord] lc by simp
    moreover have "mset (heap_elems ?b ?l) = add_mset d (mset (heap_elems ?a ?l) - {#?a ! 1#})"
      using heapify_from_frame(1)[of 1 ?l "?a[1 := d]" 2] lc
      by (simp add: heap_elems_update mset_list_update length_heap_elems heap_elems_nth)
    ultimately show ?thesis using True bf full lc inv
      by (auto simp: dpq_insert_def dpq_inv_def not_less)
  next
    case False
    then have len: "length xs < ?c" "?l = length xs" using l by auto
    have "?a ! 1 = MaxDist"
      using root xs ms best_short[of xs ?c] len by (metis antisym less_imp_le set_mset_mset)
    moreover have "ordered_upto (\<lambda>a b. a > b) (sift_up (\<lambda>a b. a > b) d ?a (?l + 1)) (?l + 1)"
      using far.sift_up_leaf_ordered[OF ord] lc False by simp
    moreover have "mset (heap_elems (sift_up (\<lambda>a b. a > b) d ?a (?l + 1)) (?l + 1))
        = add_mset d (mset (heap_elems ?a ?l))"
      using lc False by (intro mset_sift_up_leaf) simp
    ultimately show ?thesis using False d len ms best_notfull[OF len(1), of d] inv
      by (auto simp: dpq_insert_def dpq_inv_def)
  qed
qed

lemma dpq_insert_all_inv:
  "dpq_inv xs q \<Longrightarrow> MaxDist \<in> set xs \<Longrightarrow> \<forall>x \<in> set xs. x \<le> MaxDist \<Longrightarrow> \<forall>d \<in> set ds. d \<le> MaxDist \<Longrightarrow>
     dpq_inv (rev ds @ xs) (dpq_insert_all ds q)"
proof (induction ds arbitrary: xs q)
  case (Cons d ds)
  have "dpq_inv (d # xs) (snd (dpq_insert d q))" using Cons.prems by (intro dpq_insert_inv) auto
  then have "dpq_inv (rev ds @ d # xs) (dpq_insert_all ds (snd (dpq_insert d q)))"
    using Cons.prems by (intro Cons.IH) auto
  then show ?case by (simp add: dpq_insert_all_def)
qed (simp add: dpq_insert_all_def)

lemma dpq_start_inv:
  assumes "dpq_start sz data cnt = Some q" "0 < cnt" "cnt < length data"
  shows "dpq_inv [MaxDist] q" and "dpq_count q = cnt"
proof -
  have "heap_elems (data[1 := MaxDist]) (Suc 0) = [MaxDist]"
    using assms(2,3) by (subst heap_elems_Suc) (auto simp: heap_elems_def)
  moreover have "best cnt [MaxDist] = [MaxDist]" using assms(2) by (cases cnt) (auto simp: best_def)
  ultimately show "dpq_inv [MaxDist] q" "dpq_count q = cnt"
    using assms by (auto simp: dpq_start_def dpq_inv_def ordered_upto_def split: if_splits)
qed

lemma dpq_inv_worst:
  assumes "dpq_inv xs q" "xs \<noteq> []"
  shows "dpq_worst q = last (best (dpq_count q) xs)"
proof -
  let ?b = "best (dpq_count q) xs"
  have "set (heap_elems (dpq_data q) (dpq_length q)) = set ?b"
    using assms by (auto simp: dpq_inv_def dest: mset_eq_setD)
  moreover have "0 < length ?b" unfolding length_best using assms by (simp add: dpq_inv_def)
  then have "last ?b \<in> set ?b" by (intro last_in_set) (rule length_greater_0_conv[THEN iffD1])
  ultimately show ?thesis
    using dpq_root[OF assms] sorted_last_ge[of ?b "dpq_worst q"] by (auto simp: dpq_worst_def intro: antisym)
qed

subsection \<open>The results of a query\<close>

interpretation worse: heap_order br_worse br_less
  by unfold_locales (auto simp: br_worse_def br_less_def)

lemma br_less_key: "br_less a b \<longleftrightarrow> br_key a < br_key b"
  by (auto simp: br_less_def br_key_def less_prod_def)

lemma swap_Cons: "swap (d # rs) (Suc i) (Suc j) = d # swap rs i j"
  by (simp add: swap_def)

lemma swap_sym: "swap xs i j = swap xs j i"
  by (cases "i = j") (auto simp: swap_def list_update_swap)

text \<open>The 0-based loop runs in step with the 1-based one.\<close>

lemma qrs_loop_simulates:
  "heapify_loop br_worse br_less cnt (d # rs) (Suc parent) (Suc next) =
     (case qrs_loop (cnt - 1) rs parent next of (rs', p, n) \<Rightarrow> (d # rs', Suc p, Suc n))"
proof (induction "cnt - 1" rs parent "next" rule: qrs_loop.induct)
  case (1 rs parent "next")
  let ?n = "if br_less (rs ! next) (rs ! (next + 1)) then next + 1 else next"
  show ?case
  proof (cases "next < cnt - 1")
    case True
    have "heapify_loop br_worse br_less cnt (d # rs) (Suc parent) (Suc next) =
        (if br_less (rs ! parent) (rs ! ?n)
         then heapify_loop br_worse br_less cnt (d # swap rs ?n parent) (Suc ?n) (Suc (2 * ?n + 1))
         else (d # rs, Suc parent, Suc ?n))"
    proof -
      have "0 < Suc next \<and> Suc next < cnt" using True by simp
      then show ?thesis
        by (subst heapify_loop.simps) (simp add: Let_def br_worse_def swap_Cons swap_sym[of rs parent])
    qed
    then show ?thesis
      using 1[OF True refl] True by (subst qrs_loop.simps) (simp add: Let_def)
  next
    case False
    then show ?thesis by (subst heapify_loop.simps, subst qrs_loop.simps) auto
  qed
qed

lemma qrs_Heapify_simulates:
  "0 < cnt \<Longrightarrow> heapify_from br_worse br_less cnt (d # rs) (Suc 0) 2 = d # qrs_Heapify cnt rs"
  using qrs_loop_simulates[of cnt d rs 0 1] swap_Cons[of d _ _ "cnt - 1"]
  by (auto simp: heapify_from_def qrs_Heapify_def br_worse_def swap_Cons numeral_2_eq_2 split: prod.splits)

lemma qrs_Heapify_0 [simp]: "qrs_Heapify 0 rs = rs"
  by (simp add: qrs_Heapify_def qrs_loop.simps)

lemma qrs_Heapify_props:
  assumes "cnt \<le> length rs"
  shows "length (qrs_Heapify cnt rs) = length rs"
    and "mset (take cnt (qrs_Heapify cnt rs)) = mset (take cnt rs)"
    and "drop cnt (qrs_Heapify cnt rs) = drop cnt rs"
    and "\<forall>d. ordered_except br_worse (d # rs) cnt 1 \<Longrightarrow> qrs_ordered cnt (qrs_Heapify cnt rs)"
proof -
  have "length (qrs_Heapify cnt rs) = length rs \<and> mset (take cnt (qrs_Heapify cnt rs)) = mset (take cnt rs) \<and>
    drop cnt (qrs_Heapify cnt rs) = drop cnt rs \<and>
    ((\<forall>d. ordered_except br_worse (d # rs) cnt 1) \<longrightarrow> qrs_ordered cnt (qrs_Heapify cnt rs))"
  proof (cases "cnt = 0")
    case True
    then show ?thesis by (simp add: qrs_ordered_def ordered_upto_def)
  next
    case False
    then have c: "1 \<le> cnt" "cnt < length (empty_result # rs)" using assms by auto
    have e: "heapify_from br_worse br_less cnt (d # rs) (Suc 0) 2 = d # qrs_Heapify cnt rs" for d using False qrs_Heapify_simulates by simp
    have len: "length (qrs_Heapify cnt rs) = length rs"
      using arg_cong[OF e[of empty_result], of length] by simp
    have "drop cnt (qrs_Heapify cnt rs) = drop cnt rs"
    proof (rule nth_equalityI)
      fix i assume "i < length (drop cnt (qrs_Heapify cnt rs))"
      then show "drop cnt (qrs_Heapify cnt rs) ! i = drop cnt rs ! i"
        using heapify_from_frame(2)[OF order_refl c, of 2 "Suc (cnt + i)" br_worse br_less] len assms
        by (simp add: e)
    qed (simp add: len)
    moreover have "mset (take cnt (qrs_Heapify cnt rs)) = mset (take cnt rs)"
      using heapify_from_frame(1)[OF order_refl c, of 2 br_worse br_less] by (simp add: e heap_elems_def)
    moreover have "qrs_ordered cnt (qrs_Heapify cnt rs)" if "\<forall>d. ordered_except br_worse (d # rs) cnt 1"
      unfolding qrs_ordered_def
    proof
      fix d
      show "ordered_upto br_worse (d # qrs_Heapify cnt rs) cnt"
        using worse.heapify_from_ordered[of 1 cnt "d # rs"] that c by (simp add: e flip: worse.gt_flip)
    qed
    ultimately show ?thesis using len by blast
  qed
  then show "length (qrs_Heapify cnt rs) = length rs"
    and "mset (take cnt (qrs_Heapify cnt rs)) = mset (take cnt rs)"
    and "drop cnt (qrs_Heapify cnt rs) = drop cnt rs"
    and "\<forall>d. ordered_except br_worse (d # rs) cnt 1 \<Longrightarrow> qrs_ordered cnt (qrs_Heapify cnt rs)"
    by blast+
qed

lemma qrs_ordered_root:
  assumes "qrs_ordered cnt rs" "cnt \<le> length rs" "x \<in> set (take cnt rs)"
  shows "br_key x \<le> br_key (rs ! 0)"
proof -
  have "ordered_upto br_worse (empty_result # rs) cnt" using assms(1) by (simp add: qrs_ordered_def)
  from worse.ordered_root_least_elem[OF this, of x] assms(2,3) show ?thesis
    by (simp add: heap_elems_def br_worse_def br_less_key not_less)
qed

lemma qrs_ordered_update0:
  "qrs_ordered cnt rs \<Longrightarrow> ordered_except br_worse (d # rs[0 := r]) cnt 1"
  using worse.ordered_except_root[of "d # rs" cnt r] by (simp add: qrs_ordered_def)

text \<open>Moving the root behind the shrunk heap.\<close>

lemma qrs_swap_out:
  assumes "qrs_ordered (Suc i) rs" "i < length rs"
  shows "ordered_except br_worse (d # swap rs 0 i) i 1"
proof -
  have "ordered_upto br_worse (d # rs) i"
    using assms(1) by (auto simp: qrs_ordered_def ordered_upto_def)
  then have "ordered_except br_worse (d # rs[0 := rs ! i]) i 1"
    using worse.ordered_except_root[of "d # rs" i "rs ! i"] by simp
  moreover have "(d # rs[0 := rs ! i]) ! k = (d # swap rs 0 i) ! k" if "k \<le> i" for k
    using that by (cases k) (auto simp: swap_def nth_list_update)
  ultimately show ?thesis by (rule ordered_except_cong[rotated])
qed

lemma take_swap_mset:
  assumes "i < length rs"
  shows "add_mset (rs ! 0) (mset (take i (swap rs 0 i))) = mset (take (Suc i) rs)"
proof -
  have "take (Suc i) (swap rs 0 i) = swap (take (Suc i) rs) 0 i"
    by (simp add: swap_def take_update_swap)
  then have "mset (take (Suc i) (swap rs 0 i)) = mset (take (Suc i) rs)"
    using assms by simp
  moreover have "take (Suc i) (swap rs 0 i) = take i (swap rs 0 i) @ [rs ! 0]"
    using assms by (simp add: take_Suc_conv_app_nth swap_def)
  ultimately show ?thesis by simp
qed

lemma qrs_sort_loop_sorts:
  "qrs_ordered i rs \<Longrightarrow> i \<le> n \<Longrightarrow> n \<le> length rs \<Longrightarrow>
   \<forall>x \<in> set (take i rs). \<forall>y \<in> set (drop i (take n rs)). br_key x \<le> br_key y \<Longrightarrow>
   sorted (map br_key (drop i (take n rs))) \<Longrightarrow>
   sorted (map br_key (take n (qrs_sort_loop i rs))) \<and>
   mset (take n (qrs_sort_loop i rs)) = mset (take n rs) \<and>
   length (qrs_sort_loop i rs) = length rs"
proof (induction i arbitrary: rs)
  case 0
  then show ?case by simp
next
  case (Suc i)
  let ?s = "swap rs 0 i" and ?r = "qrs_Heapify i (swap rs 0 i)"
  have i: "i < length rs" "i \<le> length ?s" using Suc.prems by auto
  note H = qrs_Heapify_props[OF i(2)]
  have split: "drop i (take n xs) = xs ! i # drop (Suc i) (take n xs)" if "length xs = length rs" for xs :: "BasicResult list"
    using that Suc.prems by (simp add: Cons_nth_drop_Suc[symmetric])
  have dr: "drop i (take n ?r) = rs ! 0 # drop (Suc i) (take n rs)"
  proof -
    have "drop i (take n ?r) = drop i (take n ?s)" using H(3) by (simp add: drop_take)
    also have "\<dots> = ?s ! i # drop (Suc i) (take n ?s)" by (rule split) simp
    finally show ?thesis using i by (simp add: swap_def take_update_swap)
  qed
  have ms: "add_mset (rs ! 0) (mset (take i ?r)) = mset (take (Suc i) rs)"
    using H(2) take_swap_mset[OF i(1)] by simp
  have root: "x \<in> set (take (Suc i) rs) \<Longrightarrow> br_key x \<le> br_key (rs ! 0)" for x
    using qrs_ordered_root[OF Suc.prems(1)] Suc.prems by simp
  have sub: "set (take i ?r) \<subseteq> set (take (Suc i) rs)" "rs ! 0 \<in> set (take (Suc i) rs)"
    using ms by (metis set_mset_mset set_mset_add_mset_insert subset_insertI insertI1)+
  have ih: "sorted (map br_key (take n (qrs_sort_loop i ?r))) \<and>
     mset (take n (qrs_sort_loop i ?r)) = mset (take n ?r) \<and> length (qrs_sort_loop i ?r) = length ?r"
  proof (rule Suc.IH)
    show "qrs_ordered i ?r" using H(4) qrs_swap_out[OF Suc.prems(1) i(1)] by blast
    show "\<forall>x \<in> set (take i ?r). \<forall>y \<in> set (drop i (take n ?r)). br_key x \<le> br_key y"
      unfolding dr using sub root Suc.prems(4) by auto
    show "sorted (map br_key (drop i (take n ?r)))"
      unfolding dr using sub(2) Suc.prems(4,5) by auto
  qed (use Suc.prems H(1) in auto)
  have "mset (take n ?r) = mset (take i ?r) + mset (drop i (take n ?r))"
    using Suc.prems(2) by (metis Suc_leD append_take_drop_id min.absorb1 mset_append take_take)
  also have "\<dots> = mset (take (Suc i) rs) + mset (drop (Suc i) (take n rs))"
    unfolding dr using ms by simp
  also have "\<dots> = mset (take n rs)"
    using Suc.prems(2) by (metis append_take_drop_id min.absorb1 mset_append take_take)
  finally show ?case using ih H(1) by simp
qed

lemma qrs_AddPoint_inv:
  assumes inv: "qrs_inv xs q"
  shows "qrs_inv ((d, v) # xs) (snd (qrs_AddPoint v d q))"
proof -
  let ?n = "m_resultNum q" and ?rs = "m_results q" and ?old = "m_results q ! 0"
  let ?new = "?old\<lparr>VID := v, Dist := d\<rparr>"
  have n: "0 < ?n" "?n \<le> length ?rs" "?n \<le> length xs" and ord: "qrs_ordered ?n ?rs"
    and ms: "mset (map br_key (take ?n ?rs)) = mset (best ?n xs)"
    using inv by (auto simp: qrs_inv_def)
  have r0: "br_key ?old \<in> set (map br_key (take ?n ?rs))"
    using nth_mem[of 0 "take ?n ?rs"] n by simp
  have mx: "\<forall>x \<in> set (map br_key (take ?n ?rs)). x \<le> br_key ?old"
    using qrs_ordered_root[OF ord n(2)] by auto
  note bf = best_full[OF ms n(3,1) r0 mx, of "(d, v)"]
  show ?thesis
  proof (cases "(d, v) < br_key ?old")
    case True
    let ?h = "qrs_Heapify ?n (?rs[0 := ?new])"
    have l: "?n \<le> length (?rs[0 := ?new])" using n by simp
    have "mset (map br_key (take ?n ?h)) = add_mset (d, v) (mset (map br_key (take ?n ?rs)) - {#br_key ?old#})"
    proof -
      have "mset (map br_key (take ?n ?h)) = mset (map br_key (take ?n (?rs[0 := ?new])))"
        using qrs_Heapify_props(2)[OF l] by (metis mset_map)
      also have "\<dots> = mset ((map br_key (take ?n ?rs))[0 := (d, v)])"
        by (simp add: take_update_swap map_update br_key_def)
      also have "\<dots> = add_mset (d, v) (mset (map br_key (take ?n ?rs)) - {#br_key ?old#})"
        using n by (subst mset_list_update) auto
      finally show ?thesis .
    qed
    moreover have "qrs_ordered ?n ?h" using qrs_Heapify_props(4)[OF l] qrs_ordered_update0[OF ord] by blast
    moreover have "snd (qrs_AddPoint v d q) = q\<lparr>m_results := ?h\<rparr>"
      using True by (auto simp: qrs_AddPoint_def Let_def br_key_def less_prod_def)
    ultimately show ?thesis using n bf(1) True qrs_Heapify_props(1)[OF l] by (simp add: qrs_inv_def)
  next
    case False
    then have "snd (qrs_AddPoint v d q) = q"
      by (auto simp: qrs_AddPoint_def Let_def br_key_def less_prod_def)
    then show ?thesis using n bf(2) False ord ms by (simp add: qrs_inv_def not_less)
  qed
qed

lemma qrs_AddPoints_inv:
  "qrs_inv xs q \<Longrightarrow> qrs_inv (rev (map prod.swap ps) @ xs) (qrs_AddPoints ps q)"
proof (induction ps arbitrary: xs q)
  case (Cons p ps)
  obtain v d where p: "p = (v, d)" by force
  have "qrs_inv (rev (map prod.swap ps) @ (d, v) # xs) (qrs_AddPoints ps (snd (qrs_AddPoint v d q)))"
    using Cons.IH[OF qrs_AddPoint_inv[OF Cons.prems]] .
  then show ?case by (simp add: qrs_AddPoints_def p)
qed (simp add: qrs_AddPoints_def)

lemma sorted_mset_unique: "sorted xs \<Longrightarrow> sorted ys \<Longrightarrow> mset xs = mset ys \<Longrightarrow> xs = ys"
  by (metis properties_for_sort sorted_sort_id)

lemma qrs_sort_loop_length: "i \<le> length rs \<Longrightarrow> length (qrs_sort_loop i rs) = length rs"
  by (induction i arbitrary: rs) (auto simp: qrs_Heapify_props)

lemma qrs_AddPoints_size:
  "m_resultNum q = n \<Longrightarrow> length (m_results q) = n \<Longrightarrow>
     m_resultNum (qrs_AddPoints ps q) = n \<and> length (m_results (qrs_AddPoints ps q)) = n"
proof (induction ps arbitrary: q)
  case (Cons p ps)
  obtain v d where p: "p = (v, d)" by force
  have "m_resultNum (snd (qrs_AddPoint v d q)) = n \<and> length (m_results (snd (qrs_AddPoint v d q))) = n"
    using Cons.prems by (simp add: qrs_AddPoint_def Let_def qrs_Heapify_props)
  then show ?case using Cons.IH[of "snd (qrs_AddPoint v d q)"] by (simp add: qrs_AddPoints_def p)
qed (simp add: qrs_AddPoints_def)

lemma qrs_SortResult_inv:
  assumes "qrs_inv xs q"
  shows "map br_key (take (m_resultNum q) (m_results (qrs_SortResult q))) = best (m_resultNum q) xs"
proof -
  let ?n = "m_resultNum q" and ?rs = "m_results q"
  have n: "?n \<le> length ?rs" and ord: "qrs_ordered ?n ?rs"
    and ms: "mset (map br_key (take ?n ?rs)) = mset (best ?n xs)"
    using assms by (auto simp: qrs_inv_def)
  have "sorted (map br_key (take ?n (qrs_sort_loop ?n ?rs)))"
    "mset (take ?n (qrs_sort_loop ?n ?rs)) = mset (take ?n ?rs)"
    using qrs_sort_loop_sorts[OF ord order_refl n] by simp_all
  then show ?thesis
    using ms by (intro sorted_mset_unique) (simp_all add: qrs_SortResult_def)
qed

lemma qr_Init_inv:
  "0 < n \<Longrightarrow> qrs_inv (replicate n (MaxDist, -1)) (qr_Init n w)"
proof -
  assume n: "0 < n"
  have "sorted (replicate n (MaxDist, - 1 :: int))" by (simp add: sorted_replicate)
  then have "best n (replicate n (MaxDist, - 1 :: int)) = replicate n (MaxDist, -1)"
    by (simp add: best_def sort_key_id_if_sorted)
  moreover have "(d # replicate n empty_result) ! i = empty_result" if "1 \<le> i" "i \<le> n" for d i
    using that by (cases i) auto
  then have "qrs_ordered n (replicate n empty_result)"
    by (auto simp: qrs_ordered_def ordered_upto_def br_worse_def br_less_def)
  ultimately show ?thesis using n
    by (simp add: qrs_inv_def qr_Init_def br_key_def empty_result_def)
qed

lemma best_mset_cong: "mset xs = mset ys \<Longrightarrow> best k xs = best k ys"
  unfolding best_def by (metis properties_for_sort mset_sort sorted_sort)

lemma added_points_best:
  assumes "0 < n"
  shows "map br_key (m_results (qrs_SortResult (qrs_AddPoints pts (qr_Init n w)))) = best n (map prod.swap pts @ replicate n (MaxDist, -1))"
    "m_resultNum (qrs_SortResult (qrs_AddPoints pts (qr_Init n w))) = n"
proof -
  let ?q = "qrs_AddPoints pts (qr_Init n w)"
  have i: "qrs_inv (rev (map prod.swap pts) @ replicate n (MaxDist, -1)) ?q"
    by (rule qrs_AddPoints_inv[OF qr_Init_inv[OF assms]])
  have sz: "m_resultNum ?q = n \<and> length (m_results ?q) = n"
    by (rule qrs_AddPoints_size) (simp_all add: qr_Init_def)
  have b: "best n (rev (map prod.swap pts) @ replicate n (MaxDist, -1)) = best n (map prod.swap pts @ replicate n (MaxDist, -1))"
    by (rule best_mset_cong) simp
  show "map br_key (m_results (qrs_SortResult ?q)) = best n (map prod.swap pts @ replicate n (MaxDist, -1))"
    "m_resultNum (qrs_SortResult ?q) = n"
    using qrs_SortResult_inv[OF i] sz b qrs_sort_loop_length[of n "m_results ?q"] by (simp_all add: qrs_SortResult_def)
qed

subsection \<open>Properties\<close>

text \<open>C24. The queue of distances holds exactly the best \<open>cnt\<close> of the sentinel and the distances
  offered since it was cleared, and \<^verbatim>\<open>worst()\<close> is the largest of them.\<close>

theorem dpq_holds_best:
  assumes "dpq_clear mem cnt q0 = Some q" "dpq_size q0 < length (dpq_data q0)" "0 < cnt"
    and "\<forall>d \<in> set ds. d \<le> MaxDist"
  shows "mset (heap_elems (dpq_data (dpq_insert_all ds q)) (dpq_length (dpq_insert_all ds q)))
           = mset (best cnt (MaxDist # ds)) \<and>
         dpq_worst (dpq_insert_all ds q) = last (best cnt (MaxDist # ds))"
proof -
  have inv: "dpq_inv [MaxDist] q" and c: "dpq_count q = cnt"
    using assms(1-3) dpq_start_inv by (auto simp: dpq_clear_def split: if_splits)
  have i: "dpq_inv (rev ds @ [MaxDist]) (dpq_insert_all ds q)"
    using dpq_insert_all_inv[OF inv _ _ assms(4)] by simp
  have c': "dpq_count (dpq_insert_all ds q) = cnt"
    unfolding dpq_insert_all_def c[symmetric]
    by (induction ds arbitrary: q) (auto simp: dpq_insert_def)
  have b: "best cnt (rev ds @ [MaxDist]) = best cnt (MaxDist # ds)"
    by (rule best_mset_cong) simp
  show ?thesis using i dpq_inv_worst[OF i] unfolding dpq_inv_def c' b by blast
qed

text \<open>C3. After any sequence of \<^verbatim>\<open>AddPoint\<close> calls on a fresh result set of \<open>n\<close> slots, \<^verbatim>\<open>SortResult\<close>
  leaves the \<open>n\<close> best of the offered points in ascending order of (distance, identifier), padded
  with the empty result when fewer points were offered.\<close>

theorem query_results_are_best:
  assumes "0 < n"
  shows "map br_key (m_results (qrs_SortResult (qrs_AddPoints ps (qr_Init n w))))
           = best n (map prod.swap ps @ replicate n (MaxDist, -1))"
  by (rule added_points_best(1)[OF assms])

theorem dpq_holds_best_witness:
  "\<exists>q. dpq_clear (\<lambda>_. 0) 2 sample_dpq = Some q \<and>
       mset (heap_elems (dpq_data (dpq_insert_all [4, 9, 1] q)) (dpq_length (dpq_insert_all [4, 9, 1] q)))
         = mset (best 2 [MaxDist, 4, 9, 1]) \<and>
       dpq_worst (dpq_insert_all [4, 9, 1] q) = 4"
proof -
  obtain q where q: "dpq_clear (\<lambda>_. 0) 2 sample_dpq = Some q"
    by (auto simp: dpq_clear_def dpq_start_def sample_dpq_def)
  have h: "\<forall>d \<in> set [4, 9, 1]. d \<le> MaxDist" by (simp add: MaxDist_def)
  have "last (best 2 [MaxDist, 4, 9, 1]) = 4" by (simp add: best_def MaxDist_def)
  then show ?thesis using dpq_holds_best[OF q _ _ h] q by (simp add: sample_dpq_def)
qed

theorem query_results_are_best_witness:
  "map br_key (m_results (qrs_SortResult (qrs_AddPoints [(10, 4), (11, 9), (12, 1)] (qr_Init 2 False))))
     = [(1, 12), (4, 10)]"
proof -
  have "best 2 (map prod.swap [(10, 4), (11, 9), (12, 1)] @ replicate 2 (MaxDist, -1))
      = [(1, 12), (4, 10 :: int)]"
    by (simp add: best_def MaxDist_def numeral_2_eq_2)
  then show ?thesis using query_results_are_best[of 2 "[(10, 4), (11, 9), (12, 1)]" False] by simp
qed

end
