(* ===== verification/Visited_Set.thy ===== *)
theory Visited_Set
  imports Sptag_Prelude
begin

unbundle bit_operations_syntax

text \<open>
  The set of visited nodes of a search, \<^verbatim>\<open>COMMON::OptHashPosVector\<close> of
  \<^verbatim>\<open>AnnService/inc/Core/Common/WorkSpace.h\<close>: an open-addressing hash table of two blocks, with at most
  eight probes in each, that doubles when both blocks are exhausted for a key. A cell is free when
  it holds 0, so identifiers are stored shifted by one.

  The doubling re-inserts the old entries with the same insertion routine, which may ask for a
  doubling again: the recursion is modelled with fuel, and the lemmas say when it returns. The
  theory shows that a table that returns behaves as a set, that clearing empties it although the
  second block is only cleared on demand, and that there are inputs for which the recursion of
  \<^verbatim>\<open>DoubleSize\<close> never ends.
\<close>

subsection \<open>Hash functions\<close>

definition rotl2 :: "u32 \<Rightarrow> u32" where
  "rotl2 x = (push_bit 2 x) OR (drop_bit 30 x)"

definition hash_func :: "u32 \<Rightarrow> nat \<Rightarrow> u32" where
  "hash_func idx poolSize = (idx * 99991 + rotl2 idx + 101) AND of_nat poolSize"

definition hash_func2 :: "u32 \<Rightarrow> nat \<Rightarrow> nat \<Rightarrow> u32" where
  "hash_func2 idx poolSize loop = (idx + of_nat loop) AND of_nat poolSize"

subsection \<open>Probing one block and both blocks\<close>

definition m_maxLoop :: nat where
  "m_maxLoop = 8"

datatype probe_result = Recorded "int list" | Hit | Exhausted

fun probe :: "int list \<Rightarrow> nat \<Rightarrow> nat \<Rightarrow> int \<Rightarrow> u32 \<Rightarrow> nat list \<Rightarrow> probe_result" where
  "probe tbl base pool idx index [] = Exhausted"
| "probe tbl base pool idx index (loop # loops) =
     (if tbl ! (base + unat index) = 0 then Recorded (tbl[base + unat index := idx])
      else if tbl ! (base + unat index) = idx then Hit
      else probe tbl base pool idx (hash_func2 index pool loop) loops)"

definition probe_block :: "int list \<Rightarrow> nat \<Rightarrow> nat \<Rightarrow> int \<Rightarrow> probe_result" where
  "probe_block tbl base pool idx =
     probe tbl base pool idx (hash_func (of_int idx) pool) [0 ..< m_maxLoop]"

text \<open>The first block, then the second; the flag says that the second block was used.\<close>

definition probe_table :: "int list \<Rightarrow> nat \<Rightarrow> int \<Rightarrow> bool \<times> probe_result" where
  "probe_table tbl pool idx =
     (case probe_block tbl 0 pool idx of
        Exhausted \<Rightarrow> (True, probe_block tbl (pool + 1) pool idx)
      | r \<Rightarrow> (False, r))"

subsection \<open>State and operations\<close>

record OptHashPosVector =
  m_secondHash :: bool
  m_exp :: nat
  m_poolSize :: nat
  m_hashTable :: "int list"

fun bit_length :: "nat \<Rightarrow> nat" where
  "bit_length n = (if n = 0 then 0 else bit_length (n div 2) + 1)"

declare bit_length.simps [simp del]

definition oh_clear :: "OptHashPosVector \<Rightarrow> OptHashPosVector" where
  "oh_clear v =
     (if \<not> m_secondHash v
      then v\<lparr>m_hashTable := replicate (m_poolSize v + 1) 0 @ drop (m_poolSize v + 1) (m_hashTable v)\<rparr>
      else v\<lparr>m_secondHash := False,
             m_hashTable := replicate (2 * (m_poolSize v + 1)) 0
                            @ drop (2 * (m_poolSize v + 1)) (m_hashTable v)\<rparr>)"

text \<open>\<open>mem\<close> is what the fresh memory of \<^verbatim>\<open>new SizeType[n]\<close> holds.\<close>

definition oh_Init :: "(nat \<Rightarrow> int) \<Rightarrow> nat \<Rightarrow> nat \<Rightarrow> OptHashPosVector" where
  "oh_Init mem sz ex =
     (let pool = 2 ^ (bit_length sz + ex) - 1
      in oh_clear \<lparr>m_secondHash = True, m_exp = ex, m_poolSize = pool,
                   m_hashTable = map mem [0 ..< (pool + 1) * 2]\<rparr>)"

definition new_poolSize :: "OptHashPosVector \<Rightarrow> nat" where
  "new_poolSize v = 2 * (m_poolSize v + 1) - 1"

text \<open>
  \<^verbatim>\<open>_CheckAndSet\<close> works on the member table (\<open>loc = None\<close>) or on the table under construction of
  \<^verbatim>\<open>DoubleSize\<close> (\<open>loc = Some (table, poolSize)\<close>), and \<^verbatim>\<open>DoubleSize\<close> always works on the member table.
  A result \<^const>\<open>None\<close> is a recursion deeper than the fuel.
\<close>

function check_and_set ::
    "nat \<Rightarrow> OptHashPosVector \<Rightarrow> (int list \<times> nat) option \<Rightarrow> int
       \<Rightarrow> (nat \<times> OptHashPosVector \<times> (int list \<times> nat) option) option"
  and double_size :: "nat \<Rightarrow> OptHashPosVector \<Rightarrow> OptHashPosVector option"
  and rehash :: "nat \<Rightarrow> OptHashPosVector \<Rightarrow> int list \<Rightarrow> nat \<Rightarrow> nat list
       \<Rightarrow> (OptHashPosVector \<times> int list) option"
where
  "check_and_set 0 v loc idx = None"
| "check_and_set (Suc fuel) v loc idx =
     (let (tbl, pool) = (case loc of None \<Rightarrow> (m_hashTable v, m_poolSize v) | Some tp \<Rightarrow> tp);
          (second, r) = probe_table tbl pool idx;
          v1 = (if second then v\<lparr>m_secondHash := True\<rparr> else v)
      in case r of
           Recorded tbl' \<Rightarrow>
             (case loc of None \<Rightarrow> Some (1, v1\<lparr>m_hashTable := tbl'\<rparr>, None)
              | Some _ \<Rightarrow> Some (1, v1, Some (tbl', pool)))
         | Hit \<Rightarrow> Some (0, v1, loc)
         | Exhausted \<Rightarrow>
             (case double_size fuel v1 of None \<Rightarrow> None
              | Some v2 \<Rightarrow> (case check_and_set fuel v2 None idx of None \<Rightarrow> None
                           | Some (res, v3, _) \<Rightarrow> Some (res, v3, loc))))"
| "double_size fuel v =
     (case rehash fuel (v\<lparr>m_secondHash := False\<rparr>) (replicate ((new_poolSize v + 1) * 2) 0)
             (new_poolSize v) [0 ..< new_poolSize v + 1] of
        None \<Rightarrow> None
      | Some (v', tbl) \<Rightarrow>
          Some (v'\<lparr>m_exp := m_exp v' + 1, m_poolSize := new_poolSize v, m_hashTable := tbl\<rparr>))"
| "rehash fuel v tbl pool [] = Some (v, tbl)"
| "rehash fuel v tbl pool (i # is) =
     (if m_hashTable v ! i = 0 then rehash fuel v tbl pool is
      else case check_and_set fuel v (Some (tbl, pool)) (m_hashTable v ! i) of
             Some (_, v', Some (tbl', _)) \<Rightarrow> rehash fuel v' tbl' pool is
           | _ \<Rightarrow> None)"
  by pat_completeness auto
termination
  by (relation "inv_image (less_than <*lex*> less_than <*lex*> less_than)
        (case_sum (\<lambda>(fuel, v, loc, idx). (fuel, 0, 0))
           (case_sum (\<lambda>(fuel, v). (fuel, 2, 0))
              (\<lambda>(fuel, v, tbl, pool, is). (fuel, 1, length is))))") auto

declare check_and_set.simps [simp del] double_size.simps [simp del] rehash.simps [simp del]

text \<open>\<^verbatim>\<open>CheckAndSet\<close>: true when the node had been visited before.\<close>

definition oh_CheckAndSet :: "nat \<Rightarrow> int \<Rightarrow> OptHashPosVector \<Rightarrow> (bool \<times> OptHashPosVector) option" where
  "oh_CheckAndSet fuel idx v =
     (case check_and_set fuel v None (idx + 1) of
        None \<Rightarrow> None | Some (res, v', _) \<Rightarrow> Some (res = 0, v'))"

subsection \<open>Specification\<close>

text \<open>The keys a table holds, and the invariant that probing finds every one of them.\<close>

definition stored :: "int list \<Rightarrow> int set" where
  "stored tbl = set tbl - {0}"

definition table_ok :: "int list \<Rightarrow> nat \<Rightarrow> bool" where
  "table_ok tbl pool \<longleftrightarrow>
     length tbl = 2 * (pool + 1) \<and> (\<forall>x \<in> stored tbl. snd (probe_table tbl pool x) = Hit)"

definition oh_inv :: "OptHashPosVector \<Rightarrow> bool" where
  "oh_inv v \<longleftrightarrow>
     table_ok (m_hashTable v) (m_poolSize v) \<and>
     (\<not> m_secondHash v \<longrightarrow> (\<forall>x \<in> set (drop (m_poolSize v + 1) (m_hashTable v)). x = 0))"

text \<open>The nodes marked as visited.\<close>

definition visited :: "OptHashPosVector \<Rightarrow> int set" where
  "visited v = (\<lambda>x. x - 1) ` stored (m_hashTable v)"

text \<open>Re-insertion without the possibility of a further doubling: \<^const>\<open>None\<close> when both blocks of
  the new table are exhausted for an entry.\<close>

fun rehash_plain :: "int list \<Rightarrow> nat \<Rightarrow> int list \<Rightarrow> int list option" where
  "rehash_plain tbl pool [] = Some tbl"
| "rehash_plain tbl pool (x # xs) =
     (if x = 0 then rehash_plain tbl pool xs
      else case snd (probe_table tbl pool x) of
             Recorded tbl' \<Rightarrow> rehash_plain tbl' pool xs
           | Hit \<Rightarrow> rehash_plain tbl pool xs
           | Exhausted \<Rightarrow> None)"

definition doubled :: "OptHashPosVector \<Rightarrow> int list option" where
  "doubled v =
     rehash_plain (replicate ((new_poolSize v + 1) * 2) 0) (new_poolSize v)
       (map ((!) (m_hashTable v)) [0 ..< new_poolSize v + 1])"

definition second_clear :: "int list \<Rightarrow> nat \<Rightarrow> bool" where
  "second_clear tbl pool \<longleftrightarrow> (\<forall>x \<in> set (drop (pool + 1) tbl). x = 0)"

text \<open>Sixteen nodes on which a table of sixteen cells gets stuck.\<close>

definition stuck_nodes :: "int list" where
  "stuck_nodes = [12, 28, 44, 60, 76, 92, 108, 124, 140, 156, 172, 188, 204, 220, 15]"

fun visit_all :: "nat \<Rightarrow> int list \<Rightarrow> OptHashPosVector \<Rightarrow> OptHashPosVector option" where
  "visit_all fuel [] v = Some v"
| "visit_all fuel (x # xs) v =
     (case oh_CheckAndSet fuel x v of None \<Rightarrow> None | Some (_, v') \<Rightarrow> visit_all fuel xs v')"

subsection \<open>Probing\<close>

lemma unat_mask_le: "unat (x AND of_nat pool :: u32) \<le> pool"
proof -
  have "unat (x AND of_nat pool :: u32) \<le> unat (of_nat pool :: u32)"
    by (rule word_and_le1 [THEN word_le_nat_alt [THEN iffD1]])
  also have "\<dots> \<le> pool" by (simp add: unat_of_nat)
  finally show ?thesis .
qed

lemma probe_fill:
  "j < length tbl \<Longrightarrow> tbl ! j = 0 \<Longrightarrow> probe tbl base pool y i ls = Hit \<Longrightarrow> probe (tbl[j := x]) base pool y i ls = Hit"
  by (induction tbl base pool y i ls rule: probe.induct) (auto simp: nth_list_update split: if_splits)

lemma probe_fill_exhausted:
  "j < length tbl \<Longrightarrow> tbl ! j = 0 \<Longrightarrow> probe tbl base pool y i ls = Exhausted \<Longrightarrow>
     probe (tbl[j := x]) base pool y i ls = Exhausted"
  by (induction tbl base pool y i ls rule: probe.induct) (auto simp: nth_list_update split: if_splits)

lemma probe_Recorded:
  "unat i \<le> pool \<Longrightarrow> base + pool < length tbl \<Longrightarrow> probe tbl base pool x i ls = Recorded tbl' \<Longrightarrow>
     \<exists>j. base \<le> j \<and> j \<le> base + pool \<and> tbl ! j = 0 \<and> tbl' = tbl[j := x] \<and>
         (x \<noteq> 0 \<longrightarrow> probe tbl' base pool x i ls = Hit)"
proof (induction tbl base pool x i ls rule: probe.induct)
  case (2 tbl base pool x i l ls)
  let ?s = "base + unat i"
  show ?case
  proof (cases "tbl ! ?s = 0")
    case True
    then show ?thesis using 2(2-4) by (intro exI[of _ ?s]) auto
  next
    case False
    then have nx: "tbl ! ?s \<noteq> x" using 2(4) by auto
    have "probe tbl base pool x (hash_func2 i pool l) ls = Recorded tbl'" using 2(4) False nx by simp
    from 2(1)[OF False nx _ 2(3) this] obtain j where
      "base \<le> j" "j \<le> base + pool" "tbl ! j = 0" "tbl' = tbl[j := x]"
      "x \<noteq> 0 \<longrightarrow> probe tbl' base pool x (hash_func2 i pool l) ls = Hit"
      by (auto simp: hash_func2_def unat_mask_le)
    moreover from this have "j \<noteq> base + unat i" using False by auto
    ultimately show ?thesis using False nx by (intro exI[of _ j]) auto
  qed
qed simp

lemma probe_Hit:
  "unat i \<le> pool \<Longrightarrow> base + pool < length tbl \<Longrightarrow> probe tbl base pool x i ls = Hit \<Longrightarrow> x \<in> set tbl"
proof (induction tbl base pool x i ls rule: probe.induct)
  case (2 tbl base pool x i l ls)
  show ?case
  proof (cases "tbl ! (base + unat i) = x")
    case True
    then show ?thesis using 2(2,3) nth_mem[of "base + unat i" tbl] by simp
  next
    case False
    then show ?thesis using 2 by (simp add: hash_func2_def unat_mask_le split: if_splits)
  qed
qed simp

lemma hash_func_le: "unat (hash_func x pool) \<le> pool"
  by (simp add: hash_func_def unat_mask_le)

lemma block_Hit: "base + pool < length tbl \<Longrightarrow> probe_block tbl base pool x = Hit \<Longrightarrow> x \<in> set tbl"
  unfolding probe_block_def using hash_func_le by (rule probe_Hit)

lemma block_Recorded:
  "base + pool < length tbl \<Longrightarrow> probe_block tbl base pool x = Recorded tbl' \<Longrightarrow>
     \<exists>j. base \<le> j \<and> j \<le> base + pool \<and> tbl ! j = 0 \<and> tbl' = tbl[j := x] \<and>
         (x \<noteq> 0 \<longrightarrow> probe_block tbl' base pool x = Hit)"
  unfolding probe_block_def using hash_func_le by (rule probe_Recorded)

lemma probe_table_Hit:
  "length tbl = 2 * (pool + 1) \<Longrightarrow> snd (probe_table tbl pool x) = Hit \<Longrightarrow> x \<in> set tbl"
  using block_Hit[of 0 pool tbl x] block_Hit[of "pool + 1" pool tbl x]
  by (simp add: probe_table_def split: probe_result.splits)

lemma probe_table_fill:
  assumes "j < length tbl" "tbl ! j = 0" "snd (probe_table tbl pool y) = Hit"
  shows "snd (probe_table (tbl[j := x]) pool y) = Hit"
proof (cases "probe_block tbl 0 pool y")
  case Hit
  then show ?thesis using assms probe_fill[OF assms(1,2)] by (simp add: probe_table_def probe_block_def)
next
  case Exhausted
  then show ?thesis
    using assms probe_fill[OF assms(1,2)] probe_fill_exhausted[OF assms(1,2)]
    by (simp add: probe_table_def probe_block_def)
qed (use assms in \<open>simp add: probe_table_def\<close>)

lemma probe_table_Recorded:
  assumes "length tbl = 2 * (pool + 1)" "probe_table tbl pool x = (second, Recorded tbl')"
  shows "\<exists>j < length tbl. tbl ! j = 0 \<and> tbl' = tbl[j := x] \<and> (\<not> second \<longrightarrow> j \<le> pool) \<and>
           (x \<noteq> 0 \<longrightarrow> snd (probe_table tbl' pool x) = Hit)"
proof (cases "probe_block tbl 0 pool x")
  case (Recorded t)
  then have t: "t = tbl'" "\<not> second" using assms(2) by (auto simp: probe_table_def)
  obtain j where "j \<le> pool" "tbl ! j = 0" "tbl' = tbl[j := x]" "x \<noteq> 0 \<longrightarrow> probe_block tbl' 0 pool x = Hit"
    using block_Recorded[of 0 pool tbl x tbl'] Recorded assms(1) t by auto
  then show ?thesis using t assms(1) by (intro exI[of _ j]) (auto simp: probe_table_def)
next
  case Exhausted
  then have t: "second" "probe_block tbl (pool + 1) pool x = Recorded tbl'"
    using assms(2) by (auto simp: probe_table_def)
  obtain j where j: "j \<le> pool + 1 + pool" "tbl ! j = 0" "tbl' = tbl[j := x]"
    "x \<noteq> 0 \<longrightarrow> probe_block tbl' (pool + 1) pool x = Hit"
    using block_Recorded[OF _ t(2)] assms(1) by (metis add_Suc_right add_less_cancel_left less_add_one
        mult_2 plus_1_eq_Suc add.commute add.left_commute)
  moreover have "probe_block tbl' 0 pool x = Exhausted"
    using Exhausted probe_fill_exhausted[of j tbl 0 pool x] j assms(1) by (simp add: probe_block_def)
  ultimately show ?thesis using t assms(1) by (intro exI[of _ j]) (auto simp: probe_table_def)
qed (use assms in \<open>simp add: probe_table_def\<close>)

lemma stored_fill:
  assumes "j < length tbl" "tbl ! j = 0"
  shows "stored (tbl[j := x]) = (stored tbl \<union> {x}) - {0}"
proof -
  have "insert 0 (set (tbl[j := x])) = insert 0 (insert x (set tbl))"
    using assms by (auto simp: in_set_conv_nth nth_list_update) (metis assms(2))+
  then show ?thesis by (auto simp: stored_def)
qed

text \<open>What one pass over a table does to its set of keys.\<close>

lemma probe_table_spec:
  assumes ok: "table_ok tbl pool" and p: "probe_table tbl pool x = (second, r)"
  shows "r = Hit \<Longrightarrow> x \<in> set tbl"
    and "r = Recorded tbl' \<Longrightarrow> table_ok tbl' pool \<and> stored tbl' = (stored tbl \<union> {x}) - {0} \<and> x \<notin> stored tbl"
    and "r = Exhausted \<Longrightarrow> x \<notin> stored tbl"
proof -
  have len: "length tbl = 2 * (pool + 1)" using ok by (simp add: table_ok_def)
  show "x \<in> set tbl" if "r = Hit" using probe_table_Hit[OF len] p that by simp
  show "x \<notin> stored tbl" if "r = Exhausted" using ok p that by (auto simp: table_ok_def)
  show "table_ok tbl' pool \<and> stored tbl' = (stored tbl \<union> {x}) - {0} \<and> x \<notin> stored tbl" if r: "r = Recorded tbl'"
  proof -
    obtain j where j: "j < length tbl" "tbl ! j = 0" "tbl' = tbl[j := x]"
      "x \<noteq> 0 \<longrightarrow> snd (probe_table tbl' pool x) = Hit"
      using probe_table_Recorded[OF len p[unfolded r]] by blast
    have st: "stored tbl' = (stored tbl \<union> {x}) - {0}" using stored_fill[OF j(1,2)] j(3) by simp
    moreover have "snd (probe_table tbl' pool y) = Hit" if "y \<in> stored tbl'" for y
      using that st j probe_table_fill[OF j(1,2)] ok by (auto simp: table_ok_def)
    moreover have "x \<notin> stored tbl" using ok p r by (auto simp: table_ok_def)
    ultimately show ?thesis using j len ok by (simp add: table_ok_def)
  qed
qed

subsection \<open>Doubling\<close>

lemma rehash_plain_spec:
  "table_ok tbl pool \<Longrightarrow> rehash_plain tbl pool xs = Some tbl' \<Longrightarrow>
     table_ok tbl' pool \<and> stored tbl' = stored tbl \<union> (set xs - {0})"
proof (induction tbl pool xs rule: rehash_plain.induct)
  case (2 tbl pool x xs)
  show ?case
  proof (cases "x = 0")
    case True
    then show ?thesis using 2 by auto
  next
    case False
    obtain sec r where p: "probe_table tbl pool x = (sec, r)" by force
    note spec = probe_table_spec[OF 2(4) p]
    show ?thesis
    proof (cases r)
      case (Recorded t)
      then have s: "snd (probe_table tbl pool x) = Recorded t" and e: "rehash_plain t pool xs = Some tbl'"
        using 2(5) False p by auto
      have "table_ok tbl' pool \<and> stored tbl' = stored t \<union> (set xs - {0})"
        using 2(2)[OF False s] spec(2)[OF Recorded] e by blast
      moreover have "stored t = (stored tbl \<union> {x}) - {0}" using spec(2)[OF Recorded] by blast
      ultimately show ?thesis using False by (auto simp: stored_def)
    next
      case Hit
      then have "table_ok tbl' pool \<and> stored tbl' = stored tbl \<union> (set xs - {0})"
        using 2(3)[OF False] 2(4,5) False p by simp
      then show ?thesis using spec(1)[OF Hit] False by (auto simp: stored_def)
    next
      case Exhausted
      then show ?thesis using 2(5) False p by simp
    qed
  qed
qed simp

lemma second_clear_Recorded:
  assumes "length tbl = 2 * (pool + 1)" "second_clear tbl pool" "probe_table tbl pool x = (False, Recorded tbl')"
  shows "second_clear tbl' pool"
proof -
  obtain j where "j \<le> pool" "tbl' = tbl[j := x]" using probe_table_Recorded[OF assms(1,3)] by auto
  then show ?thesis using assms(2) by (simp add: second_clear_def drop_update_cancel)
qed

text \<open>The loop of \<^verbatim>\<open>DoubleSize\<close> agrees with the plain re-insertion where that succeeds.\<close>

lemma rehash_agrees:
  "rehash_plain tbl pool (map ((!) (m_hashTable v)) is) = Some tbl' \<Longrightarrow> length tbl = 2 * (pool + 1) \<Longrightarrow>
   \<exists>b. rehash (Suc fuel) v tbl pool is = Some (v\<lparr>m_secondHash := b\<rparr>, tbl') \<and>
       (\<not> b \<longrightarrow> \<not> m_secondHash v \<and> (second_clear tbl pool \<longrightarrow> second_clear tbl' pool))"
proof (induction "is" arbitrary: v tbl)
  case Nil
  then show ?case by (intro exI[of _ "m_secondHash v"]) (simp add: rehash.simps)
next
  case (Cons i "is")
  show ?case
  proof (cases "m_hashTable v ! i = 0")
    case True
    then show ?thesis using Cons by (simp add: rehash.simps)
  next
    case False
    let ?x = "m_hashTable v ! i"
    obtain sec r where p: "probe_table tbl pool ?x = (sec, r)" by force
    let ?v = "if sec then v\<lparr>m_secondHash := True\<rparr> else v"
    have T: "m_hashTable ?v = m_hashTable v" by simp
    show ?thesis
    proof (cases r)
      case (Recorded t)
      have len: "length t = 2 * (pool + 1)"
        using probe_table_Recorded[OF Cons.prems(2) p[unfolded Recorded]] Cons.prems(2) by auto
      obtain b where "rehash (Suc fuel) ?v t pool is = Some (?v\<lparr>m_secondHash := b\<rparr>, tbl')"
        "\<not> b \<longrightarrow> \<not> m_secondHash ?v \<and> (second_clear t pool \<longrightarrow> second_clear tbl' pool)"
        using Cons.IH[of t ?v, OF _ len] Cons.prems(1) False p Recorded by (simp only: T) auto
      then show ?thesis
        using False p Recorded second_clear_Recorded[OF Cons.prems(2), of ?x t] 
        by (intro exI[of _ b]) (auto simp: rehash.simps check_and_set.simps split: if_splits)
    next
      case Hit
      obtain b where "rehash (Suc fuel) ?v tbl pool is = Some (?v\<lparr>m_secondHash := b\<rparr>, tbl')"
        "\<not> b \<longrightarrow> \<not> m_secondHash ?v \<and> (second_clear tbl pool \<longrightarrow> second_clear tbl' pool)"
        using Cons.IH[of tbl ?v, OF _ Cons.prems(2)] Cons.prems(1) False p Hit by (simp only: T) auto
      then show ?thesis
        using False p Hit
        by (intro exI[of _ b]) (auto simp: rehash.simps check_and_set.simps split: if_splits)
    next
      case Exhausted
      then show ?thesis using Cons.prems(1) False p by simp
    qed
  qed
qed

lemma stored_zeros [simp]: "stored (replicate n 0) = {}"
  by (auto simp: stored_def)

lemma table_ok_zeros: "n = 2 * (pool + 1) \<Longrightarrow> table_ok (replicate n 0) pool"
  unfolding table_ok_def stored_zeros by simp

lemma second_clear_zeros: "second_clear (replicate n 0) pool"
  by (simp add: second_clear_def)

lemma double_size_agrees:
  assumes "doubled v = Some tbl"
  shows "\<exists>b. double_size (Suc fuel) v =
      Some (v\<lparr>m_secondHash := b, m_exp := m_exp v + 1, m_poolSize := new_poolSize v, m_hashTable := tbl\<rparr>) \<and>
      (\<not> b \<longrightarrow> second_clear tbl (new_poolSize v))"
proof -
  let ?v = "v\<lparr>m_secondHash := False\<rparr>" and ?new = "replicate ((new_poolSize v + 1) * 2) (0 :: int)"
  obtain b where
    "rehash (Suc fuel) ?v ?new (new_poolSize v) [0 ..< new_poolSize v + 1] = Some (?v\<lparr>m_secondHash := b\<rparr>, tbl)"
    "\<not> b \<longrightarrow> second_clear tbl (new_poolSize v)"
    using rehash_agrees[of ?new "new_poolSize v" ?v "[0 ..< new_poolSize v + 1]" tbl fuel] assms
      second_clear_zeros[of "(new_poolSize v + 1) * 2" "new_poolSize v"]
    unfolding doubled_def by auto
  then show ?thesis by (intro exI[of _ b]) (simp add: double_size.simps del: upt_Suc)
qed

lemma doubled_spec:
  assumes "oh_inv v" "doubled v = Some tbl"
  shows "table_ok tbl (new_poolSize v) \<and> stored tbl = stored (m_hashTable v)"
proof -
  have "table_ok (replicate ((new_poolSize v + 1) * 2) 0) (new_poolSize v)"
    by (rule table_ok_zeros) simp
  moreover have "new_poolSize v + 1 = length (m_hashTable v)"
    using assms(1) by (simp add: oh_inv_def table_ok_def new_poolSize_def)
  then have "map ((!) (m_hashTable v)) [0 ..< new_poolSize v + 1] = m_hashTable v"
    by (simp only: map_nth)
  ultimately show ?thesis
    using rehash_plain_spec[of _ "new_poolSize v" "m_hashTable v" tbl] assms(2)
    unfolding doubled_def by (metis (no_types, lifting) stored_def stored_zeros sup_bot_left)
qed

text \<open>Where the plain re-insertion gets stuck, the recursion of \<^verbatim>\<open>DoubleSize\<close> never ends: the nested
  call starts from the same table and fails at the same entry.\<close>

lemma rehash_stuck:
  "rehash_plain tbl pool (map ((!) T) is) = None \<Longrightarrow> m_hashTable v = T \<Longrightarrow> m_poolSize v = P \<Longrightarrow>
   \<forall>f < fuel. \<forall>v'. m_hashTable v' = T \<longrightarrow> m_poolSize v' = P \<longrightarrow> double_size f v' = None \<Longrightarrow>
   rehash fuel v tbl pool is = None"
proof (induction "is" arbitrary: v tbl)
  case (Cons i "is")
  consider "T ! i = 0" | "T ! i \<noteq> 0" "fuel = 0" | "T ! i \<noteq> 0" "0 < fuel" by blast
  then show ?case
  proof cases
    case 1
    then have "rehash_plain tbl pool (map ((!) T) is) = None" using Cons.prems(1) by simp
    from Cons.IH[OF this Cons.prems(2-4)] show ?thesis using 1 Cons.prems(2) by (simp add: rehash.simps)
  next
    case 2
    then show ?thesis using Cons.prems(2) by (simp add: rehash.simps check_and_set.simps)
  next
    case 3
    then obtain f where f: "fuel = Suc f" and nz: "T ! i \<noteq> 0" by (cases fuel) auto
    obtain sec r where p: "probe_table tbl pool (T ! i) = (sec, r)" by force
    let ?v = "if sec then v\<lparr>m_secondHash := True\<rparr> else v"
    have vv: "m_hashTable ?v = T" "m_poolSize ?v = P" using Cons.prems(2,3) by auto
    show ?thesis
    proof (cases r)
      case (Recorded t)
      then have "rehash fuel ?v t pool is = None"
        using Cons.IH[OF _ vv Cons.prems(4)] Cons.prems(1) nz p by simp
      then show ?thesis using p Recorded nz Cons.prems(2) f by (simp add: rehash.simps check_and_set.simps)
    next
      case Hit
      then have "rehash fuel ?v tbl pool is = None"
        using Cons.IH[OF _ vv Cons.prems(4)] Cons.prems(1) nz p by simp
      then show ?thesis using p Hit nz Cons.prems(2) f by (simp add: rehash.simps check_and_set.simps)
    next
      case Exhausted
      then show ?thesis using p nz Cons.prems(2) f Cons.prems(4)[rule_format, OF _ vv, of f]
        by (simp add: rehash.simps check_and_set.simps)
    qed
  qed
qed simp

lemma double_size_stuck: "doubled v = None \<Longrightarrow> double_size fuel v = None"
proof (induction fuel arbitrary: v rule: less_induct)
  case (less fuel)
  let ?v = "v\<lparr>m_secondHash := False\<rparr>"
  have "rehash fuel ?v (replicate ((new_poolSize v + 1) * 2) 0) (new_poolSize v) [0 ..< new_poolSize v + 1] = None"
  proof (rule rehash_stuck)
    show "rehash_plain (replicate ((new_poolSize v + 1) * 2) 0) (new_poolSize v)
        (map ((!) (m_hashTable v)) [0 ..< new_poolSize v + 1]) = None"
      using less.prems unfolding doubled_def .
    show "\<forall>f < fuel. \<forall>v'. m_hashTable v' = m_hashTable v \<longrightarrow> m_poolSize v' = m_poolSize v \<longrightarrow>
        double_size f v' = None"
      using less by (simp add: doubled_def new_poolSize_def)
  qed simp_all
  then show ?case by (simp add: double_size.simps del: upt_Suc)
qed

lemma check_and_set_stuck:
  assumes "snd (probe_table (m_hashTable v) (m_poolSize v) x) = Exhausted" "doubled v = None"
  shows "check_and_set fuel v None x = None"
proof (cases fuel)
  case (Suc f)
  obtain sec where "probe_table (m_hashTable v) (m_poolSize v) x = (sec, Exhausted)"
    using assms(1) by (metis prod.collapse)
  moreover have "double_size f (if sec then v\<lparr>m_secondHash := True\<rparr> else v) = None"
    using assms by (intro double_size_stuck) (auto simp: doubled_def new_poolSize_def)
  ultimately show ?thesis using Suc by (simp add: check_and_set.simps)
qed (simp add: check_and_set.simps)

subsection \<open>Correctness of the set\<close>

lemma check_and_set_spec:
  "oh_inv v \<Longrightarrow> x \<noteq> 0 \<Longrightarrow> check_and_set fuel v None x = Some (res, v', l) \<Longrightarrow>
     oh_inv v' \<and> stored (m_hashTable v') = insert x (stored (m_hashTable v)) \<and>
     (res = 0 \<longleftrightarrow> x \<in> stored (m_hashTable v))"
proof (induction fuel arbitrary: v v' l)
  case (Suc fuel)
  obtain sec r where p: "probe_table (m_hashTable v) (m_poolSize v) x = (sec, r)" by force
  let ?v = "if sec then v\<lparr>m_secondHash := True\<rparr> else v"
  have ok: "table_ok (m_hashTable v) (m_poolSize v)" and len: "length (m_hashTable v) = 2 * (m_poolSize v + 1)"
    using Suc.prems(1) by (auto simp: oh_inv_def table_ok_def)
  note spec = probe_table_spec[OF ok p]
  show ?case
  proof (cases r)
    case (Recorded t)
    have "\<not> sec \<Longrightarrow> \<not> m_secondHash v \<Longrightarrow> second_clear t (m_poolSize v)"
      using second_clear_Recorded[OF len, of x t] p Recorded Suc.prems(1)
      by (auto simp: oh_inv_def second_clear_def)
    moreover have "res = 1" "v' = ?v\<lparr>m_hashTable := t\<rparr>"
      using Suc.prems(3) p Recorded by (auto simp: check_and_set.simps)
    ultimately show ?thesis using spec(2)[OF Recorded] Suc.prems(2)
      by (auto simp: oh_inv_def second_clear_def stored_def)
  next
    case Hit
    then have "res = 0" "v' = ?v"
      using Suc.prems(3) p by (auto simp: check_and_set.simps)
    then show ?thesis using spec(1)[OF Hit] Suc.prems(1,2)
      by (auto simp: oh_inv_def stored_def)
  next
    case Exhausted
    obtain v2 v3 l' where d: "double_size fuel ?v = Some v2"
      and c: "check_and_set fuel v2 None x = Some (res, v3, l')" and v': "v' = v3"
      using Suc.prems(3) p Exhausted by (auto simp: check_and_set.simps split: option.splits)
    have inv: "oh_inv ?v" using Suc.prems(1) by (auto simp: oh_inv_def)
    obtain f where f: "fuel = Suc f" using c by (cases fuel) (auto simp: check_and_set.simps)
    obtain tbl where t: "doubled ?v = Some tbl"
      using d double_size_stuck[of ?v fuel] by (cases "doubled ?v") auto
    obtain b where v2: "v2 = ?v\<lparr>m_secondHash := b, m_exp := m_exp ?v + 1, m_poolSize := new_poolSize ?v,
        m_hashTable := tbl\<rparr>" and b: "\<not> b \<longrightarrow> second_clear tbl (new_poolSize ?v)"
      using double_size_agrees[OF t, of f] d f by auto
    have "oh_inv v2 \<and> stored (m_hashTable v2) = stored (m_hashTable v)"
      using doubled_spec[OF inv t] b by (simp add: v2 oh_inv_def second_clear_def)
    then show ?thesis using Suc.IH[OF _ Suc.prems(2) c] v' by simp
  qed
qed (simp add: check_and_set.simps)

lemma mem_visited: "i \<in> visited v \<longleftrightarrow> i + 1 \<in> stored (m_hashTable v)"
proof
  assume "i + 1 \<in> stored (m_hashTable v)"
  then show "i \<in> visited v" unfolding visited_def by (rule rev_image_eqI) simp
qed (auto simp: visited_def)

lemma oh_clear_inv:
  assumes "length (m_hashTable v) = 2 * (m_poolSize v + 1)"
    and "\<not> m_secondHash v \<Longrightarrow> second_clear (m_hashTable v) (m_poolSize v)"
  shows "oh_inv (oh_clear v) \<and> visited (oh_clear v) = {}"
proof -
  let ?p = "m_poolSize v"
  have "m_hashTable (oh_clear v) = replicate (2 * (?p + 1)) 0"
  proof (cases "m_secondHash v")
    case True
    then show ?thesis using assms(1) by (simp add: oh_clear_def)
  next
    case False
    then have "drop (?p + 1) (m_hashTable v) = replicate (?p + 1) 0"
      using assms by (intro replicate_eqI) (auto simp: second_clear_def)
    then have "m_hashTable (oh_clear v) = replicate (?p + 1) 0 @ replicate (?p + 1) 0"
      using False by (simp add: oh_clear_def)
    then show ?thesis by (simp only: replicate_add[symmetric] mult_2)
  qed
  moreover have "m_poolSize (oh_clear v) = ?p" by (simp add: oh_clear_def)
  ultimately show ?thesis
    using table_ok_zeros[of "2 * (?p + 1)" ?p] second_clear_zeros[of "2 * (?p + 1)" ?p]
    unfolding oh_inv_def visited_def second_clear_def by (metis image_empty stored_zeros)
qed

lemma oh_Init_inv: "oh_inv (oh_Init mem sz ex) \<and> visited (oh_Init mem sz ex) = {}"
  unfolding oh_Init_def Let_def by (rule oh_clear_inv) simp_all

subsection \<open>Properties\<close>

lemma oh_CheckAndSet_spec:
  assumes "oh_inv v" "idx \<noteq> -1" "oh_CheckAndSet fuel idx v = Some (seen, v')"
  shows "oh_inv v' \<and> (seen \<longleftrightarrow> idx \<in> visited v) \<and> visited v' = insert idx (visited v)"
proof -
  obtain res l where c: "check_and_set fuel v None (idx + 1) = Some (res, v', l)" and s: "seen = (res = 0)"
    using assms(3) by (auto simp: oh_CheckAndSet_def split: option.splits)
  have "idx + 1 \<noteq> 0" using assms(2) by auto
  from check_and_set_spec[OF assms(1) this c] show ?thesis
    using s by (auto simp: mem_visited set_eq_iff)
qed

text \<open>C25. A call of \<^verbatim>\<open>CheckAndSet\<close> that returns answers whether the node was in the set and adds it,
  through both blocks and any number of doublings, and keeps the table well formed.\<close>

theorem visited_check_and_set:
  assumes "oh_inv v" "idx \<noteq> -1" "oh_CheckAndSet fuel idx v = Some (seen, v')"
  shows "oh_inv v' \<and> (seen \<longleftrightarrow> idx \<in> visited v) \<and> visited v' = insert idx (visited v)"
  by (rule oh_CheckAndSet_spec[OF assms])

theorem visited_check_and_set_witness:
  "\<exists>v'. oh_CheckAndSet 1 5 (oh_Init (\<lambda>_. 0) 4 0) = Some (False, v') \<and> oh_inv v' \<and> visited v' = {5}"
proof -
  have v': "oh_CheckAndSet 1 5 (oh_Init (\<lambda>_. 0) 4 0) =
      Some (False, \<lparr>m_secondHash = False, m_exp = 0, m_poolSize = 7,
        m_hashTable = [0, 0, 0, 0, 0, 0, 0, 6, 0, 0, 0, 0, 0, 0, 0, 0]\<rparr>)"
    by code_simp
  show ?thesis
    using visited_check_and_set[OF _ _ v'] oh_Init_inv[of "\<lambda>_. 0" 4 0] v' by auto
qed



text \<open>\<^verbatim>\<open>Init\<close> and \<^verbatim>\<open>clear\<close> leave an empty, well-formed set, although \<^verbatim>\<open>clear\<close> does not touch the
  second block when the flag says it was not used.\<close>

theorem visited_clear_empty:
  "visited (oh_Init mem sz ex) = {} \<and> oh_inv (oh_Init mem sz ex) \<and>
   (oh_inv v \<longrightarrow> visited (oh_clear v) = {} \<and> oh_inv (oh_clear v))"
  using oh_Init_inv oh_clear_inv[of v] by (simp add: oh_inv_def table_ok_def second_clear_def)

theorem visited_clear_empty_witness:
  "visited (oh_clear (oh_Init (\<lambda>_. 0) 4 0)) = {} \<and> oh_inv (oh_clear (oh_Init (\<lambda>_. 0) 4 0))"
  using visited_clear_empty[of "\<lambda>_. 0" 4 0 "oh_Init (\<lambda>_. 0) 4 0"] by blast

text \<open>C35. \<^verbatim>\<open>DoubleSize\<close> need not end. From a fresh table of pool size 7, fifteen nodes are recorded
  without a doubling; the next node needs one, the old entries do not find their places in the
  doubled table, and the nested call of \<^verbatim>\<open>DoubleSize\<close> starts over from the same state: no depth of
  recursion is enough.\<close>

theorem visited_doubling_diverges:
  "\<exists>v. visit_all 1 stuck_nodes (oh_Init (\<lambda>_. 0) 4 0) = Some v \<and>
       (\<forall>fuel. oh_CheckAndSet fuel 236 v = None)"
proof -
  let ?v = "\<lparr>m_secondHash = True, m_exp = 0, m_poolSize = 7,
    m_hashTable = [16, 109, 61, 93, 13, 29, 77, 45, 0, 221, 173, 205, 125, 141, 189, 157]\<rparr>"
  have v: "visit_all 1 stuck_nodes (oh_Init (\<lambda>_. 0) 4 0) = Some ?v" by code_simp
  have ex: "snd (probe_table (m_hashTable ?v) (m_poolSize ?v) (236 + 1)) = Exhausted" by code_simp
  have "doubled ?v = None" by code_simp
  from check_and_set_stuck[OF ex this] show ?thesis using v by (auto simp: oh_CheckAndSet_def)
qed

end
