(* ===== verification/Work_Space.thy ===== *)
theory Work_Space
  imports Result_Set Visited_Set
begin

text \<open>
  The per-search state \<^verbatim>\<open>COMMON::WorkSpace\<close> of \<^verbatim>\<open>AnnService/inc/Core/Common/WorkSpace.h\<close>: the visited
  set, the two search queues, the queue of best distances and the counters, with the operations
  that prepare it for a search, the pool that hands workspaces to threads, and the striped locks of
  \<^verbatim>\<open>FineGrainedLock.h\<close>, which use the same hash function.
\<close>

subsection \<open>State and operations\<close>

record WorkSpace =
  nodeCheckStatus :: OptHashPosVector
  m_iNumOfContinuousNoBetterPropagation :: int
  m_iContinuousLimit :: int
  m_iNumberOfTreeCheckedLeaves :: int
  m_iNumberOfCheckedLeaves :: int
  m_iMaxCheck :: nat
  m_relaxedMono :: bool
  m_NGQueue :: "NodeDistPair heap"
  m_SPTQueue :: "NodeDistPair heap"
  m_Results :: DistPriorityQueue

definition default_node :: NodeDistPair where
  "default_node = \<lparr>node = -1, distance = MaxDist\<rparr>"

text \<open>Fresh memory of the two \<^verbatim>\<open>new[]\<close> expressions that leave it uninitialised: \<open>imem\<close> for the hash
  table, \<open>fmem\<close> for the distances. \<^const>\<open>None\<close>: a write outside an allocation.\<close>

definition ws_Initialize :: "(nat \<Rightarrow> int) \<Rightarrow> (nat \<Rightarrow> dist) \<Rightarrow> nat \<Rightarrow> nat \<Rightarrow> WorkSpace option" where
  "ws_Initialize imem fmem maxCheck hashExp =
     (case dpq_Resize fmem (maxCheck div 16) of None \<Rightarrow> None
      | Some results \<Rightarrow> Some \<lparr>
          nodeCheckStatus = oh_Init imem maxCheck hashExp,
          m_iNumOfContinuousNoBetterPropagation = 0, m_iContinuousLimit = 128,
          m_iNumberOfTreeCheckedLeaves = 0, m_iNumberOfCheckedLeaves = 0,
          m_iMaxCheck = maxCheck, m_relaxedMono = False,
          m_NGQueue = heap_Resize default_node (maxCheck * 30),
          m_SPTQueue = heap_Resize default_node (maxCheck * 10),
          m_Results = results\<rparr>)"

definition ws_Reset :: "(nat \<Rightarrow> dist) \<Rightarrow> nat \<Rightarrow> nat \<Rightarrow> WorkSpace \<Rightarrow> WorkSpace option" where
  "ws_Reset fmem maxCheck resultNum ws =
     (case dpq_clear fmem (max (maxCheck div 16) resultNum) (m_Results ws) of None \<Rightarrow> None
      | Some results \<Rightarrow> Some (ws\<lparr>
          nodeCheckStatus := oh_clear (nodeCheckStatus ws),
          m_SPTQueue := heap_clear default_node (maxCheck * 10) (m_SPTQueue ws),
          m_NGQueue := heap_clear default_node (maxCheck * 30) (m_NGQueue ws),
          m_Results := results,
          m_iNumOfContinuousNoBetterPropagation := 0,
          m_iNumberOfTreeCheckedLeaves := 0, m_iNumberOfCheckedLeaves := 0,
          m_iMaxCheck := maxCheck, m_relaxedMono := False\<rparr>))"

definition ws_ResetResult :: "(nat \<Rightarrow> dist) \<Rightarrow> nat \<Rightarrow> nat \<Rightarrow> WorkSpace \<Rightarrow> WorkSpace option" where
  "ws_ResetResult fmem maxCheck resultNum ws =
     (case dpq_clear fmem (max (maxCheck div 16) resultNum) (m_Results ws) of None \<Rightarrow> None
      | Some results \<Rightarrow> Some (ws\<lparr>
          m_Results := results,
          m_iNumOfContinuousNoBetterPropagation := 0,
          m_iNumberOfTreeCheckedLeaves := 0, m_iNumberOfCheckedLeaves := 0\<rparr>))"

definition ws_CheckAndSet :: "nat \<Rightarrow> int \<Rightarrow> WorkSpace \<Rightarrow> (bool \<times> WorkSpace) option" where
  "ws_CheckAndSet fuel idx ws =
     (case oh_CheckAndSet fuel idx (nodeCheckStatus ws) of None \<Rightarrow> None
      | Some (seen, v) \<Rightarrow> Some (seen, ws\<lparr>nodeCheckStatus := v\<rparr>))"

text \<open>\<^verbatim>\<open>SharedPoolWorkSpaceFactory\<close>: a stack of idle workspaces; \<^const>\<open>None\<close> is a null pointer.\<close>

definition pool_GetWorkSpace :: "'w list \<Rightarrow> 'w option \<times> 'w list" where
  "pool_GetWorkSpace pool = (if pool = [] then (None, pool) else (Some (last pool), butlast pool))"

definition pool_ReturnWorkSpace :: "'w option \<Rightarrow> 'w list \<Rightarrow> 'w list" where
  "pool_ReturnWorkSpace ws pool = (case ws of None \<Rightarrow> pool | Some w \<Rightarrow> pool @ [w])"

text \<open>\<^verbatim>\<open>FineGrainedLock::operator[]\<close> and \<^verbatim>\<open>FineGrainedRWLock::operator[]\<close>: the lock of a vector, an index
  into an array of \<^verbatim>\<open>PoolSize + 1\<close> mutexes.\<close>

definition lock_PoolSize :: nat where
  "lock_PoolSize = 32767"

definition lock_index :: "int \<Rightarrow> nat" where
  "lock_index idx = unat (hash_func (of_int idx) lock_PoolSize)"

subsection \<open>Invariant\<close>

definition dpq_shape :: "DistPriorityQueue \<Rightarrow> bool" where
  "dpq_shape q \<longleftrightarrow> dpq_size q < length (dpq_data q)"

definition ws_inv :: "WorkSpace \<Rightarrow> bool" where
  "ws_inv ws \<longleftrightarrow> oh_inv (nodeCheckStatus ws) \<and>
     heap_inv ndp_less (m_NGQueue ws) \<and> heap_inv ndp_less (m_SPTQueue ws) \<and> dpq_shape (m_Results ws)"

text \<open>A workspace in which no trace of an earlier search is left.\<close>

definition ws_fresh :: "WorkSpace \<Rightarrow> bool" where
  "ws_fresh ws \<longleftrightarrow> visited (nodeCheckStatus ws) = {} \<and>
     heap_contents (m_NGQueue ws) = {#} \<and> heap_contents (m_SPTQueue ws) = {#} \<and>
     dpq_inv [MaxDist] (m_Results ws) \<and>
     m_iNumOfContinuousNoBetterPropagation ws = 0 \<and> m_iNumberOfTreeCheckedLeaves ws = 0 \<and>
     m_iNumberOfCheckedLeaves ws = 0 \<and> \<not> m_relaxedMono ws"

lemma heap_Resize_inv: "heap_inv lt (heap_Resize d n) \<and> heap_contents (heap_Resize d n) = {#}"
  by (auto simp: heap_inv_def heap_shape_def heap_Resize_def ordered_upto_def heap_contents_def heap_elems_def)

lemma heap_clear_inv:
  "heap_inv lt h \<Longrightarrow> heap_inv lt (heap_clear d n h) \<and> heap_contents (heap_clear d n h) = {#} \<and>
     n \<le> hp_length (heap_clear d n h)"
  by (auto simp: heap_inv_def heap_shape_def heap_clear_def heap_Resize_def ordered_upto_def
      heap_contents_def heap_elems_def)

lemma dpq_Resize_fresh:
  "0 < n \<Longrightarrow> \<exists>q. dpq_Resize mem n = Some q \<and> dpq_inv [MaxDist] q \<and> dpq_shape q"
  using dpq_start_inv(1)[of n "map mem [0 ..< n + 1]" n]
  by (auto simp: dpq_Resize_def dpq_start_def dpq_shape_def simp del: upt_Suc)

lemma dpq_clear_fresh:
  assumes "dpq_shape q0" "0 < n"
  shows "\<exists>q. dpq_clear mem n q0 = Some q \<and> dpq_inv [MaxDist] q \<and> dpq_shape q"
proof (cases "n > dpq_size q0")
  case True
  then show ?thesis using dpq_Resize_fresh[OF assms(2), of mem] by (simp add: dpq_clear_def dpq_Resize_def)
next
  case False
  then have "n < length (dpq_data q0)" using assms by (simp add: dpq_shape_def)
  then show ?thesis
    using False assms dpq_start_inv(1)[of "dpq_size q0" "dpq_data q0" n]
    by (auto simp: dpq_clear_def dpq_start_def dpq_shape_def)
qed

lemma ws_Initialize_fresh:
  assumes "16 \<le> maxCheck"
  shows "\<exists>ws. ws_Initialize imem fmem maxCheck hashExp = Some ws \<and> ws_inv ws \<and> ws_fresh ws"
proof -
  have "0 < maxCheck div 16" using assms by auto
  from dpq_Resize_fresh[OF this, of fmem] show ?thesis
    using oh_Init_inv[of imem maxCheck hashExp] heap_Resize_inv[of ndp_less default_node]
    by (auto simp: ws_Initialize_def ws_inv_def ws_fresh_def)
qed

lemma ws_Reset_fresh:
  assumes "ws_inv ws" "0 < max (maxCheck div 16) resultNum"
  shows "\<exists>ws'. ws_Reset fmem maxCheck resultNum ws = Some ws' \<and> ws_inv ws' \<and> ws_fresh ws' \<and>
     maxCheck * 30 \<le> hp_length (m_NGQueue ws') \<and> maxCheck * 10 \<le> hp_length (m_SPTQueue ws')"
proof -
  have v: "oh_inv (oh_clear (nodeCheckStatus ws)) \<and> visited (oh_clear (nodeCheckStatus ws)) = {}"
    using assms(1) by (intro oh_clear_inv) (auto simp: ws_inv_def oh_inv_def table_ok_def second_clear_def)
  obtain q where "dpq_clear fmem (max (maxCheck div 16) resultNum) (m_Results ws) = Some q"
    "dpq_inv [MaxDist] q" "dpq_shape q"
    using dpq_clear_fresh[OF _ assms(2)] assms(1) by (auto simp: ws_inv_def)
  then show ?thesis
    using v assms(1) heap_clear_inv[of ndp_less _ default_node]
    by (auto simp: ws_Reset_def ws_inv_def ws_fresh_def)
qed

subsection \<open>Properties\<close>

text \<open>Resetting a workspace for a search that keeps at least one distance succeeds and leaves
  no trace of the search before: the visited set and both queues are empty, the best distances are
  only the sentinel, the counters are zero, and the queues have the room the budget asks for.\<close>

theorem workspace_reset_fresh:
  assumes "ws_inv ws" "0 < max (maxCheck div 16) resultNum"
  shows "\<exists>ws'. ws_Reset fmem maxCheck resultNum ws = Some ws' \<and> ws_inv ws' \<and> ws_fresh ws' \<and>
     maxCheck * 30 \<le> hp_length (m_NGQueue ws') \<and> maxCheck * 10 \<le> hp_length (m_SPTQueue ws')"
  by (rule ws_Reset_fresh[OF assms])

theorem workspace_reset_fresh_witness:
  "\<exists>ws ws'. ws_Initialize (\<lambda>_. 0) (\<lambda>_. 0) 16 0 = Some ws \<and> ws_Reset (\<lambda>_. 0) 16 4 ws = Some ws' \<and> ws_fresh ws'"
proof -
  obtain ws where ws: "ws_Initialize (\<lambda>_. 0) (\<lambda>_. 0) 16 0 = Some ws" "ws_inv ws"
    using ws_Initialize_fresh[of 16 "\<lambda>_. 0" "\<lambda>_. 0" 0] by auto
  show ?thesis using workspace_reset_fresh[OF ws(2), of 16 4 "\<lambda>_. 0"] ws(1) by auto
qed

text \<open>\<^verbatim>\<open>Initialize\<close> prepares a fresh workspace exactly when the budget is at least 16; below that
  the queue of distances is allocated with one cell and its cell 1 is written outside it.\<close>

theorem workspace_initialize:
  "(case ws_Initialize imem fmem maxCheck hashExp of
      None \<Rightarrow> maxCheck < 16
    | Some ws \<Rightarrow> 16 \<le> maxCheck \<and> ws_inv ws \<and> ws_fresh ws)"
proof (cases "maxCheck < 16")
  case True
  then show ?thesis by (simp add: ws_Initialize_def dpq_Resize_def dpq_start_def)
next
  case False
  then show ?thesis using ws_Initialize_fresh[of maxCheck imem fmem hashExp] by auto
qed

end
