(* ===== verification/Binary_Io.thy ===== *)
theory Binary_Io
  imports Sptag_Prelude
begin

text \<open>
  Byte arrays and binary streams: reading and overwriting a segment of a buffer (\<^verbatim>\<open>memcpy\<close> from and to
  a pointer with an offset), little-endian integers as the sources write them by
  \<^verbatim>\<open>(char*)&x\<close>, and the two directions of \<^verbatim>\<open>Helper::DiskIO\<close> (\<^verbatim>\<open>ReadBinary\<close>, \<^verbatim>\<open>WriteBinary\<close>) under the
  macro \<^verbatim>\<open>IOBINARY\<close> of \<^verbatim>\<open>Common.h\<close>: an operation that moves fewer bytes than asked ends the caller
  with \<open>DiskIOFail\<close>.
\<close>

subsection \<open>Segments of a buffer\<close>

definition seg_read :: "'a list \<Rightarrow> nat \<Rightarrow> nat \<Rightarrow> 'a list option" where
  "seg_read bs off n = (if off + n \<le> length bs then Some (take n (drop off bs)) else None)"

definition seg_write :: "'a list \<Rightarrow> nat \<Rightarrow> 'a list \<Rightarrow> 'a list option" where
  "seg_write bs off w =
     (if off + length w \<le> length bs then Some (take off bs @ w @ drop (off + length w) bs) else None)"

subsection \<open>Little-endian integers\<close>

fun le_encode :: "nat \<Rightarrow> nat \<Rightarrow> bytes" where
  "le_encode 0 n = []"
| "le_encode (Suc k) n = of_nat (n mod 256) # le_encode k (n div 256)"

fun le_decode :: "bytes \<Rightarrow> nat" where
  "le_decode [] = 0"
| "le_decode (b # bs) = unat b + 256 * le_decode bs"

text \<open>Two's complement in \<open>k\<close> bytes.\<close>

definition int_encode :: "nat \<Rightarrow> int \<Rightarrow> bytes" where
  "int_encode k x = le_encode k (nat (x mod 256 ^ k))"

definition int_decode :: "bytes \<Rightarrow> int" where
  "int_decode bs =
     (let u = int (le_decode bs); m = 256 ^ length bs in if 2 * u < m then u else u - m)"

subsection \<open>Streams\<close>

text \<open>An output stream: the bytes written, and the room that is left on the device.\<close>

record ostream =
  os_written :: bytes
  os_room :: nat

text \<open>An input stream is the list of the bytes not yet read. Both operations return \<^const>\<open>None\<close> where
  \<^verbatim>\<open>IOBINARY\<close> returns \<open>DiskIOFail\<close>.\<close>

definition WriteBinary :: "bytes \<Rightarrow> ostream \<Rightarrow> ostream option" where
  "WriteBinary bs os =
     (if length bs \<le> os_room os
      then Some (os\<lparr>os_written := os_written os @ bs, os_room := os_room os - length bs\<rparr>)
      else None)"

definition ReadBinary :: "nat \<Rightarrow> bytes \<Rightarrow> (bytes \<times> bytes) option" where
  "ReadBinary n is = (if n \<le> length is then Some (take n is, drop n is) else None)"

text \<open>A loop of writes stops at the first failure.\<close>

fun write_all :: "bytes list \<Rightarrow> ostream \<Rightarrow> ostream option" where
  "write_all [] os = Some os"
| "write_all (b # bs) os = (case WriteBinary b os of None \<Rightarrow> None | Some os' \<Rightarrow> write_all bs os')"

subsection \<open>Laws\<close>

lemma seg_read_write_same: "seg_write bs off w = Some bs' \<Longrightarrow> seg_read bs' off (length w) = Some w"
  by (auto simp: seg_write_def seg_read_def split: if_splits)

lemma seg_read_write_other:
  assumes "seg_write bs off w = Some bs'" "off' + n \<le> off \<or> off + length w \<le> off'"
  shows "seg_read bs' off' n = seg_read bs off' n"
proof -
  have w: "off + length w \<le> length bs" and bs': "bs' = take off bs @ w @ drop (off + length w) bs"
    using assms(1) by (auto simp: seg_write_def split: if_splits)
  have len: "length bs' = length bs" using w by (simp add: bs')
  have "take n (drop off' bs') = take n (drop off' bs)"
  proof (rule nth_equalityI)
    fix i assume "i < length (take n (drop off' bs'))"
    then show "take n (drop off' bs') ! i = take n (drop off' bs) ! i"
      using w assms(2) by (auto simp: bs' nth_append)
  qed (simp add: len)
  then show ?thesis by (simp add: seg_read_def len)
qed

lemma length_seg_write: "seg_write bs off w = Some bs' \<Longrightarrow> length bs' = length bs"
  by (auto simp: seg_write_def split: if_splits)

lemma length_seg_read: "seg_read bs off n = Some r \<Longrightarrow> length r = n"
  by (auto simp: seg_read_def split: if_splits)

lemma length_le_encode [simp]: "length (le_encode k n) = k"
  by (induction k n rule: le_encode.induct) auto

lemma le_decode_encode: "le_decode (le_encode k n) = n mod 256 ^ k"
proof (induction k n rule: le_encode.induct)
  case (2 k n)
  have "unat (of_nat (n mod 256) :: u8) = n mod 256" by (simp add: unat_of_nat)
  then show ?case using 2 by (simp add: mod_mult2_eq)
qed simp

lemma le_decode_bound: "le_decode bs < 256 ^ length bs"
proof (induction bs)
  case (Cons b bs)
  have "unat b < 256" by (rule order.strict_trans2 [OF unsigned_less]) simp
  then have "unat b + 256 * le_decode bs < 256 * Suc (le_decode bs)" by simp
  also have "\<dots> \<le> 256 * 256 ^ length bs" using Cons by (intro mult_le_mono2) simp
  finally show ?case by simp
qed simp

lemma length_int_encode [simp]: "length (int_encode k x) = k"
  by (simp add: int_encode_def)

lemma int_decode_encode [codec_facts]:
  assumes "- (256 ^ k) \<le> 2 * x" "2 * x < 256 ^ k"
  shows "int_decode (int_encode k x) = x"
proof -
  have "int (le_decode (int_encode k x)) = x mod 256 ^ k"
    by (simp add: int_encode_def le_decode_encode flip: of_nat_mod)
  moreover have "x mod 256 ^ k = (if 0 \<le> x then x else x + 256 ^ k)"
  proof (cases "0 \<le> x")
    case False
    then have "x mod 256 ^ k = (x + 256 ^ k) mod 256 ^ k" by simp
    also have "\<dots> = x + 256 ^ k" using assms(1) False by (intro mod_pos_pos_trivial) linarith+
    finally show ?thesis using False by simp
  qed (use assms in simp)
  ultimately show ?thesis using assms by (auto simp: int_decode_def Let_def)
qed

lemma write_all_written:
  "write_all bs os = Some os' \<Longrightarrow> os_written os' = os_written os @ concat bs"
  by (induction bs arbitrary: os) (auto simp: WriteBinary_def split: option.splits if_splits)

lemma write_all_room:
  "write_all bs os \<noteq> None \<longleftrightarrow> length (concat bs) \<le> os_room os"
  by (induction bs arbitrary: os) (auto simp: WriteBinary_def split: option.splits if_splits)

lemma ReadBinary_append [simp]: "length b = n \<Longrightarrow> ReadBinary n (b @ is) = Some (b, is)"
  by (simp add: ReadBinary_def)

end
