(* ===== verification/Dataset.thy ===== *)
theory Dataset
  imports Binary_Io
begin

text \<open>
  \<^verbatim>\<open>COMMON::Dataset<T>\<close> of \<^verbatim>\<open>inc/Core/Common/Dataset.h\<close>: the growable row store that holds vectors, graph
  rows, labels, versions, posting sizes and the block mapping. The model is byte-level: the first
  \<open>rows\<close> rows live in one buffer, later rows in blocks of \<open>rowsInBlock + 1 = 2 ^ rowsInBlockEx\<close> rows
  that \<^verbatim>\<open>AddBatch\<close> allocates. A pointer is a buffer and an offset; an access outside the buffer is
  \<^const>\<open>None\<close>. The owner flag and the sharing of a caller's buffer are not modelled: a buffer is
  its contents. \<^verbatim>\<open>rowsInBlock\<close> is always \<open>2 ^ rowsInBlockEx - 1\<close> in an initialised object and is
  computed from the exponent.
\<close>

subsection \<open>State\<close>

record dataset =
  ds_tsize :: nat          \<comment> \<open>\<^verbatim>\<open>sizeof(T)\<close>\<close>
  ds_rows :: nat
  ds_cols :: nat           \<comment> \<open>bytes from one row to the next\<close>
  ds_data :: "bytes option"
  ds_incRows :: nat
  ds_maxRows :: int
  ds_rowsInBlockEx :: nat
  ds_incBlocks :: "bytes list"
  ds_colStart :: nat       \<comment> \<open>bytes before the row's first element\<close>
  ds_mycols :: nat         \<comment> \<open>elements in a row\<close>

definition ds_empty :: "nat \<Rightarrow> dataset" where
  "ds_empty ts = \<lparr>ds_tsize = ts, ds_rows = 0, ds_cols = 1, ds_data = None, ds_incRows = 0,
     ds_maxRows = 2147483647, ds_rowsInBlockEx = 20, ds_incBlocks = [], ds_colStart = 0,
     ds_mycols = 0\<rparr>"

text \<open>\<^verbatim>\<open>ceil(log2(n))\<close>.\<close>

fun ceil_log2 :: "nat \<Rightarrow> nat" where
  "ceil_log2 n = (if n \<le> 1 then 0 else Suc (ceil_log2 ((n + 1) div 2)))"

declare ceil_log2.simps [simp del]

definition ds_rowsInBlock :: "dataset \<Rightarrow> nat" where
  "ds_rowsInBlock d = 2 ^ ds_rowsInBlockEx d - 1"

definition ds_Initialize ::
  "nat \<Rightarrow> nat \<Rightarrow> nat \<Rightarrow> int \<Rightarrow> bytes option \<Rightarrow> bytes list \<Rightarrow> int \<Rightarrow> int \<Rightarrow> dataset \<Rightarrow> dataset" where
  "ds_Initialize p_rows p_cols p_rowsInBlock p_capacity p_data p_incBlocks p_colStart p_rowEnd d =
     (let cols = (if p_rowEnd \<ge> p_colStart then nat p_rowEnd else p_cols * ds_tsize d) in
      d\<lparr>ds_rows := p_rows, ds_incRows := 0, ds_cols := cols,
        ds_data := Some (case p_data of Some b \<Rightarrow> b | None \<Rightarrow> replicate (p_rows * cols) 255),
        ds_maxRows := p_capacity, ds_rowsInBlockEx := ceil_log2 p_rowsInBlock,
        ds_incBlocks := p_incBlocks, ds_colStart := nat p_colStart, ds_mycols := p_cols\<rparr>)"

text \<open>The call with the default arguments, which allocates the rows and fills them with \<open>0xff\<close>.\<close>

definition ds_Init :: "nat \<Rightarrow> nat \<Rightarrow> nat \<Rightarrow> int \<Rightarrow> dataset \<Rightarrow> dataset" where
  "ds_Init p_rows p_cols p_rowsInBlock p_capacity d =
     ds_Initialize p_rows p_cols p_rowsInBlock p_capacity None [] 0 (- 1) d"

definition ds_IsReady :: "dataset \<Rightarrow> bool" where
  "ds_IsReady d \<longleftrightarrow> ds_data d \<noteq> None"

definition ds_SetR :: "nat \<Rightarrow> dataset \<Rightarrow> dataset" where
  "ds_SetR r d =
     (if r \<ge> ds_rows d then d\<lparr>ds_incRows := r - ds_rows d\<rparr>
      else d\<lparr>ds_rows := r, ds_incRows := 0\<rparr>)"

definition ds_R :: "dataset \<Rightarrow> nat" where
  "ds_R d = ds_rows d + ds_incRows d"

definition ds_C :: "dataset \<Rightarrow> nat" where
  "ds_C d = ds_mycols d"

definition ds_BufferSize :: "dataset \<Rightarrow> nat" where
  "ds_BufferSize d = 4 + 4 + ds_tsize d * ds_R d * ds_C d"

subsection \<open>Addressing\<close>

datatype ds_ptr = PData nat | PBlock nat nat

definition ds_At :: "dataset \<Rightarrow> int \<Rightarrow> ds_ptr option" where
  "ds_At d index =
     (if index < 0 then None
      else if index \<ge> int (ds_rows d) then
        (let incIndex = nat index - ds_rows d in
         Some (PBlock (drop_bit (ds_rowsInBlockEx d) incIndex)
                 (and incIndex (ds_rowsInBlock d) * ds_cols d + ds_colStart d)))
      else Some (PData (nat index * ds_cols d + ds_colStart d)))"

definition ptr_read :: "dataset \<Rightarrow> ds_ptr \<Rightarrow> nat \<Rightarrow> bytes option" where
  "ptr_read d p n =
     (case p of
        PData off \<Rightarrow> (case ds_data d of None \<Rightarrow> None | Some b \<Rightarrow> seg_read b off n)
      | PBlock k off \<Rightarrow> if k < length (ds_incBlocks d) then seg_read (ds_incBlocks d ! k) off n else None)"

definition ptr_write :: "dataset \<Rightarrow> ds_ptr \<Rightarrow> bytes \<Rightarrow> dataset option" where
  "ptr_write d p w =
     (case p of
        PData off \<Rightarrow>
          (case ds_data d of None \<Rightarrow> None
           | Some b \<Rightarrow> map_option (\<lambda>b'. d\<lparr>ds_data := Some b'\<rparr>) (seg_write b off w))
      | PBlock k off \<Rightarrow>
          if k < length (ds_incBlocks d)
          then map_option (\<lambda>b'. d\<lparr>ds_incBlocks := (ds_incBlocks d)[k := b']\<rparr>)
                 (seg_write (ds_incBlocks d ! k) off w)
          else None)"

text \<open>A row through the pointer: \<open>sizeof(T) * mycols\<close> bytes.\<close>

definition ds_width :: "dataset \<Rightarrow> nat" where
  "ds_width d = ds_tsize d * ds_mycols d"

definition ds_read :: "dataset \<Rightarrow> int \<Rightarrow> bytes option" where
  "ds_read d index = Option.bind (ds_At d index) (\<lambda>p. ptr_read d p (ds_width d))"

definition ds_write :: "dataset \<Rightarrow> int \<Rightarrow> bytes \<Rightarrow> dataset option" where
  "ds_write d index w = Option.bind (ds_At d index) (\<lambda>p. ptr_write d p w)"

subsection \<open>Growing\<close>

text \<open>The \<^verbatim>\<open>memcpy\<close> of \<open>toWrite\<close> rows into one block.\<close>

fun addbatch_copy :: "nat \<Rightarrow> nat \<Rightarrow> nat \<Rightarrow> nat \<Rightarrow> nat \<Rightarrow> bytes \<Rightarrow> dataset \<Rightarrow> dataset option" where
  "addbatch_copy 0 i curBlockIdx curBlockPos written pData d = Some d"
| "addbatch_copy (Suc n) i curBlockIdx curBlockPos written pData d =
     (case seg_read pData ((written + i) * ds_width d) (ds_width d) of
        None \<Rightarrow> None
      | Some r \<Rightarrow>
          (case ptr_write d (PBlock curBlockIdx ((curBlockPos + i) * ds_cols d + ds_colStart d)) r of
             None \<Rightarrow> None
           | Some d' \<Rightarrow> addbatch_copy n (Suc i) curBlockIdx curBlockPos written pData d'))"

text \<open>One block is pushed when the write position is past the last one; \<open>allocs\<close> is the number of
  block allocations that still succeed.\<close>

definition addbatch_block :: "nat \<Rightarrow> nat \<Rightarrow> dataset \<Rightarrow> (nat \<times> dataset) option" where
  "addbatch_block allocs curBlockIdx d =
     (if curBlockIdx \<ge> length (ds_incBlocks d) then
        (if allocs = 0 then None
         else Some (allocs - 1,
           d\<lparr>ds_incBlocks := ds_incBlocks d @ [replicate ((ds_rowsInBlock d + 1) * ds_cols d) 255]\<rparr>))
      else Some (allocs, d))"

function addbatch_loop ::
  "nat \<Rightarrow> nat \<Rightarrow> nat \<Rightarrow> bytes option \<Rightarrow> dataset \<Rightarrow> (ErrorCode \<times> nat \<times> dataset) option" where
  "addbatch_loop allocs num written pData d =
     (if written < num then
        (let pos = ds_incRows d + written;
             curBlockIdx = drop_bit (ds_rowsInBlockEx d) pos in
         case addbatch_block allocs curBlockIdx d of
           None \<Rightarrow> Some (MemoryOverFlow, written, d)
         | Some (allocs', d') \<Rightarrow>
             (let curBlockPos = and pos (ds_rowsInBlock d);
                  toWrite = min (ds_rowsInBlock d + 1 - curBlockPos) (num - written) in
              case (case pData of None \<Rightarrow> Some d'
                    | Some p \<Rightarrow> addbatch_copy toWrite 0 curBlockIdx curBlockPos written p d') of
                None \<Rightarrow> None
              | Some d'' \<Rightarrow> addbatch_loop allocs' num (written + toWrite) pData d''))
      else Some (Success, written, d))"
  by pat_completeness auto
termination
proof (relation "measure (\<lambda>(a, num, written, p, d). num - written)", goal_cases)
  case (2 allocs num written pData d x xa xb x2 y xc xd xe)
  have "and x (ds_rowsInBlock d) \<le> ds_rowsInBlock d" 
    using take_bit_nat_less_exp [of "ds_rowsInBlockEx d" x]
    by (simp add: ds_rowsInBlock_def take_bit_eq_mask mask_eq_exp_minus_1)
  then show ?case using 2 by (auto simp: min_def)
qed auto

declare addbatch_loop.simps [simp del]

text \<open>\<^verbatim>\<open>AddBatch\<close>: a column view (\<open>colStart \<noteq> 0\<close>) leaves the growing to the owner of the blocks; a
  failed allocation leaves the blocks that were pushed but not the new row count.\<close>

definition ds_AddBatch :: "nat \<Rightarrow> int \<Rightarrow> bytes option \<Rightarrow> dataset \<Rightarrow> (ErrorCode \<times> dataset) option" where
  "ds_AddBatch allocs num pData d =
     (if ds_colStart d \<noteq> 0 then Some (Success, d)
      else if int (ds_R d) > ds_maxRows d - num then Some (MemoryOverFlow, d)
      else
        (case addbatch_loop allocs (nat num) 0 pData d of
           None \<Rightarrow> None
         | Some (Success, written, d') \<Rightarrow> Some (Success, d'\<lparr>ds_incRows := ds_incRows d' + written\<rparr>)
         | Some (e, written, d') \<Rightarrow> Some (e, d')))"

subsection \<open>Saving, loading, refining\<close>

fun save_rows :: "int list \<Rightarrow> dataset \<Rightarrow> ostream \<Rightarrow> (ErrorCode \<times> ostream) option" where
  "save_rows [] d os = Some (Success, os)"
| "save_rows (i # is) d os =
     (case ds_read d i of
        None \<Rightarrow> None
      | Some r \<Rightarrow>
          (case WriteBinary r os of
             None \<Rightarrow> Some (DiskIOFail, os)
           | Some os' \<Rightarrow> save_rows is d os'))"

definition save_header :: "nat \<Rightarrow> nat \<Rightarrow> ostream \<Rightarrow> ostream option" where
  "save_header r c os =
     Option.bind (WriteBinary (int_encode 4 (int r)) os) (WriteBinary (int_encode 4 (int c)))"

definition ds_Save :: "dataset \<Rightarrow> ostream \<Rightarrow> (ErrorCode \<times> ostream) option" where
  "ds_Save d os =
     (case save_header (ds_R d) (ds_mycols d) os of
        None \<Rightarrow> Some (DiskIOFail, os)
      | Some os' \<Rightarrow> save_rows (map int [0..<ds_R d]) d os')"

definition ds_Save_file :: "dataset \<Rightarrow> ostream option \<Rightarrow> (ErrorCode \<times> ostream option) option" where
  "ds_Save_file d ptr =
     (case ptr of None \<Rightarrow> Some (FailedCreateFile, None)
      | Some os \<Rightarrow> map_option (\<lambda>(e, os'). (e, Some os')) (ds_Save d os))"

fun load_rows :: "nat \<Rightarrow> nat \<Rightarrow> dataset \<Rightarrow> bytes \<Rightarrow> (ErrorCode \<times> dataset \<times> bytes) option" where
  "load_rows 0 i d inp = Some (Success, d, inp)"
| "load_rows (Suc n) i d inp =
     (case ReadBinary (ds_width d) inp of
        None \<Rightarrow> Some (DiskIOFail, d, inp)
      | Some (r, inp') \<Rightarrow>
          (case ds_write d (int i) r of
             None \<Rightarrow> None
           | Some d' \<Rightarrow> load_rows n (Suc i) d' inp'))"

definition load_header :: "bytes \<Rightarrow> (int \<times> int \<times> bytes) option" where
  "load_header inp =
     Option.bind (ReadBinary 4 inp) (\<lambda>(r, inp').
     Option.bind (ReadBinary 4 inp') (\<lambda>(c, inp'').
       Some (int_decode r, int_decode c, inp'')))"

text \<open>\<^verbatim>\<open>Load\<close> keeps the buffer when it already has the right number of rows. A negative count in the
  file makes the allocation size of \<^verbatim>\<open>Initialize\<close> meaningless; the model gives \<^const>\<open>None\<close> there.\<close>

definition ds_Load :: "nat \<Rightarrow> int \<Rightarrow> bytes \<Rightarrow> dataset \<Rightarrow> (ErrorCode \<times> dataset \<times> bytes) option" where
  "ds_Load blockSize capacity inp d =
     (case load_header inp of
        None \<Rightarrow> Some (DiskIOFail, d, inp)
      | Some (r, c, inp') \<Rightarrow>
          if r < 0 \<or> c < 0 then None
          else
            (let d' = (if \<not> ds_IsReady d \<or> nat r \<noteq> ds_R d
                       then ds_Init (nat r) (nat c) blockSize capacity d else d) in
             load_rows (nat r) 0 d' inp'))"

definition ds_Load_file ::
  "nat \<Rightarrow> int \<Rightarrow> bytes option \<Rightarrow> dataset \<Rightarrow> (ErrorCode \<times> dataset) option" where
  "ds_Load_file blockSize capacity ptr d =
     (case ptr of None \<Rightarrow> Some (FailedOpenFile, d)
      | Some inp \<Rightarrow> map_option (\<lambda>(e, d', rest). (e, d')) (ds_Load blockSize capacity inp d))"

text \<open>Loading from a memory-mapped file: the rows are used where they are.\<close>

definition ds_Load_mem :: "nat \<Rightarrow> int \<Rightarrow> bytes \<Rightarrow> dataset \<Rightarrow> (ErrorCode \<times> dataset) option" where
  "ds_Load_mem blockSize capacity mem d =
     (case load_header mem of
        None \<Rightarrow> None
      | Some (r, c, mem') \<Rightarrow>
          if r < 0 \<or> c < 0 then None
          else Some (Success, ds_Initialize (nat r) (nat c) blockSize capacity (Some mem') [] 0 (- 1) d))"

fun refine_rows :: "nat \<Rightarrow> int list \<Rightarrow> dataset \<Rightarrow> dataset \<Rightarrow> dataset option" where
  "refine_rows i [] src d = Some d"
| "refine_rows i (x # xs) src d =
     (case ds_read src x of
        None \<Rightarrow> None
      | Some r \<Rightarrow> (case ds_write d (int i) r of None \<Rightarrow> None | Some d' \<Rightarrow> refine_rows (Suc i) xs src d'))"

text \<open>\<^verbatim>\<open>Refine\<close> into another data set; \<open>blocksCapacity\<close> is what \<^verbatim>\<open>incBlocks->capacity()\<close> returns.\<close>

definition ds_Refine :: "nat \<Rightarrow> int list \<Rightarrow> dataset \<Rightarrow> dataset \<Rightarrow> (ErrorCode \<times> dataset) option" where
  "ds_Refine blocksCapacity indices src d =
     (let d' = (if \<not> ds_IsReady d
                then ds_Init (length indices) (ds_mycols src) (ds_rowsInBlock src + 1)
                       (to_int32 (int (blocksCapacity * (ds_rowsInBlock src + 1)))) d
                else d) in
      map_option (Pair Success) (refine_rows 0 indices src d'))"

definition ds_Refine_stream :: "int list \<Rightarrow> dataset \<Rightarrow> ostream \<Rightarrow> (ErrorCode \<times> ostream) option" where
  "ds_Refine_stream indices d os =
     (case save_header (length indices) (ds_mycols d) os of
        None \<Rightarrow> Some (DiskIOFail, os)
      | Some os' \<Rightarrow> save_rows indices d os')"

definition ds_Refine_file ::
  "int list \<Rightarrow> dataset \<Rightarrow> ostream option \<Rightarrow> (ErrorCode \<times> ostream option) option" where
  "ds_Refine_file indices d ptr =
     (case ptr of None \<Rightarrow> Some (FailedCreateFile, None)
      | Some os \<Rightarrow> map_option (\<lambda>(e, os'). (e, Some os')) (ds_Refine_stream indices d os))"

subsection \<open>Well-formed data sets and their rows\<close>

definition ds_cap :: "dataset \<Rightarrow> nat" where
  "ds_cap d = ds_rows d + length (ds_incBlocks d) * 2 ^ ds_rowsInBlockEx d"

definition ds_store_ok :: "dataset \<Rightarrow> bool" where
  "ds_store_ok d \<longleftrightarrow>
     (\<exists>b. ds_data d = Some b \<and> ds_rows d * ds_cols d \<le> length b) \<and>
     ds_colStart d + ds_width d \<le> ds_cols d \<and>
     (\<forall>b \<in> set (ds_incBlocks d). length b = 2 ^ ds_rowsInBlockEx d * ds_cols d)"

definition ds_inv :: "dataset \<Rightarrow> bool" where
  "ds_inv d \<longleftrightarrow> ds_store_ok d \<and> ds_R d \<le> ds_cap d"

definition ds_row :: "dataset \<Rightarrow> nat \<Rightarrow> bytes" where
  "ds_row d i = (case ds_read d (int i) of Some r \<Rightarrow> r | None \<Rightarrow> [])"

definition ds_cells :: "dataset \<Rightarrow> bytes list" where
  "ds_cells d = map (ds_row d) [0..<ds_R d]"

text \<open>The rows of a caller's buffer.\<close>

definition rows_of :: "nat \<Rightarrow> nat \<Rightarrow> bytes \<Rightarrow> bytes list" where
  "rows_of w n p = map (\<lambda>i. take w (drop (i * w) p)) [0..<n]"

text \<open>What a write does not touch.\<close>

definition same_shape :: "dataset \<Rightarrow> dataset \<Rightarrow> bool" where
  "same_shape d d' \<longleftrightarrow>
     ds_tsize d' = ds_tsize d \<and> ds_rows d' = ds_rows d \<and> ds_cols d' = ds_cols d \<and>
     ds_incRows d' = ds_incRows d \<and> ds_maxRows d' = ds_maxRows d \<and>
     ds_rowsInBlockEx d' = ds_rowsInBlockEx d \<and> ds_colStart d' = ds_colStart d \<and>
     ds_mycols d' = ds_mycols d"

text \<open>Two accesses that do not overlap.\<close>

definition ptr_apart :: "ds_ptr \<Rightarrow> nat \<Rightarrow> ds_ptr \<Rightarrow> nat \<Rightarrow> bool" where
  "ptr_apart p m q n \<longleftrightarrow>
     (case (p, q) of
        (PData a, PData b) \<Rightarrow> b + n \<le> a \<or> a + m \<le> b
      | (PBlock k a, PBlock l b) \<Rightarrow> k \<noteq> l \<or> b + n \<le> a \<or> a + m \<le> b
      | _ \<Rightarrow> True)"

text \<open>The row that a position holds, or will hold when the block that contains it is pushed, and the
  rows after \<^verbatim>\<open>AddBatch\<close>.\<close>

definition spare_row :: "dataset \<Rightarrow> nat \<Rightarrow> bytes" where
  "spare_row d j = (if j < ds_cap d then ds_row d j else replicate (ds_width d) 255)"

definition batch_row :: "bytes option \<Rightarrow> nat \<Rightarrow> dataset \<Rightarrow> nat \<Rightarrow> bytes" where
  "batch_row pData written d j =
     (case pData of
        Some p \<Rightarrow> if ds_R d + written \<le> j then take (ds_width d) (drop ((j - ds_R d) * ds_width d) p)
                  else spare_row d j
      | None \<Rightarrow> spare_row d j)"

text \<open>The rows past the end that are already allocated are untouched.\<close>

definition fresh_spare :: "dataset \<Rightarrow> bool" where
  "fresh_spare d \<longleftrightarrow> (\<forall>j \<in> {ds_R d..<ds_cap d}. ds_row d j = replicate (ds_width d) 255)"

text \<open>A data set of two rows of two 16-bit elements, with blocks of two rows.\<close>

definition sample_dataset :: dataset where
  "sample_dataset = ds_Init 2 2 2 10 (ds_empty 2)"

subsection \<open>Addresses\<close>

lemma and_rowsInBlock: "and i (ds_rowsInBlock d) = i mod 2 ^ ds_rowsInBlockEx d"
  by (simp add: ds_rowsInBlock_def take_bit_eq_mask mask_eq_exp_minus_1 flip: take_bit_eq_mod)

lemma Suc_rowsInBlock: "ds_rowsInBlock d + 1 = 2 ^ ds_rowsInBlockEx d"
  by (simp add: ds_rowsInBlock_def)

lemma ds_At_int:
  "ds_At d (int i) = Some (
     if i < ds_rows d then PData (i * ds_cols d + ds_colStart d)
     else PBlock ((i - ds_rows d) div 2 ^ ds_rowsInBlockEx d)
            ((i - ds_rows d) mod 2 ^ ds_rowsInBlockEx d * ds_cols d + ds_colStart d))"
  by (simp add: ds_At_def and_rowsInBlock drop_bit_eq_div Let_def)

lemma row_in_buffer:
  fixes i n c s w :: nat
  assumes "i < n" "s + w \<le> c"
  shows "i * c + s + w \<le> n * c"
proof -
  have "i * c + s + w \<le> Suc i * c" using assms(2) by simp
  also have "\<dots> \<le> n * c" using assms(1) by (intro mult_le_mono1) simp
  finally show ?thesis .
qed

lemma rows_disjoint:
  fixes i j c s w :: nat
  assumes "i \<noteq> j" "s + w \<le> c"
  shows "j * c + s + w \<le> i * c + s \<or> i * c + s + w \<le> j * c + s"
  using assms row_in_buffer[of i j s w c] row_in_buffer[of j i s w c] by (cases "i < j") auto

lemma block_index:
  assumes "ds_rows d \<le> i" "i < ds_cap d"
  shows "(i - ds_rows d) div 2 ^ ds_rowsInBlockEx d < length (ds_incBlocks d)"
  using assms by (simp add: ds_cap_def less_mult_imp_div_less)

lemma ds_read_ok:
  assumes "ds_store_ok d" "i < ds_cap d"
  obtains r where "ds_read d (int i) = Some r" "length r = ds_width d"
proof (cases "i < ds_rows d")
  case True
  obtain b where b: "ds_data d = Some b" "ds_rows d * ds_cols d \<le> length b"
    using assms(1) by (auto simp: ds_store_ok_def)
  have "i * ds_cols d + ds_colStart d + ds_width d \<le> ds_rows d * ds_cols d"
    by (rule row_in_buffer) (use True assms(1) in \<open>auto simp: ds_store_ok_def\<close>)
  then show thesis using that True b by (simp add: ds_read_def ds_At_int ptr_read_def seg_read_def)
next
  case False
  let ?k = "(i - ds_rows d) div 2 ^ ds_rowsInBlockEx d"
  let ?p = "(i - ds_rows d) mod 2 ^ ds_rowsInBlockEx d"
  have k: "?k < length (ds_incBlocks d)" using block_index False assms(2) by simp
  then have "length (ds_incBlocks d ! ?k) = 2 ^ ds_rowsInBlockEx d * ds_cols d"
    using assms(1) by (auto simp: ds_store_ok_def)
  moreover have "?p * ds_cols d + ds_colStart d + ds_width d \<le> 2 ^ ds_rowsInBlockEx d * ds_cols d"
    by (rule row_in_buffer) (use assms(1) in \<open>auto simp: ds_store_ok_def\<close>)
  ultimately show thesis
    using that False k by (simp add: ds_read_def ds_At_int ptr_read_def seg_read_def)
qed

lemma ptr_write_ok_iff: "ptr_write d p w = None \<longleftrightarrow> ptr_read d p (length w) = None"
  by (auto simp: ptr_write_def ptr_read_def seg_read_def seg_write_def split: ds_ptr.splits option.splits)

lemma ptr_write_frame:
  assumes "ptr_write d p w = Some d'"
  shows "same_shape d d'" "map length (ds_incBlocks d') = map length (ds_incBlocks d)"
    "map_option length (ds_data d') = map_option length (ds_data d)"
  using assms length_seg_write
  by (fastforce simp: ptr_write_def same_shape_def map_update list_update_same_conv
      split: ds_ptr.splits option.splits if_splits)+

lemma ptr_read_write_same: "ptr_write d p w = Some d' \<Longrightarrow> ptr_read d' p (length w) = Some w"
  by (auto simp: ptr_write_def ptr_read_def seg_read_write_same
      split: ds_ptr.splits option.splits if_splits)

lemma ptr_read_write_apart:
  assumes "ptr_write d p w = Some d'" "ptr_apart p (length w) q n"
  shows "ptr_read d' q n = ptr_read d q n"
proof (cases p)
  case (PData a)
  then show ?thesis
    using assms by (auto simp: ptr_write_def ptr_read_def ptr_apart_def seg_read_write_other
        split: ds_ptr.splits option.splits)
next
  case (PBlock k a)
  then show ?thesis
    using assms by (auto simp: ptr_write_def ptr_read_def ptr_apart_def seg_read_write_other nth_list_update
        split: ds_ptr.splits option.splits if_splits)
qed

lemma ds_At_apart:
  assumes "ds_store_ok d" "i \<noteq> j" "ds_At d (int i) = Some p" "ds_At d (int j) = Some q"
  shows "ptr_apart p (ds_width d) q (ds_width d)"
proof -
  have w: "ds_colStart d + ds_width d \<le> ds_cols d" using assms(1) by (simp add: ds_store_ok_def)
  have *: "(i - ds_rows d) mod 2 ^ ds_rowsInBlockEx d \<noteq> (j - ds_rows d) mod 2 ^ ds_rowsInBlockEx d"
    if "\<not> i < ds_rows d" "\<not> j < ds_rows d"
      "(i - ds_rows d) div 2 ^ ds_rowsInBlockEx d = (j - ds_rows d) div 2 ^ ds_rowsInBlockEx d"
    using that assms(2) by (metis div_mult_mod_eq eq_diff_iff not_less)
  show ?thesis
    using assms(2-4) rows_disjoint[OF _ w] *
    by (fastforce simp: ds_At_int ptr_apart_def add.assoc split: if_splits)
qed

subsection \<open>Rows as an array of cells\<close>

lemma same_shape_facts:
  assumes "same_shape d d'"
  shows "ds_At d' = ds_At d" "ds_width d' = ds_width d" "ds_R d' = ds_R d"
    "ds_rowsInBlock d' = ds_rowsInBlock d"
  using assms by (auto simp: same_shape_def fun_eq_iff ds_At_def ds_width_def ds_R_def ds_rowsInBlock_def)

lemma same_shape_refl [simp]: "same_shape d d"
  by (simp add: same_shape_def)

lemma same_shape_trans: "same_shape a b \<Longrightarrow> same_shape b c \<Longrightarrow> same_shape a c"
  by (simp add: same_shape_def)

lemma store_ok_frame:
  assumes "ds_store_ok d" "same_shape d d'"
    "map length (ds_incBlocks d') = map length (ds_incBlocks d)"
    "map_option length (ds_data d') = map_option length (ds_data d)"
  shows "ds_store_ok d'" "ds_cap d' = ds_cap d"
proof -
  have "length ` set (ds_incBlocks d') = length ` set (ds_incBlocks d)"
    using assms(3) by (metis list.set_map)
  moreover have "length (ds_incBlocks d') = length (ds_incBlocks d)"
    using assms(3) by (metis length_map)
  ultimately show "ds_store_ok d'" "ds_cap d' = ds_cap d"
    using assms same_shape_facts[OF assms(2)]
    by (auto simp: ds_store_ok_def ds_cap_def same_shape_def image_iff set_eq_iff)
qed

lemma ds_write_laws:
  assumes "ds_store_ok d" "i < ds_cap d" "length v = ds_width d"
  obtains d' where "ds_write d (int i) v = Some d'" "same_shape d d'" "ds_store_ok d'"
    "ds_cap d' = ds_cap d" "ds_read d' (int i) = Some v"
    "\<And>j. j \<noteq> i \<Longrightarrow> ds_read d' (int j) = ds_read d (int j)"
proof -
  obtain r where r: "ds_read d (int i) = Some r" using ds_read_ok assms(1,2) by blast
  then obtain p where p: "ds_At d (int i) = Some p" "ptr_read d p (ds_width d) = Some r"
    by (auto simp: ds_read_def Option.bind_eq_Some_conv)
  have "ptr_write d p v \<noteq> None" using p(2) assms(3) by (simp add: ptr_write_ok_iff)
  then obtain d' where d': "ptr_write d p v = Some d'" by auto
  note fr = ptr_write_frame[OF d']
  note sh = same_shape_facts[OF fr(1)]
  show thesis
  proof (rule that)
    show "ds_write d (int i) v = Some d'" using p d' by (simp add: ds_write_def)
    show "same_shape d d'" by (rule fr)
    show "ds_store_ok d'" "ds_cap d' = ds_cap d" using store_ok_frame[OF assms(1) fr] by auto
    show "ds_read d' (int i) = Some v"
      using p ptr_read_write_same[OF d'] assms(3) by (simp add: ds_read_def sh)
    show "ds_read d' (int j) = ds_read d (int j)" if "j \<noteq> i" for j
    proof (cases "ds_At d (int j)")
      case (Some q)
      then have "ptr_apart p (length v) q (ds_width d)"
        using ds_At_apart[OF assms(1) that[symmetric] p(1) Some] assms(3) by simp
      then show ?thesis using Some ptr_read_write_apart[OF d'] by (simp add: ds_read_def sh)
    qed (simp add: ds_read_def sh)
  qed
qed

lemma length_ds_row: "ds_store_ok d \<Longrightarrow> i < ds_cap d \<Longrightarrow> length (ds_row d i) = ds_width d"
  by (metis ds_read_ok ds_row_def option.simps(5))

lemma ds_read_row: "ds_store_ok d \<Longrightarrow> i < ds_cap d \<Longrightarrow> ds_read d (int i) = Some (ds_row d i)"
  by (metis ds_read_ok ds_row_def option.simps(5))

lemma ds_cells_nth: "i < ds_R d \<Longrightarrow> ds_cells d ! i = ds_row d i"
  by (simp add: ds_cells_def)

lemma length_ds_cells [simp]: "length (ds_cells d) = ds_R d"
  by (simp add: ds_cells_def)

lemma ds_read_cells: "ds_inv d \<Longrightarrow> i < ds_R d \<Longrightarrow> ds_read d (int i) = Some (ds_cells d ! i)"
  by (simp add: ds_inv_def ds_read_row ds_cells_nth)

text \<open>A write in range updates one cell of the array.\<close>

lemma ds_write_cells:
  assumes "ds_inv d" "i < ds_R d" "length v = ds_width d"
  obtains d' where "ds_write d (int i) v = Some d'" "ds_inv d'" "ds_cells d' = (ds_cells d)[i := v]"
    "same_shape d d'" "ds_cap d' = ds_cap d"
proof -
  have i: "i < ds_cap d" using assms by (simp add: ds_inv_def)
  from ds_write_laws[OF _ i assms(3)] assms(1) obtain d' where
    d': "ds_write d (int i) v = Some d'" "same_shape d d'" "ds_store_ok d'" "ds_cap d' = ds_cap d"
      "ds_read d' (int i) = Some v" "\<And>j. j \<noteq> i \<Longrightarrow> ds_read d' (int j) = ds_read d (int j)"
    unfolding ds_inv_def by blast
  note sh = same_shape_facts[OF d'(2)]
  show thesis
  proof (rule that)
    show "ds_inv d'" using d' assms(1) by (simp add: ds_inv_def sh)
    show "ds_cells d' = (ds_cells d)[i := v]"
      by (rule nth_equalityI)
        (use d'(5,6) in \<open>auto simp: sh ds_cells_nth nth_list_update ds_row_def assms(2)\<close>)
  qed (use d' in auto)
qed

lemma ds_cells_width: "ds_inv d \<Longrightarrow> r \<in> set (ds_cells d) \<Longrightarrow> length r = ds_width d"
  by (auto simp: ds_cells_def ds_inv_def intro!: length_ds_row)

subsection \<open>Growing\<close>

lemma block_address:
  assumes "q < 2 ^ ds_rowsInBlockEx d"
  shows "ds_At d (int (ds_rows d + k * 2 ^ ds_rowsInBlockEx d + q)) =
           Some (PBlock k (q * ds_cols d + ds_colStart d))"
  using assms by (subst ds_At_int) simp

lemma addbatch_copy_rows:
  assumes "ds_store_ok d" "k < length (ds_incBlocks d)" "pos + i + n \<le> 2 ^ ds_rowsInBlockEx d"
    "(written + i + n) * ds_width d \<le> length p"
  shows "\<exists>d'. addbatch_copy n i k pos written p d = Some d' \<and> same_shape d d' \<and> ds_store_ok d' \<and>
     ds_cap d' = ds_cap d \<and> length (ds_incBlocks d') = length (ds_incBlocks d) \<and>
     (\<forall>j. ds_read d' (int j) =
       (let b = ds_rows d + k * 2 ^ ds_rowsInBlockEx d + pos in
        if b + i \<le> j \<and> j < b + i + n
        then Some (take (ds_width d) (drop ((written + (j - b)) * ds_width d) p))
        else ds_read d (int j)))"
  using assms
proof (induction n arbitrary: i d)
  case (Suc n)
  let ?w = "ds_width d" and ?b = "ds_rows d + k * 2 ^ ds_rowsInBlockEx d + pos"
  let ?r = "take ?w (drop ((written + i) * ?w) p)"
  have len: "(written + i) * ?w + ?w \<le> length p"
  proof -
    have "(written + i) * ?w + ?w \<le> (written + i + Suc n) * ?w" by (simp add: algebra_simps)
    then show ?thesis using Suc.prems(4) by linarith
  qed
  have cap: "?b + i < ds_cap d"
  proof -
    have "k * 2 ^ ds_rowsInBlockEx d + (pos + i) < Suc k * 2 ^ ds_rowsInBlockEx d"
      using Suc.prems(3) by simp
    also have "\<dots> \<le> length (ds_incBlocks d) * 2 ^ ds_rowsInBlockEx d"
      using Suc.prems(2) by (intro mult_le_mono1) simp
    finally show ?thesis by (simp add: ds_cap_def)
  qed
  obtain d1 where d1: "ds_write d (int (?b + i)) ?r = Some d1" "same_shape d d1" "ds_store_ok d1"
    "ds_cap d1 = ds_cap d" "ds_read d1 (int (?b + i)) = Some ?r"
    "\<And>j. j \<noteq> ?b + i \<Longrightarrow> ds_read d1 (int j) = ds_read d (int j)"
    using ds_write_laws[OF Suc.prems(1) cap, of ?r] len by auto
  have sh: "ds_rows d1 = ds_rows d" "ds_rowsInBlockEx d1 = ds_rowsInBlockEx d" "ds_width d1 = ?w"
    using d1(2) same_shape_facts[OF d1(2)] by (auto simp: same_shape_def)
  have bl: "length (ds_incBlocks d1) = length (ds_incBlocks d)"
    using d1(4) sh by (simp add: ds_cap_def)
  have w: "ptr_write d (PBlock k ((pos + i) * ds_cols d + ds_colStart d)) ?r = Some d1"
    using d1(1) Suc.prems(3) block_address[of "pos + i" d k]
    by (simp add: ds_write_def add.assoc)
  obtain d' where d': "addbatch_copy n (Suc i) k pos written p d1 = Some d'" "same_shape d1 d'"
    "ds_store_ok d'" "ds_cap d' = ds_cap d1" "length (ds_incBlocks d') = length (ds_incBlocks d1)"
    "\<And>j. ds_read d' (int j) =
       (if ?b + Suc i \<le> j \<and> j < ?b + Suc i + n then Some (take ?w (drop ((written + (j - ?b)) * ?w) p))
        else ds_read d1 (int j))"
    using Suc.IH[of d1 "Suc i"] Suc.prems d1(3) unfolding Let_def sh bl by auto
  have "ds_read d' (int j) =
      (if ?b + i \<le> j \<and> j < ?b + i + Suc n then Some (take ?w (drop ((written + (j - ?b)) * ?w) p))
       else ds_read d (int j))" for j
    using d'(6)[of j] d1(5) d1(6)[of j] by (cases "j = ?b + i") auto
  then show ?case
    using w len d' d1 bl by (auto simp: seg_read_def Let_def intro: same_shape_trans)
qed (auto simp: Let_def)

lemma addbatch_block_push:
  assumes "ds_store_ok d" "addbatch_block allocs k d = Some (allocs', d')" "k \<le> length (ds_incBlocks d)"
  shows "same_shape d d'" "ds_store_ok d'" "k < length (ds_incBlocks d')"
    "spare_row d' = spare_row d" "length (ds_incBlocks d') + allocs' = length (ds_incBlocks d) + allocs"
    "ds_cap d \<le> ds_cap d'"
proof -
  let ?n = "replicate ((ds_rowsInBlock d + 1) * ds_cols d) 255 :: bytes"
  have cases: "(d' = d \<and> allocs' = allocs \<and> k < length (ds_incBlocks d)) \<or>
      (d' = d\<lparr>ds_incBlocks := ds_incBlocks d @ [?n]\<rparr> \<and> allocs = Suc allocs' \<and> k = length (ds_incBlocks d))"
    using assms(2,3) by (auto simp: addbatch_block_def split: if_splits)
  show sh: "same_shape d d'" using cases by (auto simp: same_shape_def)
  show "k < length (ds_incBlocks d')" "ds_cap d \<le> ds_cap d'"
    "length (ds_incBlocks d') + allocs' = length (ds_incBlocks d) + allocs"
    using cases by (auto simp: ds_cap_def)
  show ok: "ds_store_ok d'"
    using cases assms(1) unfolding Suc_rowsInBlock by (auto simp: ds_store_ok_def ds_width_def)
  show "spare_row d' = spare_row d"
  proof (cases "d' = d")
    case False
    then have d': "d' = d\<lparr>ds_incBlocks := ds_incBlocks d @ [?n]\<rparr>" using cases by blast
    have w: "ds_width d' = ds_width d" "ds_At d' = ds_At d" using same_shape_facts[OF sh] by auto
    have old: "ds_read d' (int j) = ds_read d (int j)" if "j < ds_cap d" for j
      using that block_index[of d j] unfolding ds_read_def w
      by (auto simp: ds_At_int ptr_read_def d' nth_append)
    have new: "ds_read d' (int j) = Some (replicate (ds_width d) 255)"
      if j: "\<not> j < ds_cap d" "j < ds_cap d'" for j
    proof -
      obtain r where r: "ds_read d' (int j) = Some r" "length r = ds_width d"
        using ds_read_ok[OF ok j(2)] w by metis
      have "(j - ds_rows d) div 2 ^ ds_rowsInBlockEx d = length (ds_incBlocks d)"
        using j by (intro div_nat_eqI) (auto simp: ds_cap_def d' algebra_simps)
      then have "set r \<subseteq> set ?n"
        using r(1) j(1) unfolding ds_read_def w
        by (auto simp: ds_At_int ptr_read_def d' nth_append seg_read_def ds_cap_def
            dest!: in_set_takeD in_set_dropD split: if_splits)
      then have "set r \<subseteq> {255}" by (rule order.trans) auto
      then show ?thesis using r by (auto simp: replicate_eqI subset_iff)
    qed
    show ?thesis
      using old new \<open>ds_cap d \<le> ds_cap d'\<close> by (auto simp: spare_row_def fun_eq_iff ds_row_def w)
  qed simp
qed

lemma batch_row_None_or_old:
  "pData = None \<or> j < ds_R d + written \<Longrightarrow> batch_row pData written d j = spare_row d j"
  by (auto simp: batch_row_def split: option.splits)

text \<open>One round of the loop: the pushed block and the copied rows.\<close>

lemma addbatch_round:
  assumes "ds_store_ok d" "written < num" "ds_incRows d + written \<le> length (ds_incBlocks d) * 2 ^ ds_rowsInBlockEx d"
    "ds_incRows d + num \<le> (length (ds_incBlocks d) + allocs) * 2 ^ ds_rowsInBlockEx d"
    "\<And>p. pData = Some p \<Longrightarrow> num * ds_width d \<le> length p"
  defines "pos \<equiv> ds_incRows d + written"
  defines "k \<equiv> drop_bit (ds_rowsInBlockEx d) pos"
  defines "q \<equiv> and pos (ds_rowsInBlock d)"
  defines "n \<equiv> min (ds_rowsInBlock d + 1 - q) (num - written)"
  obtains allocs' d' d'' where "addbatch_block allocs k d = Some (allocs', d')"
    "(case pData of None \<Rightarrow> Some d' | Some p \<Rightarrow> addbatch_copy n 0 k q written p d') = Some d''"
    "same_shape d d''" "ds_store_ok d''" "0 < n" "written + n \<le> num"
    "ds_incRows d + (written + n) \<le> length (ds_incBlocks d'') * 2 ^ ds_rowsInBlockEx d"
    "length (ds_incBlocks d'') + allocs' = length (ds_incBlocks d) + allocs"
    "ds_cap d \<le> ds_cap d''"
    "\<And>j. batch_row pData (written + n) d'' j = batch_row pData written d j"
proof -
  let ?B = "2 ^ ds_rowsInBlockEx d :: nat"
  have k: "k = pos div ?B" and q: "q = pos mod ?B" "q < ?B"
    unfolding k_def q_def by (auto simp: drop_bit_eq_div and_rowsInBlock)
  have pos: "pos = k * ?B + q" unfolding k q(1) by (rule div_mult_mod_eq [symmetric])
  have n: "n \<le> ?B - q" "n \<le> num - written" "0 < n"
    using q(2) assms(2) unfolding n_def Suc_rowsInBlock by auto
  have "k \<le> length (ds_incBlocks d)"
    using assms(3) unfolding k pos_def[symmetric]
    by (metis div_le_mono nonzero_mult_div_cancel_right power_not_zero zero_neq_numeral)
  moreover have "k < length (ds_incBlocks d) + allocs"
    using assms(2,4) unfolding k pos_def by (intro less_mult_imp_div_less) linarith
  ultimately have "addbatch_block allocs k d \<noteq> None" by (auto simp: addbatch_block_def)
  then obtain allocs' d' where d': "addbatch_block allocs k d = Some (allocs', d')" by auto
  note p = addbatch_block_push[OF assms(1) d' \<open>k \<le> length (ds_incBlocks d)\<close>]
  have sh: "ds_rows d' = ds_rows d" "ds_rowsInBlockEx d' = ds_rowsInBlockEx d" "ds_width d' = ds_width d"
      "ds_R d' = ds_R d"
    using p(1) same_shape_facts[OF p(1)] by (auto simp: same_shape_def)
  have next_pos: "ds_incRows d + (written + n) \<le> length (ds_incBlocks d') * ?B"
  proof -
    have "ds_incRows d + (written + n) \<le> Suc k * ?B" using pos n(1) q(2) unfolding pos_def by simp
    also have "\<dots> \<le> length (ds_incBlocks d') * ?B" using p(3) by (intro mult_le_mono1) simp
    finally show ?thesis .
  qed
  show thesis
  proof (cases pData)
    case None
    then show thesis
      using that[OF d', of d'] p n next_pos assms(2) same_shape_facts[OF p(1)]
      by (simp add: batch_row_def)
  next
    case (Some b)
    have len: "(written + n) * ds_width d \<le> length b"
    proof -
      have "(written + n) * ds_width d \<le> num * ds_width d" using n assms(2) by (intro mult_le_mono1) simp
      then show ?thesis using assms(5)[OF Some] by linarith
    qed
    obtain d'' where d'': "addbatch_copy n 0 k q written b d' = Some d''" "same_shape d' d''"
      "ds_store_ok d''" "ds_cap d'' = ds_cap d'" "length (ds_incBlocks d'') = length (ds_incBlocks d')"
      "\<And>j. ds_read d'' (int j) = (if ds_R d + written \<le> j \<and> j < ds_R d + written + n
         then Some (take (ds_width d) (drop ((j - ds_R d) * ds_width d) b)) else ds_read d' (int j))"
    proof -
      have base: "ds_rows d + k * ?B + q = ds_R d + written" using pos by (simp add: pos_def ds_R_def)
      have "q + 0 + n \<le> 2 ^ ds_rowsInBlockEx d'" "(written + 0 + n) * ds_width d' \<le> length b"
        using n(1) q(2) len by (simp_all add: sh)
      from addbatch_copy_rows[OF p(2,3) this] obtain d'' where
        "addbatch_copy n 0 k q written b d' = Some d''" "same_shape d' d''"
        "ds_store_ok d''" "ds_cap d'' = ds_cap d'" "length (ds_incBlocks d'') = length (ds_incBlocks d')"
        "\<And>j. ds_read d'' (int j) = (if ds_R d + written \<le> j \<and> j < ds_R d + written + n
           then Some (take (ds_width d) (drop ((written + (j - (ds_R d + written))) * ds_width d) b))
           else ds_read d' (int j))"
        unfolding sh Let_def base add_0_right by blast
      moreover have "written + (j - (ds_R d + written)) = j - ds_R d" if "ds_R d + written \<le> j" for j
        using that by simp
      ultimately show thesis by (intro that[of d'']) auto
    qed
    note sh2 = same_shape_facts[OF d''(2)]
    have in_cap: "j < ds_cap d'" if "j < ds_R d + written + n" for j
      using that next_pos by (simp add: ds_cap_def ds_R_def sh)
    have "batch_row (Some b) (written + n) d'' j = batch_row (Some b) written d j" for j
    proof (cases "ds_R d + written \<le> j \<and> j < ds_R d + written + n")
      case True
      then show ?thesis using d''(6)[of j] in_cap[of j]
        by (simp add: batch_row_def sh2 sh spare_row_def d''(4) ds_row_def)
    next
      case False
      then have "ds_read d'' (int j) = ds_read d' (int j)" by (simp only: d''(6) if_False)
      then have "spare_row d'' j = spare_row d' j"
        by (simp add: spare_row_def d''(4) ds_row_def sh2 sh)
      then have "spare_row d'' j = spare_row d j" by (simp add: p(4))
      then show ?thesis using False by (auto simp: batch_row_def sh2 sh)
    qed
    then show thesis
      using that[OF d', of d''] p n next_pos d''(1-5) Some
        same_shape_trans[OF p(1) d''(2)] assms(2) by auto
  qed
qed

lemma addbatch_loop_rows:
  assumes "ds_store_ok d" "written \<le> num"
    "ds_incRows d + written \<le> length (ds_incBlocks d) * 2 ^ ds_rowsInBlockEx d"
    "ds_incRows d + num \<le> (length (ds_incBlocks d) + allocs) * 2 ^ ds_rowsInBlockEx d"
    "\<And>p. pData = Some p \<Longrightarrow> num * ds_width d \<le> length p"
  shows "\<exists>d'. addbatch_loop allocs num written pData d = Some (Success, num, d') \<and> same_shape d d' \<and>
     ds_store_ok d' \<and> ds_R d + num \<le> ds_cap d' \<and>
     (\<forall>j < ds_R d + num. ds_read d' (int j) = Some (batch_row pData written d j))"
  using assms
proof (induction allocs num written pData d rule: addbatch_loop.induct)
  case (1 allocs num written pData d)
  show ?case
  proof (cases "written < num")
    case False
    then have "written = num" "ds_R d + num \<le> ds_cap d"
      using 1(3,4) by (auto simp: ds_cap_def ds_R_def)
    then show ?thesis
      using 1(2) by (subst addbatch_loop.simps)
        (auto simp: batch_row_None_or_old spare_row_def ds_read_row)
  next
    case True
    let ?pos = "ds_incRows d + written"
    let ?k = "drop_bit (ds_rowsInBlockEx d) ?pos" and ?q = "and ?pos (ds_rowsInBlock d)"
    let ?n = "min (ds_rowsInBlock d + 1 - ?q) (num - written)"
    obtain allocs' d' d'' where r: "addbatch_block allocs ?k d = Some (allocs', d')"
      "(case pData of None \<Rightarrow> Some d' | Some p \<Rightarrow> addbatch_copy ?n 0 ?k ?q written p d') = Some d''"
      "same_shape d d''" "ds_store_ok d''" "0 < ?n" "written + ?n \<le> num"
      "ds_incRows d + (written + ?n) \<le> length (ds_incBlocks d'') * 2 ^ ds_rowsInBlockEx d"
      "length (ds_incBlocks d'') + allocs' = length (ds_incBlocks d) + allocs"
      "ds_cap d \<le> ds_cap d''"
      "\<And>j. batch_row pData (written + ?n) d'' j = batch_row pData written d j"
      using addbatch_round[OF 1(2) True 1(4-6)] by blast
    have sh: "ds_incRows d'' = ds_incRows d" "ds_rowsInBlockEx d'' = ds_rowsInBlockEx d"
        "ds_width d'' = ds_width d" "ds_R d'' = ds_R d"
      using r(3) same_shape_facts[OF r(3)] by (auto simp: same_shape_def)
    have "\<exists>e. addbatch_loop allocs' num (written + ?n) pData d'' = Some (Success, num, e) \<and>
        same_shape d'' e \<and> ds_store_ok e \<and> ds_R d'' + num \<le> ds_cap e \<and>
        (\<forall>j < ds_R d'' + num. ds_read e (int j) = Some (batch_row pData (written + ?n) d'' j))"
      by (rule 1(1)[OF True refl refl r(1) refl refl refl r(2) r(4)])
        (use r(6-8) 1(5,6) in \<open>auto simp: sh\<close>)
    moreover have "addbatch_loop allocs num written pData d =
        addbatch_loop allocs' num (written + ?n) pData d''"
      by (subst addbatch_loop.simps) (simp only: True r(1,2) if_True Let_def option.case prod.case)
    ultimately show ?thesis
      using same_shape_trans[OF r(3)] unfolding r(10) sh by metis
  qed
qed

lemma ds_read_incRows [simp]: "ds_read (d\<lparr>ds_incRows := n\<rparr>) = ds_read d"
proof -
  have "ptr_read (d\<lparr>ds_incRows := n\<rparr>) p w = ptr_read d p w" for p w
    by (cases p) (simp_all add: ptr_read_def)
  then show ?thesis
    by (simp add: fun_eq_iff ds_read_def ds_At_def ds_width_def ds_rowsInBlock_def)
qed

lemma ds_AddBatch_grows:
  assumes "ds_inv d" "ds_colStart d = 0" "0 \<le> num" "int (ds_R d) + num \<le> ds_maxRows d"
    "ds_incRows d + nat num \<le> (length (ds_incBlocks d) + allocs) * 2 ^ ds_rowsInBlockEx d"
    "\<And>p. pData = Some p \<Longrightarrow> nat num * ds_width d \<le> length p"
  obtains d' where "ds_AddBatch allocs num pData d = Some (Success, d')" "ds_inv d'"
    "ds_cells d' = ds_cells d @ map (\<lambda>i. batch_row pData 0 d (ds_R d + i)) [0..<nat num]"
    "ds_width d' = ds_width d" "ds_maxRows d' = ds_maxRows d" "ds_colStart d' = ds_colStart d"
proof -
  have inc: "ds_incRows d + 0 \<le> length (ds_incBlocks d) * 2 ^ ds_rowsInBlockEx d"
    using assms(1) by (simp add: ds_inv_def ds_cap_def ds_R_def)
  obtain e where e: "addbatch_loop allocs (nat num) 0 pData d = Some (Success, nat num, e)"
    "same_shape d e" "ds_store_ok e" "ds_R d + nat num \<le> ds_cap e"
    "\<And>j. j < ds_R d + nat num \<Longrightarrow> ds_read e (int j) = Some (batch_row pData 0 d j)"
    using addbatch_loop_rows[OF _ _ inc assms(5,6)] assms(1) by (auto simp: ds_inv_def)
  let ?d = "e\<lparr>ds_incRows := ds_incRows e + nat num\<rparr>"
  have sh: "ds_R ?d = ds_R d + nat num" "ds_width ?d = ds_width d" "ds_cap ?d = ds_cap e"
      "ds_store_ok ?d"
    using e(2,3) by (auto simp: same_shape_def ds_R_def ds_width_def ds_cap_def ds_store_ok_def)
  have row: "ds_row ?d j = batch_row pData 0 d j" if "j < ds_R d + nat num" for j
    using e(5)[OF that] by (simp add: ds_row_def)
  have old: "batch_row pData 0 d j = ds_row d j" if "j < ds_R d" for j
    using that assms(1) by (simp add: batch_row_None_or_old spare_row_def ds_inv_def)
  show thesis
  proof (rule that)
    show "ds_AddBatch allocs num pData d = Some (Success, ?d)"
      using assms(2-4) e(1) by (simp add: ds_AddBatch_def)
    show "ds_inv ?d" using sh e(4) by (simp add: ds_inv_def)
    show "ds_cells ?d = ds_cells d @ map (\<lambda>i. batch_row pData 0 d (ds_R d + i)) [0..<nat num]"
      by (rule nth_equalityI) (auto simp: sh ds_cells_nth nth_append row old)
  qed (use sh e(2) in \<open>auto simp: same_shape_def\<close>)
qed

subsection \<open>Streams\<close>

lemma ds_Init_facts:
  "ds_inv (ds_Init r c b cp d)" "ds_R (ds_Init r c b cp d) = r" "ds_mycols (ds_Init r c b cp d) = c"
  "ds_width (ds_Init r c b cp d) = ds_tsize d * c" "ds_tsize (ds_Init r c b cp d) = ds_tsize d"
  "ds_maxRows (ds_Init r c b cp d) = cp" "ds_colStart (ds_Init r c b cp d) = 0" "ds_IsReady (ds_Init r c b cp d)"
  "ds_incBlocks (ds_Init r c b cp d) = []" "ds_rows (ds_Init r c b cp d) = r" "ds_incRows (ds_Init r c b cp d) = 0"
  by (auto simp: ds_Init_def ds_Initialize_def ds_inv_def ds_store_ok_def ds_R_def ds_cap_def
      ds_width_def ds_IsReady_def Let_def)

lemma ds_Init_cells: "ds_cells (ds_Init r c b cp d) = replicate r (replicate (ds_tsize d * c) 255)"
proof (rule nth_equalityI)
  fix i assume "i < length (ds_cells (ds_Init r c b cp d))"
  then have i: "i < r" by (simp add: ds_Init_facts)
  have "i * (c * ds_tsize d) + c * ds_tsize d \<le> r * (c * ds_tsize d)"
    using row_in_buffer[of i r 0 "c * ds_tsize d" "c * ds_tsize d"] i by simp
  then show "ds_cells (ds_Init r c b cp d) ! i = replicate r (replicate (ds_tsize d * c) 255) ! i"
    using i by (simp add: ds_cells_nth ds_Init_facts ds_row_def ds_read_def ds_At_int ptr_read_def)
      (simp add: ds_Init_def ds_Initialize_def seg_read_def ds_width_def ac_simps Let_def)
qed (simp add: ds_Init_facts)

lemma save_rows_enough:
  assumes "ds_inv d" "set is \<subseteq> {0..<ds_R d}" "length is * ds_width d \<le> os_room os"
  shows "save_rows (map int is) d os =
     Some (Success, os\<lparr>os_written := os_written os @ concat (map ((!) (ds_cells d)) is),
                       os_room := os_room os - length is * ds_width d\<rparr>)"
  using assms
proof (induction "is" arbitrary: os)
  case (Cons i "is")
  have "length (ds_cells d ! i) = ds_width d"
    using Cons.prems(1,2) by (auto intro!: ds_cells_width)
  then show ?case using Cons by (simp add: ds_read_cells WriteBinary_def)
qed simp

lemma save_rows_short:
  assumes "ds_inv d" "set is \<subseteq> {0..<ds_R d}" "os_room os < length is * ds_width d"
  shows "\<exists>os'. save_rows (map int is) d os = Some (DiskIOFail, os')"
  using assms
proof (induction "is" arbitrary: os)
  case (Cons i "is")
  have "length (ds_cells d ! i) = ds_width d"
    using Cons.prems(1,2) by (auto intro!: ds_cells_width)
  then show ?case using Cons by (auto simp: ds_read_cells WriteBinary_def)
qed simp

lemma save_header_room:
  "8 \<le> os_room os \<Longrightarrow> save_header r c os =
     Some (os\<lparr>os_written := os_written os @ int_encode 4 (int r) @ int_encode 4 (int c),
              os_room := os_room os - 8\<rparr>)"
  "os_room os < 8 \<Longrightarrow> save_header r c os = None"
  by (auto simp: save_header_def WriteBinary_def)

lemma load_header_saved:
  assumes "r < 2 ^ 31" "c < 2 ^ 31"
  shows "load_header (int_encode 4 (int r) @ int_encode 4 (int c) @ rest) = Some (int r, int c, rest)"
  using assms by (simp add: load_header_def int_decode_encode)

lemma load_rows_all:
  assumes "ds_inv d" "i + length rs \<le> ds_R d" "\<forall>r \<in> set rs. length r = ds_width d"
  shows "\<exists>d'. load_rows (length rs) i d (concat rs @ rest) = Some (Success, d', rest) \<and> ds_inv d' \<and>
     same_shape d d' \<and> ds_cells d' = take i (ds_cells d) @ rs @ drop (i + length rs) (ds_cells d)"
  using assms
proof (induction rs arbitrary: i d)
  case (Cons r rs)
  obtain d1 where d1: "ds_write d (int i) r = Some d1" "ds_inv d1" "ds_cells d1 = (ds_cells d)[i := r]"
    "same_shape d d1"
    using ds_write_cells[of d i r] Cons.prems by auto
  note sh = same_shape_facts[OF d1(4)]
  obtain d' where d': "load_rows (length rs) (Suc i) d1 (concat rs @ rest) = Some (Success, d', rest)"
    "ds_inv d'" "same_shape d1 d'"
    "ds_cells d' = take (Suc i) (ds_cells d1) @ rs @ drop (Suc i + length rs) (ds_cells d1)"
    using Cons.IH[of d1 "Suc i"] Cons.prems d1 by (auto simp: sh)
  have "take (Suc i) (ds_cells d1) = take i (ds_cells d) @ [r]"
    using Cons.prems(2) by (simp add: d1(3) take_Suc_conv_app_nth)
  then show ?case
    using d' d1 Cons.prems same_shape_trans[OF d1(4) d'(3)] by simp
qed auto

lemma refine_rows_all:
  assumes "ds_inv src" "ds_inv d" "i + length is \<le> ds_R d" "set is \<subseteq> {0..<ds_R src}"
    "ds_width d = ds_width src"
  shows "\<exists>d'. refine_rows i (map int is) src d = Some d' \<and> ds_inv d' \<and> same_shape d d' \<and>
     ds_cells d' = take i (ds_cells d) @ map ((!) (ds_cells src)) is @ drop (i + length is) (ds_cells d)"
  using assms
proof (induction "is" arbitrary: i d)
  case (Cons x "is")
  let ?r = "ds_cells src ! x"
  have "length ?r = ds_width d" using Cons.prems by (auto intro!: ds_cells_width)
  then obtain d1 where d1: "ds_write d (int i) ?r = Some d1" "ds_inv d1"
    "ds_cells d1 = (ds_cells d)[i := ?r]" "same_shape d d1"
    using ds_write_cells[of d i ?r] Cons.prems by auto
  note sh = same_shape_facts[OF d1(4)]
  obtain d' where d': "refine_rows (Suc i) (map int is) src d1 = Some d'"
    "ds_inv d'" "same_shape d1 d'"
    "ds_cells d' = take (Suc i) (ds_cells d1) @ map ((!) (ds_cells src)) is @
       drop (Suc i + length is) (ds_cells d1)"
    using Cons.IH[of d1 "Suc i"] Cons.prems d1 by (auto simp: sh)
  have "take (Suc i) (ds_cells d1) = take i (ds_cells d) @ [?r]"
    using Cons.prems(3) by (simp add: d1(3) take_Suc_conv_app_nth)
  then show ?case
    using d' d1 Cons.prems same_shape_trans[OF d1(4) d'(3)] by (simp add: ds_read_cells)
qed auto

lemma ds_Load_fresh:
  assumes "\<not> ds_IsReady d" "length rs < 2 ^ 31" "c < 2 ^ 31" "\<forall>r \<in> set rs. length r = ds_tsize d * c"
  shows "\<exists>d'. ds_Load b cp (int_encode 4 (int (length rs)) @ int_encode 4 (int c) @ concat rs @ rest) d =
     Some (Success, d', rest) \<and> ds_inv d' \<and> ds_cells d' = rs \<and> ds_mycols d' = c \<and> ds_maxRows d' = cp"
proof -
  let ?d = "ds_Init (length rs) c b cp d"
  obtain d' where "load_rows (length rs) 0 ?d (concat rs @ rest) = Some (Success, d', rest)" "ds_inv d'"
     "same_shape ?d d'" "ds_cells d' = rs"
    using load_rows_all[of ?d 0 rs rest] assms(4) by (auto simp: ds_Init_facts)
  then show ?thesis
    using assms(1-3) by (simp add: ds_Load_def load_header_saved same_shape_def ds_Init_facts)
qed

text \<open>\<^verbatim>\<open>AddBatch\<close> without data, whatever memory there is.\<close>

lemma addbatch_loop_blank:
  assumes "ds_store_ok d" "ds_incRows d + written \<le> length (ds_incBlocks d) * 2 ^ ds_rowsInBlockEx d"
    "written \<le> num"
  shows "\<exists>e w d'. addbatch_loop allocs num written None d = Some (e, w, d') \<and> same_shape d d' \<and>
     ds_store_ok d' \<and> ds_cap d \<le> ds_cap d' \<and> spare_row d' = spare_row d \<and>
     (e = Success \<and> w = num \<and> ds_R d + num \<le> ds_cap d' \<or> e = MemoryOverFlow)"
  using assms
proof (induction allocs num written "None :: bytes option" d rule: addbatch_loop.induct)
  case (1 allocs num written d)
  let ?B = "2 ^ ds_rowsInBlockEx d :: nat" and ?pos = "ds_incRows d + written"
  let ?k = "drop_bit (ds_rowsInBlockEx d) ?pos" and ?q = "and ?pos (ds_rowsInBlock d)"
  let ?n = "min (ds_rowsInBlock d + 1 - ?q) (num - written)"
  show ?case
  proof (cases "written < num")
    case False
    then show ?thesis
      using 1(2-4) by (subst addbatch_loop.simps) (auto simp: ds_cap_def ds_R_def)
  next
    case T: True
    show ?thesis
    proof (cases "addbatch_block allocs ?k d")
      case None
      then show ?thesis using T 1(2) by (subst addbatch_loop.simps) simp
    next
      case (Some a)
      then obtain allocs' d' where b: "addbatch_block allocs ?k d = Some (allocs', d')" by (cases a) auto
      have k: "?k = ?pos div ?B" by (simp add: drop_bit_eq_div)
      have "?k \<le> length (ds_incBlocks d)"
        using div_le_mono[OF 1(3), of ?B] unfolding k by simp
      note p = addbatch_block_push[OF 1(2) b this]
      have sh: "ds_incRows d' = ds_incRows d" "ds_rowsInBlockEx d' = ds_rowsInBlockEx d" "ds_R d' = ds_R d"
        using p(1) same_shape_facts[OF p(1)] by (auto simp: same_shape_def)
      have "?pos + ?n \<le> Suc ?k * ?B"
      proof -
        have "?pos = ?k * ?B + ?q" unfolding k and_rowsInBlock by (rule div_mult_mod_eq [symmetric])
        moreover have "?n \<le> ?B - ?q" unfolding Suc_rowsInBlock by simp
        moreover have "?q < ?B" by (simp add: and_rowsInBlock)
        ultimately show ?thesis by simp
      qed
      also have "\<dots> \<le> length (ds_incBlocks d') * ?B" using p(3) by (intro mult_le_mono1) simp
      finally have le: "ds_incRows d + (written + ?n) \<le> length (ds_incBlocks d') * ?B" by simp
      have "\<exists>e w d''. addbatch_loop allocs' num (written + ?n) None d' = Some (e, w, d'') \<and>
          same_shape d' d'' \<and> ds_store_ok d'' \<and> ds_cap d' \<le> ds_cap d'' \<and> spare_row d'' = spare_row d' \<and>
          (e = Success \<and> w = num \<and> ds_R d' + num \<le> ds_cap d'' \<or> e = MemoryOverFlow)"
        by (rule 1(1)[OF T refl refl b refl refl refl])
          (use p(2) le T sh in \<open>auto simp: min_def\<close>)
      moreover have "addbatch_loop allocs num written None d =
          addbatch_loop allocs' num (written + ?n) None d'"
        by (subst addbatch_loop.simps) (simp only: T b if_True Let_def option.case prod.case)
      ultimately show ?thesis using p sh order.trans[OF p(6)] same_shape_trans[OF p(1)] by metis
    qed
  qed
qed

lemma fresh_spare_iff: "fresh_spare d \<longleftrightarrow> (\<forall>j \<ge> ds_R d. spare_row d j = replicate (ds_width d) 255)"
  by (auto simp: fresh_spare_def spare_row_def)

lemma ds_AddBatch_blank:
  assumes "ds_inv d" "fresh_spare d" "ds_colStart d = 0" "0 \<le> num"
  obtains e d' where "ds_AddBatch allocs num None d = Some (e, d')" "ds_inv d'" "fresh_spare d'"
    "ds_width d' = ds_width d" "ds_colStart d' = 0" "ds_maxRows d' = ds_maxRows d"
    "e = Success \<and> ds_cells d' = ds_cells d @ replicate (nat num) (replicate (ds_width d) 255) \<or>
     e = MemoryOverFlow \<and> ds_cells d' = ds_cells d"
proof (cases "ds_maxRows d - num < int (ds_R d)")
  case True
  then show thesis using that assms by (simp add: ds_AddBatch_def)
next
  case False
  have "ds_incRows d + 0 \<le> length (ds_incBlocks d) * 2 ^ ds_rowsInBlockEx d"
    using assms(1) by (simp add: ds_inv_def ds_cap_def ds_R_def)
  from addbatch_loop_blank[OF _ this, of "nat num" allocs] assms(1)
  obtain e w d' where l: "addbatch_loop allocs (nat num) 0 None d = Some (e, w, d')" "same_shape d d'"
    "ds_store_ok d'" "ds_cap d \<le> ds_cap d'" "spare_row d' = spare_row d"
    "e = Success \<and> w = nat num \<and> ds_R d + nat num \<le> ds_cap d' \<or> e = MemoryOverFlow"
    by (auto simp: ds_inv_def)
  note sh = same_shape_facts[OF l(2)]
  have row: "ds_row d' j = spare_row d j" if "j < ds_cap d'" for j
    using fun_cong[OF l(5), of j] that by (simp add: spare_row_def)
  have old: "spare_row d j = ds_row d j" if "j < ds_R d" for j
    using that assms(1) by (simp add: spare_row_def ds_inv_def)
  have new: "spare_row d j = replicate (ds_width d) 255" if "\<not> j < ds_R d" for j
    using that assms(2) by (simp add: fresh_spare_iff)
  show thesis
  proof (cases "e = Success")
    case True
    let ?d = "d'\<lparr>ds_incRows := ds_incRows d' + nat num\<rparr>"
    have R: "ds_R ?d = ds_R d + nat num" "ds_cap ?d = ds_cap d'" "ds_width ?d = ds_width d"
      using sh l(2) by (auto simp: ds_R_def same_shape_def ds_cap_def ds_width_def)
    have rr: "ds_row ?d = ds_row d'" by (simp add: fun_eq_iff ds_row_def)
    show thesis
    proof (rule that)
      show "ds_AddBatch allocs num None d = Some (Success, ?d)"
        using False l(1,6) True assms(3) by (simp add: ds_AddBatch_def)
      show "ds_inv ?d" using l(3,6) True R
        by (simp add: ds_inv_def) (simp add: ds_store_ok_def ds_width_def)
      show "fresh_spare ?d" using R row new by (auto simp: fresh_spare_def rr)
      have "ds_cells ?d = ds_cells d @ replicate (nat num) (replicate (ds_width d) 255)"
        using True l(6) R by (intro nth_equalityI)
          (auto simp: ds_cells_nth nth_append rr row old new)
      then show "Success = Success \<and>
          ds_cells ?d = ds_cells d @ replicate (nat num) (replicate (ds_width d) 255) \<or>
         Success = MemoryOverFlow \<and> ds_cells ?d = ds_cells d" by simp
    qed (use R l(2) assms(3) in \<open>auto simp: same_shape_def\<close>)
  next
    case F: False
    then have e: "e = MemoryOverFlow" using l(6) by blast
    have "ds_R d \<le> ds_cap d'" using assms(1) l(4) by (simp add: ds_inv_def)
    show thesis
    proof (rule that)
      show "ds_AddBatch allocs num None d = Some (MemoryOverFlow, d')"
        using False l(1) e assms(3) by (simp add: ds_AddBatch_def)
      show "ds_inv d'" using l(3) sh \<open>ds_R d \<le> ds_cap d'\<close> by (simp add: ds_inv_def)
      show "fresh_spare d'" using row new sh by (auto simp: fresh_spare_def)
      have "ds_cells d' = ds_cells d" using \<open>ds_R d \<le> ds_cap d'\<close>
        by (intro nth_equalityI) (auto simp: ds_cells_nth sh row old)
      then show "MemoryOverFlow = Success \<and>
          ds_cells d' = ds_cells d @ replicate (nat num) (replicate (ds_width d) 255) \<or>
         MemoryOverFlow = MemoryOverFlow \<and> ds_cells d' = ds_cells d" by simp
    qed (use sh l(2) assms(3) in \<open>auto simp: same_shape_def\<close>)
  qed
qed

lemma fresh_spare_write:
  assumes "ds_inv d" "fresh_spare d" "i < ds_R d" "ds_write d (int i) v = Some d'" "length v = ds_width d"
  shows "fresh_spare d'"
proof -
  have "i < ds_cap d" using assms(1,3) by (simp add: ds_inv_def)
  from ds_write_laws[OF _ this assms(5)] assms(1,4) have *: "same_shape d d'" "ds_cap d' = ds_cap d"
    "\<And>j. j \<noteq> i \<Longrightarrow> ds_read d' (int j) = ds_read d (int j)"
    unfolding ds_inv_def by auto
  show ?thesis
    using assms(2,3) *(2,3) same_shape_facts[OF *(1)] by (auto simp: fresh_spare_def ds_row_def)
qed

lemma ds_Init_fresh: "fresh_spare (ds_Init r c b cp d)"
  by (simp add: fresh_spare_def ds_cap_def ds_Init_facts)

subsection \<open>The interface the clients use\<close>

text \<open>An array of cells, and what its clients may rely on: reading a cell, overwriting a cell.\<close>

locale cell_array =
  fixes get :: "'d \<Rightarrow> int \<Rightarrow> 'c option"
    and put :: "'d \<Rightarrow> int \<Rightarrow> 'c \<Rightarrow> 'd option"
    and cells :: "'d \<Rightarrow> 'c list"
    and inv :: "'d \<Rightarrow> bool"
    and ok :: "'d \<Rightarrow> 'c \<Rightarrow> bool"
  assumes get_cells: "inv d \<Longrightarrow> i < length (cells d) \<Longrightarrow> get d (int i) = Some (cells d ! i)"
    and put_cells: "inv d \<Longrightarrow> i < length (cells d) \<Longrightarrow> ok d v \<Longrightarrow>
      \<exists>d'. put d (int i) v = Some d' \<and> inv d' \<and> cells d' = (cells d)[i := v] \<and> ok d' = ok d"
begin

lemma get_int: "inv d \<Longrightarrow> 0 \<le> k \<Longrightarrow> k < int (length (cells d)) \<Longrightarrow> get d k = Some (cells d ! nat k)"
  using get_cells[of d "nat k"] by simp

lemma put_int:
  assumes "inv d" "0 \<le> k" "k < int (length (cells d))" "ok d v"
  obtains d' where "put d k v = Some d'" "inv d'" "cells d' = (cells d)[nat k := v]" "ok d' = ok d"
proof -
  have "nat k < length (cells d)" using assms by linarith
  then show thesis using put_cells[of d "nat k" v] assms that by auto
qed

text \<open>Exchanging a cell's value and the number of cells with a property.\<close>

lemma put_count:
  assumes "inv d" "0 \<le> k" "k < int (length (cells d))" "ok d v"
  obtains d' where "put d k v = Some d'" "inv d'" "cells d' = (cells d)[nat k := v]"
    "length (filter P (cells d')) + (if P (cells d ! nat k) then 1 else 0) =
       length (filter P (cells d)) + (if P v then 1 else 0)"
proof -
  obtain d' where d': "put d k v = Some d'" "inv d'" "cells d' = (cells d)[nat k := v]"
    using put_int[OF assms] by blast
  have k: "nat k < length (cells d)" using assms by linarith
  show thesis
    by (rule that[OF d']) (use k in \<open>simp add: d'(3) length_filter_update\<close>)
qed

end

text \<open>The same array seen through an encoding of its cells.\<close>

locale coded_array = cell_array get put cells inv ok
  for get :: "'d \<Rightarrow> int \<Rightarrow> 'c option" and put :: "'d \<Rightarrow> int \<Rightarrow> 'c \<Rightarrow> 'd option"
    and cells :: "'d \<Rightarrow> 'c list" and inv :: "'d \<Rightarrow> bool" and ok :: "'d \<Rightarrow> 'c \<Rightarrow> bool" +
  fixes dec :: "'c \<Rightarrow> 'v" and enc :: "'v \<Rightarrow> 'c" and okv :: "'v \<Rightarrow> bool" and fits :: "'d \<Rightarrow> bool"
  assumes enc_ok: "fits d \<Longrightarrow> okv v \<Longrightarrow> ok d (enc v)"
    and dec_enc: "okv v \<Longrightarrow> dec (enc v) = v"
    and fits_put: "fits d \<Longrightarrow> put d k c = Some d' \<Longrightarrow> fits d'"

sublocale coded_array \<subseteq> coded: cell_array "\<lambda>d i. map_option dec (get d i)" "\<lambda>d i v. put d i (enc v)"
  "\<lambda>d. map dec (cells d)" "\<lambda>d. inv d \<and> fits d" "\<lambda>_. okv"
proof
  fix d and i :: nat and v
  assume d: "inv d \<and> fits d" and i: "i < length (map dec (cells d))" and v: "okv v"
  obtain d' where d': "put d (int i) (enc v) = Some d'" "inv d'" "cells d' = (cells d)[i := enc v]"
    using put_cells[of d i "enc v"] d i enc_ok[OF _ v] by auto
  moreover have "fits d'" using d fits_put d'(1) by blast
  ultimately show "\<exists>d'. put d (int i) (enc v) = Some d' \<and> (inv d' \<and> fits d') \<and>
      map dec (cells d') = (map dec (cells d))[i := v] \<and> okv = okv"
    using dec_enc[OF v] by (auto simp: map_update)
qed (simp add: get_cells)

interpretation rows: cell_array ds_read ds_write ds_cells ds_inv "\<lambda>d v. length v = ds_width d"
proof
  fix d i and v :: bytes
  assume "ds_inv d" "i < length (ds_cells d)" "length v = ds_width d"
  then obtain d' where "ds_write d (int i) v = Some d'" "ds_inv d'" "ds_cells d' = (ds_cells d)[i := v]"
      "same_shape d d'"
    using ds_write_cells[of d i v] by auto
  then show "\<exists>d'. ds_write d (int i) v = Some d' \<and> ds_inv d' \<and> ds_cells d' = (ds_cells d)[i := v] \<and>
      (\<lambda>v. length v = ds_width d') = (\<lambda>v. length v = ds_width d)"
    using same_shape_facts(2) by auto
qed (simp add: ds_read_cells)

lemma ds_write_width: "ds_write d k c = Some d' \<Longrightarrow> ds_width d' = ds_width d"
  by (auto simp: ds_write_def Option.bind_eq_Some_conv dest!: ptr_write_frame(1) same_shape_facts(2))

interpretation byte_cells: coded_array ds_read ds_write ds_cells ds_inv "\<lambda>d v. length v = ds_width d"
  hd "\<lambda>b. [b :: u8]" "\<lambda>_. True" "\<lambda>d. ds_width d = 1"
  by unfold_locales (auto dest: ds_write_width)

interpretation int_cells: coded_array ds_read ds_write ds_cells ds_inv "\<lambda>d v. length v = ds_width d"
  int_decode "int_encode 4" "\<lambda>x. - (2 ^ 31) \<le> x \<and> x < 2 ^ 31" "\<lambda>d. ds_width d = 4"
  by unfold_locales (auto simp: int_decode_encode dest: ds_write_width)

subsection \<open>Properties\<close>

text \<open>C28. Growing a data set: with room under \<open>maxRows\<close> and enough memory for the blocks, \<^verbatim>\<open>AddBatch\<close>
  of \<open>num\<close> rows succeeds, keeps the data set well-formed, leaves every old row as it was (rows never
  move, so pointers stay valid) and appends exactly the \<open>num\<close> rows of the caller's buffer, across
  however many blocks they span; over \<open>maxRows\<close> it is \<open>MemoryOverFlow\<close> and nothing changes.\<close>

theorem dataset_add_batch:
  assumes "ds_inv d" "ds_colStart d = 0" "0 \<le> num"
    "ds_incRows d + nat num \<le> (length (ds_incBlocks d) + allocs) * 2 ^ ds_rowsInBlockEx d"
    "length p = nat num * ds_width d"
  shows "if int (ds_R d) + num \<le> ds_maxRows d
     then \<exists>d'. ds_AddBatch allocs num (Some p) d = Some (Success, d') \<and> ds_inv d' \<and>
       ds_cells d' = ds_cells d @ rows_of (ds_width d) (nat num) p
     else ds_AddBatch allocs num (Some p) d = Some (MemoryOverFlow, d)"
proof (cases "int (ds_R d) + num \<le> ds_maxRows d")
  case *: True
  from ds_AddBatch_grows[OF assms(1-3) * assms(4), of "Some p"] obtain d' where
    "ds_AddBatch allocs num (Some p) d = Some (Success, d')" "ds_inv d'"
    "ds_cells d' = ds_cells d @ map (\<lambda>i. batch_row (Some p) 0 d (ds_R d + i)) [0..<nat num]"
    using assms(5) by auto
  then show ?thesis using * by (auto simp: rows_of_def batch_row_def)
qed (use assms in \<open>simp add: ds_AddBatch_def\<close>)

theorem dataset_add_batch_witness:
  "(\<exists>d'. ds_AddBatch 2 3 (Some [1,0,2,0,3,0,4,0,5,0,6,0]) sample_dataset = Some (Success, d') \<and>
      ds_inv d' \<and> ds_cells d' = ds_cells sample_dataset @ [[1,0,2,0], [3,0,4,0], [5,0,6,0]]) \<and>
   ds_AddBatch 5 9 (Some (replicate 36 7)) sample_dataset = Some (MemoryOverFlow, sample_dataset)"
proof -
  let ?s = sample_dataset
  have f: "ds_inv ?s" "ds_colStart ?s = 0" "ds_incRows ?s = 0" "ds_incBlocks ?s = []"
    "ds_rowsInBlockEx ?s = 1" "ds_width ?s = 4" "ds_R ?s = 2" "ds_maxRows ?s = 10"
    by (auto simp: sample_dataset_def ds_Init_facts) code_simp+
  show ?thesis
    using dataset_add_batch[of ?s 3 2 "[1,0,2,0,3,0,4,0,5,0,6,0]"]
      dataset_add_batch[of ?s 9 5 "replicate 36 7"]
    by (simp add: f rows_of_def upt_rec numeral_2_eq_2 numeral_3_eq_3)
qed


lemma sample_dataset_facts:
  "ds_inv sample_dataset" "ds_R sample_dataset = 2" "ds_mycols sample_dataset = 2"
  "ds_tsize sample_dataset = 2" "ds_width sample_dataset = 4"
  "ds_cells sample_dataset = replicate 2 (replicate 4 255)" "ds_BufferSize sample_dataset = 16"
  "\<not> ds_IsReady (ds_empty ts)" "ds_tsize (ds_empty ts) = ts"
  by (auto simp: sample_dataset_def ds_Init_facts ds_Init_cells ds_BufferSize_def ds_C_def
      ds_empty_def ds_IsReady_def)




end
