(* ===== verification/Labels.thy ===== *)
theory Labels
  imports Dataset
begin

text \<open>
  The per-vector and per-posting labels kept in one-column data sets: \<^verbatim>\<open>LabelSet\<close> (the set of deleted
  ids of an in-memory index), \<^verbatim>\<open>VersionLabel\<close> (the version byte of every vector of an SPFresh index,
  \<open>0xfe\<close> when deleted), \<^verbatim>\<open>PostingSizeRecord\<close> (the length of every posting) and \<^verbatim>\<open>Checksum\<close> (the XOR byte
  stored with a posting). A result \<^const>\<open>None\<close> is an access outside the data set.
\<close>

subsection \<open>Atomic exchange on a cell\<close>

definition exchange8 :: "dataset \<Rightarrow> int \<Rightarrow> u8 \<Rightarrow> (u8 \<times> dataset) option" where
  "exchange8 d key v =
     (case ds_read d key of None \<Rightarrow> None
      | Some r \<Rightarrow> map_option (Pair (hd r)) (ds_write d key [v]))"

text \<open>\<^verbatim>\<open>InterlockedCompareExchange\<close>: the old value, and the store only when it is the expected one.\<close>

definition compare_exchange8 :: "dataset \<Rightarrow> int \<Rightarrow> u8 \<Rightarrow> u8 \<Rightarrow> (u8 \<times> dataset) option" where
  "compare_exchange8 d key new expected =
     (case ds_read d key of None \<Rightarrow> None
      | Some r \<Rightarrow> if hd r = expected then map_option (Pair (hd r)) (ds_write d key [new])
                  else Some (hd r, d))"

subsection \<open>LabelSet\<close>

datatype InvalidIDBehavior = Passthrough | AlwaysContains | AlwaysNotContains

record LabelSet =
  ls_inserted :: int
  ls_data :: dataset
  ls_invalid :: InvalidIDBehavior

definition ls_new :: LabelSet where
  "ls_new = \<lparr>ls_inserted = 0, ls_data = ds_empty 1, ls_invalid = Passthrough\<rparr>"

definition ls_Initialize :: "nat \<Rightarrow> nat \<Rightarrow> int \<Rightarrow> InvalidIDBehavior \<Rightarrow> LabelSet \<Rightarrow> LabelSet" where
  "ls_Initialize n blockSize capacity beh l =
     l\<lparr>ls_invalid := beh, ls_data := ds_Init n 1 blockSize capacity (ls_data l)\<rparr>"

definition ls_R :: "LabelSet \<Rightarrow> nat" where
  "ls_R l = ds_R (ls_data l)"

definition ls_Count :: "LabelSet \<Rightarrow> int" where
  "ls_Count l = ls_inserted l"

text \<open>The answer for an id past the end, when the set has one.\<close>

definition ls_out_of_range :: "int \<Rightarrow> LabelSet \<Rightarrow> bool option" where
  "ls_out_of_range key l =
     (if key \<ge> int (ls_R l) then
        (case ls_invalid l of AlwaysContains \<Rightarrow> Some True | AlwaysNotContains \<Rightarrow> Some False
         | Passthrough \<Rightarrow> None)
      else None)"

definition ls_Contains :: "int \<Rightarrow> LabelSet \<Rightarrow> bool option" where
  "ls_Contains key l =
     (case ls_out_of_range key l of Some b \<Rightarrow> Some b
      | None \<Rightarrow> map_option (\<lambda>r. hd r = 1) (ds_read (ls_data l) key))"

definition ls_Insert :: "int \<Rightarrow> LabelSet \<Rightarrow> (bool \<times> LabelSet) option" where
  "ls_Insert key l =
     (case ls_out_of_range key l of Some b \<Rightarrow> Some (b, l)
      | None \<Rightarrow>
         (case exchange8 (ls_data l) key 1 of None \<Rightarrow> None
          | Some (oldvalue, d) \<Rightarrow>
              if oldvalue = 1 then Some (False, l\<lparr>ls_data := d\<rparr>)
              else Some (True, l\<lparr>ls_data := d, ls_inserted := ls_inserted l + 1\<rparr>)))"

definition ls_Reset :: "int \<Rightarrow> LabelSet \<Rightarrow> (bool \<times> LabelSet) option" where
  "ls_Reset key l =
     (case ls_out_of_range key l of Some b \<Rightarrow> Some (b, l)
      | None \<Rightarrow>
         (case exchange8 (ls_data l) key 255 of None \<Rightarrow> None
          | Some (oldvalue, d) \<Rightarrow>
              if oldvalue = 255 then Some (False, l\<lparr>ls_data := d\<rparr>)
              else Some (True, l\<lparr>ls_data := d, ls_inserted := ls_inserted l - 1\<rparr>)))"

definition ls_AddBatch :: "nat \<Rightarrow> int \<Rightarrow> LabelSet \<Rightarrow> (ErrorCode \<times> LabelSet) option" where
  "ls_AddBatch allocs num l =
     map_option (\<lambda>(e, d). (e, l\<lparr>ls_data := d\<rparr>)) (ds_AddBatch allocs num None (ls_data l))"

definition ls_SetR :: "nat \<Rightarrow> LabelSet \<Rightarrow> LabelSet" where
  "ls_SetR num l = l\<lparr>ls_data := ds_SetR num (ls_data l)\<rparr>"

definition ls_BufferSize :: "LabelSet \<Rightarrow> nat" where
  "ls_BufferSize l = ds_BufferSize (ls_data l) + 4"

text \<open>A count in front of the rows: shared by \<^verbatim>\<open>LabelSet\<close> and \<^verbatim>\<open>VersionLabel\<close>.\<close>

definition counted_Save :: "int \<Rightarrow> dataset \<Rightarrow> ostream \<Rightarrow> (ErrorCode \<times> ostream) option" where
  "counted_Save n d os =
     (case WriteBinary (int_encode 4 n) os of None \<Rightarrow> Some (DiskIOFail, os) | Some os' \<Rightarrow> ds_Save d os')"

definition counted_Load ::
  "nat \<Rightarrow> int \<Rightarrow> bytes \<Rightarrow> int \<Rightarrow> dataset \<Rightarrow> (ErrorCode \<times> int \<times> dataset \<times> bytes) option" where
  "counted_Load blockSize capacity inp n d =
     (case ReadBinary 4 inp of None \<Rightarrow> Some (DiskIOFail, n, d, inp)
      | Some (b, inp') \<Rightarrow>
          map_option (\<lambda>(e, d', rest). (e, int_decode b, d', rest)) (ds_Load blockSize capacity inp' d))"

definition ls_Save :: "LabelSet \<Rightarrow> ostream \<Rightarrow> (ErrorCode \<times> ostream) option" where
  "ls_Save l os = counted_Save (ls_inserted l) (ls_data l) os"

definition ls_Load ::
  "nat \<Rightarrow> int \<Rightarrow> InvalidIDBehavior \<Rightarrow> bytes \<Rightarrow> LabelSet \<Rightarrow> (ErrorCode \<times> LabelSet \<times> bytes) option" where
  "ls_Load blockSize capacity beh inp l =
     map_option (\<lambda>(e, n, d, rest). (e, l\<lparr>ls_invalid := beh, ls_inserted := n, ls_data := d\<rparr>, rest))
       (counted_Load blockSize capacity inp (ls_inserted l) (ls_data l))"

definition ls_Load_mem ::
  "nat \<Rightarrow> int \<Rightarrow> InvalidIDBehavior \<Rightarrow> bytes \<Rightarrow> LabelSet \<Rightarrow> (ErrorCode \<times> LabelSet) option" where
  "ls_Load_mem blockSize capacity beh mem l =
     (case ReadBinary 4 mem of None \<Rightarrow> None
      | Some (b, mem') \<Rightarrow>
          map_option (\<lambda>(e, d). (e, l\<lparr>ls_invalid := beh, ls_inserted := int_decode b, ls_data := d\<rparr>))
            (ds_Load_mem blockSize capacity mem' (ls_data l)))"

subsection \<open>VersionLabel\<close>

record VersionLabel =
  vl_deleted :: int
  vl_data :: dataset

definition vl_new :: VersionLabel where
  "vl_new = \<lparr>vl_deleted = 0, vl_data = ds_empty 1\<rparr>"

definition vl_Initialize :: "nat \<Rightarrow> nat \<Rightarrow> int \<Rightarrow> VersionLabel \<Rightarrow> VersionLabel" where
  "vl_Initialize n blockSize capacity l =
     l\<lparr>vl_data := ds_Init n 1 blockSize capacity (vl_data l)\<rparr>"

definition vl_Count :: "VersionLabel \<Rightarrow> nat" where
  "vl_Count l = ds_R (vl_data l)"

definition vl_GetDeleteCount :: "VersionLabel \<Rightarrow> int" where
  "vl_GetDeleteCount l = vl_deleted l"

definition vl_bad_key :: "int \<Rightarrow> VersionLabel \<Rightarrow> bool" where
  "vl_bad_key key l \<longleftrightarrow> key < 0 \<or> key \<ge> int (ds_R (vl_data l))"

definition vl_Deleted :: "int \<Rightarrow> VersionLabel \<Rightarrow> bool option" where
  "vl_Deleted key l =
     (if vl_bad_key key l then Some True
      else map_option (\<lambda>r. hd r = 0xfe) (ds_read (vl_data l) key))"

definition vl_Delete :: "int \<Rightarrow> VersionLabel \<Rightarrow> (bool \<times> VersionLabel) option" where
  "vl_Delete key l =
     (if vl_bad_key key l then Some (True, l)
      else (case exchange8 (vl_data l) key 0xfe of None \<Rightarrow> None
            | Some (oldvalue, d) \<Rightarrow>
                if oldvalue = 0xfe then Some (False, l\<lparr>vl_data := d\<rparr>)
                else Some (True, l\<lparr>vl_data := d, vl_deleted := vl_deleted l + 1\<rparr>)))"

definition vl_GetVersion :: "int \<Rightarrow> VersionLabel \<Rightarrow> u8 option" where
  "vl_GetVersion key l =
     (if vl_bad_key key l then Some 0xfe else map_option hd (ds_read (vl_data l) key))"

definition vl_SetVersion :: "int \<Rightarrow> u8 \<Rightarrow> VersionLabel \<Rightarrow> VersionLabel option" where
  "vl_SetVersion key version l =
     (if vl_bad_key key l then Some l
      else map_option (\<lambda>d. l\<lparr>vl_data := d\<rparr>) (ds_write (vl_data l) key [version]))"

text \<open>\<^verbatim>\<open>IncVersion\<close> is a loop of three accesses to the shared cell, between which other threads may
  run: the check for a deleted id, the read of the version, the compare-and-exchange. The state of
  the loop is the next access it will make.\<close>

datatype inc_pc = IncCheck | IncRead | IncCas u8 | IncDone bool "u8 option"

fun vl_inc_step :: "int \<Rightarrow> inc_pc \<times> VersionLabel \<Rightarrow> (inc_pc \<times> VersionLabel) option" where
  "vl_inc_step key (IncCheck, l) =
     map_option (\<lambda>del. (if del then IncDone False None else IncRead, l)) (vl_Deleted key l)"
| "vl_inc_step key (IncRead, l) = map_option (\<lambda>v. (IncCas v, l)) (vl_GetVersion key l)"
| "vl_inc_step key (IncCas oldVersion, l) =
     (let newVersion = and (oldVersion + 1) 0x7f in
      map_option (\<lambda>(seen, d). (if seen = oldVersion then IncDone True (Some newVersion) else IncCheck,
                               l\<lparr>vl_data := d\<rparr>))
        (compare_exchange8 (vl_data l) key newVersion oldVersion))"
| "vl_inc_step key (IncDone r v, l) = Some (IncDone r v, l)"

fun vl_inc_run :: "nat \<Rightarrow> int \<Rightarrow> inc_pc \<times> VersionLabel \<Rightarrow> (inc_pc \<times> VersionLabel) option" where
  "vl_inc_run 0 key s = Some s"
| "vl_inc_run (Suc n) key s = Option.bind (vl_inc_step key s) (vl_inc_run n key)"

text \<open>\<^verbatim>\<open>IncVersion\<close> when no other thread writes the cell: three accesses are enough. The result is what
  the call returns, the new version when it set one, and the labels.\<close>

definition vl_IncVersion :: "int \<Rightarrow> VersionLabel \<Rightarrow> (bool \<times> u8 option \<times> VersionLabel) option" where
  "vl_IncVersion key l =
     (if vl_bad_key key l then Some (False, None, l)
      else (case vl_inc_run 3 key (IncCheck, l) of
              Some (IncDone r v, l') \<Rightarrow> Some (r, v, l')
            | _ \<Rightarrow> None))"

definition vl_AddBatch :: "nat \<Rightarrow> int \<Rightarrow> VersionLabel \<Rightarrow> (ErrorCode \<times> VersionLabel) option" where
  "vl_AddBatch allocs num l =
     map_option (\<lambda>(e, d). (e, l\<lparr>vl_data := d\<rparr>)) (ds_AddBatch allocs num None (vl_data l))"

definition vl_SetR :: "nat \<Rightarrow> VersionLabel \<Rightarrow> VersionLabel" where
  "vl_SetR num l = l\<lparr>vl_data := ds_SetR num (vl_data l)\<rparr>"

definition vl_BufferSize :: "VersionLabel \<Rightarrow> nat" where
  "vl_BufferSize l = ds_BufferSize (vl_data l) + 4"

definition vl_Save :: "VersionLabel \<Rightarrow> ostream \<Rightarrow> (ErrorCode \<times> ostream) option" where
  "vl_Save l os = counted_Save (vl_deleted l) (vl_data l) os"

definition vl_Load :: "nat \<Rightarrow> int \<Rightarrow> bytes \<Rightarrow> VersionLabel \<Rightarrow> (ErrorCode \<times> VersionLabel \<times> bytes) option" where
  "vl_Load blockSize capacity inp l =
     map_option (\<lambda>(e, n, d, rest). (e, l\<lparr>vl_deleted := n, vl_data := d\<rparr>, rest))
       (counted_Load blockSize capacity inp (vl_deleted l) (vl_data l))"

definition vl_Load_mem :: "nat \<Rightarrow> int \<Rightarrow> bytes \<Rightarrow> VersionLabel \<Rightarrow> (ErrorCode \<times> VersionLabel) option" where
  "vl_Load_mem blockSize capacity mem l =
     (case ReadBinary 4 mem of None \<Rightarrow> None
      | Some (b, mem') \<Rightarrow>
          map_option (\<lambda>(e, d). (e, l\<lparr>vl_deleted := int_decode b, vl_data := d\<rparr>))
            (ds_Load_mem blockSize capacity mem' (vl_data l)))"

subsection \<open>PostingSizeRecord\<close>

type_synonym PostingSizeRecord = dataset

definition ps_new :: PostingSizeRecord where
  "ps_new = ds_empty 4"

definition ps_Initialize :: "nat \<Rightarrow> nat \<Rightarrow> int \<Rightarrow> PostingSizeRecord \<Rightarrow> PostingSizeRecord" where
  "ps_Initialize n blockSize capacity p = ds_Init n 1 blockSize capacity p"

definition ps_GetSize :: "int \<Rightarrow> PostingSizeRecord \<Rightarrow> int option" where
  "ps_GetSize headID p = map_option int_decode (ds_read p headID)"

text \<open>The compare-and-exchange loops of \<^verbatim>\<open>UpdateSize\<close> and \<^verbatim>\<open>IncSize\<close>, when no other thread writes the
  cell: the exchange is made in the first round. The sum wraps to 32 bits.\<close>

definition ps_UpdateSize :: "int \<Rightarrow> int \<Rightarrow> PostingSizeRecord \<Rightarrow> (bool \<times> PostingSizeRecord) option" where
  "ps_UpdateSize headID newSize p =
     (case ps_GetSize headID p of None \<Rightarrow> None
      | Some oldSize \<Rightarrow> map_option (Pair True) (ds_write p headID (int_encode 4 newSize)))"

definition ps_IncSize :: "int \<Rightarrow> int \<Rightarrow> PostingSizeRecord \<Rightarrow> (bool \<times> PostingSizeRecord) option" where
  "ps_IncSize headID appendNum p =
     (case ps_GetSize headID p of None \<Rightarrow> None
      | Some oldSize \<Rightarrow>
          map_option (Pair True) (ds_write p headID (int_encode 4 (to_int32 (oldSize + appendNum)))))"

definition ps_GetPostingNum :: "PostingSizeRecord \<Rightarrow> nat" where
  "ps_GetPostingNum p = ds_R p"

definition ps_Save :: "PostingSizeRecord \<Rightarrow> ostream \<Rightarrow> (ErrorCode \<times> ostream) option" where
  "ps_Save p os = ds_Save p os"

definition ps_Load ::
  "nat \<Rightarrow> int \<Rightarrow> bytes \<Rightarrow> PostingSizeRecord \<Rightarrow> (ErrorCode \<times> PostingSizeRecord \<times> bytes) option" where
  "ps_Load blockSize capacity inp p = ds_Load blockSize capacity inp p"

text \<open>Loading from memory skips \<^verbatim>\<open>sizeof(SizeType)\<close> bytes first.\<close>

definition ps_Load_mem :: "nat \<Rightarrow> int \<Rightarrow> bytes \<Rightarrow> PostingSizeRecord \<Rightarrow> (ErrorCode \<times> PostingSizeRecord) option" where
  "ps_Load_mem blockSize capacity mem p =
     (case ReadBinary 4 mem of None \<Rightarrow> None
      | Some (b, mem') \<Rightarrow> ds_Load_mem blockSize capacity mem' p)"

definition ps_AddBatch :: "nat \<Rightarrow> int \<Rightarrow> PostingSizeRecord \<Rightarrow> (ErrorCode \<times> PostingSizeRecord) option" where
  "ps_AddBatch allocs num p = ds_AddBatch allocs num None p"

definition ps_BufferSize :: "PostingSizeRecord \<Rightarrow> nat" where
  "ps_BufferSize p = ds_BufferSize p + 4"

definition ps_SetR :: "nat \<Rightarrow> PostingSizeRecord \<Rightarrow> PostingSizeRecord" where
  "ps_SetR num p = ds_SetR num p"

subsection \<open>Checksum\<close>

record Checksum =
  cs_type :: u8
  cs_seed :: int
  cs_skip :: bool

definition cs_Initialize :: "bool \<Rightarrow> u8 \<Rightarrow> int \<Rightarrow> Checksum" where
  "cs_Initialize p_skip p_type p_seed = \<lparr>cs_type = p_type, cs_seed = p_seed, cs_skip = p_skip\<rparr>"

fun cs_xor :: "u8 \<Rightarrow> bytes \<Rightarrow> u8" where
  "cs_xor cs [] = cs"
| "cs_xor cs (b # bs) = cs_xor (xor cs b) bs"

definition CalcChecksum :: "Checksum \<Rightarrow> bytes \<Rightarrow> u8" where
  "CalcChecksum c p_data = cs_xor (word_of_int (cs_seed c)) p_data"

definition AppendChecksum :: "u8 \<Rightarrow> bytes \<Rightarrow> u8" where
  "AppendChecksum p_checksum p_data = cs_xor p_checksum p_data"

definition ValidateChecksum :: "Checksum \<Rightarrow> bytes \<Rightarrow> u8 \<Rightarrow> bool" where
  "ValidateChecksum c p_data p_checksum = (if cs_skip c then True else CalcChecksum c p_data = p_checksum)"

subsection \<open>What the labels stand for\<close>

definition byte_column :: "dataset \<Rightarrow> bool" where
  "byte_column d \<longleftrightarrow> ds_inv d \<and> ds_width d = 1 \<and> ds_colStart d = 0 \<and> fresh_spare d"

definition column :: "dataset \<Rightarrow> bytes" where
  "column d = map hd (ds_cells d)"

definition labelled :: "LabelSet \<Rightarrow> nat set" where
  "labelled l = {i. i < ls_R l \<and> column (ls_data l) ! i = 1}"

definition ls_inv :: "LabelSet \<Rightarrow> bool" where
  "ls_inv l \<longleftrightarrow> byte_column (ls_data l) \<and> set (column (ls_data l)) \<subseteq> {1, 255} \<and>
     ls_inserted l = int (length (filter (\<lambda>b. b = 1) (column (ls_data l))))"

text \<open>The label sets that a program can build, with the set of ids it has labelled.\<close>

inductive ls_reach :: "LabelSet \<Rightarrow> nat set \<Rightarrow> bool" where
  ls_init: "ls_reach (ls_Initialize n blockSize capacity beh ls_new) {}"
| ls_insert: "ls_reach l S \<Longrightarrow> 0 \<le> key \<Longrightarrow> key < int (ls_R l) \<Longrightarrow> ls_Insert key l = Some (r, l') \<Longrightarrow>
    ls_reach l' (insert (nat key) S)"
| ls_reset: "ls_reach l S \<Longrightarrow> 0 \<le> key \<Longrightarrow> key < int (ls_R l) \<Longrightarrow> ls_Reset key l = Some (r, l') \<Longrightarrow>
    ls_reach l' (S - {nat key})"
| ls_grow: "ls_reach l S \<Longrightarrow> 0 \<le> num \<Longrightarrow> ls_AddBatch allocs num l = Some (e, l') \<Longrightarrow> ls_reach l' S"

definition vl_inv :: "VersionLabel \<Rightarrow> bool" where
  "vl_inv l \<longleftrightarrow> byte_column (vl_data l) \<and>
     vl_deleted l = int (length (filter (\<lambda>b. b = 0xfe) (column (vl_data l))))"

text \<open>Three ids, versions \<open>5\<close>, \<open>0xfe\<close> (deleted) and \<open>0xff\<close> (new).\<close>

definition sample_versions :: VersionLabel where
  "sample_versions = \<lparr>vl_deleted = 1, vl_data = (ds_empty 1)\<lparr>ds_rows := 3, ds_cols := 1,
     ds_data := Some [5, 0xfe, 0xff], ds_rowsInBlockEx := 1, ds_mycols := 1\<rparr>\<rparr>"

definition sample_sizes :: PostingSizeRecord where
  "sample_sizes = (ds_empty 4)\<lparr>ds_rows := 2, ds_cols := 4, ds_data := Some [7, 0, 0, 0, 9, 0, 0, 0],
     ds_rowsInBlockEx := 1, ds_mycols := 1\<rparr>"

definition sample_labels :: LabelSet where
  "sample_labels = (case ls_Insert 1 (ls_Initialize 3 2 10 AlwaysContains ls_new) of
     Some (_, l) \<Rightarrow> l | None \<Rightarrow> ls_new)"

subsection \<open>Cells of a byte column\<close>

lemma length_column [simp]: "length (column d) = ds_R d"
  by (simp add: column_def)

lemma ds_write_shape: "ds_write d k c = Some d' \<Longrightarrow> same_shape d d'"
  by (auto simp: ds_write_def Option.bind_eq_Some_conv dest: ptr_write_frame(1))

lemma byte_column_read:
  assumes "byte_column d" "0 \<le> k" "k < int (ds_R d)"
  obtains r where "ds_read d k = Some r" "hd r = column d ! nat k"
  using byte_cells.coded.get_int[of d k] assms by (auto simp: byte_column_def column_def)

lemma byte_column_write:
  assumes "byte_column d" "0 \<le> k" "k < int (ds_R d)"
  obtains d' where "ds_write d k [v] = Some d'" "byte_column d'" "column d' = (column d)[nat k := v]"
    "ds_R d' = ds_R d"
    "length (filter P (column d')) + (if P (column d ! nat k) then 1 else 0) =
       length (filter P (column d)) + (if P v then 1 else 0)"
proof -
  have "ds_inv d \<and> ds_width d = 1" using assms(1) by (simp add: byte_column_def)
  from byte_cells.coded.put_count[OF this assms(2), of v P] assms(3)
  obtain d' where d': "ds_write d k [v] = Some d'" "ds_inv d'" "ds_width d' = 1"
    "column d' = (column d)[nat k := v]"
    "length (filter P (column d')) + (if P (column d ! nat k) then 1 else 0) =
       length (filter P (column d)) + (if P v then 1 else 0)"
    by (auto simp: column_def)
  note sh = ds_write_shape[OF d'(1)]
  have "fresh_spare d'"
    using fresh_spare_write[of d "nat k" "[v]" d'] assms d'(1) by (auto simp: byte_column_def)
  then have "byte_column d'" using d'(2,3) sh assms(1) by (simp add: byte_column_def same_shape_def)
  then show thesis using that d' same_shape_facts(3)[OF sh] by blast
qed

lemma exchange8_column:
  assumes "byte_column d" "0 \<le> k" "k < int (ds_R d)"
  obtains d' where "exchange8 d k v = Some (column d ! nat k, d')" "byte_column d'"
    "column d' = (column d)[nat k := v]" "ds_R d' = ds_R d"
    "length (filter P (column d')) + (if P (column d ! nat k) then 1 else 0) =
       length (filter P (column d)) + (if P v then 1 else 0)"
proof -
  obtain r where "ds_read d k = Some r" "hd r = column d ! nat k" using byte_column_read[OF assms] .
  moreover obtain d' where "ds_write d k [v] = Some d'" "byte_column d'"
    "column d' = (column d)[nat k := v]" "ds_R d' = ds_R d"
    "length (filter P (column d')) + (if P (column d ! nat k) then 1 else 0) =
       length (filter P (column d)) + (if P v then 1 else 0)"
    using byte_column_write[OF assms] .
  ultimately show thesis using that by (simp add: exchange8_def)
qed

lemma byte_column_grow:
  assumes "byte_column d" "0 \<le> num"
  obtains e d' where "ds_AddBatch allocs num None d = Some (e, d')" "byte_column d'"
    "e = Success \<and> column d' = column d @ replicate (nat num) 255 \<or>
     e = MemoryOverFlow \<and> column d' = column d"
proof -
  obtain e d' where "ds_AddBatch allocs num None d = Some (e, d')" "ds_inv d'" "fresh_spare d'"
    "ds_width d' = ds_width d" "ds_colStart d' = 0" "ds_maxRows d' = ds_maxRows d"
    "e = Success \<and> ds_cells d' = ds_cells d @ replicate (nat num) (replicate (ds_width d) 255) \<or>
     e = MemoryOverFlow \<and> ds_cells d' = ds_cells d"
    using ds_AddBatch_blank[of d num allocs] assms unfolding byte_column_def by blast
  then show thesis using that assms(1) by (auto simp: byte_column_def column_def)
qed

lemma byte_column_Init:
  "byte_column (ds_Init n 1 b c (ds_empty 1))" "column (ds_Init n 1 b c (ds_empty 1)) = replicate n 255"
  by (auto simp: byte_column_def column_def ds_Init_facts ds_Init_fresh ds_Init_cells ds_empty_def)

subsection \<open>Label sets\<close>

lemma ls_Insert_in_range:
  assumes "ls_inv l" "0 \<le> k" "k < int (ls_R l)"
  obtains l' where "ls_Insert k l = Some (nat k \<notin> labelled l, l')" "ls_inv l'" "ls_R l' = ls_R l"
    "labelled l' = insert (nat k) (labelled l)" "ls_invalid l' = ls_invalid l"
proof -
  let ?c = "column (ls_data l)"
  obtain d' where d': "exchange8 (ls_data l) k 1 = Some (?c ! nat k, d')" "byte_column d'"
    "column d' = ?c[nat k := 1]" "ds_R d' = ds_R (ls_data l)"
    "length (filter (\<lambda>b. b = 1) (column d')) + (if ?c ! nat k = 1 then 1 else 0) =
       length (filter (\<lambda>b. b = 1) ?c) + (if (1::u8) = 1 then 1 else 0)"
    using exchange8_column[of "ls_data l" k, where v = 1 and P = "\<lambda>b. b = 1"] assms by (auto simp: ls_inv_def ls_R_def)
  let ?l = "l\<lparr>ls_data := d', ls_inserted := ls_inserted l + (if ?c ! nat k = 1 then 0 else 1)\<rparr>"
  have k: "nat k < ds_R (ls_data l)" using assms by (simp add: ls_R_def)
  have "set (column d') \<subseteq> {1, 255}"
    using set_update_subset_insert[of ?c "nat k" 1] assms(1) unfolding d'(3) ls_inv_def by auto
  then have "ls_inv ?l" using assms(1) d'(2,5) by (auto simp: ls_inv_def)
  moreover have "labelled ?l = insert (nat k) (labelled l)"
    using k d'(3,4) by (auto simp: labelled_def ls_R_def nth_list_update)
  moreover have "ls_Insert k l = Some (nat k \<notin> labelled l, ?l)"
    using assms(3) d'(1) k by (auto simp: ls_Insert_def ls_out_of_range_def labelled_def ls_R_def)
  ultimately show thesis using that d'(4) by (simp add: ls_R_def)
qed

lemma ls_Reset_in_range:
  assumes "ls_inv l" "0 \<le> k" "k < int (ls_R l)"
  obtains l' where "ls_Reset k l = Some (nat k \<in> labelled l, l')" "ls_inv l'" "ls_R l' = ls_R l"
    "labelled l' = labelled l - {nat k}" "ls_invalid l' = ls_invalid l"
proof -
  let ?c = "column (ls_data l)"
  obtain d' where d': "exchange8 (ls_data l) k 255 = Some (?c ! nat k, d')" "byte_column d'"
    "column d' = ?c[nat k := 255]" "ds_R d' = ds_R (ls_data l)"
    "length (filter (\<lambda>b. b = 1) (column d')) + (if ?c ! nat k = 1 then 1 else 0) =
       length (filter (\<lambda>b. b = 1) ?c) + (if (255::u8) = 1 then 1 else 0)"
    using exchange8_column[of "ls_data l" k, where v = 255 and P = "\<lambda>b. b = 1"] assms by (auto simp: ls_inv_def ls_R_def)
  let ?l = "l\<lparr>ls_data := d', ls_inserted := ls_inserted l - (if ?c ! nat k = 255 then 0 else 1)\<rparr>"
  have k: "nat k < ds_R (ls_data l)" using assms by (simp add: ls_R_def)
  then have v: "?c ! nat k = 1 \<or> ?c ! nat k = 255"
    using assms(1) nth_mem[of "nat k" ?c] by (auto simp: ls_inv_def subset_iff)
  have "set (column d') \<subseteq> {1, 255}"
    using set_update_subset_insert[of ?c "nat k" 255] assms(1) unfolding d'(3) ls_inv_def by auto
  then have "ls_inv ?l" using assms(1) d'(2,5) v by (auto simp: ls_inv_def)
  moreover have "labelled ?l = labelled l - {nat k}"
    using k d'(3,4) by (auto simp: labelled_def ls_R_def nth_list_update)
  moreover have "ls_Reset k l = Some (nat k \<in> labelled l, ?l)"
    using assms(3) d'(1) k v by (auto simp: ls_Reset_def ls_out_of_range_def labelled_def ls_R_def)
  ultimately show thesis using that d'(4) by (simp add: ls_R_def)
qed

lemma ls_AddBatch_grow:
  assumes "ls_inv l" "0 \<le> num"
  obtains e l' where "ls_AddBatch allocs num l = Some (e, l')" "ls_inv l'" "labelled l' = labelled l"
    "e = Success \<and> ls_R l' = ls_R l + nat num \<or> e = MemoryOverFlow \<and> ls_R l' = ls_R l"
proof -
  obtain e d' where d': "ds_AddBatch allocs num None (ls_data l) = Some (e, d')" "byte_column d'"
    "e = Success \<and> column d' = column (ls_data l) @ replicate (nat num) 255 \<or>
     e = MemoryOverFlow \<and> column d' = column (ls_data l)"
    using byte_column_grow assms unfolding ls_inv_def by blast
  let ?l = "l\<lparr>ls_data := d'\<rparr>"
  have "ds_R d' = ds_R (ls_data l) + (if e = Success then nat num else 0)"
    using d'(3) by (auto dest!: arg_cong[where f = length])
  then have "labelled ?l = labelled l"
    "e = Success \<and> ls_R ?l = ls_R l + nat num \<or> e = MemoryOverFlow \<and> ls_R ?l = ls_R l"
    using d'(3) by (auto simp: labelled_def ls_R_def nth_append split: if_splits) (rule ccontr, simp)
  moreover have "ls_inv ?l" using assms(1) d'(2,3) by (auto simp: ls_inv_def)
  ultimately show thesis using that d'(1) by (simp add: ls_AddBatch_def)
qed

lemma ls_count_card: "ls_inv l \<Longrightarrow> ls_Count l = int (card (labelled l))"
  by (simp add: ls_Count_def ls_inv_def labelled_def ls_R_def length_filter_conv_card)

lemma ls_Contains_in_range:
  assumes "ls_inv l" "0 \<le> k" "k < int (ls_R l)"
  shows "ls_Contains k l = Some (nat k \<in> labelled l)"
proof -
  obtain r where "ds_read (ls_data l) k = Some r" "hd r = column (ls_data l) ! nat k"
    using byte_column_read[of "ls_data l" k] assms unfolding ls_inv_def ls_R_def by blast
  then show ?thesis using assms(2,3)
    by (auto simp: ls_Contains_def ls_out_of_range_def labelled_def ls_R_def)
qed

lemma exchange8_shape: "exchange8 d k v = Some (x, d') \<Longrightarrow> same_shape d d'"
  by (auto simp: exchange8_def dest: ds_write_shape split: option.splits)

lemma ls_Insert_maxRows: "ls_Insert k l = Some (r, l') \<Longrightarrow> ds_maxRows (ls_data l') = ds_maxRows (ls_data l)"
  by (auto simp: ls_Insert_def same_shape_def dest!: exchange8_shape split: option.splits if_splits)

lemma ls_Reset_maxRows: "ls_Reset k l = Some (r, l') \<Longrightarrow> ds_maxRows (ls_data l') = ds_maxRows (ls_data l)"
  by (auto simp: ls_Reset_def same_shape_def dest!: exchange8_shape split: option.splits if_splits)

text \<open>Growth succeeds when the capacity and the memory are there.\<close>

lemma ls_AddBatch_success:
  assumes "ls_inv l" "0 \<le> num" "int (ls_R l) + num \<le> ds_maxRows (ls_data l)" "nat num \<le> allocs"
  obtains l' where "ls_AddBatch allocs num l = Some (Success, l')" "ls_inv l'"
    "labelled l' = labelled l" "ls_R l' = ls_R l + nat num" "ds_maxRows (ls_data l') = ds_maxRows (ls_data l)"
proof -
  let ?d = "ls_data l"
  have d: "ds_inv ?d" "ds_colStart ?d = 0" using assms(1) by (auto simp: ls_inv_def byte_column_def)
  have "ds_incRows ?d + nat num \<le> length (ds_incBlocks ?d) * 2 ^ ds_rowsInBlockEx ?d + nat num * 1"
    using d(1) by (simp add: ds_inv_def ds_cap_def ds_R_def)
  also have "\<dots> \<le> (length (ds_incBlocks ?d) + allocs) * 2 ^ ds_rowsInBlockEx ?d"
    using mult_le_mono[OF assms(4), of 1 "2 ^ ds_rowsInBlockEx ?d"] by (simp add: add_mult_distrib)
  finally obtain d' where d': "ds_AddBatch allocs num None ?d = Some (Success, d')"
    "ds_maxRows d' = ds_maxRows ?d"
    using ds_AddBatch_grows[OF d(1,2) assms(2), of allocs None] assms(3) by (auto simp: ls_R_def)
  then have s: "ls_AddBatch allocs num l = Some (Success, l\<lparr>ls_data := d'\<rparr>)" by (simp add: ls_AddBatch_def)
  moreover obtain e l' where "ls_AddBatch allocs num l = Some (e, l')" "ls_inv l'" "labelled l' = labelled l"
    "e = Success \<and> ls_R l' = ls_R l + nat num \<or> e = MemoryOverFlow \<and> ls_R l' = ls_R l"
    using ls_AddBatch_grow[OF assms(1,2)] .
  ultimately show thesis using that[OF s] d'(2) by auto
qed

lemma ls_reach_inv: "ls_reach l S \<Longrightarrow> ls_inv l \<and> labelled l = S"
proof (induction rule: ls_reach.induct)
  case (ls_init n blockSize capacity beh)
  then show ?case
    by (auto simp: ls_inv_def ls_Initialize_def ls_new_def byte_column_Init[unfolded One_nat_def]
        labelled_def ls_R_def ds_Init_facts)
next
  case (ls_insert l S key r l')
  then show ?case using ls_Insert_in_range[of l key] by auto
next
  case (ls_reset l S key r l')
  then show ?case using ls_Reset_in_range[of l key] by auto
next
  case (ls_grow l S num allocs e l')
  then show ?case using ls_AddBatch_grow[of l num allocs] by auto
qed

subsection \<open>Version labels\<close>

lemma vl_Deleted_in_range:
  assumes "vl_inv l" "\<not> vl_bad_key k l"
  shows "vl_Deleted k l = Some (column (vl_data l) ! nat k = 0xfe)"
    and "vl_GetVersion k l = Some (column (vl_data l) ! nat k)"
proof -
  obtain r where "ds_read (vl_data l) k = Some r" "hd r = column (vl_data l) ! nat k"
    using byte_column_read[of "vl_data l" k] assms unfolding vl_inv_def vl_bad_key_def by auto
  then show "vl_Deleted k l = Some (column (vl_data l) ! nat k = 0xfe)"
    and "vl_GetVersion k l = Some (column (vl_data l) ! nat k)"
    using assms(2) by (auto simp: vl_Deleted_def vl_GetVersion_def)
qed

lemma vl_Delete_in_range:
  assumes "vl_inv l" "\<not> vl_bad_key k l"
  obtains l' where "vl_Delete k l = Some (column (vl_data l) ! nat k \<noteq> 0xfe, l')" "vl_inv l'"
    "column (vl_data l') = (column (vl_data l))[nat k := 0xfe]"
proof -
  let ?c = "column (vl_data l)"
  obtain d' where d': "exchange8 (vl_data l) k 0xfe = Some (?c ! nat k, d')" "byte_column d'"
    "column d' = ?c[nat k := 0xfe]" "ds_R d' = ds_R (vl_data l)"
    "length (filter (\<lambda>b. b = 0xfe) (column d')) + (if ?c ! nat k = 0xfe then 1 else 0) =
       length (filter (\<lambda>b. b = 0xfe) ?c) + (if (0xfe::u8) = 0xfe then 1 else 0)"
    using exchange8_column[of "vl_data l" k, where v = "0xfe" and P = "\<lambda>b. b = 0xfe"] assms
    by (auto simp: vl_inv_def vl_bad_key_def)
  let ?l = "l\<lparr>vl_data := d', vl_deleted := vl_deleted l + (if ?c ! nat k = 0xfe then 0 else 1)\<rparr>"
  have "vl_inv ?l" using assms(1) d'(2,5) by (auto simp: vl_inv_def)
  moreover have "vl_Delete k l = Some (?c ! nat k \<noteq> 0xfe, ?l)"
    using assms(2) d'(1) by (auto simp: vl_Delete_def)
  ultimately show thesis using that d'(3) by simp
qed

lemma and_7f_small: "unat (and x 0x7f :: u8) < 128"
proof -
  have "and x 0x7f = take_bit 7 x" by (simp add: take_bit_eq_mask mask_eq_exp_minus_1)
  then show ?thesis by (simp add: unsigned_take_bit_eq take_bit_nat_less_exp[of 7, simplified])
qed

lemma and_7f_not_deleted: "and x 0x7f \<noteq> (0xfe :: u8)"
  using and_7f_small[of x] by auto

lemma vl_IncVersion_in_range:
  assumes "vl_inv l" "\<not> vl_bad_key k l"
  defines "v \<equiv> column (vl_data l) ! nat k"
  shows "v = 0xfe \<Longrightarrow> vl_IncVersion k l = Some (False, None, l)"
    and "v \<noteq> 0xfe \<Longrightarrow> \<exists>l'. vl_IncVersion k l = Some (True, Some (and (v + 1) 0x7f), l') \<and> vl_inv l' \<and>
      column (vl_data l') = (column (vl_data l))[nat k := and (v + 1) 0x7f]"
proof -
  note rd = vl_Deleted_in_range[OF assms(1,2)]
  show "v = 0xfe \<Longrightarrow> vl_IncVersion k l = Some (False, None, l)"
    using rd assms(2) by (simp add: vl_IncVersion_def v_def numeral_3_eq_3)
  assume live: "v \<noteq> 0xfe"
  let ?n = "and (v + 1) 0x7f"
  have in_range: "byte_column (vl_data l)" "0 \<le> k" "k < int (ds_R (vl_data l))"
    using assms(1,2) by (auto simp: vl_inv_def vl_bad_key_def)
  obtain r where r: "ds_read (vl_data l) k = Some r" "hd r = v"
    using byte_column_read[OF in_range] v_def by metis
  obtain d' where d': "ds_write (vl_data l) k [?n] = Some d'" "byte_column d'"
    "column d' = (column (vl_data l))[nat k := ?n]"
    "length (filter (\<lambda>b. b = 0xfe) (column d')) = length (filter (\<lambda>b. b = 0xfe) (column (vl_data l)))"
    using byte_column_write[OF in_range, where v = ?n and P = "\<lambda>b. b = 0xfe"] live and_7f_not_deleted
    by (auto simp: v_def)
  have "compare_exchange8 (vl_data l) k ?n v = Some (v, d')"
    using r d'(1) by (simp add: compare_exchange8_def)
  then have "vl_IncVersion k l = Some (True, Some ?n, l\<lparr>vl_data := d'\<rparr>)"
    using rd assms(2) live by (simp add: vl_IncVersion_def v_def numeral_3_eq_3)
  then show "\<exists>l'. vl_IncVersion k l = Some (True, Some ?n, l') \<and> vl_inv l' \<and>
      column (vl_data l') = (column (vl_data l))[nat k := ?n]"
    using d' assms(1) by (auto simp: vl_inv_def)
qed

lemma cs_xor_fold: "cs_xor c bs = xor c (cs_xor 0 bs)"
  by (induction bs arbitrary: c) (simp, metis cs_xor.simps(2) xor.assoc xor.left_neutral)

lemma cs_xor_append: "cs_xor c (xs @ ys) = cs_xor (cs_xor c xs) ys"
  by (induction xs arbitrary: c) auto

lemma cs_xor_update:
  "i < length bs \<Longrightarrow> cs_xor c (bs[i := b]) = xor (cs_xor c bs) (xor (bs ! i) b)"
proof (induction bs arbitrary: c i)
  case (Cons x bs)
  show ?case
  proof (cases i)
    case 0
    have "cs_xor (xor c b) bs = xor (xor c b) (cs_xor 0 bs)" by (rule cs_xor_fold)
    also have "\<dots> = xor (xor (xor c x) (cs_xor 0 bs)) (xor x b)"
      by (simp add: xor.assoc xor.left_commute xor.commute)
    also have "xor (xor c x) (cs_xor 0 bs) = cs_xor (xor c x) bs" by (rule cs_xor_fold [symmetric])
    finally show ?thesis by (simp add: 0)
  qed (use Cons in auto)
qed simp

subsection \<open>Properties\<close>



text \<open>Version labels, one thread at a time: \<^verbatim>\<open>Delete\<close> marks the id, returns true exactly the first
  time and keeps the delete counter equal to the number of deleted ids; \<^verbatim>\<open>IncVersion\<close> refuses a deleted
  id and changes nothing, and otherwise stores the successor of the version modulo 128, which is never
  the mark of a deleted or of a new id; every other id keeps its version.\<close>

theorem version_label_operations:
  assumes "vl_inv l" "\<not> vl_bad_key key l"
  shows "vl_GetDeleteCount l = int (card {i. i < vl_Count l \<and> vl_Deleted (int i) l = Some True}) \<and>
    (\<exists>l'. vl_Delete key l = Some (vl_Deleted key l = Some False, l') \<and> vl_inv l' \<and>
       vl_Deleted key l' = Some True \<and>
       (\<forall>k. k \<noteq> key \<longrightarrow> vl_GetVersion k l' = vl_GetVersion k l)) \<and>
    (if vl_Deleted key l = Some True then vl_IncVersion key l = Some (False, None, l)
     else \<exists>v nv l'. vl_GetVersion key l = Some v \<and> vl_IncVersion key l = Some (True, Some nv, l') \<and>
       unat nv = (unat v + 1) mod 128 \<and> vl_inv l' \<and> vl_GetVersion key l' = Some nv \<and>
       vl_Deleted key l' = Some False \<and>
       (\<forall>k. k \<noteq> key \<longrightarrow> vl_GetVersion k l' = vl_GetVersion k l))"
proof -
  let ?c = "column (vl_data l)"
  have bad: "vl_bad_key k l' \<longleftrightarrow> vl_bad_key k l" if "column (vl_data l') = ?c[i := x]" for k l' i x
    using arg_cong[OF that, of length] by (simp add: vl_bad_key_def)
  have other: "vl_GetVersion k l' = vl_GetVersion k l"
    if "vl_inv l'" "column (vl_data l') = ?c[nat key := x]" "k \<noteq> key" for k l' x
  proof (cases "vl_bad_key k l")
    case False
    then have "nat k \<noteq> nat key" using that(3) assms(2) by (auto simp: vl_bad_key_def)
    then show ?thesis
      using vl_Deleted_in_range(2)[of l' k] vl_Deleted_in_range(2)[of l k] False that assms(1)
      by (simp add: bad[OF that(2)])
  qed (simp add: vl_GetVersion_def bad[OF that(2)])
  have len: "nat key < length ?c" using assms(2) by (auto simp: vl_bad_key_def nat_less_iff)
  have cnt: "vl_GetDeleteCount l = int (card {i. i < vl_Count l \<and> vl_Deleted (int i) l = Some True})"
  proof -
    have "{i. i < vl_Count l \<and> vl_Deleted (int i) l = Some True} = {i. i < length ?c \<and> ?c ! i = 0xfe}"
      using vl_Deleted_in_range(1)[OF assms(1)] by (auto simp: vl_Count_def vl_bad_key_def)
    then show ?thesis
      using assms(1) by (simp add: vl_GetDeleteCount_def vl_inv_def length_filter_conv_card)
  qed
  have del: "\<exists>l'. vl_Delete key l = Some (vl_Deleted key l = Some False, l') \<and> vl_inv l' \<and>
       vl_Deleted key l' = Some True \<and> (\<forall>k. k \<noteq> key \<longrightarrow> vl_GetVersion k l' = vl_GetVersion k l)"
  proof -
    obtain l' where l': "vl_Delete key l = Some (?c ! nat key \<noteq> 0xfe, l')" "vl_inv l'"
      "column (vl_data l') = ?c[nat key := 0xfe]" using vl_Delete_in_range[OF assms] .
    then show ?thesis
      using vl_Deleted_in_range(1)[OF assms] vl_Deleted_in_range(1)[OF l'(2), of key] other[OF l'(2,3)]
        bad[OF l'(3)] len assms(2) by auto
  qed
  have inc: "if vl_Deleted key l = Some True then vl_IncVersion key l = Some (False, None, l)
     else \<exists>v nv l'. vl_GetVersion key l = Some v \<and> vl_IncVersion key l = Some (True, Some nv, l') \<and>
       unat nv = (unat v + 1) mod 128 \<and> vl_inv l' \<and> vl_GetVersion key l' = Some nv \<and>
       vl_Deleted key l' = Some False \<and> (\<forall>k. k \<noteq> key \<longrightarrow> vl_GetVersion k l' = vl_GetVersion k l)"
  proof (cases "?c ! nat key = 0xfe")
    case True
    then show ?thesis
      using vl_IncVersion_in_range(1)[OF assms] vl_Deleted_in_range(1)[OF assms] by simp
  next
    case False
    let ?v = "?c ! nat key" and ?n = "and (?c ! nat key + 1) 0x7f"
    obtain l' where l': "vl_IncVersion key l = Some (True, Some ?n, l')" "vl_inv l'"
      "column (vl_data l') = ?c[nat key := ?n]"
      using vl_IncVersion_in_range(2)[OF assms False] by blast
    have "unat ?n = (unat ?v + 1) mod 128"
    proof -
      have "?n = take_bit 7 (?v + 1)" by (simp add: take_bit_eq_mask mask_eq_exp_minus_1)
      then have "unat ?n = take_bit 7 (unat (?v + 1))" by (simp add: unsigned_take_bit_eq)
      also have "\<dots> = (unat ?v + 1) mod 128"
        by (simp add: take_bit_eq_mod unat_word_ariths mod_mod_cancel)
      finally show ?thesis .
    qed
    then show ?thesis
      using vl_Deleted_in_range[OF assms] vl_Deleted_in_range[OF l'(2), of key] other[OF l'(2,3)]
        bad[OF l'(3)] len assms(2) l' False and_7f_not_deleted by auto
  qed
  show ?thesis using cnt del inc by blast
qed

theorem version_label_operations_witness:
  "vl_GetDeleteCount sample_versions =
     int (card {i. i < vl_Count sample_versions \<and> vl_Deleted (int i) sample_versions = Some True}) \<and>
   (\<exists>v nv l'. vl_GetVersion 2 sample_versions = Some v \<and>
      vl_IncVersion 2 sample_versions = Some (True, Some nv, l') \<and> unat nv = (unat v + 1) mod 128) \<and>
   vl_IncVersion 1 sample_versions = Some (False, None, sample_versions)"
proof -
  have "byte_column (vl_data sample_versions)"
    by (simp add: byte_column_def ds_inv_def ds_store_ok_def fresh_spare_def sample_versions_def
        ds_empty_def ds_width_def ds_R_def ds_cap_def)
  moreover have "vl_deleted sample_versions =
      int (length (filter (\<lambda>b. b = 0xfe) (column (vl_data sample_versions))))" by code_simp
  ultimately have i: "vl_inv sample_versions" by (simp add: vl_inv_def)
  have b: "\<not> vl_bad_key 1 sample_versions" "\<not> vl_bad_key 2 sample_versions"
    "vl_Deleted 1 sample_versions = Some True" "vl_Deleted 2 sample_versions = Some False" by code_simp+
  show ?thesis
    using version_label_operations[OF i b(1)] version_label_operations[OF i b(2)] unfolding b by auto
qed

text \<open>C36. The interleaving that \<^verbatim>\<open>IncVersion\<close> does not guard against: it checks for a deleted id and
  reads the version in two separate accesses. When another thread deletes the id between the two, the
  version read is the mark \<open>0xfe\<close>, the compare-and-exchange succeeds on it, \<^verbatim>\<open>IncVersion\<close> returns true
  with version \<open>0x7f\<close>, and the deleted id is live again while the delete counter still counts it.\<close>

theorem version_increment_race:
  "\<exists>l1 l2 l3. vl_inc_step 0 (IncCheck, sample_versions) = Some (IncRead, l1) \<and>
     vl_Delete 0 l1 = Some (True, l2) \<and> vl_Deleted 0 l2 = Some True \<and>
     vl_inc_run 2 0 (IncRead, l2) = Some (IncDone True (Some 0x7f), l3) \<and>
     vl_Deleted 0 l3 = Some False \<and> vl_GetDeleteCount l3 = 2 \<and>
     length (filter (\<lambda>b. b = 0xfe) (column (vl_data l3))) = 1"
proof -
  let ?l2 = "sample_versions\<lparr>vl_deleted := 2, vl_data := (vl_data sample_versions)\<lparr>
      ds_data := Some [0xfe, 0xfe, 0xff]\<rparr>\<rparr>"
  let ?l3 = "?l2\<lparr>vl_data := (vl_data ?l2)\<lparr>ds_data := Some [0x7f, 0xfe, 0xff]\<rparr>\<rparr>"
  have "vl_inc_step 0 (IncCheck, sample_versions) = Some (IncRead, sample_versions)" by code_simp
  moreover have "vl_Delete 0 sample_versions = Some (True, ?l2)" by code_simp
  moreover have "vl_Deleted 0 ?l2 = Some True" by code_simp
  moreover have "vl_inc_run 2 0 (IncRead, ?l2) = Some (IncDone True (Some 0x7f), ?l3)" by code_simp
  moreover have "vl_Deleted 0 ?l3 = Some False" by code_simp
  moreover have "vl_GetDeleteCount ?l3 = 2" by code_simp
  moreover have "length (filter (\<lambda>b. b = 0xfe) (column (vl_data ?l3))) = 1" by code_simp
  ultimately show ?thesis by blast
qed

text \<open>Posting sizes do not survive the memory-mapped path: \<^verbatim>\<open>Save\<close> writes the row count first, but
  \<^verbatim>\<open>Load(char*)\<close> skips four bytes before it reads the header, so the saved column count \<open>1\<close> is taken
  for the number of postings and the first posting's size for the number of columns, however many
  postings were saved. (Through a stream, \<^verbatim>\<open>Load\<close> gives the sizes back.)\<close>

theorem posting_sizes_reload:
  assumes "ds_inv p" "ds_tsize p = 4" "ds_mycols p = 1" "0 < ps_GetPostingNum p" "ps_GetPostingNum p < 2 ^ 31"
    "ps_GetSize 0 p = Some x" "0 \<le> x" "ds_BufferSize p \<le> os_room os"
  shows "\<exists>os' w. ps_Save p os = Some (Success, os') \<and> os_written os' = os_written os @ w \<and>
     (\<exists>q. ps_Load blockSize capacity w ps_new = Some (Success, q, []) \<and>
        ps_GetPostingNum q = ps_GetPostingNum p \<and>
        (\<forall>i < ps_GetPostingNum p. ps_GetSize (int i) q = ps_GetSize (int i) p)) \<and>
     (\<exists>q. ps_Load_mem blockSize capacity w ps_new = Some (Success, q) \<and>
        ps_GetPostingNum q = 1 \<and> ds_mycols q = nat x)"
proof -
  let ?cs = "ds_cells p"
  let ?w = "int_encode 4 (int (ds_R p)) @ int_encode 4 1 @ concat ?cs"
  have R: "0 < ds_R p" "ds_R p < 2 ^ 31" using assms(4,5) by (auto simp: ps_GetPostingNum_def)
  have width: "ds_width p = 4" using assms(2,3) by (simp add: ds_width_def)
  have bs: "ds_BufferSize p = 8 + ds_R p * 4" using assms(2,3) by (simp add: ds_BufferSize_def ds_C_def)
  have "map ((!) ?cs) [0..<ds_R p] = ?cs" by (metis length_ds_cells map_nth)
  then have save: "ps_Save p os = Some (Success, os\<lparr>os_written := os_written os @ ?w,
      os_room := os_room os - 8 - ds_R p * 4\<rparr>)"
    using assms(3,8) save_rows_enough[OF assms(1), of "[0..<ds_R p]"] unfolding bs
    by (simp add: ps_Save_def ds_Save_def save_header_room width)
  have stream: "\<exists>q. ps_Load blockSize capacity ?w ps_new = Some (Success, q, []) \<and>
      ps_GetPostingNum q = ps_GetPostingNum p \<and>
      (\<forall>i < ps_GetPostingNum p. ps_GetSize (int i) q = ps_GetSize (int i) p)"
  proof -
    have "\<not> ds_IsReady ps_new" "\<forall>r \<in> set ?cs. length r = ds_tsize ps_new * 1"
      using ds_cells_width[OF assms(1)] width by (auto simp: ps_new_def ds_empty_def ds_IsReady_def)
    from ds_Load_fresh[OF this(1), of ?cs 1 blockSize capacity "[]"] this(2) R(2)
    obtain q where q: "ps_Load blockSize capacity ?w ps_new = Some (Success, q, [])" "ds_inv q"
      "ds_cells q = ?cs" by (auto simp: ps_Load_def)
    then have "ds_R q = ds_R p" using length_ds_cells by metis
    then show ?thesis
      using q assms(1) by (auto simp: ps_GetPostingNum_def ps_GetSize_def ds_read_cells)
  qed
  obtain c cs where cs: "?cs = c # cs" using R(1) by (metis length_ds_cells length_0_conv list.exhaust not_gr0)
  then have c: "length c = 4" "int_decode c = x"
    using assms(6) ds_cells_width[OF assms(1), of c] ds_read_cells[OF assms(1) R(1)] width
    by (auto simp: ps_GetSize_def)
  have "load_header (int_encode 4 1 @ c @ concat cs) = Some (1, x, concat cs)"
    using c by (simp add: load_header_def int_decode_encode)
  then have "ds_Load_mem blockSize capacity (int_encode 4 1 @ c @ concat cs) ps_new = Some (Success,
      ds_Initialize 1 (nat x) blockSize capacity (Some (concat cs)) [] 0 (- 1) ps_new)"
    using assms(7) by (simp add: ds_Load_mem_def)
  then have "ps_Load_mem blockSize capacity ?w ps_new = Some (Success,
      ds_Initialize 1 (nat x) blockSize capacity (Some (concat cs)) [] 0 (- 1) ps_new)"
    by (simp add: ps_Load_mem_def cs)
  then have "\<exists>q. ps_Load_mem blockSize capacity ?w ps_new = Some (Success, q) \<and>
        ps_GetPostingNum q = 1 \<and> ds_mycols q = nat x"
    by (auto simp: ps_GetPostingNum_def ds_Initialize_def ds_R_def Let_def)
  then show ?thesis using save stream by auto
qed

theorem posting_sizes_reload_witness:
  "\<exists>os' w. ps_Save sample_sizes \<lparr>os_written = [], os_room = 16\<rparr> = Some (Success, os') \<and>
     os_written os' = w \<and> ps_GetPostingNum sample_sizes = 2 \<and>
     (\<exists>q. ps_Load 8 8 w ps_new = Some (Success, q, []) \<and> ps_GetPostingNum q = 2) \<and>
     (\<exists>q. ps_Load_mem 8 8 w ps_new = Some (Success, q) \<and> ps_GetPostingNum q = 1 \<and> ds_mycols q = 7)"
proof -
  have i: "ds_inv sample_sizes"
    by (simp add: ds_inv_def ds_store_ok_def sample_sizes_def ds_empty_def ds_width_def ds_R_def ds_cap_def)
  have f: "ds_tsize sample_sizes = 4" "ds_mycols sample_sizes = 1" "ps_GetPostingNum sample_sizes = 2"
    "ps_GetSize 0 sample_sizes = Some 7" "ds_BufferSize sample_sizes = 16" by code_simp+
  show ?thesis
    using posting_sizes_reload[OF i f(1,2), of 7 "\<lparr>os_written = [], os_room = 16\<rparr>" 8 8] f by auto
qed

text \<open>C32. The posting checksum: checking what was computed succeeds, a checksum can be extended piece
  by piece, and any change of a single byte is detected unless checking is switched off.\<close>

theorem checksum_detects:
  assumes "i < length p_data" "b \<noteq> p_data ! i"
  shows "ValidateChecksum c p_data (CalcChecksum c p_data) \<and>
    CalcChecksum c (p_data @ extra) = AppendChecksum (CalcChecksum c p_data) extra \<and>
    ValidateChecksum c (p_data[i := b]) (CalcChecksum c p_data) = cs_skip c"
proof -
  have "cs_xor z (p_data[i := b]) \<noteq> cs_xor z p_data" for z
  proof
    assume "cs_xor z (p_data[i := b]) = cs_xor z p_data"
    then have "xor (cs_xor z p_data) (xor (p_data ! i) b) = cs_xor z p_data"
      using cs_xor_update[OF assms(1)] by simp
    then have "xor (p_data ! i) b = 0"
      by (metis xor.assoc xor.left_neutral xor_self_eq)
    then show False using assms(2) by (metis xor.assoc xor.right_neutral xor_self_eq xor.left_neutral)
  qed
  then show ?thesis
    by (auto simp: ValidateChecksum_def CalcChecksum_def AppendChecksum_def cs_xor_append)
qed

theorem checksum_detects_witness:
  "ValidateChecksum (cs_Initialize False 0 7) [1, 9, 3] (CalcChecksum (cs_Initialize False 0 7) [1, 2, 3]) =
     False \<and>
   CalcChecksum (cs_Initialize False 0 7) ([1, 2, 3] @ [4]) =
     AppendChecksum (CalcChecksum (cs_Initialize False 0 7) [1, 2, 3]) [4]"
  using checksum_detects[of 1 "[1, 2, 3]" 9 "cs_Initialize False 0 7" "[4]"]
  by (simp add: cs_Initialize_def)

end
