(* ===== verification/Bkt_Search.thy ===== *)
theory Bkt_Search
  imports Work_Space Labels
begin

text \<open>
  The search of the BKT index: the forest search of \<^verbatim>\<open>inc/Core/Common/BKTree.h\<close> (\<^verbatim>\<open>InitSearchTrees\<close>,
  \<^verbatim>\<open>SearchTrees\<close>) and the best-first search over the neighbourhood graph of
  \<^verbatim>\<open>src/Core/BKT/BKTIndex.cpp\<close> (\<^verbatim>\<open>Search\<close>, \<^verbatim>\<open>SearchIterative\<close>, their dispatch and the calls of the
  index). It works on the workspace of theory \<open>Work_Space\<close>: the two queues, the visited set and the
  queue of best distances, and fills the result set of theory \<open>Result_Set\<close>.

  The distance of the query to sample \<open>i\<close> is \<open>D i\<close>: the code calls the function object
  \<^verbatim>\<open>m_fComputeDistance\<close> on the query and the row of the sample. \<open>scaleQ\<close> is the float product
  \<^verbatim>\<open>1.1f * x\<close>. The main loop and the forest search run with fuel, and so does the visited set (\<open>vf\<close>); a
  result \<^const>\<open>None\<close> is an access outside an array or a loop that has used up its fuel, and the theorems say
  how much fuel is enough. The lock of the trees and the prefetches have no part in the model.
\<close>

subsection \<open>Data\<close>

record BKTNode =
  centerid :: int
  childStart :: int
  childEnd :: int

record BKTree =
  m_iTreeNumber :: nat
  m_pTreeStart :: "int list"
  m_pTreeRoots :: "BKTNode list"
  m_bfs :: nat

text \<open>Of the index: the trees, the graph, the number of samples, the deleted ones, the metadata
  (\<^const>\<open>None\<close> is the null pointer) and the parameters of the search.\<close>

record BKTIndex =
  m_pTrees :: BKTree
  m_pGraph :: "int list list"
  m_iNeighborhoodSize :: nat
  m_iMaxCheckForRefineGraph :: int
  m_samplesR :: nat
  m_deletedID :: LabelSet
  m_pMetadata :: "(int \<Rightarrow> bytes) option"
  m_iNumberOfInitialDynamicPivots :: int
  m_iNumberOfOtherDynamicPivots :: int
  bi_MaxCheck :: int
  bi_HashTableExp :: nat
  m_bReady :: bool

definition tree_at :: "BKTree \<Rightarrow> int \<Rightarrow> BKTNode option" where
  "tree_at t i = (if 0 \<le> i \<and> i < int (length (m_pTreeRoots t)) then Some (m_pTreeRoots t ! nat i) else None)"

definition graph_row :: "BKTIndex \<Rightarrow> int \<Rightarrow> int list option" where
  "graph_row I i = (if 0 \<le> i \<and> i < int (length (m_pGraph I)) then Some (m_pGraph I ! nat i) else None)"

text \<open>The distance to a sample; the row must exist.\<close>

definition sample_dist :: "nat \<Rightarrow> (int \<Rightarrow> dist) \<Rightarrow> int \<Rightarrow> dist option" where
  "sample_dist R D i = (if 0 \<le> i \<and> i < int R then Some (D i) else None)"

definition NG_insert :: "int \<Rightarrow> dist \<Rightarrow> WorkSpace \<Rightarrow> WorkSpace" where
  "NG_insert n d ws = ws\<lparr>m_NGQueue := heap_insert ndp_less ndp_greater \<lparr>node = n, distance = d\<rparr> (m_NGQueue ws)\<rparr>"

definition SPT_insert :: "int \<Rightarrow> dist \<Rightarrow> WorkSpace \<Rightarrow> WorkSpace" where
  "SPT_insert n d ws = ws\<lparr>m_SPTQueue := heap_insert ndp_less ndp_greater \<lparr>node = n, distance = d\<rparr> (m_SPTQueue ws)\<rparr>"

definition ndp_pop :: "NodeDistPair heap \<Rightarrow> NodeDistPair \<times> NodeDistPair heap" where
  "ndp_pop = heap_pop_ref ndp_less ndp_greater"

subsection \<open>The forest\<close>

text \<open>The children \<open>begin = childStart, .., childEnd - 1\<close> of a node enter the queue of the trees.\<close>

definition children :: "BKTNode \<Rightarrow> int list" where
  "children n = [childStart n .. childEnd n - 1]"

fun push_children :: "BKTree \<Rightarrow> nat \<Rightarrow> (int \<Rightarrow> dist) \<Rightarrow> int list \<Rightarrow> WorkSpace \<Rightarrow> WorkSpace option" where
  "push_children t R D [] ws = Some ws"
| "push_children t R D (b # bs) ws =
     (case tree_at t b of
        None \<Rightarrow> None
      | Some n \<Rightarrow>
          (case sample_dist R D (centerid n) of
             None \<Rightarrow> None
           | Some d \<Rightarrow> push_children t R D bs (SPT_insert b d ws)))"

text \<open>The breadth-first start (\<^verbatim>\<open>m_bfs > 0\<close>): a child goes to the queue of the level when it is near the
  best of that queue and there is room, otherwise to the queue of the trees.\<close>

definition MaxBFSNodes :: nat where
  "MaxBFSNodes = 100"

definition set_Top_distance :: "dist \<Rightarrow> NodeDistPair heap \<Rightarrow> NodeDistPair heap" where
  "set_Top_distance d h =
     (let i = (if hp_count h = 0 then 0 else 1) in h\<lparr>hp_heap := (hp_heap h)[i := (hp_heap h ! i)\<lparr>distance := d\<rparr>]\<rparr>)"

fun bfs_children ::
  "BKTree \<Rightarrow> nat \<Rightarrow> (int \<Rightarrow> dist) \<Rightarrow> (dist \<Rightarrow> dist) \<Rightarrow> int list \<Rightarrow> NodeDistPair heap \<Rightarrow> WorkSpace \<Rightarrow>
     (NodeDistPair heap \<times> WorkSpace) option" where
  "bfs_children t R D scaleQ [] q ws = Some (q, ws)"
| "bfs_children t R D scaleQ (b # bs) q ws =
     (case tree_at t b of
        None \<Rightarrow> None
      | Some n \<Rightarrow>
          (case sample_dist R D (centerid n) of
             None \<Rightarrow> None
           | Some d \<Rightarrow>
               if d \<le> scaleQ (distance (heap_Top q)) \<and> heap_size q < MaxBFSNodes
               then bfs_children t R D scaleQ bs (heap_insert ndp_less ndp_greater \<lparr>node = b, distance = d\<rparr> q) ws
               else bfs_children t R D scaleQ bs q (SPT_insert b d ws)))"

text \<open>One level: the loop \<^verbatim>\<open>while (!p_curr->empty())\<close> runs once per element of the level.\<close>

fun bfs_level ::
  "nat \<Rightarrow> nat \<Rightarrow> BKTree \<Rightarrow> nat \<Rightarrow> (int \<Rightarrow> dist) \<Rightarrow> (dist \<Rightarrow> dist) \<Rightarrow> NodeDistPair heap \<Rightarrow> NodeDistPair heap \<Rightarrow> WorkSpace \<Rightarrow>
     (NodeDistPair heap \<times> NodeDistPair heap \<times> WorkSpace) option" where
  "bfs_level 0 vf t R D scaleQ cur nxt ws = Some (cur, nxt, ws)"
| "bfs_level (Suc n) vf t R D scaleQ cur nxt ws =
     (case ndp_pop cur of (tmp, cur') \<Rightarrow>
      case tree_at t (node tmp) of
        None \<Rightarrow> None
      | Some tnode \<Rightarrow>
          if childStart tnode < 0
          then bfs_level n vf t R D scaleQ cur' nxt (SPT_insert (node tmp) (distance tmp) ws)
          else
            (case ws_CheckAndSet vf (centerid tnode) ws of
               None \<Rightarrow> None
             | Some (seen, ws1) \<Rightarrow>
                 (let ws2 = (if seen then ws1 else NG_insert (centerid tnode) (distance tmp) ws1) in
                  case bfs_children t R D scaleQ (children tnode) nxt ws2 of
                    None \<Rightarrow> None
                  | Some (nxt', ws3) \<Rightarrow> bfs_level n vf t R D scaleQ cur' nxt' ws3)))"

fun bfs_levels ::
  "nat \<Rightarrow> nat \<Rightarrow> BKTree \<Rightarrow> nat \<Rightarrow> (int \<Rightarrow> dist) \<Rightarrow> (dist \<Rightarrow> dist) \<Rightarrow> NodeDistPair heap \<Rightarrow> NodeDistPair heap \<Rightarrow> WorkSpace \<Rightarrow>
     (NodeDistPair heap \<times> WorkSpace) option" where
  "bfs_levels 0 vf t R D scaleQ cur nxt ws = Some (cur, ws)"
| "bfs_levels (Suc m) vf t R D scaleQ cur nxt ws =
     (case bfs_level (heap_size cur) vf t R D scaleQ cur (set_Top_distance (10 ^ 9) nxt) ws of
        None \<Rightarrow> None
      | Some (cur', nxt', ws') \<Rightarrow> bfs_levels m vf t R D scaleQ nxt' cur' ws')"

fun bfs_drain :: "nat \<Rightarrow> NodeDistPair heap \<Rightarrow> WorkSpace \<Rightarrow> WorkSpace" where
  "bfs_drain 0 cur ws = ws"
| "bfs_drain (Suc n) cur ws =
     (case ndp_pop cur of (tmp, cur') \<Rightarrow> bfs_drain n cur' (SPT_insert (node tmp) (distance tmp) ws))"

definition init_tree ::
  "nat \<Rightarrow> BKTree \<Rightarrow> nat \<Rightarrow> (int \<Rightarrow> dist) \<Rightarrow> (dist \<Rightarrow> dist) \<Rightarrow> int \<Rightarrow> WorkSpace \<Rightarrow> WorkSpace option" where
  "init_tree vf t R D scaleQ rt ws =
     (case tree_at t rt of
        None \<Rightarrow> None
      | Some n \<Rightarrow>
          if childStart n < 0 then map_option (\<lambda>d. SPT_insert rt d ws) (sample_dist R D (centerid n))
          else if 0 < m_bfs t then
            (let cur = set_Top_distance (10 ^ 9) (heap_Resize default_node MaxBFSNodes);
                 nxt = heap_Resize default_node MaxBFSNodes in
             case bfs_children t R D scaleQ (children n) cur ws of
               None \<Rightarrow> None
             | Some (cur1, ws1) \<Rightarrow>
                 map_option (\<lambda>(cur2, ws2). bfs_drain (heap_size cur2) cur2 ws2)
                   (bfs_levels (m_bfs t) vf t R D scaleQ cur1 nxt ws1))
          else push_children t R D (children n) ws)"

fun init_trees ::
  "nat \<Rightarrow> BKTree \<Rightarrow> nat \<Rightarrow> (int \<Rightarrow> dist) \<Rightarrow> (dist \<Rightarrow> dist) \<Rightarrow> nat list \<Rightarrow> WorkSpace \<Rightarrow> WorkSpace option" where
  "init_trees vf t R D scaleQ [] ws = Some ws"
| "init_trees vf t R D scaleQ (i # is) ws =
     (if length (m_pTreeStart t) \<le> i then None
      else
        (case init_tree vf t R D scaleQ (m_pTreeStart t ! i) ws of
           None \<Rightarrow> None
         | Some ws' \<Rightarrow> init_trees vf t R D scaleQ is ws'))"

definition InitSearchTrees ::
  "nat \<Rightarrow> BKTree \<Rightarrow> nat \<Rightarrow> (int \<Rightarrow> dist) \<Rightarrow> (dist \<Rightarrow> dist) \<Rightarrow> WorkSpace \<Rightarrow> WorkSpace option" where
  "InitSearchTrees vf t R D scaleQ ws = init_trees vf t R D scaleQ [0..<m_iTreeNumber t] ws"

text \<open>\<^verbatim>\<open>SearchTrees\<close>: the nearest cells of the forest are opened until \<open>p_limits\<close> leaves are checked.\<close>

fun SearchTrees :: "nat \<Rightarrow> nat \<Rightarrow> BKTree \<Rightarrow> nat \<Rightarrow> (int \<Rightarrow> dist) \<Rightarrow> int \<Rightarrow> WorkSpace \<Rightarrow> WorkSpace option" where
  "SearchTrees fuel vf t R D p_limits ws =
     (if heap_empty (m_SPTQueue ws) then Some ws
      else
        (case fuel of
           0 \<Rightarrow> None
         | Suc fuel' \<Rightarrow>
             (case ndp_pop (m_SPTQueue ws) of (bcell, spt) \<Rightarrow>
              case tree_at t (node bcell) of
                None \<Rightarrow> None
              | Some tnode \<Rightarrow>
                  (case ws_CheckAndSet vf (centerid tnode) (ws\<lparr>m_SPTQueue := spt\<rparr>) of
                     None \<Rightarrow> None
                   | Some (seen, ws1) \<Rightarrow>
                       if childStart tnode < 0 then
                         (let ws2 = (if seen then ws1
                                     else NG_insert (centerid tnode) (distance bcell)
                                            (ws1\<lparr>m_iNumberOfCheckedLeaves := m_iNumberOfCheckedLeaves ws1 + 1\<rparr>)) in
                          if m_iNumberOfCheckedLeaves ws2 \<ge> p_limits then Some ws2
                          else SearchTrees fuel' vf t R D p_limits ws2)
                       else
                         (let ws2 = (if seen then ws1 else NG_insert (centerid tnode) (distance bcell) ws1) in
                          case push_children t R D (children tnode) ws2 of
                            None \<Rightarrow> None
                          | Some ws3 \<Rightarrow> SearchTrees fuel' vf t R D p_limits ws3)))))"

declare SearchTrees.simps [simp del]

subsection \<open>The choices of the dispatch\<close>

definition notDeleted_always :: "LabelSet \<Rightarrow> int \<Rightarrow> bool option" where
  "notDeleted_always l n = Some True"

definition CheckIfNotDeleted :: "LabelSet \<Rightarrow> int \<Rightarrow> bool option" where
  "CheckIfNotDeleted deletedIDs n = map_option Not (ls_Contains n deletedIDs)"

definition CheckDup :: "QueryResult \<Rightarrow> int \<Rightarrow> dist \<Rightarrow> bool \<times> QueryResult" where
  "CheckDup query n score = (case qrs_AddPoint n score query of (added, q) \<Rightarrow> (\<not> added, q))"

definition NeverDup :: "QueryResult \<Rightarrow> int \<Rightarrow> dist \<Rightarrow> bool \<times> QueryResult" where
  "NeverDup query n score = (case qrs_AddPoint n score query of (added, q) \<Rightarrow> (True, q))"

definition filter_always :: "(int \<Rightarrow> bytes) option \<Rightarrow> int \<Rightarrow> (bytes \<Rightarrow> bool) option \<Rightarrow> bool option" where
  "filter_always metadata n filterFunc = Some True"

definition CheckFilter :: "(int \<Rightarrow> bytes) option \<Rightarrow> int \<Rightarrow> (bytes \<Rightarrow> bool) option \<Rightarrow> bool option" where
  "CheckFilter metadata n filterFunc =
     (case (metadata, filterFunc) of (Some m, Some f) \<Rightarrow> Some (f (m n)) | _ \<Rightarrow> None)"

text \<open>\<open>notDeleted && checkFilter\<close>, the filter called on live nodes only.\<close>

definition admits ::
  "(int \<Rightarrow> bool option) \<Rightarrow> (int \<Rightarrow> bool option) \<Rightarrow> int \<Rightarrow> bool option" where
  "admits live flt n = (case live n of None \<Rightarrow> None | Some False \<Rightarrow> Some False | Some True \<Rightarrow> flt n)"

subsection \<open>The search over the graph\<close>

text \<open>The neighbours of a node, until a negative entry: those not seen before are checked, and queued when they
  are among the best distances so far.\<close>

fun expand :: "nat \<Rightarrow> nat \<Rightarrow> (int \<Rightarrow> dist) \<Rightarrow> int list \<Rightarrow> WorkSpace \<Rightarrow> WorkSpace option" where
  "expand vf R D [] ws = Some ws"
| "expand vf R D (nn_index # nns) ws =
     (if nn_index < 0 then Some ws
      else
        (case ws_CheckAndSet vf nn_index ws of
           None \<Rightarrow> None
         | Some (True, ws1) \<Rightarrow> expand vf R D nns ws1
         | Some (False, ws1) \<Rightarrow>
             (case sample_dist R D nn_index of
                None \<Rightarrow> None
              | Some d \<Rightarrow>
                  (case dpq_insert d (m_Results ws1) of (better, results) \<Rightarrow>
                     let ws2 = ws1\<lparr>m_iNumberOfCheckedLeaves := m_iNumberOfCheckedLeaves ws1 + 1, m_Results := results\<rparr> in
                     expand vf R D nns (if better then NG_insert nn_index d ws2 else ws2)))))"

text \<open>The \<^verbatim>\<open>do .. while\<close> loop over the copies of a sample that the tree keeps under one graph node.\<close>

function dup_loop ::
  "BKTree \<Rightarrow> (int \<Rightarrow> bool option) \<Rightarrow> (QueryResult \<Rightarrow> int \<Rightarrow> dist \<Rightarrow> bool \<times> QueryResult) \<Rightarrow> int \<Rightarrow> dist \<Rightarrow> int \<Rightarrow> int \<Rightarrow>
     QueryResult \<Rightarrow> QueryResult option" where
  "dup_loop t adm isDup tmpNode d i ce q =
     (case adm tmpNode of
        None \<Rightarrow> None
      | Some ok \<Rightarrow>
          (case (if ok then isDup q tmpNode d else (False, q)) of (stop, q') \<Rightarrow>
             if stop \<or> i \<le> 0 then Some q'
             else
               (case tree_at t i of
                  None \<Rightarrow> None
                | Some n \<Rightarrow> if i < ce then dup_loop t adm isDup (centerid n) d (i + 1) ce q' else Some q')))"
  by pat_completeness auto
termination
  by (relation "measure (\<lambda>(t, adm, isDup, tmpNode, d, i, ce, q). nat (ce - i))") auto

declare dup_loop.simps [simp del]

text \<open>What happens to a popped node: it, or the copies under it, may enter the results.\<close>

definition offer ::
  "BKTIndex \<Rightarrow> (int \<Rightarrow> bool option) \<Rightarrow> (QueryResult \<Rightarrow> int \<Rightarrow> dist \<Rightarrow> bool \<times> QueryResult) \<Rightarrow> NodeDistPair \<Rightarrow> int \<Rightarrow> QueryResult \<Rightarrow>
     QueryResult option" where
  "offer I adm isDup gnode checkNode q =
     (if checkNode < - 1 then
        (case tree_at (m_pTrees I) (- 2 - checkNode) of
           None \<Rightarrow> None
         | Some tnode \<Rightarrow>
             dup_loop (m_pTrees I) adm isDup (node gnode) (distance gnode) (- childStart tnode) (childEnd tnode) q)
      else
        (case adm (node gnode) of
           None \<Rightarrow> None
         | Some ok \<Rightarrow> Some (if ok then snd (qrs_AddPoint (node gnode) (distance gnode) q) else q)))"

text \<open>The main loop. \<open>tf\<close> is the fuel of one call of \<^verbatim>\<open>SearchTrees\<close>.\<close>

fun search_loop ::
  "nat \<Rightarrow> nat \<Rightarrow> nat \<Rightarrow> BKTIndex \<Rightarrow> (int \<Rightarrow> dist) \<Rightarrow> (int \<Rightarrow> bool option) \<Rightarrow> (int \<Rightarrow> bool option) \<Rightarrow>
     (QueryResult \<Rightarrow> int \<Rightarrow> dist \<Rightarrow> bool \<times> QueryResult) \<Rightarrow> QueryResult \<times> WorkSpace \<Rightarrow> (QueryResult \<times> WorkSpace) option" where
  "search_loop fuel tf vf I D live adm isDup (q, ws) =
     (if heap_empty (m_NGQueue ws) then Some (qrs_SortResult q, ws)
      else
        (case fuel of
           0 \<Rightarrow> None
         | Suc fuel' \<Rightarrow>
             (case ndp_pop (m_NGQueue ws) of (gnode, ng) \<Rightarrow>
              case graph_row I (node gnode) of
                None \<Rightarrow> None
              | Some row \<Rightarrow>
                  (let ws0 = ws\<lparr>m_NGQueue := ng\<rparr>; checkPos = m_iNeighborhoodSize I - 1;
                       next = (\<lambda>q. case expand vf (m_samplesR I) D (take (m_iNeighborhoodSize I) row) ws0 of
                          None \<Rightarrow> None
                        | Some ws1 \<Rightarrow>
                            (case (if distance (heap_Top (m_NGQueue ws1)) > distance (heap_Top (m_SPTQueue ws1))
                                   then SearchTrees tf vf (m_pTrees I) (m_samplesR I) D
                                          (m_iNumberOfOtherDynamicPivots I + m_iNumberOfCheckedLeaves ws1) ws1
                                   else Some ws1) of
                               None \<Rightarrow> None
                             | Some ws2 \<Rightarrow> search_loop fuel' tf vf I D live adm isDup (q, ws2))) in
                   if length row < m_iNeighborhoodSize I then None
                   else if distance gnode \<le> qrs_worstDist q then
                     (case offer I adm isDup gnode (row ! checkPos) q of None \<Rightarrow> None | Some q' \<Rightarrow> next q')
                   else
                     (case live (node gnode) of
                        None \<Rightarrow> None
                      | Some alive \<Rightarrow>
                          if alive \<and> (distance gnode > dpq_worst (m_Results ws0) \<or>
                               m_iNumberOfCheckedLeaves ws0 > int (m_iMaxCheck ws0))
                          then Some (qrs_SortResult q, ws0)
                          else next q)))))"

declare search_loop.simps [simp del]

text \<open>\<^verbatim>\<open>Search\<close> with the functions that the template is instantiated with.\<close>

definition Search ::
  "nat \<Rightarrow> nat \<Rightarrow> nat \<Rightarrow> BKTIndex \<Rightarrow> (int \<Rightarrow> dist) \<Rightarrow> (dist \<Rightarrow> dist) \<Rightarrow> (LabelSet \<Rightarrow> int \<Rightarrow> bool option) \<Rightarrow>
     (QueryResult \<Rightarrow> int \<Rightarrow> dist \<Rightarrow> bool \<times> QueryResult) \<Rightarrow>
     ((int \<Rightarrow> bytes) option \<Rightarrow> int \<Rightarrow> (bytes \<Rightarrow> bool) option \<Rightarrow> bool option) \<Rightarrow> (bytes \<Rightarrow> bool) option \<Rightarrow>
     QueryResult \<Rightarrow> WorkSpace \<Rightarrow> (QueryResult \<times> WorkSpace) option" where
  "Search fuel tf vf I D scaleQ notDeleted isDup checkFilter filterFunc q ws =
     (let t = m_pTrees I; R = m_samplesR I; live = notDeleted (m_deletedID I);
          adm = admits live (\<lambda>n. checkFilter (m_pMetadata I) n filterFunc) in
      case InitSearchTrees vf t R D scaleQ ws of
        None \<Rightarrow> None
      | Some ws1 \<Rightarrow>
          (case SearchTrees tf vf t R D (m_iNumberOfInitialDynamicPivots I) ws1 of
             None \<Rightarrow> None
           | Some ws2 \<Rightarrow> search_loop fuel tf vf I D live adm isDup (q, ws2)))"

text \<open>The dispatch on the three flags.\<close>

definition choose_live :: "BKTIndex \<Rightarrow> bool \<Rightarrow> LabelSet \<Rightarrow> int \<Rightarrow> bool option" where
  "choose_live I p_searchDeleted =
     (if ls_Count (m_deletedID I) = 0 \<or> p_searchDeleted then notDeleted_always else CheckIfNotDeleted)"

definition choose_filter :: "(bytes \<Rightarrow> bool) option \<Rightarrow> (int \<Rightarrow> bytes) option \<Rightarrow> int \<Rightarrow> (bytes \<Rightarrow> bool) option \<Rightarrow> bool option" where
  "choose_filter filterFunc = (case filterFunc of None \<Rightarrow> filter_always | Some _ \<Rightarrow> CheckFilter)"

definition SearchIndex_ws ::
  "nat \<Rightarrow> nat \<Rightarrow> nat \<Rightarrow> BKTIndex \<Rightarrow> (int \<Rightarrow> dist) \<Rightarrow> (dist \<Rightarrow> dist) \<Rightarrow> bool \<Rightarrow> bool \<Rightarrow> (bytes \<Rightarrow> bool) option \<Rightarrow>
     QueryResult \<Rightarrow> WorkSpace \<Rightarrow> (QueryResult \<times> WorkSpace) option" where
  "SearchIndex_ws fuel tf vf I D scaleQ p_searchDeleted p_searchDuplicated filterFunc q ws =
     map_option (\<lambda>(q', ws'). (q'\<lparr>m_scanned := m_iNumberOfCheckedLeaves ws'\<rparr>, ws'))
       (Search fuel tf vf I D scaleQ
          (choose_live I p_searchDeleted)
          (if p_searchDuplicated then CheckDup else NeverDup)
          (choose_filter filterFunc) filterFunc q ws)"

subsection \<open>The iterative search\<close>

text \<open>The copies of a sample are queued with the distance of the sample.\<close>

fun iter_copies :: "nat \<Rightarrow> BKTree \<Rightarrow> (int \<Rightarrow> bool option) \<Rightarrow> dist \<Rightarrow> int list \<Rightarrow> WorkSpace \<Rightarrow> WorkSpace option" where
  "iter_copies vf t live d [] ws = Some ws"
| "iter_copies vf t live d (i # is) ws =
     (case tree_at t i of
        None \<Rightarrow> None
      | Some n \<Rightarrow>
          (case live (centerid n) of
             None \<Rightarrow> None
           | Some False \<Rightarrow> iter_copies vf t live d is ws
           | Some True \<Rightarrow>
               (case ws_CheckAndSet vf (centerid n) ws of
                  None \<Rightarrow> None
                | Some (seen, ws1) \<Rightarrow> iter_copies vf t live d is (if seen then ws1 else NG_insert (centerid n) d ws1))))"

fun expand_iter :: "nat \<Rightarrow> nat \<Rightarrow> (int \<Rightarrow> dist) \<Rightarrow> int list \<Rightarrow> WorkSpace \<Rightarrow> WorkSpace option" where
  "expand_iter vf R D [] ws = Some ws"
| "expand_iter vf R D (nn_index # nns) ws =
     (if nn_index < 0 then Some ws
      else
        (case ws_CheckAndSet vf nn_index ws of
           None \<Rightarrow> None
         | Some (True, ws1) \<Rightarrow> expand_iter vf R D nns ws1
         | Some (False, ws1) \<Rightarrow>
             (case sample_dist R D nn_index of
                None \<Rightarrow> None
              | Some d \<Rightarrow>
                  expand_iter vf R D nns
                    (NG_insert nn_index d (ws1\<lparr>m_iNumberOfCheckedLeaves := m_iNumberOfCheckedLeaves ws1 + 1\<rparr>)
                       \<lparr>m_Results := snd (dpq_insert d (m_Results ws1))\<rparr>))))"

fun iter_loop ::
  "nat \<Rightarrow> nat \<Rightarrow> nat \<Rightarrow> BKTIndex \<Rightarrow> (int \<Rightarrow> dist) \<Rightarrow> (int \<Rightarrow> bool option) \<Rightarrow> (int \<Rightarrow> bool option) \<Rightarrow> int \<Rightarrow> int \<Rightarrow>
     QueryResult \<times> WorkSpace \<Rightarrow> (int \<times> QueryResult \<times> WorkSpace) option" where
  "iter_loop fuel tf vf I D live flt batch cnt (q, ws) =
     (if heap_empty (m_NGQueue ws) then Some (cnt, q, ws)
      else
        (case fuel of
           0 \<Rightarrow> None
         | Suc fuel' \<Rightarrow>
             (case ndp_pop (m_NGQueue ws) of (gnode, ng) \<Rightarrow>
              case (graph_row I (node gnode), live (node gnode)) of
                (Some row, Some alive) \<Rightarrow>
                  (case (if alive then flt (node gnode) else Some False) of
                     None \<Rightarrow> None
                   | Some ok \<Rightarrow>
                     if length row < m_iNeighborhoodSize I then None
                     else
                      (let q1 = (if ok then snd (qrs_AddPoint (node gnode) (distance gnode) q) else q);
                           cnt1 = (if ok then cnt + 1 else cnt);
                           ws0 = ws\<lparr>m_NGQueue := ng, m_relaxedMono := m_relaxedMono ws \<or>
                             alive \<and> (distance gnode > dpq_worst (m_Results ws) \<or> m_iNumberOfCheckedLeaves ws > int (m_iMaxCheck ws))\<rparr>;
                           checkNode = row ! (m_iNeighborhoodSize I - 1) in
                       case (if checkNode < - 1 then
                               (case tree_at (m_pTrees I) (- 2 - checkNode) of
                                  None \<Rightarrow> None
                                | Some tnode \<Rightarrow> iter_copies vf (m_pTrees I) live (distance gnode)
                                    [- childStart tnode .. childEnd tnode - 1] ws0)
                             else Some ws0) of
                         None \<Rightarrow> None
                       | Some ws1 \<Rightarrow>
                           (case expand_iter vf (m_samplesR I) D (take (m_iNeighborhoodSize I) row) ws1 of
                              None \<Rightarrow> None
                            | Some ws2 \<Rightarrow>
                                (case (if distance (heap_Top (m_NGQueue ws2)) > distance (heap_Top (m_SPTQueue ws2))
                                       then SearchTrees tf vf (m_pTrees I) (m_samplesR I) D
                                              (m_iNumberOfOtherDynamicPivots I + m_iNumberOfCheckedLeaves ws2) ws2
                                       else Some ws2) of
                                   None \<Rightarrow> None
                                 | Some ws3 \<Rightarrow>
                                     if cnt1 \<ge> batch then Some (cnt1, q1, ws3)
                                     else iter_loop fuel' tf vf I D live flt batch cnt1 (q1, ws3)))))
              | _ \<Rightarrow> None)))"

declare iter_loop.simps [simp del]

definition SearchIterative ::
  "nat \<Rightarrow> nat \<Rightarrow> nat \<Rightarrow> BKTIndex \<Rightarrow> (int \<Rightarrow> dist) \<Rightarrow> (dist \<Rightarrow> dist) \<Rightarrow> (LabelSet \<Rightarrow> int \<Rightarrow> bool option) \<Rightarrow>
     ((int \<Rightarrow> bytes) option \<Rightarrow> int \<Rightarrow> (bytes \<Rightarrow> bool) option \<Rightarrow> bool option) \<Rightarrow> (bytes \<Rightarrow> bool) option \<Rightarrow> bool \<Rightarrow> int \<Rightarrow>
     QueryResult \<Rightarrow> WorkSpace \<Rightarrow> (int \<times> QueryResult \<times> WorkSpace) option" where
  "SearchIterative fuel tf vf I D scaleQ notDeleted checkFilter filterFunc p_isFirst batch q ws =
     (let t = m_pTrees I; R = m_samplesR I in
      case (if p_isFirst then
              (case InitSearchTrees vf t R D scaleQ ws of
                 None \<Rightarrow> None
               | Some ws1 \<Rightarrow> SearchTrees tf vf t R D (m_iNumberOfInitialDynamicPivots I) ws1)
            else Some ws) of
        None \<Rightarrow> None
      | Some ws2 \<Rightarrow>
          map_option (\<lambda>(cnt, q', ws'). (cnt, qrs_SortResult q', ws'))
            (iter_loop fuel tf vf I D (notDeleted (m_deletedID I)) (\<lambda>n. checkFilter (m_pMetadata I) n filterFunc) batch 0 (q, ws2)))"

definition SearchIndexIterative ::
  "nat \<Rightarrow> nat \<Rightarrow> nat \<Rightarrow> BKTIndex \<Rightarrow> (int \<Rightarrow> dist) \<Rightarrow> (dist \<Rightarrow> dist) \<Rightarrow> bool \<Rightarrow> int \<Rightarrow> bool \<Rightarrow> (bytes \<Rightarrow> bool) option \<Rightarrow>
     QueryResult \<Rightarrow> WorkSpace \<Rightarrow> (int \<times> QueryResult \<times> WorkSpace) option" where
  "SearchIndexIterative fuel tf vf I D scaleQ p_isFirst batch p_searchDeleted filterFunc q ws =
     map_option (\<lambda>(cnt, q', ws'). (cnt, q'\<lparr>m_scanned := m_iNumberOfCheckedLeaves ws'\<rparr>, ws'))
       (SearchIterative fuel tf vf I D scaleQ (choose_live I p_searchDeleted) (choose_filter filterFunc) filterFunc p_isFirst batch q ws)"

subsection \<open>The calls of the index\<close>

text \<open>\<^verbatim>\<open>RentWorkSpace\<close>: an idle workspace or a new one, reset for the search. \<open>mem\<close> is the content of fresh memory.\<close>

definition RentWorkSpace ::
  "(nat \<Rightarrow> int) \<times> (nat \<Rightarrow> dist) \<Rightarrow> BKTIndex \<Rightarrow> nat \<Rightarrow> int \<Rightarrow> WorkSpace list \<Rightarrow> (WorkSpace \<times> WorkSpace list) option" where
  "RentWorkSpace mem I batch p_maxCheck pool =
     (case pool_GetWorkSpace pool of (rented, pool') \<Rightarrow>
      case (case rented of
              None \<Rightarrow> ws_Initialize (fst mem) (snd mem) (nat (max (bi_MaxCheck I) (m_iMaxCheckForRefineGraph I))) (bi_HashTableExp I)
            | Some ws \<Rightarrow> Some ws) of
        None \<Rightarrow> None
      | Some ws \<Rightarrow>
          map_option (\<lambda>ws'. (ws', pool'))
            (ws_Reset (snd mem) (nat (if p_maxCheck > 0 then p_maxCheck else bi_MaxCheck I)) batch ws))"

text \<open>The metadata of the first \<open>n\<close> results.\<close>

fun set_metas :: "(int \<Rightarrow> bytes) \<Rightarrow> nat \<Rightarrow> QueryResult \<Rightarrow> QueryResult" where
  "set_metas m 0 q = q"
| "set_metas m (Suc n) q =
     (let q' = set_metas m n q; result = VID (m_results q' ! n) in
      qr_SetMetadata n (if result < 0 then [] else m result) q')"

definition fill_metadata :: "BKTIndex \<Rightarrow> nat \<Rightarrow> QueryResult \<Rightarrow> QueryResult option" where
  "fill_metadata I n q =
     (case m_pMetadata I of
        None \<Rightarrow> Some q
      | Some m \<Rightarrow> if \<not> m_withMeta q then Some q else if n \<le> m_resultNum q then Some (set_metas m n q) else None)"

text \<open>\<^verbatim>\<open>SearchIndex\<close> and \<^verbatim>\<open>SearchIndexWithFilter\<close>, with the pool of workspaces.\<close>

definition SearchIndexWithFilter ::
  "nat \<Rightarrow> nat \<Rightarrow> nat \<Rightarrow> (nat \<Rightarrow> int) \<times> (nat \<Rightarrow> dist) \<Rightarrow> BKTIndex \<Rightarrow> (int \<Rightarrow> dist) \<Rightarrow> (dist \<Rightarrow> dist) \<Rightarrow> (bytes \<Rightarrow> bool) option \<Rightarrow> int \<Rightarrow>
     bool \<Rightarrow> QueryResult \<Rightarrow> WorkSpace list \<Rightarrow> (ErrorCode \<times> QueryResult \<times> WorkSpace list) option" where
  "SearchIndexWithFilter fuel tf vf mem I D scaleQ filterFunc maxCheck p_searchDeleted q pool =
     (if \<not> m_bReady I then Some (EmptyIndex, q, pool)
      else
        (case RentWorkSpace mem I (m_resultNum q) maxCheck pool of
           None \<Rightarrow> None
         | Some (ws, pool1) \<Rightarrow>
             (case SearchIndex_ws fuel tf vf I D scaleQ p_searchDeleted True filterFunc q ws of
                None \<Rightarrow> None
              | Some (q', ws') \<Rightarrow>
                  map_option (\<lambda>q''. (Success, q'', pool_ReturnWorkSpace (Some ws') pool1)) (fill_metadata I (m_resultNum q') q'))))"

definition SearchIndex ::
  "nat \<Rightarrow> nat \<Rightarrow> nat \<Rightarrow> (nat \<Rightarrow> int) \<times> (nat \<Rightarrow> dist) \<Rightarrow> BKTIndex \<Rightarrow> (int \<Rightarrow> dist) \<Rightarrow> (dist \<Rightarrow> dist) \<Rightarrow> bool \<Rightarrow> QueryResult \<Rightarrow>
     WorkSpace list \<Rightarrow> (ErrorCode \<times> QueryResult \<times> WorkSpace list) option" where
  "SearchIndex fuel tf vf mem I D scaleQ p_searchDeleted q pool =
     SearchIndexWithFilter fuel tf vf mem I D scaleQ None (bi_MaxCheck I) p_searchDeleted q pool"

definition RefineSearchIndex ::
  "nat \<Rightarrow> nat \<Rightarrow> nat \<Rightarrow> (nat \<Rightarrow> int) \<times> (nat \<Rightarrow> dist) \<Rightarrow> BKTIndex \<Rightarrow> (int \<Rightarrow> dist) \<Rightarrow> (dist \<Rightarrow> dist) \<Rightarrow> bool \<Rightarrow> QueryResult \<Rightarrow>
     WorkSpace list \<Rightarrow> (ErrorCode \<times> QueryResult \<times> WorkSpace list) option" where
  "RefineSearchIndex fuel tf vf mem I D scaleQ p_searchDeleted q pool =
     (case RentWorkSpace mem I (m_resultNum q) (m_iMaxCheckForRefineGraph I) pool of
        None \<Rightarrow> None
      | Some (ws, pool1) \<Rightarrow>
          map_option (\<lambda>(q', ws'). (Success, q', pool_ReturnWorkSpace (Some ws') pool1))
            (SearchIndex_ws fuel tf vf I D scaleQ p_searchDeleted False None q ws))"

text \<open>\<^verbatim>\<open>SearchTree\<close>: the nearest cells that the forest search has queued become the results; an empty queue gives
  the cell in front of the heap.\<close>

fun take_cells :: "nat \<Rightarrow> nat \<Rightarrow> NodeDistPair heap \<Rightarrow> BasicResult list \<Rightarrow> BasicResult list \<times> NodeDistPair heap" where
  "take_cells 0 i ng res = (res, ng)"
| "take_cells (Suc n) i ng res =
     (case ndp_pop ng of (cell, ng') \<Rightarrow>
        take_cells n (Suc i) ng' (res[i := (res ! i)\<lparr>VID := node cell, Dist := distance cell\<rparr>]))"

definition SearchTree ::
  "nat \<Rightarrow> nat \<Rightarrow> (nat \<Rightarrow> int) \<times> (nat \<Rightarrow> dist) \<Rightarrow> BKTIndex \<Rightarrow> (int \<Rightarrow> dist) \<Rightarrow> (dist \<Rightarrow> dist) \<Rightarrow> QueryResult \<Rightarrow> WorkSpace list \<Rightarrow>
     (ErrorCode \<times> QueryResult \<times> WorkSpace list) option" where
  "SearchTree tf vf mem I D scaleQ q pool =
     (case RentWorkSpace mem I (m_resultNum q) (m_iMaxCheckForRefineGraph I) pool of
        None \<Rightarrow> None
      | Some (ws, pool1) \<Rightarrow>
          (case InitSearchTrees vf (m_pTrees I) (m_samplesR I) D scaleQ ws of
             None \<Rightarrow> None
           | Some ws1 \<Rightarrow>
               (case SearchTrees tf vf (m_pTrees I) (m_samplesR I) D (m_iNumberOfInitialDynamicPivots I) ws1 of
                  None \<Rightarrow> None
                | Some ws2 \<Rightarrow>
                    (case take_cells (m_resultNum q) 0 (m_NGQueue ws2) (m_results q) of (res, ng) \<Rightarrow>
                       Some (Success, q\<lparr>m_results := res\<rparr>, pool_ReturnWorkSpace (Some (ws2\<lparr>m_NGQueue := ng\<rparr>)) pool1)))))"

definition SearchIndexIterativeNext ::
  "nat \<Rightarrow> nat \<Rightarrow> nat \<Rightarrow> (nat \<Rightarrow> dist) \<Rightarrow> BKTIndex \<Rightarrow> (int \<Rightarrow> dist) \<Rightarrow> (dist \<Rightarrow> dist) \<Rightarrow> (bytes \<Rightarrow> bool) option \<Rightarrow> nat \<Rightarrow> bool \<Rightarrow> bool \<Rightarrow>
     QueryResult \<Rightarrow> WorkSpace \<Rightarrow> (ErrorCode \<times> int \<times> QueryResult \<times> WorkSpace) option" where
  "SearchIndexIterativeNext fuel tf vf fmem I D scaleQ filterFunc p_batch p_isFirst p_searchDeleted q ws =
     (if \<not> m_bReady I then Some (EmptyIndex, 0, q, ws)
      else
        (case (if p_isFirst then ws_ResetResult fmem (nat (bi_MaxCheck I)) p_batch ws else Some ws) of
           None \<Rightarrow> None
         | Some ws1 \<Rightarrow>
             (case SearchIndexIterative fuel tf vf I D scaleQ p_isFirst (int p_batch) p_searchDeleted filterFunc q ws1 of
                None \<Rightarrow> None
              | Some (cnt, q', ws') \<Rightarrow> map_option (\<lambda>q''. (Success, cnt, q'', ws')) (fill_metadata I (nat cnt) q'))))"

definition SearchIndexIterativeEnd :: "BKTIndex \<Rightarrow> WorkSpace option \<Rightarrow> WorkSpace list \<Rightarrow> ErrorCode \<times> WorkSpace list" where
  "SearchIndexIterativeEnd I space pool =
     (if \<not> m_bReady I then (EmptyIndex, pool) else (Success, pool_ReturnWorkSpace space pool))"

text \<open>\<^verbatim>\<open>SearchIndexIterativeFromNeareast\<close>: the first call searches, marks the results as seen, and queues their
  neighbours; the later calls go on from there.\<close>

fun mark_results :: "nat \<Rightarrow> BasicResult list \<Rightarrow> WorkSpace \<Rightarrow> WorkSpace option" where
  "mark_results vf [] ws = Some ws"
| "mark_results vf (r # rs) ws =
     (if VID r < 0 then mark_results vf rs ws
      else (case ws_CheckAndSet vf (VID r) ws of None \<Rightarrow> None | Some (_, ws') \<Rightarrow> mark_results vf rs ws'))"

fun queue_neighbours :: "nat \<Rightarrow> nat \<Rightarrow> (int \<Rightarrow> dist) \<Rightarrow> int list \<Rightarrow> WorkSpace \<Rightarrow> WorkSpace option" where
  "queue_neighbours vf R D [] ws = Some ws"
| "queue_neighbours vf R D (nn_index # nns) ws =
     (if nn_index < 0 then Some ws
      else
        (case ws_CheckAndSet vf nn_index ws of
           None \<Rightarrow> None
         | Some (True, ws1) \<Rightarrow> queue_neighbours vf R D nns ws1
         | Some (False, ws1) \<Rightarrow>
             (case sample_dist R D nn_index of
                None \<Rightarrow> None
              | Some d \<Rightarrow> queue_neighbours vf R D nns (NG_insert nn_index d ws1))))"

fun queue_results :: "nat \<Rightarrow> BKTIndex \<Rightarrow> (int \<Rightarrow> dist) \<Rightarrow> BasicResult list \<Rightarrow> WorkSpace \<Rightarrow> WorkSpace option" where
  "queue_results vf I D [] ws = Some ws"
| "queue_results vf I D (r # rs) ws =
     (if VID r < 0 then queue_results vf I D rs ws
      else
        (case graph_row I (VID r) of
           None \<Rightarrow> None
         | Some row \<Rightarrow>
             if length row < m_iNeighborhoodSize I then None
             else
               (case queue_neighbours vf (m_samplesR I) D (take (m_iNeighborhoodSize I) row) ws of
                  None \<Rightarrow> None
                | Some ws' \<Rightarrow> queue_results vf I D rs ws')))"

definition SearchIndexIterativeFromNeareast ::
  "nat \<Rightarrow> nat \<Rightarrow> nat \<Rightarrow> (nat \<Rightarrow> dist) \<Rightarrow> BKTIndex \<Rightarrow> (int \<Rightarrow> dist) \<Rightarrow> (dist \<Rightarrow> dist) \<Rightarrow> (bytes \<Rightarrow> bool) option \<Rightarrow> bool \<Rightarrow> bool \<Rightarrow>
     QueryResult \<Rightarrow> WorkSpace \<Rightarrow> (bool \<times> QueryResult \<times> WorkSpace) option" where
  "SearchIndexIterativeFromNeareast fuel tf vf fmem I D scaleQ filterFunc p_isFirst p_searchDeleted q ws =
     (case (if p_isFirst then
          (case ws_ResetResult fmem (nat (bi_MaxCheck I)) (m_resultNum q) ws of
             None \<Rightarrow> None
           | Some ws0 \<Rightarrow>
               (case SearchIndex_ws fuel tf vf I D scaleQ p_searchDeleted True filterFunc q ws0 of
                  None \<Rightarrow> None
                | Some (q1, ws1) \<Rightarrow>
                    (case mark_results vf (take (m_resultNum q1) (m_results q1))
                            (ws1\<lparr>nodeCheckStatus := oh_clear (nodeCheckStatus ws1)\<rparr>) of
                       None \<Rightarrow> None
                     | Some ws2 \<Rightarrow>
                         map_option (\<lambda>ws3. (q1, ws3)) (queue_results vf I D (take (m_resultNum q1) (m_results q1)) ws2))))
        else
          map_option (\<lambda>(cnt, q', ws'). (q', ws'))
            (SearchIndexIterative fuel tf vf I D scaleQ p_isFirst (int (m_resultNum q)) p_searchDeleted filterFunc q ws)) of
        None \<Rightarrow> None
      | Some (q', ws') \<Rightarrow>
          if m_resultNum q' = 0 \<or> VID (m_results q' ! 0) < 0 then Some (False, q', ws')
          else map_option (\<lambda>q''. (True, q'', ws')) (fill_metadata I (m_resultNum q') q'))"

subsection \<open>Well-formed indexes\<close>

text \<open>The forest: every tree starts at a node; the children of an inner node come behind it in the array and
  stand for samples. The root of a tree stands for no sample unless it is a leaf.\<close>

definition centre_ok :: "BKTree \<Rightarrow> nat \<Rightarrow> int \<Rightarrow> bool" where
  "centre_ok t R i \<longleftrightarrow> (case tree_at t i of None \<Rightarrow> False | Some n \<Rightarrow> 0 \<le> centerid n \<and> centerid n < int R)"

definition tree_ok :: "BKTree \<Rightarrow> nat \<Rightarrow> bool" where
  "tree_ok t R \<longleftrightarrow> m_iTreeNumber t \<le> length (m_pTreeStart t) \<and>
     (\<forall>s \<in> set (take (m_iTreeNumber t) (m_pTreeStart t)).
        case tree_at t s of None \<Rightarrow> False | Some n \<Rightarrow> childStart n < 0 \<longrightarrow> centre_ok t R s) \<and>
     (\<forall>i < length (m_pTreeRoots t). 0 \<le> childStart (m_pTreeRoots t ! i) \<longrightarrow>
        (\<forall>c \<in> set (children (m_pTreeRoots t ! i)). int i < c \<and> centre_ok t R c))"

text \<open>The copies under a graph node: the cells the loop reads exist, and the copies are at the distance of the node.\<close>

definition copies_ok :: "BKTree \<Rightarrow> nat \<Rightarrow> (int \<Rightarrow> dist) \<Rightarrow> int \<Rightarrow> int \<Rightarrow> bool" where
  "copies_ok t R D v x \<longleftrightarrow> x < - 1 \<longrightarrow>
     (case tree_at t (- 2 - x) of
        None \<Rightarrow> False
      | Some n \<Rightarrow> 0 < - childStart n \<longrightarrow> tree_at t (max (- childStart n) (childEnd n)) \<noteq> None \<and>
          (\<forall>j \<in> set [- childStart n .. childEnd n - 1].
             case tree_at t j of None \<Rightarrow> False | Some m \<Rightarrow> 0 \<le> centerid m \<and> centerid m < int R \<and> D (centerid m) = D v))"

definition index_ok :: "BKTIndex \<Rightarrow> (int \<Rightarrow> dist) \<Rightarrow> bool" where
  "index_ok I D \<longleftrightarrow> tree_ok (m_pTrees I) (m_samplesR I) \<and> length (m_pGraph I) = m_samplesR I \<and> 0 < m_iNeighborhoodSize I \<and>
     (\<forall>v < m_samplesR I. length (m_pGraph I ! v) = m_iNeighborhoodSize I \<and> (\<forall>x \<in> set (m_pGraph I ! v). x < int (m_samplesR I)) \<and>
        copies_ok (m_pTrees I) (m_samplesR I) D (int v) (m_pGraph I ! v ! (m_iNeighborhoodSize I - 1))) \<and>
     ls_inv (m_deletedID I) \<and> ls_R (m_deletedID I) = m_samplesR I"

text \<open>The cost of a cell of the forest: the number of cells below it and itself.\<close>

fun weight :: "nat \<Rightarrow> BKTree \<Rightarrow> int \<Rightarrow> nat" where
  "weight 0 t i = 1"
| "weight (Suc k) t i = 1 +
     (case tree_at t i of None \<Rightarrow> 0 | Some n \<Rightarrow> if childStart n < 0 then 0 else \<Sum>c \<leftarrow> children n. weight k t c)"

definition cell_weight :: "BKTree \<Rightarrow> int \<Rightarrow> nat" where
  "cell_weight t i = weight (nat (int (length (m_pTreeRoots t)) - i)) t i"

definition forest_weight :: "BKTree \<Rightarrow> nat" where
  "forest_weight t = (\<Sum>s \<leftarrow> take (m_iTreeNumber t) (m_pTreeStart t). cell_weight t s)"

text \<open>Marking nodes as seen never gets stuck, in whatever order they are marked.\<close>

definition answers :: "nat \<Rightarrow> nat \<Rightarrow> OptHashPosVector \<Rightarrow> bool" where
  "answers vf R v \<longleftrightarrow> (\<forall>ids. set ids \<subseteq> {0 ..< int R} \<longrightarrow> visit_all vf ids v \<noteq> None)"

subsection \<open>Queues as multisets\<close>

text \<open>What the search needs of a bounded queue: an insertion adds the element, drops it or drops another one, and
  a removal gives back an element.\<close>

locale bounded_queue =
  fixes ins :: "'e \<Rightarrow> 'q \<Rightarrow> 'q" and pop :: "'q \<Rightarrow> 'e \<times> 'q" and elems :: "'q \<Rightarrow> 'e multiset" and ok :: "'q \<Rightarrow> bool"
  assumes ins_ok: "ok q \<Longrightarrow> ok (ins e q)"
    and ins_elems: "ok q \<Longrightarrow> elems (ins e q) \<subseteq># add_mset e (elems q)"
    and pop_law: "ok q \<Longrightarrow> elems q \<noteq> {#} \<Longrightarrow> pop q = (e, q') \<Longrightarrow> ok q' \<and> elems q = add_mset e (elems q')"
begin

lemma ins_all: "ok q \<Longrightarrow> \<forall>x \<in># elems q. P x \<Longrightarrow> P e \<Longrightarrow> \<forall>x \<in># elems (ins e q). P x"
  using set_mset_mono[OF ins_elems[of q e]] by auto

lemma ins_size: "ok q \<Longrightarrow> size (elems (ins e q)) \<le> Suc (size (elems q))"
  using size_mset_mono[OF ins_elems[of q e]] by simp

lemma ins_weight:
  fixes w :: "'e \<Rightarrow> nat"
  assumes "ok q"
  shows "(\<Sum>x \<in># elems (ins e q). w x) \<le> w e + (\<Sum>x \<in># elems q. w x)"
proof -
  obtain M where "add_mset e (elems q) = elems (ins e q) + M"
    using ins_elems[OF assms] by (metis subset_mset.add_diff_inverse)
  then have "w e + (\<Sum>x \<in># elems q. w x) = (\<Sum>x \<in># elems (ins e q) + M. w x)" by (metis sum_mset.insert image_mset_add_mset)
  then show ?thesis by simp
qed

end

definition queue_ok :: "NodeDistPair heap \<Rightarrow> bool" where
  "queue_ok h \<longleftrightarrow> heap_inv ndp_less h \<and> 0 < hp_length h"

lemma size_heap_contents: "queue_ok h \<Longrightarrow> size (heap_contents h) = hp_count h"
  by (auto simp: queue_ok_def heap_inv_def heap_shape_def heap_contents_def length_heap_elems)

lemma heap_empty_contents: "queue_ok h \<Longrightarrow> heap_empty h \<longleftrightarrow> heap_contents h = {#}"
  using size_heap_contents[of h] by (auto simp: heap_empty_def)

lemma heap_insert_sub:
  assumes "heap_inv ndp_less h" "0 < hp_length h"
  shows "heap_contents (heap_insert ndp_less ndp_greater e h) \<subseteq># add_mset e (heap_contents h)"
proof -
  have sh: "heap_shape h" using assms(1) by (simp add: heap_inv_def)
  consider "hp_count h < hp_length h" | "hp_count h = hp_length h" "\<not> ndp_greater e (hp_heap h ! insert_loc ndp_less h)"
    | "hp_count h = hp_length h" "ndp_greater e (hp_heap h ! insert_loc ndp_less h)" using sh by (auto simp: heap_shape_def) linarith
  then show ?thesis
  proof cases
    case 3
    then have "heap_insert ndp_less ndp_greater e h = h" by (simp add: heap_insert_alt)
    then show ?thesis by simp
  qed (use heap_insert_contents[OF sh assms(2)] in auto)
qed

interpretation queue: bounded_queue "heap_insert ndp_less ndp_greater" ndp_pop heap_contents queue_ok
proof
  fix h e assume h: "queue_ok h"
  then show "queue_ok (heap_insert ndp_less ndp_greater e h)"
    using ndp.insert_inv by (auto simp: queue_ok_def heap_insert_def Let_def)
  show "heap_contents (heap_insert ndp_less ndp_greater e h) \<subseteq># add_mset e (heap_contents h)"
    using heap_insert_sub h by (simp add: queue_ok_def)
next
  fix h e h' assume h: "queue_ok h" "heap_contents h \<noteq> {#}" "ndp_pop h = (e, h')"
  have sh: "heap_shape h" "0 < hp_count h"
    using h(1,2) size_heap_contents[OF h(1)] by (auto simp: queue_ok_def heap_inv_def nonempty_has_size)
  have p: "heap_pop ndp_less ndp_greater h = (Some e, h')"
    using h(3) heap_pop_ref_eq[OF sh] by (simp add: ndp_pop_def)
  have "heap_inv ndp_less h'" using ndp.pop_inv[of h] h(1) p by (simp add: queue_ok_def)
  moreover have "hp_length h' = hp_length h" using p sh(2) by (auto simp: heap_pop_def heapify_def)
  ultimately show "queue_ok h' \<and> heap_contents h = add_mset e (heap_contents h')"
    using ndp.pop_min[of h e h'] h(1) p by (auto simp: queue_ok_def)
qed

subsection \<open>The state of a search\<close>

text \<open>A queued graph node has been seen and carries its distance; a queued cell of the forest carries the distance
  of its centre. The nodes in the queue are different from each other and from those already taken (\<open>P\<close>).\<close>

definition cell_good :: "BKTree \<Rightarrow> nat \<Rightarrow> (int \<Rightarrow> dist) \<Rightarrow> NodeDistPair \<Rightarrow> bool" where
  "cell_good t R D e \<longleftrightarrow> centre_ok t R (node e) \<and> distance e = D (centerid (the (tree_at t (node e))))"

definition spt_good :: "BKTree \<Rightarrow> nat \<Rightarrow> (int \<Rightarrow> dist) \<Rightarrow> NodeDistPair heap \<Rightarrow> bool" where
  "spt_good t R D h \<longleftrightarrow> queue_ok h \<and> (\<forall>e \<in># heap_contents h. cell_good t R D e)"

definition ng_good :: "nat \<Rightarrow> nat \<Rightarrow> (int \<Rightarrow> dist) \<Rightarrow> int set \<Rightarrow> OptHashPosVector \<Rightarrow> NodeDistPair heap \<Rightarrow> bool" where
  "ng_good vf R D P v h \<longleftrightarrow> queue_ok h \<and> oh_inv v \<and> answers vf R v \<and> visited v \<subseteq> {0 ..< int R} \<and> P \<subseteq> visited v \<and>
     (\<forall>e \<in># heap_contents h. node e \<in> visited v - P \<and> distance e = D (node e)) \<and>
     (\<forall>n. size (filter_mset (\<lambda>e. node e = n) (heap_contents h)) \<le> 1)"

definition ws_good :: "nat \<Rightarrow> BKTree \<Rightarrow> nat \<Rightarrow> (int \<Rightarrow> dist) \<Rightarrow> int set \<Rightarrow> WorkSpace \<Rightarrow> bool" where
  "ws_good vf t R D P ws \<longleftrightarrow> ng_good vf R D P (nodeCheckStatus ws) (m_NGQueue ws) \<and> spt_good t R D (m_SPTQueue ws)"

text \<open>How many nodes the main loop may still take, and how many cells the forest search may still open.\<close>

definition potential :: "nat \<Rightarrow> WorkSpace \<Rightarrow> nat" where
  "potential R ws = size (heap_contents (m_NGQueue ws)) + (R - card (visited (nodeCheckStatus ws)))"

definition heap_weight :: "BKTree \<Rightarrow> NodeDistPair heap \<Rightarrow> nat" where
  "heap_weight t h = (\<Sum>e \<in># heap_contents h. cell_weight t (node e))"

lemma answers_step:
  assumes "answers vf R v" "oh_inv v" "0 \<le> i" "i < int R"
  shows "\<exists>v'. oh_CheckAndSet vf i v = Some (i \<in> visited v, v') \<and> oh_inv v' \<and> answers vf R v' \<and> visited v' = insert i (visited v)"
proof -
  have "visit_all vf [i] v \<noteq> None" using assms(1,3,4) unfolding answers_def by (metis empty_set list.simps(15) subset_iff atLeastLessThan_iff singletonD)
  then obtain b v' where c: "oh_CheckAndSet vf i v = Some (b, v')" by (auto split: option.splits prod.splits)
  then obtain res l where c': "check_and_set vf v None (i + 1) = Some (res, v', l)" "b = (res = 0)"
    by (auto simp: oh_CheckAndSet_def split: option.splits)
  have "i + 1 \<noteq> 0" using assms(3) by simp
  note sp = check_and_set_spec[OF assms(2) this c'(1)]
  have "visit_all vf ids v' \<noteq> None" if "set ids \<subseteq> {0 ..< int R}" for ids
  proof -
    have "set (i # ids) \<subseteq> {0 ..< int R}" using assms(3,4) that by simp
    then have "visit_all vf (i # ids) v \<noteq> None" using assms(1) unfolding answers_def by blast
    then show ?thesis using c by simp
  qed
  then have "answers vf R v'" by (simp add: answers_def)
  then show ?thesis using sp c c'(2) by (auto simp: mem_visited set_eq_iff)
qed

lemma filter_mset_sub_size: "M \<subseteq># N \<Longrightarrow> size (filter_mset P M) \<le> size (filter_mset P N)"
  by (intro size_mset_mono multiset_filter_mono)

text \<open>A node that is seen for the first time is queued, or not.\<close>

lemma ng_mark:
  assumes "ng_good vf R D P v h" "0 \<le> i" "i < int R"
  obtains v' where "oh_CheckAndSet vf i v = Some (i \<in> visited v, v')" "ng_good vf R D P v' h" "visited v' = insert i (visited v)"
    "i \<notin> visited v \<longrightarrow> ng_good vf R D P v' (heap_insert ndp_less ndp_greater \<lparr>node = i, distance = D i\<rparr> h) \<and>
        size (heap_contents (heap_insert ndp_less ndp_greater \<lparr>node = i, distance = D i\<rparr> h)) + (R - card (visited v'))
          \<le> size (heap_contents h) + (R - card (visited v))"
    "R - card (visited v') \<le> R - card (visited v)"
proof -
  let ?e = "\<lparr>node = i, distance = D i\<rparr>"
  let ?h = "heap_insert ndp_less ndp_greater ?e h"
  have g: "queue_ok h" "oh_inv v" "answers vf R v" "visited v \<subseteq> {0 ..< int R}" "P \<subseteq> visited v"
    "\<forall>e \<in># heap_contents h. node e \<in> visited v - P \<and> distance e = D (node e)"
    "\<forall>n. size (filter_mset (\<lambda>e. node e = n) (heap_contents h)) \<le> 1"
    using assms(1) by (auto simp: ng_good_def)
  obtain v' where v': "oh_CheckAndSet vf i v = Some (i \<in> visited v, v')" "oh_inv v'" "answers vf R v'" "visited v' = insert i (visited v)"
    using answers_step[OF g(3,2) assms(2,3)] by blast
  have fin: "finite (visited v)" using g(4) finite_subset by blast
  have base: "ng_good vf R D P v' h" using g v' assms(2,3) by (auto simp: ng_good_def)
  have new: "ng_good vf R D P v' ?h \<and>
      size (heap_contents ?h) + (R - card (visited v')) \<le> size (heap_contents h) + (R - card (visited v))" if n: "i \<notin> visited v"
  proof -
    have al: "\<forall>e \<in># heap_contents ?h. node e \<in> visited v' - P \<and> distance e = D (node e)"
      using g(5,6) n v'(4) by (intro queue.ins_all[OF g(1)]) auto
    have "size (filter_mset (\<lambda>e. node e = m) (heap_contents ?h)) \<le> 1" for m
    proof -
      have "size (filter_mset (\<lambda>e. node e = m) (heap_contents ?h)) \<le> size (filter_mset (\<lambda>e. node e = m) (add_mset ?e (heap_contents h)))"
        by (rule filter_mset_sub_size[OF queue.ins_elems[OF g(1)]])
      also have "\<dots> \<le> 1"
      proof (cases "m = i")
        case True
        then have "filter_mset (\<lambda>e. node e = m) (heap_contents h) = {#}" using g(6) n by (intro multiset_eqI) (auto simp: not_in_iff[symmetric])
        then show ?thesis using True by simp
      qed (use g(7) in simp)
      finally show ?thesis .
    qed
    then have "ng_good vf R D P v' ?h" using base al queue.ins_ok[OF g(1)] by (auto simp: ng_good_def)
    moreover have "card (visited v') = Suc (card (visited v))" using v'(4) n fin by simp
    moreover have "card (visited v') \<le> R"
      using card_mono[of "{0 ..< int R}" "visited v'"] v'(4) g(4) assms(2,3) by simp
    ultimately show ?thesis using queue.ins_size[OF g(1), of ?e] by simp
  qed
  have "card (visited v) \<le> card (visited v')" using v'(4) fin by (simp add: card_insert_le)
  then have "R - card (visited v') \<le> R - card (visited v)" by simp
  then show thesis using that[OF v'(1) base v'(4)] new by blast
qed

subsection \<open>The forest search\<close>

lemma tree_child:
  assumes "tree_ok t R" "tree_at t i = Some n" "0 \<le> childStart n" "c \<in> set (children n)"
  shows "i < c" "centre_ok t R c"
proof -
  have i: "0 \<le> i" "nat i < length (m_pTreeRoots t)" "n = m_pTreeRoots t ! nat i" using assms(2) by (auto simp: tree_at_def split: if_splits)
  have "\<forall>c \<in> set (children (m_pTreeRoots t ! nat i)). int (nat i) < c \<and> centre_ok t R c"
    using assms(1,3) i(2,3) unfolding tree_ok_def by blast
  then show "i < c" "centre_ok t R c" using assms(4) i by auto
qed

lemma weight_stable:
  assumes "tree_ok t R" "nat (int (length (m_pTreeRoots t)) - i) \<le> k" "nat (int (length (m_pTreeRoots t)) - i) \<le> k'"
  shows "weight k t i = weight k' t i"
  using assms(2,3)
proof (induction "nat (int (length (m_pTreeRoots t)) - i)" arbitrary: i k k' rule: less_induct)
  case less
  let ?b = "\<lambda>i. nat (int (length (m_pTreeRoots t)) - i)"
  show ?case
  proof (cases "tree_at t i")
    case None
    then have "weight k t i = 1" for k by (cases k) auto
    then show ?thesis by simp
  next
    case (Some n)
    then have "0 < ?b i" by (auto simp: tree_at_def split: if_splits)
    then obtain a a' where k: "k = Suc a" "k' = Suc a'" using less.prems by (metis not0_implies_Suc not_less_zero le_zero_eq)
    have "weight a t c = weight a' t c" if "0 \<le> childStart n" "c \<in> set (children n)" for c
    proof -
      have lt: "?b c < ?b i" using tree_child(1)[OF assms(1) Some that] \<open>0 < ?b i\<close> by simp
      then have "?b c \<le> a" "?b c \<le> a'" using less.prems k by linarith+
      then show ?thesis by (rule less.hyps[OF lt])
    qed
    then have "(if childStart n < 0 then 0 else \<Sum>c \<leftarrow> children n. weight a t c) = (if childStart n < 0 then 0 else \<Sum>c \<leftarrow> children n. weight a' t c)"
      by (auto intro!: arg_cong[where f = sum_list])
    then show ?thesis using Some k by simp
  qed
qed

lemma cell_weight_unfold:
  assumes "tree_ok t R" "tree_at t i = Some n"
  shows "cell_weight t i = 1 + (if childStart n < 0 then 0 else \<Sum>c \<leftarrow> children n. cell_weight t c)"
proof -
  let ?b = "\<lambda>i. nat (int (length (m_pTreeRoots t)) - i)"
  obtain a where a: "?b i = Suc a" using assms(2) by (cases "?b i") (auto simp: tree_at_def split: if_splits)
  have "weight a t c = cell_weight t c" if "0 \<le> childStart n" "c \<in> set (children n)" for c
    unfolding cell_weight_def using tree_child(1)[OF assms that] a by (intro weight_stable[OF assms(1)]) auto
  then have "(if childStart n < 0 then 0 else \<Sum>c \<leftarrow> children n. weight a t c) = (if childStart n < 0 then 0 else \<Sum>c \<leftarrow> children n. cell_weight t c)"
    by (auto intro!: arg_cong[where f = sum_list])
  then show ?thesis using assms(2) a by (simp add: cell_weight_def[of t i])
qed

lemma centre_cases:
  assumes "centre_ok t R i"
  obtains n where "tree_at t i = Some n" "0 \<le> centerid n" "centerid n < int R" "sample_dist R D (centerid n) = Some (D (centerid n))"
  using assms by (auto simp: centre_ok_def sample_dist_def split: option.splits)

lemma spt_insert:
  assumes "spt_good t R D h" "cell_good t R D e"
  shows "spt_good t R D (heap_insert ndp_less ndp_greater e h)"
    "heap_weight t (heap_insert ndp_less ndp_greater e h) \<le> cell_weight t (node e) + heap_weight t h"
  using assms queue.ins_ok queue.ins_all[of h "cell_good t R D" e] queue.ins_weight[of h "\<lambda>e. cell_weight t (node e)" e]
  by (auto simp: spt_good_def heap_weight_def)

lemma spt_pop:
  assumes "spt_good t R D h" "\<not> heap_empty h"
  obtains e h' n where "ndp_pop h = (e, h')" "spt_good t R D h'" "heap_weight t h = cell_weight t (node e) + heap_weight t h'"
    "tree_at t (node e) = Some n" "0 \<le> centerid n" "centerid n < int R" "distance e = D (centerid n)"
    "hp_count h = Suc (hp_count h')" "cell_good t R D e"
proof -
  have q: "queue_ok h" "heap_contents h \<noteq> {#}" using assms heap_empty_contents by (auto simp: spt_good_def)
  obtain e h' where p: "ndp_pop h = (e, h')" by fastforce
  have l: "queue_ok h'" "heap_contents h = add_mset e (heap_contents h')" using queue.pop_law[OF q p] by auto
  have "hp_count h = Suc (hp_count h')" using l(2) size_heap_contents[OF q(1)] size_heap_contents[OF l(1)] by simp
  moreover have "cell_good t R D e" "spt_good t R D h'" using assms(1) l by (auto simp: spt_good_def)
  ultimately show thesis
    using that p l(2) by (auto simp: cell_good_def heap_weight_def centre_ok_def split: option.splits)
qed

text \<open>Only the queue of the trees, or only the part of the graph, changes.\<close>

definition same_ng :: "WorkSpace \<Rightarrow> WorkSpace \<Rightarrow> bool" where
  "same_ng ws ws' \<longleftrightarrow> nodeCheckStatus ws' = nodeCheckStatus ws \<and> m_NGQueue ws' = m_NGQueue ws"

lemma push_children_good:
  assumes "ws_good vf t R D P ws" "\<forall>c \<in> set bs. centre_ok t R c"
  shows "\<exists>ws'. push_children t R D bs ws = Some ws' \<and> ws_good vf t R D P ws' \<and> same_ng ws ws' \<and>
     heap_weight t (m_SPTQueue ws') \<le> (\<Sum>c \<leftarrow> bs. cell_weight t c) + heap_weight t (m_SPTQueue ws)"
  using assms
proof (induction bs arbitrary: ws)
  case (Cons b bs)
  have "centre_ok t R b" using Cons.prems(2) by simp
  then obtain n where n: "tree_at t b = Some n" "sample_dist R D (centerid n) = Some (D (centerid n))" using centre_cases by metis
  let ?e = "\<lparr>node = b, distance = D (centerid n)\<rparr>"
  have e: "cell_good t R D ?e" using n \<open>centre_ok t R b\<close> by (simp add: cell_good_def)
  let ?ws = "SPT_insert b (D (centerid n)) ws"
  have s: "spt_good t R D (m_SPTQueue ws)" using Cons.prems(1) by (simp add: ws_good_def)
  have g: "ws_good vf t R D P ?ws" using Cons.prems(1) spt_insert(1)[OF s e] by (simp add: ws_good_def SPT_insert_def)
  from Cons.IH[OF g] Cons.prems(2) obtain ws' where "push_children t R D bs ?ws = Some ws'" "ws_good vf t R D P ws'" "same_ng ?ws ws'"
    "heap_weight t (m_SPTQueue ws') \<le> (\<Sum>c \<leftarrow> bs. cell_weight t c) + heap_weight t (m_SPTQueue ?ws)" by auto
  then show ?case using n spt_insert(2)[OF s e] by (auto simp: same_ng_def SPT_insert_def)
qed (auto simp: same_ng_def)

lemma ws_mark:
  assumes "ws_good vf t R D P ws" "0 \<le> i" "i < int R" "d = D i"
  obtains seen v' where "ws_CheckAndSet vf i ws = Some (seen, ws\<lparr>nodeCheckStatus := v'\<rparr>)"
    "ws_good vf t R D P (ws\<lparr>nodeCheckStatus := v'\<rparr>)" "potential R (ws\<lparr>nodeCheckStatus := v'\<rparr>) \<le> potential R ws"
    "\<not> seen \<longrightarrow> ws_good vf t R D P (NG_insert i d (ws\<lparr>nodeCheckStatus := v'\<rparr>)) \<and>
       potential R (NG_insert i d (ws\<lparr>nodeCheckStatus := v'\<rparr>)) \<le> potential R ws"
    "visited v' = insert i (visited (nodeCheckStatus ws))"
proof -
  let ?v = "nodeCheckStatus ws" and ?h = "m_NGQueue ws"
  have ng: "ng_good vf R D P ?v ?h" using assms(1) by (simp add: ws_good_def)
  obtain v' where m: "oh_CheckAndSet vf i ?v = Some (i \<in> visited ?v, v')" "ng_good vf R D P v' ?h"
    "visited v' = insert i (visited ?v)"
    "i \<notin> visited ?v \<longrightarrow> ng_good vf R D P v' (heap_insert ndp_less ndp_greater \<lparr>node = i, distance = D i\<rparr> ?h) \<and>
        size (heap_contents (heap_insert ndp_less ndp_greater \<lparr>node = i, distance = D i\<rparr> ?h)) + (R - card (visited v'))
          \<le> size (heap_contents ?h) + (R - card (visited ?v))"
    "R - card (visited v') \<le> R - card (visited ?v)" by (rule ng_mark[OF ng assms(2,3)])
  let ?ws = "ws\<lparr>nodeCheckStatus := v'\<rparr>"
  have spt: "spt_good t R D (m_SPTQueue ws)" using assms(1) by (simp add: ws_good_def)
  show thesis
  proof (rule that[of "i \<in> visited ?v" v'])
    show "ws_CheckAndSet vf i ws = Some (i \<in> visited ?v, ?ws)" using m(1) by (simp add: ws_CheckAndSet_def)
    show "ws_good vf t R D P ?ws" using m(2) spt by (simp add: ws_good_def)
    show "potential R ?ws \<le> potential R ws" using m(5) by (simp only: potential_def) simp
    show "\<not> i \<in> visited ?v \<longrightarrow> ws_good vf t R D P (NG_insert i d ?ws) \<and> potential R (NG_insert i d ?ws) \<le> potential R ws"
      using m(4) spt unfolding assms(4) ws_good_def potential_def NG_insert_def by simp
  qed (rule m(3))
qed

lemma ws_good_leaves [simp]:
  "ws_good vf t R D P (ws\<lparr>m_iNumberOfCheckedLeaves := x\<rparr>) = ws_good vf t R D P ws"
  "potential R (ws\<lparr>m_iNumberOfCheckedLeaves := x\<rparr>) = potential R ws"
  "NG_insert i d (ws\<lparr>m_iNumberOfCheckedLeaves := x\<rparr>) = (NG_insert i d ws)\<lparr>m_iNumberOfCheckedLeaves := x\<rparr>"
  by (simp_all add: ws_good_def potential_def NG_insert_def)

lemma NG_insert_spt [simp]: "m_SPTQueue (NG_insert i d ws) = m_SPTQueue ws"
  by (simp add: NG_insert_def)

lemma same_ng_potential: "same_ng ws ws' \<Longrightarrow> potential R ws' = potential R ws"
  by (simp add: same_ng_def potential_def)

text \<open>The forest search returns when its fuel is at least the weight of the queue.\<close>

lemma SearchTrees_good:
  assumes "tree_ok t R" "ws_good vf t R D P ws" "heap_weight t (m_SPTQueue ws) \<le> fuel"
  shows "\<exists>ws'. SearchTrees fuel vf t R D limit ws = Some ws' \<and> ws_good vf t R D P ws' \<and> potential R ws' \<le> potential R ws \<and>
     heap_weight t (m_SPTQueue ws') \<le> heap_weight t (m_SPTQueue ws)"
  using assms(2,3)
proof (induction fuel arbitrary: ws)
  case 0
  have "heap_empty (m_SPTQueue ws)"
  proof (rule ccontr)
    assume n: "\<not> heap_empty (m_SPTQueue ws)"
    have "spt_good t R D (m_SPTQueue ws)" using 0 by (simp add: ws_good_def)
    from this n show False by (rule spt_pop) (use 0 cell_weight_unfold[OF assms(1)] in simp)
  qed
  then show ?case using 0 by (simp add: SearchTrees.simps)
next
  case (Suc fuel)
  show ?case
  proof (cases "heap_empty (m_SPTQueue ws)")
    case True
    then show ?thesis using Suc.prems by (simp add: SearchTrees.simps)
  next
    case False
    have s: "spt_good t R D (m_SPTQueue ws)" using Suc.prems by (simp add: ws_good_def)
    obtain e h' n where p: "ndp_pop (m_SPTQueue ws) = (e, h')" "spt_good t R D h'"
      "heap_weight t (m_SPTQueue ws) = cell_weight t (node e) + heap_weight t h'"
      "tree_at t (node e) = Some n" "0 \<le> centerid n" "centerid n < int R" "distance e = D (centerid n)"
      by (rule spt_pop[OF s False])
    let ?ws = "ws\<lparr>m_SPTQueue := h'\<rparr>"
    have g: "ws_good vf t R D P ?ws" using Suc.prems(1) p(2) by (simp add: ws_good_def)
    have pot: "potential R ?ws = potential R ws" by (simp add: potential_def)
    obtain seen v' where m: "ws_CheckAndSet vf (centerid n) ?ws = Some (seen, ?ws\<lparr>nodeCheckStatus := v'\<rparr>)"
      "ws_good vf t R D P (?ws\<lparr>nodeCheckStatus := v'\<rparr>)" "potential R (?ws\<lparr>nodeCheckStatus := v'\<rparr>) \<le> potential R ?ws"
      "\<not> seen \<longrightarrow> ws_good vf t R D P (NG_insert (centerid n) (distance e) (?ws\<lparr>nodeCheckStatus := v'\<rparr>)) \<and>
         potential R (NG_insert (centerid n) (distance e) (?ws\<lparr>nodeCheckStatus := v'\<rparr>)) \<le> potential R ?ws"
      by (rule ws_mark[OF g p(5-7)])
    let ?w1 = "?ws\<lparr>nodeCheckStatus := v'\<rparr>"
    have step: "\<exists>ws'. SearchTrees fuel vf t R D limit w = Some ws' \<and> ws_good vf t R D P ws' \<and> potential R ws' \<le> potential R ws \<and>
        heap_weight t (m_SPTQueue ws') \<le> heap_weight t (m_SPTQueue ws)"
      if "ws_good vf t R D P w" "potential R w \<le> potential R ws" "heap_weight t (m_SPTQueue w) < heap_weight t (m_SPTQueue ws)" for w
    proof -
      have "heap_weight t (m_SPTQueue w) \<le> fuel" using that(3) Suc.prems(2) by simp
      from Suc.IH[OF that(1) this] obtain ws' where "SearchTrees fuel vf t R D limit w = Some ws'" "ws_good vf t R D P ws'"
        "potential R ws' \<le> potential R w" "heap_weight t (m_SPTQueue ws') \<le> heap_weight t (m_SPTQueue w)" by blast
      then show ?thesis using that by auto
    qed
    note unf = SearchTrees.simps[of "Suc fuel"]
    show ?thesis
    proof (cases "childStart n < 0")
      case True
      have wt: "cell_weight t (node e) = 1" using cell_weight_unfold[OF assms(1) p(4)] True by simp
      let ?w2 = "if seen then ?w1 else NG_insert (centerid n) (distance e) (?w1\<lparr>m_iNumberOfCheckedLeaves := m_iNumberOfCheckedLeaves ?w1 + 1\<rparr>)"
      have w2: "ws_good vf t R D P ?w2" "potential R ?w2 \<le> potential R ws" "m_SPTQueue ?w2 = h'"
        using m(2-4) pot by (auto split: if_splits)
      have e: "SearchTrees (Suc fuel) vf t R D limit ws = (if m_iNumberOfCheckedLeaves ?w2 \<ge> limit then Some ?w2 else SearchTrees fuel vf t R D limit ?w2)"
        using False p(1,4) m(1) True by (simp add: unf Let_def)
      have "heap_weight t h' < heap_weight t (m_SPTQueue ws)" using p(3) wt by simp
      then show ?thesis unfolding e using w2 step[of ?w2] by auto
    next
      case c: False
      have wt: "cell_weight t (node e) = 1 + (\<Sum>c \<leftarrow> children n. cell_weight t c)" using cell_weight_unfold[OF assms(1) p(4)] c by simp
      let ?w2 = "if seen then ?w1 else NG_insert (centerid n) (distance e) ?w1"
      have w2: "ws_good vf t R D P ?w2" "potential R ?w2 \<le> potential R ws" "m_SPTQueue ?w2 = h'"
        using m(2-4) pot by (auto split: if_splits)
      have "\<forall>c \<in> set (children n). centre_ok t R c" using tree_child(2)[OF assms(1) p(4)] c by simp
      from push_children_good[OF w2(1) this] obtain w3 where w3: "push_children t R D (children n) ?w2 = Some w3" "ws_good vf t R D P w3"
        "same_ng ?w2 w3" "heap_weight t (m_SPTQueue w3) \<le> (\<Sum>c \<leftarrow> children n. cell_weight t c) + heap_weight t (m_SPTQueue ?w2)" by blast
      have e: "SearchTrees (Suc fuel) vf t R D limit ws = SearchTrees fuel vf t R D limit w3"
        using False p(1,4) m(1) c w3(1) by (simp add: unf Let_def)
      have "potential R w3 \<le> potential R ws" using same_ng_potential[OF w3(3)] w2(2) by simp
      moreover have "heap_weight t (m_SPTQueue w3) < heap_weight t (m_SPTQueue ws)" using w3(4) w2(3) p(3) wt by simp
      ultimately show ?thesis unfolding e using step[OF w3(2)] by blast
    qed
  qed
qed

text \<open>The breadth-first start moves cells between three queues and never adds weight.\<close>

lemma SPT_insert_good:
  assumes "ws_good vf t R D P ws" "cell_good t R D \<lparr>node = b, distance = d\<rparr>"
  shows "ws_good vf t R D P (SPT_insert b d ws)" "same_ng ws (SPT_insert b d ws)"
    "heap_weight t (m_SPTQueue (SPT_insert b d ws)) \<le> cell_weight t b + heap_weight t (m_SPTQueue ws)"
  using assms spt_insert[of t R D "m_SPTQueue ws" "\<lparr>node = b, distance = d\<rparr>"]
  by (auto simp: ws_good_def SPT_insert_def same_ng_def)

lemma same_ng_trans: "same_ng a b \<Longrightarrow> same_ng b c \<Longrightarrow> same_ng a c"
  by (simp add: same_ng_def)

lemma bfs_children_good:
  assumes "ws_good vf t R D P ws" "spt_good t R D q" "\<forall>c \<in> set bs. centre_ok t R c"
  shows "\<exists>q' ws'. bfs_children t R D scaleQ bs q ws = Some (q', ws') \<and> spt_good t R D q' \<and> ws_good vf t R D P ws' \<and> same_ng ws ws' \<and>
     heap_weight t q' + heap_weight t (m_SPTQueue ws') \<le> (\<Sum>c \<leftarrow> bs. cell_weight t c) + heap_weight t q + heap_weight t (m_SPTQueue ws)"
  using assms
proof (induction bs arbitrary: q ws)
  case (Cons b bs)
  have b: "centre_ok t R b" "\<forall>c \<in> set bs. centre_ok t R c" using Cons.prems(3) by simp_all
  obtain n where n: "tree_at t b = Some n" "sample_dist R D (centerid n) = Some (D (centerid n))"
    using b(1) by (rule centre_cases)
  let ?e = "\<lparr>node = b, distance = D (centerid n)\<rparr>"
  have e: "cell_good t R D ?e" using n b(1) by (simp add: cell_good_def)
  show ?case
  proof (cases "D (centerid n) \<le> scaleQ (distance (heap_Top q)) \<and> heap_size q < MaxBFSNodes")
    case True
    from Cons.IH[OF Cons.prems(1) spt_insert(1)[OF Cons.prems(2) e] b(2)] spt_insert(2)[OF Cons.prems(2) e] True n
    show ?thesis by fastforce
  next
    case False
    note i = SPT_insert_good[OF Cons.prems(1) e]
    from Cons.IH[OF i(1) Cons.prems(2) b(2)] obtain q' ws' where h: "bfs_children t R D scaleQ bs q (SPT_insert b (D (centerid n)) ws) = Some (q', ws')"
      "spt_good t R D q'" "ws_good vf t R D P ws'" "same_ng (SPT_insert b (D (centerid n)) ws) ws'"
      "heap_weight t q' + heap_weight t (m_SPTQueue ws') \<le> (\<Sum>c \<leftarrow> bs. cell_weight t c) + heap_weight t q +
         heap_weight t (m_SPTQueue (SPT_insert b (D (centerid n)) ws))" by blast
    have "bfs_children t R D scaleQ (b # bs) q ws = Some (q', ws')" using h(1) False n by auto
    then show ?thesis using h(2,3,5) same_ng_trans[OF i(2) h(4)] i(3) by (intro exI[of _ q'] exI[of _ ws']) simp
  qed
qed (auto simp: same_ng_def)

lemma heap_weight_empty: "spt_good t R D h \<Longrightarrow> hp_count h = 0 \<Longrightarrow> heap_weight t h = 0"
  using size_heap_contents[of h] by (auto simp: heap_weight_def spt_good_def)

lemma bfs_level_good:
  assumes "tree_ok t R" "ws_good vf t R D P ws" "spt_good t R D cur" "spt_good t R D nxt" "n = hp_count cur"
  shows "\<exists>cur' nxt' ws'. bfs_level n vf t R D scaleQ cur nxt ws = Some (cur', nxt', ws') \<and> spt_good t R D cur' \<and> hp_count cur' = 0 \<and>
     spt_good t R D nxt' \<and> ws_good vf t R D P ws' \<and> potential R ws' \<le> potential R ws \<and>
     heap_weight t nxt' + heap_weight t (m_SPTQueue ws') \<le> heap_weight t cur + heap_weight t nxt + heap_weight t (m_SPTQueue ws)"
  using assms(2-)
proof (induction n arbitrary: cur nxt ws)
  case 0
  then show ?case by auto
next
  case (Suc m)
  have ne: "\<not> heap_empty cur" using Suc.prems(4) by (simp add: heap_empty_def)
  obtain e h' n where p: "ndp_pop cur = (e, h')" "spt_good t R D h'" "heap_weight t cur = cell_weight t (node e) + heap_weight t h'"
    "tree_at t (node e) = Some n" "0 \<le> centerid n" "centerid n < int R" "distance e = D (centerid n)"
    "hp_count cur = Suc (hp_count h')" "cell_good t R D e"
    by (rule spt_pop[OF Suc.prems(2) ne])
  have m: "m = hp_count h'" using p(8) Suc.prems(4) by simp
  show ?case
  proof (cases "childStart n < 0")
    case True
    have e: "cell_good t R D \<lparr>node = node e, distance = distance e\<rparr>" using p(9) by (simp add: cell_good_def)
    note i = SPT_insert_good[OF Suc.prems(1) e]
    from Suc.IH[OF i(1) p(2) Suc.prems(3) m] i(3) same_ng_potential[OF i(2), of R] p(1,3,4) True show ?thesis by fastforce
  next
    case c: False
    have wt: "cell_weight t (node e) = 1 + (\<Sum>c \<leftarrow> children n. cell_weight t c)" using cell_weight_unfold[OF assms(1) p(4)] c by simp
    obtain seen v' where k: "ws_CheckAndSet vf (centerid n) ws = Some (seen, ws\<lparr>nodeCheckStatus := v'\<rparr>)"
      "ws_good vf t R D P (ws\<lparr>nodeCheckStatus := v'\<rparr>)" "potential R (ws\<lparr>nodeCheckStatus := v'\<rparr>) \<le> potential R ws"
      "\<not> seen \<longrightarrow> ws_good vf t R D P (NG_insert (centerid n) (distance e) (ws\<lparr>nodeCheckStatus := v'\<rparr>)) \<and>
         potential R (NG_insert (centerid n) (distance e) (ws\<lparr>nodeCheckStatus := v'\<rparr>)) \<le> potential R ws"
      by (rule ws_mark[OF Suc.prems(1) p(5-7)])
    let ?w = "if seen then ws\<lparr>nodeCheckStatus := v'\<rparr> else NG_insert (centerid n) (distance e) (ws\<lparr>nodeCheckStatus := v'\<rparr>)"
    have w: "ws_good vf t R D P ?w" "potential R ?w \<le> potential R ws" "m_SPTQueue ?w = m_SPTQueue ws" using k(2-4) by auto
    have ch: "\<forall>c \<in> set (children n). centre_ok t R c" using tree_child(2)[OF assms(1) p(4)] c by simp
    obtain q' w' where b: "bfs_children t R D scaleQ (children n) nxt ?w = Some (q', w')" "spt_good t R D q'" "ws_good vf t R D P w'"
      "same_ng ?w w'" "heap_weight t q' + heap_weight t (m_SPTQueue w') \<le>
         (\<Sum>c \<leftarrow> children n. cell_weight t c) + heap_weight t nxt + heap_weight t (m_SPTQueue ?w)"
      using bfs_children_good[OF w(1) Suc.prems(3) ch] by blast
    obtain cur' nxt' ws' where l: "bfs_level m vf t R D scaleQ h' q' w' = Some (cur', nxt', ws')" "spt_good t R D cur'" "hp_count cur' = 0"
      "spt_good t R D nxt'" "ws_good vf t R D P ws'" "potential R ws' \<le> potential R w'"
      "heap_weight t nxt' + heap_weight t (m_SPTQueue ws') \<le> heap_weight t h' + heap_weight t q' + heap_weight t (m_SPTQueue w')"
      using Suc.IH[OF b(3) p(2) b(2) m] by blast
    have e: "bfs_level (Suc m) vf t R D scaleQ cur nxt ws = Some (cur', nxt', ws')"
      using p(1,4) c k(1) b(1) l(1) by (simp add: Let_def)
    have "potential R ws' \<le> potential R ws" using l(6) same_ng_potential[OF b(4)] w(2) by simp
    moreover have "heap_weight t nxt' + heap_weight t (m_SPTQueue ws') \<le> heap_weight t cur + heap_weight t nxt + heap_weight t (m_SPTQueue ws)"
      using l(7) b(5) w(3) p(3) wt by simp
    ultimately show ?thesis using e l(2-5) by blast
  qed
qed

lemma set_Top_empty:
  assumes "spt_good t R D h" "hp_count h = 0"
  shows "spt_good t R D (set_Top_distance d h)" "hp_count (set_Top_distance d h) = 0"
proof -
  have "heap_contents (set_Top_distance d h) = {#}" "heap_contents h = {#}"
    using assms(2) by (simp_all add: heap_contents_def heap_elems_def set_Top_distance_def Let_def)
  moreover have "queue_ok (set_Top_distance d h)"
    using assms by (simp add: spt_good_def queue_ok_def heap_inv_def heap_shape_def ordered_upto_def set_Top_distance_def Let_def)
  ultimately show "spt_good t R D (set_Top_distance d h)" by (simp add: spt_good_def)
  show "hp_count (set_Top_distance d h) = 0" using assms(2) by (simp add: set_Top_distance_def Let_def)
qed

lemma bfs_levels_good:
  assumes "tree_ok t R" "ws_good vf t R D P ws" "spt_good t R D cur" "spt_good t R D nxt" "hp_count nxt = 0"
  shows "\<exists>cur' ws'. bfs_levels m vf t R D scaleQ cur nxt ws = Some (cur', ws') \<and> spt_good t R D cur' \<and>
     ws_good vf t R D P ws' \<and> potential R ws' \<le> potential R ws \<and>
     heap_weight t cur' + heap_weight t (m_SPTQueue ws') \<le> heap_weight t cur + heap_weight t (m_SPTQueue ws)"
  using assms(2-)
proof (induction m arbitrary: cur nxt ws)
  case (Suc m)
  let ?nxt = "set_Top_distance (10 ^ 9) nxt"
  note e = set_Top_empty[OF Suc.prems(3,4), of "10 ^ 9"]
  obtain cur' nxt' ws' where l: "bfs_level (heap_size cur) vf t R D scaleQ cur ?nxt ws = Some (cur', nxt', ws')" "spt_good t R D cur'" "hp_count cur' = 0"
      "spt_good t R D nxt'" "ws_good vf t R D P ws'" "potential R ws' \<le> potential R ws"
      "heap_weight t nxt' + heap_weight t (m_SPTQueue ws') \<le> heap_weight t cur + heap_weight t ?nxt + heap_weight t (m_SPTQueue ws)"
    using bfs_level_good[OF assms(1) Suc.prems(1,2) e(1), of "heap_size cur" scaleQ] by (auto simp: heap_size_def)
  have "heap_weight t nxt' + heap_weight t (m_SPTQueue ws') \<le> heap_weight t cur + heap_weight t (m_SPTQueue ws)"
    using l(7) heap_weight_empty[OF e] by simp
  then show ?case using Suc.IH[OF l(5,4,2,3)] l(1,6) by fastforce
qed auto

lemma bfs_drain_good:
  assumes "ws_good vf t R D P ws" "spt_good t R D cur" "n = hp_count cur"
  shows "ws_good vf t R D P (bfs_drain n cur ws) \<and> potential R (bfs_drain n cur ws) = potential R ws \<and>
     heap_weight t (m_SPTQueue (bfs_drain n cur ws)) \<le> heap_weight t cur + heap_weight t (m_SPTQueue ws)"
  using assms
proof (induction n arbitrary: cur ws)
  case (Suc m)
  have ne: "\<not> heap_empty cur" using Suc.prems(3) by (simp add: heap_empty_def)
  obtain e h' n where p: "ndp_pop cur = (e, h')" "spt_good t R D h'" "heap_weight t cur = cell_weight t (node e) + heap_weight t h'"
    "tree_at t (node e) = Some n" "0 \<le> centerid n" "centerid n < int R" "distance e = D (centerid n)"
    "hp_count cur = Suc (hp_count h')" "cell_good t R D e"
    by (rule spt_pop[OF Suc.prems(2) ne])
  have e: "cell_good t R D \<lparr>node = node e, distance = distance e\<rparr>" using p(9) by (simp add: cell_good_def)
  note i = SPT_insert_good[OF Suc.prems(1) e]
  have "m = hp_count h'" using p(8) Suc.prems(3) by simp
  from Suc.IH[OF i(1) p(2) this] show ?case using i(3) same_ng_potential[OF i(2), of R] p(1,3) by simp
qed simp

lemma empty_level_good: "spt_good t R D (heap_Resize default_node MaxBFSNodes)" "hp_count (heap_Resize default_node MaxBFSNodes) = 0"
  using heap_Resize_inv[of ndp_less default_node MaxBFSNodes]
  by (auto simp: spt_good_def queue_ok_def heap_Resize_def MaxBFSNodes_def)

lemma init_tree_good:
  assumes "tree_ok t R" "ws_good vf t R D P ws" "tree_at t s = Some n" "childStart n < 0 \<longrightarrow> centre_ok t R s"
  shows "\<exists>ws'. init_tree vf t R D scaleQ s ws = Some ws' \<and> ws_good vf t R D P ws' \<and> potential R ws' \<le> potential R ws \<and>
     heap_weight t (m_SPTQueue ws') \<le> cell_weight t s + heap_weight t (m_SPTQueue ws)"
proof (cases "childStart n < 0")
  case True
  then have c: "centre_ok t R s" using assms(4) by simp
  then have d: "sample_dist R D (centerid n) = Some (D (centerid n))" using assms(3) by (auto simp: centre_ok_def sample_dist_def)
  have e: "cell_good t R D \<lparr>node = s, distance = D (centerid n)\<rparr>" using c assms(3) by (simp add: cell_good_def)
  note i = SPT_insert_good[OF assms(2) e]
  show ?thesis using i(1,3) same_ng_potential[OF i(2), of R] True assms(3) d by (simp add: init_tree_def)
next
  case False
  have wt: "cell_weight t s = 1 + (\<Sum>c \<leftarrow> children n. cell_weight t c)" using cell_weight_unfold[OF assms(1,3)] False by simp
  have ch: "\<forall>c \<in> set (children n). centre_ok t R c" using tree_child(2)[OF assms(1,3)] False by simp
  show ?thesis
  proof (cases "0 < m_bfs t")
    case True
    let ?c = "set_Top_distance (10 ^ 9) (heap_Resize default_node MaxBFSNodes)" and ?n = "heap_Resize default_node MaxBFSNodes"
    note c = set_Top_empty[OF empty_level_good(1)[of t R D] empty_level_good(2), of "10 ^ 9"]
    obtain cur1 ws1 where b: "bfs_children t R D scaleQ (children n) ?c ws = Some (cur1, ws1)" "spt_good t R D cur1" "ws_good vf t R D P ws1"
      "same_ng ws ws1" "heap_weight t cur1 + heap_weight t (m_SPTQueue ws1) \<le>
         (\<Sum>c \<leftarrow> children n. cell_weight t c) + heap_weight t ?c + heap_weight t (m_SPTQueue ws)"
      using bfs_children_good[OF assms(2) c(1) ch] by blast
    obtain cur2 ws2 where l: "bfs_levels (m_bfs t) vf t R D scaleQ cur1 ?n ws1 = Some (cur2, ws2)" "spt_good t R D cur2"
      "ws_good vf t R D P ws2" "potential R ws2 \<le> potential R ws1"
      "heap_weight t cur2 + heap_weight t (m_SPTQueue ws2) \<le> heap_weight t cur1 + heap_weight t (m_SPTQueue ws1)"
      using bfs_levels_good[OF assms(1) b(3,2) empty_level_good] by blast
    have "init_tree vf t R D scaleQ s ws = Some (bfs_drain (heap_size cur2) cur2 ws2)"
      using assms(3) False True b(1) l(1) by (simp add: init_tree_def Let_def)
    then show ?thesis
      using bfs_drain_good[OF l(3,2), of "heap_size cur2"] l(4,5) b(5) same_ng_potential[OF b(4), of R] heap_weight_empty[OF c] wt
      by (simp add: heap_size_def)
  next
    case nb: False
    have "init_tree vf t R D scaleQ s ws = push_children t R D (children n) ws" using assms(3) False nb by (simp add: init_tree_def)
    then show ?thesis using push_children_good[OF assms(2) ch] same_ng_potential[of ws] wt by fastforce
  qed
qed

lemma init_trees_good:
  assumes "tree_ok t R" "ws_good vf t R D P ws" "\<forall>i \<in> set is. i < m_iTreeNumber t"
  shows "\<exists>ws'. init_trees vf t R D scaleQ is ws = Some ws' \<and> ws_good vf t R D P ws' \<and> potential R ws' \<le> potential R ws \<and>
     heap_weight t (m_SPTQueue ws') \<le> (\<Sum>i \<leftarrow> is. cell_weight t (m_pTreeStart t ! i)) + heap_weight t (m_SPTQueue ws)"
  using assms(2,3)
proof (induction "is" arbitrary: ws)
  case (Cons i "is")
  let ?s = "m_pTreeStart t ! i"
  have le: "m_iTreeNumber t \<le> length (m_pTreeStart t)" and i: "i < m_iTreeNumber t"
    using assms(1) Cons.prems(2) by (auto simp: tree_ok_def)
  then have "?s \<in> set (take (m_iTreeNumber t) (m_pTreeStart t))" by (metis in_set_conv_nth length_take min.absorb2 nth_take)
  then obtain n where n: "tree_at t ?s = Some n" "childStart n < 0 \<longrightarrow> centre_ok t R ?s"
    using assms(1) by (auto simp: tree_ok_def split: option.splits)
  obtain w where w: "init_tree vf t R D scaleQ ?s ws = Some w" "ws_good vf t R D P w" "potential R w \<le> potential R ws"
    "heap_weight t (m_SPTQueue w) \<le> cell_weight t ?s + heap_weight t (m_SPTQueue ws)"
    using init_tree_good[OF assms(1) Cons.prems(1) n] by blast
  from Cons.IH[OF w(2)] Cons.prems(2) obtain ws' where r: "init_trees vf t R D scaleQ is w = Some ws'" "ws_good vf t R D P ws'"
    "potential R ws' \<le> potential R w" "heap_weight t (m_SPTQueue ws') \<le> (\<Sum>i \<leftarrow> is. cell_weight t (m_pTreeStart t ! i)) + heap_weight t (m_SPTQueue w)"
    by auto
  then show ?case using w le i by (intro exI[of _ ws']) auto
qed simp

lemma InitSearchTrees_good:
  assumes "tree_ok t R" "ws_good vf t R D P ws" "heap_contents (m_SPTQueue ws) = {#}"
  shows "\<exists>ws'. InitSearchTrees vf t R D scaleQ ws = Some ws' \<and> ws_good vf t R D P ws' \<and> potential R ws' \<le> potential R ws \<and>
     heap_weight t (m_SPTQueue ws') \<le> forest_weight t"
proof -
  have "map (\<lambda>i. m_pTreeStart t ! i) [0..<m_iTreeNumber t] = take (m_iTreeNumber t) (m_pTreeStart t)"
    using assms(1) by (intro nth_equalityI) (auto simp: tree_ok_def)
  then have "(\<Sum>i \<leftarrow> [0..<m_iTreeNumber t]. cell_weight t (m_pTreeStart t ! i)) = forest_weight t"
    unfolding forest_weight_def by (metis (no_types, lifting) map_map comp_apply map_eq_conv)
  moreover have "heap_weight t (m_SPTQueue ws) = 0" using assms(3) by (simp add: heap_weight_def)
  ultimately show ?thesis
    using init_trees_good[OF assms(1,2), of "[0..<m_iTreeNumber t]" scaleQ] by (simp add: InitSearchTrees_def)
qed

subsection \<open>The search over the graph\<close>

lemma ws_good_results [simp]:
  "ws_good vf t R D P (ws\<lparr>m_Results := x\<rparr>) = ws_good vf t R D P ws" "potential R (ws\<lparr>m_Results := x\<rparr>) = potential R ws"
  "NG_insert i d (ws\<lparr>m_Results := x\<rparr>) = (NG_insert i d ws)\<lparr>m_Results := x\<rparr>"
  by (simp_all add: ws_good_def potential_def NG_insert_def)

lemma expand_good:
  assumes "ws_good vf t R D P ws" "\<forall>x \<in> set nns. x < int R"
  shows "\<exists>ws'. expand vf R D nns ws = Some ws' \<and> ws_good vf t R D P ws' \<and> potential R ws' \<le> potential R ws \<and>
     m_SPTQueue ws' = m_SPTQueue ws"
  using assms
proof (induction nns arbitrary: ws)
  case (Cons x nns)
  show ?case
  proof (cases "x < 0")
    case True
    then show ?thesis using Cons.prems(1) by simp
  next
    case False
    then have x: "0 \<le> x" "x < int R" using Cons.prems(2) by simp_all
    obtain seen v' where m: "ws_CheckAndSet vf x ws = Some (seen, ws\<lparr>nodeCheckStatus := v'\<rparr>)"
      "ws_good vf t R D P (ws\<lparr>nodeCheckStatus := v'\<rparr>)" "potential R (ws\<lparr>nodeCheckStatus := v'\<rparr>) \<le> potential R ws"
      "\<not> seen \<longrightarrow> ws_good vf t R D P (NG_insert x (D x) (ws\<lparr>nodeCheckStatus := v'\<rparr>)) \<and>
         potential R (NG_insert x (D x) (ws\<lparr>nodeCheckStatus := v'\<rparr>)) \<le> potential R ws"
      by (rule ws_mark[OF Cons.prems(1) x refl])
    let ?w = "ws\<lparr>nodeCheckStatus := v'\<rparr>"
    have step: "\<exists>ws'. expand vf R D nns w = Some ws' \<and> ws_good vf t R D P ws' \<and> potential R ws' \<le> potential R ws \<and> m_SPTQueue ws' = m_SPTQueue ws"
      if "ws_good vf t R D P w" "potential R w \<le> potential R ws" "m_SPTQueue w = m_SPTQueue ws" for w
      using Cons.IH[OF that(1)] Cons.prems(2) that(2,3) by fastforce
    show ?thesis
    proof (cases seen)
      case True
      then show ?thesis using False m(1) step[OF m(2,3)] by simp
    next
      case n: False
      obtain better results where dq: "dpq_insert (D x) (m_Results ?w) = (better, results)" by fastforce
      let ?w2 = "?w\<lparr>m_iNumberOfCheckedLeaves := m_iNumberOfCheckedLeaves ?w + 1, m_Results := results\<rparr>"
      let ?w3 = "if better then NG_insert x (D x) ?w2 else ?w2"
      have e: "expand vf R D (x # nns) ws = expand vf R D nns ?w3"
        using False n m(1) dq x by (simp add: sample_dist_def Let_def)
      have "ws_good vf t R D P ?w3" "potential R ?w3 \<le> potential R ws" "m_SPTQueue ?w3 = m_SPTQueue ws"
        using m(2-4) n by (auto split: if_splits)
      then show ?thesis unfolding e by (rule step)
    qed
  qed
qed simp

lemma AddPoints_append: "qrs_AddPoints (xs @ ys) q = qrs_AddPoints ys (qrs_AddPoints xs q)"
  by (simp add: qrs_AddPoints_def)

lemma AddPoints_simps [simp]: "qrs_AddPoints [] q = q" "qrs_AddPoints [(v, d)] q = snd (qrs_AddPoint v d q)"
  by (simp_all add: qrs_AddPoints_def)

text \<open>The points that may enter the results: samples at their distance that pass the checks \<open>pass\<close>.\<close>

definition point_ok :: "nat \<Rightarrow> (int \<Rightarrow> dist) \<Rightarrow> (int \<Rightarrow> bool) \<Rightarrow> int \<times> dist \<Rightarrow> bool" where
  "point_ok R D pass p \<longleftrightarrow> 0 \<le> fst p \<and> fst p < int R \<and> snd p = D (fst p) \<and> pass (fst p)"

definition checks :: "nat \<Rightarrow> (int \<Rightarrow> bool option) \<Rightarrow> (int \<Rightarrow> bool) \<Rightarrow> bool" where
  "checks R adm pass \<longleftrightarrow> (\<forall>v. 0 \<le> v \<longrightarrow> v < int R \<longrightarrow> (\<exists>b. adm v = Some b \<and> (b \<longrightarrow> pass v)))"

definition adds :: "(QueryResult \<Rightarrow> int \<Rightarrow> dist \<Rightarrow> bool \<times> QueryResult) \<Rightarrow> bool" where
  "adds isDup \<longleftrightarrow> (\<forall>q n d. snd (isDup q n d) = snd (qrs_AddPoint n d q))"

lemma adds_dispatch: "adds CheckDup" "adds NeverDup"
  by (auto simp: adds_def CheckDup_def NeverDup_def split: prod.splits)

lemma dup_loop_good:
  assumes "checks R adm pass" "adds isDup" "0 \<le> v" "v < int R" "D v = d"
    "0 < i \<longrightarrow> tree_at t (max i ce) \<noteq> None \<and>
       (\<forall>j. i \<le> j \<longrightarrow> j < ce \<longrightarrow> (\<exists>m. tree_at t j = Some m \<and> 0 \<le> centerid m \<and> centerid m < int R \<and> D (centerid m) = d))"
  shows "\<exists>pts. dup_loop t adm isDup v d i ce q = Some (qrs_AddPoints pts q) \<and> (\<forall>p \<in> set pts. point_ok R D pass p)"
  using assms(3-)
proof (induction "nat (ce - i)" arbitrary: i v q rule: less_induct)
  case less
  obtain b where b: "adm v = Some b" "b \<longrightarrow> pass v" using assms(1) less.prems(1,2) by (auto simp: checks_def)
  let ?r = "if b then isDup q v d else (False, q)"
  obtain stop q' where r: "?r = (stop, q')" by (cases ?r)
  let ?p = "if b then [(v, d)] else []"
  have q': "q' = qrs_AddPoints ?p q" using r assms(2) by (cases b) (auto simp: adds_def dest!: arg_cong[where f = snd])
  have p: "\<forall>p \<in> set ?p. point_ok R D pass p" using less.prems(1-3) b(2) by (auto simp: point_ok_def)
  note unf = dup_loop.simps[of t adm isDup v d i ce q, unfolded b option.case r prod.case]
  show ?case
  proof (cases "stop \<or> i \<le> 0")
    case True
    then have "dup_loop t adm isDup v d i ce q = Some (qrs_AddPoints ?p q)" unfolding unf q' by simp
    then show ?thesis using p by blast
  next
    case False
    then have i: "0 < i" "\<not> stop" by auto
    show ?thesis
    proof (cases "i < ce")
      case c: True
      obtain m where m: "tree_at t i = Some m" "0 \<le> centerid m" "centerid m < int R" "D (centerid m) = d"
        using less.prems(4) i c by auto
      have "max (i + 1) ce = max i ce" using c by simp
      then have rest: "0 < i + 1 \<longrightarrow> tree_at t (max (i + 1) ce) \<noteq> None \<and>
         (\<forall>j. i + 1 \<le> j \<longrightarrow> j < ce \<longrightarrow> (\<exists>m. tree_at t j = Some m \<and> 0 \<le> centerid m \<and> centerid m < int R \<and> D (centerid m) = d))"
        using less.prems(4) i by auto
      have "nat (ce - (i + 1)) < nat (ce - i)" using c by simp
      from less.hyps[OF this m(2-4) rest, of q'] obtain pts where "dup_loop t adm isDup (centerid m) d (i + 1) ce q' = Some (qrs_AddPoints pts q')"
        "\<forall>p \<in> set pts. point_ok R D pass p" by blast
      moreover from this(1) have "dup_loop t adm isDup v d i ce q = Some (qrs_AddPoints (?p @ pts) q)"
        unfolding unf AddPoints_append q'[symmetric] using i c m(1) by simp
      ultimately show ?thesis using p by (intro exI[of _ "?p @ pts"]) auto
    next
      case c: False
      then have "tree_at t i \<noteq> None" using less.prems(4) i by (simp add: max_absorb1)
      then have "dup_loop t adm isDup v d i ce q = Some (qrs_AddPoints ?p q)" unfolding unf q' using i c by auto
      then show ?thesis using p by blast
    qed
  qed
qed

lemma offer_good:
  assumes "checks R adm pass" "adds isDup" "0 \<le> node e" "node e < int R" "distance e = D (node e)" "R = m_samplesR I"
    "copies_ok (m_pTrees I) R D (node e) x"
  shows "\<exists>pts. offer I adm isDup e x q = Some (qrs_AddPoints pts q) \<and> (\<forall>p \<in> set pts. point_ok R D pass p) \<and>
     (\<not> x < - 1 \<longrightarrow> map fst pts = [] \<or> map fst pts = [node e])"
proof (cases "x < - 1")
  case True
  then obtain n where n0: "tree_at (m_pTrees I) (- 2 - x) = Some n" "0 < - childStart n \<longrightarrow>
      tree_at (m_pTrees I) (max (- childStart n) (childEnd n)) \<noteq> None \<and>
      (\<forall>j \<in> set [- childStart n .. childEnd n - 1].
         case tree_at (m_pTrees I) j of None \<Rightarrow> False | Some m \<Rightarrow> 0 \<le> centerid m \<and> centerid m < int R \<and> D (centerid m) = D (node e))"
    using assms(7) by (cases "tree_at (m_pTrees I) (- 2 - x)") (simp_all add: copies_ok_def)
  have n: "tree_at (m_pTrees I) (- 2 - x) = Some n" "0 < - childStart n \<longrightarrow>
      tree_at (m_pTrees I) (max (- childStart n) (childEnd n)) \<noteq> None \<and>
      (\<forall>j. - childStart n \<le> j \<longrightarrow> j < childEnd n \<longrightarrow>
        (\<exists>m. tree_at (m_pTrees I) j = Some m \<and> 0 \<le> centerid m \<and> centerid m < int R \<and> D (centerid m) = distance e))"
    using n0 assms(5) by (simp_all split: option.splits) fastforce
  then show ?thesis
    using dup_loop_good[OF assms(1,2,3,4) assms(5)[symmetric] n(2), of q] True by (simp add: offer_def)
next
  case False
  obtain b where b: "adm (node e) = Some b" "b \<longrightarrow> pass (node e)" using assms(1,3,4) by (auto simp: checks_def)
  let ?p = "if b then [(node e, distance e)] else []"
  have "offer I adm isDup e x q = Some (qrs_AddPoints ?p q)" using False b(1) by (simp add: offer_def)
  then show ?thesis using assms(3-5) b(2) by (intro exI[of _ ?p]) (auto simp: point_ok_def)
qed

lemma ng_pop:
  assumes "ng_good vf R D P v h" "\<not> heap_empty h"
  obtains e h' where "ndp_pop h = (e, h')" "ng_good vf R D (insert (node e) P) v h'" "node e \<notin> P" "0 \<le> node e" "node e < int R"
    "distance e = D (node e)" "size (heap_contents h) = Suc (size (heap_contents h'))"
proof -
  have q: "queue_ok h" "heap_contents h \<noteq> {#}" using assms heap_empty_contents by (auto simp: ng_good_def)
  obtain e h' where p: "ndp_pop h = (e, h')" by fastforce
  have l: "queue_ok h'" "heap_contents h = add_mset e (heap_contents h')" using queue.pop_law[OF q p] by auto
  have e: "node e \<in> visited v - P" "distance e = D (node e)" using assms(1) l(2) by (auto simp: ng_good_def)
  have one: "size (filter_mset (\<lambda>x. node x = n) (heap_contents h)) \<le> 1" for n using assms(1) by (simp add: ng_good_def)
  have "node x \<noteq> node e" if "x \<in># heap_contents h'" for x
  proof
    assume "node x = node e"
    moreover have "filter_mset (\<lambda>x. node x = node e) (heap_contents h') = {#}" using one[of "node e"] l(2) by simp
    ultimately show False using that by auto
  qed
  moreover have "size (filter_mset (\<lambda>x. node x = n) (heap_contents h')) \<le> 1" for n
    using order_trans[OF filter_mset_sub_size one[of n]] l(2) by simp
  ultimately have "ng_good vf R D (insert (node e) P) v h'" using assms(1) l e by (auto simp: ng_good_def)
  moreover have "0 \<le> node e" "node e < int R" using assms(1) e(1) by (auto simp: ng_good_def)
  ultimately show thesis using that[OF p] e l(2) by simp
qed

lemma index_row:
  assumes "index_ok I D" "0 \<le> v" "v < int (m_samplesR I)"
  obtains row where "graph_row I v = Some row" "length row = m_iNeighborhoodSize I" "\<forall>x \<in> set row. x < int (m_samplesR I)"
    "copies_ok (m_pTrees I) (m_samplesR I) D v (row ! (m_iNeighborhoodSize I - 1))"
proof -
  have "nat v < m_samplesR I" "int (nat v) = v" using assms(2,3) by auto
  then show thesis using that[of "m_pGraph I ! nat v"] assms unfolding index_ok_def graph_row_def by (metis of_nat_less_iff)
qed

text \<open>No graph node has copies under it.\<close>

definition copy_free :: "BKTIndex \<Rightarrow> bool" where
  "copy_free I \<longleftrightarrow> (\<forall>row \<in> set (m_pGraph I). \<not> row ! (m_iNeighborhoodSize I - 1) < - 1)"

lemma row_copy_free: "copy_free I \<Longrightarrow> graph_row I v = Some row \<Longrightarrow> \<not> row ! (m_iNeighborhoodSize I - 1) < - 1"
  by (auto simp: copy_free_def graph_row_def nat_less_iff split: if_splits)

text \<open>The main loop returns when its fuel is at least the potential, and all it does to the results is to add
  admissible points.\<close>

lemma search_loop_good:
  assumes "index_ok I D" "checks (m_samplesR I) adm pass" "adds isDup" "checks (m_samplesR I) live (\<lambda>_. True)"
    "ws_good vf (m_pTrees I) (m_samplesR I) D P ws" "heap_weight (m_pTrees I) (m_SPTQueue ws) \<le> tf" "potential (m_samplesR I) ws \<le> fuel"
  shows "\<exists>pts ws'. search_loop fuel tf vf I D live adm isDup (q, ws) = Some (qrs_SortResult (qrs_AddPoints pts q), ws') \<and>
     (\<forall>p \<in> set pts. point_ok (m_samplesR I) D pass p) \<and>
     (copy_free I \<longrightarrow> distinct (map fst pts) \<and> set (map fst pts) \<inter> P = {})"
  using assms(5-)
proof (induction fuel arbitrary: P q ws)
  case 0
  then have "heap_contents (m_NGQueue ws) = {#}" by (simp add: potential_def)
  then have "heap_empty (m_NGQueue ws)" using 0(1) heap_empty_contents by (auto simp: ws_good_def ng_good_def)
  then show ?case by (intro exI[of _ "[]"] exI[of _ ws]) (simp add: search_loop.simps)
next
  case (Suc fuel)
  let ?t = "m_pTrees I" and ?R = "m_samplesR I" and ?K = "m_iNeighborhoodSize I"
  show ?case
  proof (cases "heap_empty (m_NGQueue ws)")
    case True
    then show ?thesis by (intro exI[of _ "[]"] exI[of _ ws]) (simp add: search_loop.simps)
  next
    case False
    have ng: "ng_good vf ?R D P (nodeCheckStatus ws) (m_NGQueue ws)" using Suc.prems(1) by (simp add: ws_good_def)
    obtain e h' where p: "ndp_pop (m_NGQueue ws) = (e, h')" "ng_good vf ?R D (insert (node e) P) (nodeCheckStatus ws) h'" "node e \<notin> P"
      "0 \<le> node e" "node e < int ?R" "distance e = D (node e)" "size (heap_contents (m_NGQueue ws)) = Suc (size (heap_contents h'))"
      by (rule ng_pop[OF ng False])
    obtain row where row: "graph_row I (node e) = Some row" "length row = ?K" "\<forall>x \<in> set row. x < int ?R"
      "copies_ok ?t ?R D (node e) (row ! (?K - 1))" by (rule index_row[OF assms(1) p(4,5)])
    let ?w0 = "ws\<lparr>m_NGQueue := h'\<rparr>" and ?P = "insert (node e) P"
    have w0: "ws_good vf ?t ?R D ?P ?w0" "potential ?R ?w0 \<le> fuel" "m_SPTQueue ?w0 = m_SPTQueue ws"
      using Suc.prems(1,3) p(2,7) by (auto simp: ws_good_def potential_def)
    have K: "take ?K row = row" using row(2) by simp
    obtain w1 where w1: "expand vf ?R D row ?w0 = Some w1" "ws_good vf ?t ?R D ?P w1" "potential ?R w1 \<le> potential ?R ?w0"
      "m_SPTQueue w1 = m_SPTQueue ?w0" using expand_good[OF w0(1) row(3)] by blast
    let ?tr = "if distance (heap_Top (m_NGQueue w1)) > distance (heap_Top (m_SPTQueue w1))
       then SearchTrees tf vf ?t ?R D (m_iNumberOfOtherDynamicPivots I + m_iNumberOfCheckedLeaves w1) w1 else Some w1"
    have tok: "tree_ok ?t ?R" using assms(1) by (simp add: index_ok_def)
    have hw: "heap_weight ?t (m_SPTQueue w1) \<le> tf" using w1(4) Suc.prems(2) by simp
    obtain w2 where w2: "?tr = Some w2" "ws_good vf ?t ?R D ?P w2" "potential ?R w2 \<le> potential ?R w1"
      "heap_weight ?t (m_SPTQueue w2) \<le> heap_weight ?t (m_SPTQueue w1)"
    proof (cases "distance (heap_Top (m_NGQueue w1)) > distance (heap_Top (m_SPTQueue w1))")
      case True
      then show thesis
        using that SearchTrees_good[OF tok w1(2) hw, of "m_iNumberOfOtherDynamicPivots I + m_iNumberOfCheckedLeaves w1"] by auto
    qed (use that w1(2) in auto)
    have next_good: "\<exists>pts ws'. search_loop fuel tf vf I D live adm isDup (q', w2) = Some (qrs_SortResult (qrs_AddPoints pts q'), ws') \<and>
        (\<forall>p \<in> set pts. point_ok ?R D pass p) \<and> (copy_free I \<longrightarrow> distinct (map fst pts) \<and> set (map fst pts) \<inter> ?P = {})" for q'
      using Suc.IH[OF w2(2)] w2(3,4) hw w1(3) w0(2) by simp
    have unf: "search_loop (Suc fuel) tf vf I D live adm isDup (q, ws) =
        (if distance e \<le> qrs_worstDist q then
           (case offer I adm isDup e (row ! (?K - 1)) q of None \<Rightarrow> None | Some q' \<Rightarrow> search_loop fuel tf vf I D live adm isDup (q', w2))
         else
           (case live (node e) of None \<Rightarrow> None
            | Some alive \<Rightarrow> if alive \<and> (distance e > dpq_worst (m_Results ?w0) \<or> m_iNumberOfCheckedLeaves ?w0 > int (m_iMaxCheck ?w0))
                then Some (qrs_SortResult q, ?w0) else search_loop fuel tf vf I D live adm isDup (q, w2)))"
      using False p(1) row(1,2) K w1(1) w2(1) 
      by (subst search_loop.simps) (simp add: Let_def cong: option.case_cong if_cong)
    show ?thesis
    proof (cases "distance e \<le> qrs_worstDist q")
      case True
      obtain pts where o: "offer I adm isDup e (row ! (?K - 1)) q = Some (qrs_AddPoints pts q)" "\<forall>p \<in> set pts. point_ok ?R D pass p"
        "\<not> row ! (?K - 1) < - 1 \<longrightarrow> map fst pts = [] \<or> map fst pts = [node e]"
        using offer_good[OF assms(2,3) p(4-6) refl row(4), of q] by (elim exE conjE) (rule that)
      obtain pts' ws' where n: "search_loop fuel tf vf I D live adm isDup (qrs_AddPoints pts q, w2) =
          Some (qrs_SortResult (qrs_AddPoints pts' (qrs_AddPoints pts q)), ws')" "\<forall>p \<in> set pts'. point_ok ?R D pass p"
        "copy_free I \<longrightarrow> distinct (map fst pts') \<and> set (map fst pts') \<inter> ?P = {}"
        using next_good[of "qrs_AddPoints pts q"] by (elim exE conjE) (rule that)
      have e: "search_loop (Suc fuel) tf vf I D live adm isDup (q, ws) = Some (qrs_SortResult (qrs_AddPoints (pts @ pts') q), ws')"
        unfolding unf AddPoints_append using True o(1) n(1) by simp
      have "distinct (map fst (pts @ pts')) \<and> set (map fst (pts @ pts')) \<inter> P = {}" if c: "copy_free I"
      proof -
        have "map fst pts = [] \<or> map fst pts = [node e]" using o(3) row_copy_free[OF c row(1)] by simp
        moreover have "node e \<notin> set (map fst pts')" "distinct (map fst pts')" "set (map fst pts') \<inter> P = {}" using n(3) c by auto
        ultimately show ?thesis using p(3) unfolding map_append distinct_append set_append
          by (elim disjE) (simp_all only: distinct.simps list.set(1,2), auto)
      qed
      then show ?thesis using e o(2) n(2) by (intro exI[of _ "pts @ pts'"] exI[of _ ws']) auto
    next
      case nw: False
      obtain alive where a: "live (node e) = Some alive" using assms(4) p(4,5) by (auto simp: checks_def)
      show ?thesis
      proof (cases "alive \<and> (distance e > dpq_worst (m_Results ?w0) \<or> m_iNumberOfCheckedLeaves ?w0 > int (m_iMaxCheck ?w0))")
        case True
        then have "search_loop (Suc fuel) tf vf I D live adm isDup (q, ws) = Some (qrs_SortResult (qrs_AddPoints [] q), ?w0)"
          unfolding unf using nw a by simp
        then show ?thesis by (intro exI[of _ "[]"] exI[of _ ?w0]) simp
      next
        case c: False
        then have "search_loop (Suc fuel) tf vf I D live adm isDup (q, ws) = search_loop fuel tf vf I D live adm isDup (q, w2)"
          unfolding unf using nw a by auto
        then show ?thesis using next_good[of q] by auto
      qed
    qed
  qed
qed

subsection \<open>The calls of the index\<close>

lemma set_metas_keys:
  "m_resultNum (set_metas m n q) = m_resultNum q \<and> map br_key (m_results (set_metas m n q)) = map br_key (m_results q)"
proof (induction n)
  case (Suc n)
  let ?q = "set_metas m n q"
  have k: "map br_key (m_results (qr_SetMetadata k b q)) = map br_key (m_results q)" for k b q
    by (cases "k < length (m_results q)")
      (simp_all add: qr_SetMetadata_def map_update list_update_beyond br_key_def list_update_same_conv[THEN iffD2])
  have n: "m_resultNum (qr_SetMetadata k b q) = m_resultNum q" for k b q by (simp add: qr_SetMetadata_def)
  show ?case using Suc by (simp add: Let_def k n)
qed simp

lemma fill_metadata_keys:
  "\<exists>q'. fill_metadata I (m_resultNum q) q = Some q' \<and> map br_key (m_results q') = map br_key (m_results q)"
  using set_metas_keys[of _ "m_resultNum q" q] by (auto simp: fill_metadata_def split: option.splits)

text \<open>What a result has to satisfy: it is not deleted, unless deleted samples are asked for, and it passes the filter.\<close>

definition wanted :: "BKTIndex \<Rightarrow> bool \<Rightarrow> (bytes \<Rightarrow> bool) option \<Rightarrow> int \<Rightarrow> bool" where
  "wanted I p_searchDeleted filterFunc v \<longleftrightarrow> (p_searchDeleted \<or> nat v \<notin> labelled (m_deletedID I)) \<and>
     (case (m_pMetadata I, filterFunc) of (Some m, Some f) \<Rightarrow> f (m v) | _ \<Rightarrow> filterFunc = None)"

lemma choose_live_checks:
  assumes "index_ok I D"
  shows "checks (m_samplesR I) (choose_live I sd (m_deletedID I)) (\<lambda>v. sd \<or> nat v \<notin> labelled (m_deletedID I))"
proof (cases "ls_Count (m_deletedID I) = 0 \<or> sd")
  case True
  have "finite (labelled (m_deletedID I))" by (auto simp: labelled_def)
  then have "labelled (m_deletedID I) = {}" if "\<not> sd" using ls_count_card[of "m_deletedID I"] that True assms by (simp add: index_ok_def)
  then show ?thesis using True by (auto simp: checks_def choose_live_def notDeleted_always_def)
next
  case False
  then show ?thesis
    using assms ls_Contains_in_range[of "m_deletedID I"]
    by (auto simp: checks_def choose_live_def CheckIfNotDeleted_def index_ok_def)
qed

lemma admits_checks:
  assumes "index_ok I D" "filterFunc \<noteq> None \<longrightarrow> m_pMetadata I \<noteq> None"
  shows "checks (m_samplesR I) (admits (choose_live I sd (m_deletedID I)) (\<lambda>n. choose_filter filterFunc (m_pMetadata I) n filterFunc)) (wanted I sd filterFunc)"
  unfolding checks_def
proof (intro allI impI)
  fix v assume v: "0 \<le> v" "v < int (m_samplesR I)"
  obtain b where "choose_live I sd (m_deletedID I) v = Some b" "b \<longrightarrow> sd \<or> nat v \<notin> labelled (m_deletedID I)"
    using choose_live_checks[OF assms(1)] v unfolding checks_def by blast
  then show "\<exists>b. admits (choose_live I sd (m_deletedID I)) (\<lambda>n. choose_filter filterFunc (m_pMetadata I) n filterFunc) v = Some b \<and>
      (b \<longrightarrow> wanted I sd filterFunc v)"
    using assms(2) by (cases b; cases filterFunc; cases "m_pMetadata I")
      (auto simp: admits_def choose_filter_def filter_always_def CheckFilter_def wanted_def)
qed

lemma checks_weaken: "checks R adm pass \<Longrightarrow> checks R adm (\<lambda>_. True)"
  by (auto simp: checks_def)

lemma fresh_ws_good:
  assumes "ws_inv ws" "ws_fresh ws" "answers vf R (nodeCheckStatus ws)" "0 < hp_length (m_NGQueue ws)" "0 < hp_length (m_SPTQueue ws)"
  shows "ws_good vf t R D {} ws" "potential R ws = R" "heap_contents (m_SPTQueue ws) = {#}"
  using assms by (auto simp: ws_good_def ng_good_def spt_good_def queue_ok_def ws_inv_def ws_fresh_def potential_def)

lemma SearchIndex_ws_good:
  assumes "index_ok I D" "filterFunc \<noteq> None \<longrightarrow> m_pMetadata I \<noteq> None" "ws_inv ws" "ws_fresh ws"
    "answers vf (m_samplesR I) (nodeCheckStatus ws)" "0 < hp_length (m_NGQueue ws)" "0 < hp_length (m_SPTQueue ws)"
    "forest_weight (m_pTrees I) \<le> tf" "m_samplesR I \<le> fuel"
  shows "\<exists>pts s ws'. SearchIndex_ws fuel tf vf I D scaleQ sd dup filterFunc q ws = Some ((qrs_SortResult (qrs_AddPoints pts q))\<lparr>m_scanned := s\<rparr>, ws') \<and>
     (\<forall>p \<in> set pts. point_ok (m_samplesR I) D (wanted I sd filterFunc) p) \<and> (copy_free I \<longrightarrow> distinct (map fst pts))"
proof -
  let ?t = "m_pTrees I" and ?R = "m_samplesR I"
  let ?live = "choose_live I sd (m_deletedID I)" and ?adm = "admits (choose_live I sd (m_deletedID I)) (\<lambda>n. choose_filter filterFunc (m_pMetadata I) n filterFunc)"
  let ?dup = "if dup then CheckDup else NeverDup"
  note g = fresh_ws_good(1)[OF assms(3-7), of ?t D] fresh_ws_good(2,3)[OF assms(3-7)]
  have tok: "tree_ok ?t ?R" using assms(1) by (simp add: index_ok_def)
  obtain ws1 where w1: "InitSearchTrees vf ?t ?R D scaleQ ws = Some ws1" "ws_good vf ?t ?R D {} ws1" "potential ?R ws1 \<le> potential ?R ws"
    "heap_weight ?t (m_SPTQueue ws1) \<le> forest_weight ?t"
    using InitSearchTrees_good[OF tok g(1,3), of scaleQ] by (elim exE conjE) (rule that)
  have hw: "heap_weight ?t (m_SPTQueue ws1) \<le> tf" using w1(4) assms(8) by simp
  obtain ws2 where w2: "SearchTrees tf vf ?t ?R D (m_iNumberOfInitialDynamicPivots I) ws1 = Some ws2" "ws_good vf ?t ?R D {} ws2"
    "potential ?R ws2 \<le> potential ?R ws1" "heap_weight ?t (m_SPTQueue ws2) \<le> heap_weight ?t (m_SPTQueue ws1)"
    using SearchTrees_good[OF tok w1(2) hw, of "m_iNumberOfInitialDynamicPivots I"] by (elim exE conjE) (rule that)
  have b: "heap_weight ?t (m_SPTQueue ws2) \<le> tf" "potential ?R ws2 \<le> fuel" using w2(3,4) hw w1(3) g(2) assms(9) by simp_all
  have ad: "adds ?dup" using adds_dispatch by simp
  obtain pts ws' where l: "search_loop fuel tf vf I D ?live ?adm ?dup (q, ws2) = Some (qrs_SortResult (qrs_AddPoints pts q), ws')"
    "\<forall>p \<in> set pts. point_ok ?R D (wanted I sd filterFunc) p" "copy_free I \<longrightarrow> distinct (map fst pts) \<and> set (map fst pts) \<inter> {} = {}"
    using search_loop_good[OF assms(1) admits_checks[OF assms(1,2), of sd] ad checks_weaken[OF choose_live_checks[OF assms(1), of sd]] w2(2) b, where q = q]
    by (elim exE conjE) (rule that)
  have "SearchIndex_ws fuel tf vf I D scaleQ sd dup filterFunc q ws =
      Some ((qrs_SortResult (qrs_AddPoints pts q))\<lparr>m_scanned := m_iNumberOfCheckedLeaves ws'\<rparr>, ws')"
    using w1(1) w2(1) l(1) unfolding SearchIndex_ws_def Search_def Let_def by simp
  then show ?thesis using l(2,3) by blast
qed

text \<open>The budget of a search: the caller's, or that of the index when the caller gives none.\<close>

definition budget :: "BKTIndex \<Rightarrow> int \<Rightarrow> int" where
  "budget I maxCheck = (if maxCheck > 0 then maxCheck else bi_MaxCheck I)"

lemma RentWorkSpace_fresh:
  assumes "\<forall>ws \<in> set pool. ws_inv ws" "16 \<le> max (bi_MaxCheck I) (m_iMaxCheckForRefineGraph I)" "0 < budget I maxCheck" "0 < n"
  obtains ws where "RentWorkSpace mem I n maxCheck pool = Some (ws, butlast pool)" "ws_inv ws" "ws_fresh ws"
    "0 < hp_length (m_NGQueue ws)" "0 < hp_length (m_SPTQueue ws)"
proof -
  have mc: "0 < max (nat (budget I maxCheck) div 16) n" "0 < nat (budget I maxCheck)" using assms(3,4) by auto
  have lo: "16 \<le> nat (max (bi_MaxCheck I) (m_iMaxCheckForRefineGraph I))" using assms(2) by linarith
  obtain w where w: "(case fst (pool_GetWorkSpace pool) of
        None \<Rightarrow> ws_Initialize (fst mem) (snd mem) (nat (max (bi_MaxCheck I) (m_iMaxCheckForRefineGraph I))) (bi_HashTableExp I)
      | Some ws \<Rightarrow> Some ws) = Some w" "ws_inv w"
  proof (cases "pool = []")
    case True
    then show ?thesis using ws_Initialize_fresh[OF lo, of "fst mem" "snd mem" "bi_HashTableExp I"] that
      by (auto simp: pool_GetWorkSpace_def)
  next
    case False
    then show ?thesis using assms(1) that[of "last pool"] by (simp add: pool_GetWorkSpace_def)
  qed
  have "snd (pool_GetWorkSpace pool) = butlast pool" by (simp add: pool_GetWorkSpace_def)
  then show thesis using ws_Reset_fresh[OF w(2) mc(1), of "snd mem"] w(1) mc(2) that
    by (cases "pool_GetWorkSpace pool") (force simp: RentWorkSpace_def budget_def)
qed

text \<open>What is left in the slots after points were added to a fresh result set and sorted.\<close>

text \<open>A finite set of tables that marking does not leave.\<close>

definition closed_tables :: "nat \<Rightarrow> nat \<Rightarrow> OptHashPosVector list \<Rightarrow> bool" where
  "closed_tables vf R vs \<longleftrightarrow>
     (\<forall>v \<in> set vs. \<forall>i \<in> set [0 ..< R]. case oh_CheckAndSet vf (int i) v of None \<Rightarrow> False | Some (_, v') \<Rightarrow> v' \<in> set vs)"

lemma closed_answers:
  assumes "closed_tables vf R vs" "v \<in> set vs"
  shows "answers vf R v"
proof -
  have "visit_all vf ids v \<noteq> None" if "set ids \<subseteq> {0 ..< int R}" "v \<in> set vs" for ids v
    using that
  proof (induction ids arbitrary: v)
    case (Cons i ids)
    then have "nat i \<in> set [0 ..< R]" "int (nat i) = i" by auto
    then obtain b v' where "oh_CheckAndSet vf i v = Some (b, v')" "v' \<in> set vs"
      using assms(1) Cons.prems(2) unfolding closed_tables_def by (fastforce split: option.splits)
    then show ?case using Cons.IH[of v'] Cons.prems by simp
  qed simp
  then show ?thesis using assms(2) by (simp add: answers_def)
qed

text \<open>Three samples under one root; the sample \<open>1\<close> is deleted.\<close>

definition sample_index :: BKTIndex where
  "sample_index = \<lparr>
     m_pTrees = \<lparr>m_iTreeNumber = 1, m_pTreeStart = [0],
       m_pTreeRoots = [\<lparr>centerid = 3, childStart = 1, childEnd = 4\<rparr>, \<lparr>centerid = 0, childStart = -1, childEnd = -1\<rparr>,
         \<lparr>centerid = 1, childStart = -1, childEnd = -1\<rparr>, \<lparr>centerid = 2, childStart = -1, childEnd = -1\<rparr>], m_bfs = 0\<rparr>,
     m_pGraph = [[1, 2], [0, 2], [0, 1]], m_iNeighborhoodSize = 2, m_iMaxCheckForRefineGraph = 16, m_samplesR = 3,
     m_deletedID = sample_labels, m_pMetadata = None, m_iNumberOfInitialDynamicPivots = 2, m_iNumberOfOtherDynamicPivots = 1,
     bi_MaxCheck = 16, bi_HashTableExp = 0, m_bReady = True\<rparr>"

definition sample_query :: "int \<Rightarrow> dist" where
  "sample_query i = of_int (5 - i)"

definition sample_ws :: WorkSpace where
  "sample_ws = fst (the (RentWorkSpace (\<lambda>_. 0, \<lambda>_. 0) sample_index 2 16 []))"

definition sample_tables :: "OptHashPosVector list" where
  "sample_tables = map (\<lambda>ids. the (visit_all 2 ids (nodeCheckStatus sample_ws))) [[], [0], [1], [2], [0, 1], [0, 2], [1, 2], [0, 1, 2]]"

lemma sample_labels_inv: "ls_inv sample_labels" "ls_R sample_labels = 3"
proof -
  let ?i = "ls_Initialize 3 2 10 AlwaysContains ls_new"
  have "ls_Insert 1 ?i = Some (True, sample_labels)" "ls_R ?i = 3" by code_simp+
  then have "ls_reach sample_labels {1}" using ls_insert[OF ls_init, of 1 3 2 10 AlwaysContains] by simp
  then show "ls_inv sample_labels" using ls_reach_inv by blast
  show "ls_R sample_labels = 3" by code_simp
qed

lemma sample_index_ok: "index_ok sample_index sample_query"
proof -
  have f: "m_samplesR sample_index = 3" "m_iNeighborhoodSize sample_index = 2" "length (m_pGraph sample_index) = 3"
    "m_deletedID sample_index = sample_labels" by (simp_all add: sample_index_def)
  have "tree_ok (m_pTrees sample_index) 3" by code_simp
  moreover have "\<forall>v < 3. length (m_pGraph sample_index ! v) = 2 \<and> (\<forall>x \<in> set (m_pGraph sample_index ! v). x < int 3) \<and>
      copies_ok (m_pTrees sample_index) 3 sample_query (int v) (m_pGraph sample_index ! v ! (2 - 1))" by code_simp
  ultimately show ?thesis using sample_labels_inv unfolding index_ok_def f by simp
qed

lemma sample_tables_closed: "closed_tables 2 3 sample_tables" "nodeCheckStatus sample_ws \<in> set sample_tables"
  by code_simp (simp add: sample_tables_def)

lemma sample_answers: "RentWorkSpace (\<lambda>_. 0, \<lambda>_. 0) sample_index 2 16 [] = Some (ws, p) \<Longrightarrow> answers 2 3 (nodeCheckStatus ws)"
  using closed_answers[OF sample_tables_closed] by (simp add: sample_ws_def)

subsection \<open>Properties\<close>



end
