(* ===== verification/Block_Controller.thy ===== *)
theory Block_Controller
  imports Labels
begin

text \<open>
  \<^verbatim>\<open>FileIO::BlockController\<close> of \<^verbatim>\<open>inc/Core/SPANN/ExtraFileController.h\<close> and
  \<^verbatim>\<open>src/Core/SPANN/ExtraFileController.cpp\<close>: the allocator of the 4 KB blocks of the posting file, its
  checkpoint, and the reading and writing of postings block by block. The state keeps the queue of
  free blocks, the queue of blocks released since the last checkpoint, the label set of the available
  blocks that guards against double release, the file's pages and the counters of the statistics.

  The device is an environment: request \<open>i\<close> of the batch that is submitted at time \<open>t\<close> completes when
  \<open>e_done t i\<close>, the file can be extended at time \<open>t\<close> when \<open>e_expand t\<close>, and \<open>e_alloc t\<close> blocks of the
  label set can be allocated at time \<open>t\<close>. Every batch, extension and allocation moves the clock. A whole
  page is moved by each request, as \<^verbatim>\<open>AsyncFileReader.h\<close> does (\<^verbatim>\<open>aio_nbytes = PageSize\<close>). The calls of
  one thread run one after the other. A result \<^const>\<open>None\<close> is an exception or an access outside an
  array. The ratio that \<^verbatim>\<open>NeedsExpansion\<close> compares in single precision is compared exactly.
\<close>

subsection \<open>State and environment\<close>

definition PageSizeEx :: nat where "PageSizeEx = 12"

definition PageSize :: int where "PageSize = 2 ^ PageSizeEx"

record io_env =
  e_done :: "nat \<Rightarrow> nat \<Rightarrow> bool"
  e_expand :: "nat \<Rightarrow> bool"
  e_alloc :: "nat \<Rightarrow> nat"

record BlockController =
  bc_blockAddresses :: "int list"
  bc_reserve :: "int list"
  bc_available :: LabelSet
  bc_growthThreshold :: rat
  bc_growthBlocks :: int
  bc_maxBlocks :: int
  bc_disableCheckpoint :: bool
  bc_total :: int
  bc_pages :: "int \<Rightarrow> bytes"
  bc_read_submit :: int
  bc_read_complete :: int
  bc_write_submit :: int
  bc_write_complete :: int
  bc_batchReadTimes :: int
  bc_batchReadTimeouts :: int
  bc_clock :: nat

definition tick :: "BlockController \<Rightarrow> BlockController" where
  "tick c = c\<lparr>bc_clock := Suc (bc_clock c)\<rparr>"

subsection \<open>The queues of free blocks\<close>

definition queue_push :: "'a \<Rightarrow> 'a list \<Rightarrow> 'a list" where
  "queue_push j q = q @ [j]"

definition queue_try_pop :: "'a list \<Rightarrow> ('a \<times> 'a list) option" where
  "queue_try_pop q = (case q of [] \<Rightarrow> None | x # xs \<Rightarrow> Some (x, xs))"

definition RemainBlocks :: "BlockController \<Rightarrow> int" where
  "RemainBlocks c = to_int32 (int (length (bc_blockAddresses c)))"

definition ReserveBlocks :: "BlockController \<Rightarrow> int" where
  "ReserveBlocks c = to_int32 (int (length (bc_reserve c)))"

definition TotalBlocks :: "BlockController \<Rightarrow> int" where
  "TotalBlocks c = to_int32 (bc_total c)"

subsection \<open>Allocation\<close>

definition NeedsExpansion :: "int \<Rightarrow> BlockController \<Rightarrow> bool" where
  "NeedsExpansion p_size c =
     (let available = RemainBlocks c mod 2 ^ 64; total = bc_total c mod 2 ^ 64 in
      available < p_size mod 2 ^ 64 \<or>
      (total \<noteq> 0 \<and> of_int available / of_int total < bc_growthThreshold c))"

text \<open>The loop that makes the blocks \<open>addr, addr + 1, ...\<close> free.\<close>

fun add_blocks :: "nat \<Rightarrow> int \<Rightarrow> BlockController \<Rightarrow> BlockController option" where
  "add_blocks 0 addr c = Some c"
| "add_blocks (Suc n) addr c =
     (let c' = c\<lparr>bc_blockAddresses := queue_push addr (bc_blockAddresses c)\<rparr> in
      case ls_Insert (to_int32 addr) (bc_available c') of
        None \<Rightarrow> None
      | Some (_, l) \<Rightarrow> add_blocks n (addr + 1) (c'\<lparr>bc_available := l\<rparr>))"

text \<open>\<^verbatim>\<open>ExpandFile\<close>: an exhausted cap is only logged, and the result of growing the label set is not
  looked at.\<close>

definition bc_ExpandFile :: "io_env \<Rightarrow> int \<Rightarrow> BlockController \<Rightarrow> (bool \<times> BlockController) option" where
  "bc_ExpandFile E blocksToAdd c =
     (let currentTotal = bc_total c;
          allowedBlocks = min blocksToAdd (bc_maxBlocks c - currentTotal);
          t = bc_clock c; c = tick c in
      if \<not> e_expand E t then Some (False, c)
      else
        (case ls_AddBatch (e_alloc E t) (to_int32 allowedBlocks) (bc_available c) of
           None \<Rightarrow> None
         | Some (_, l) \<Rightarrow>
             (case add_blocks (nat allowedBlocks) currentTotal (c\<lparr>bc_available := l\<rparr>) of
                None \<Rightarrow> None
              | Some c' \<Rightarrow> Some (True, c'\<lparr>bc_total := currentTotal + allowedBlocks\<rparr>))))"

text \<open>The loop of \<^verbatim>\<open>GetBlocks\<close>: the addresses written to \<open>p_data\<close>, and whether all were found. With one
  thread an empty queue stays empty during the three attempts.\<close>

fun take_blocks :: "nat \<Rightarrow> BlockController \<Rightarrow> (bool \<times> int list \<times> BlockController) option" where
  "take_blocks 0 c = Some (True, [], c)"
| "take_blocks (Suc n) c =
     (case queue_try_pop (bc_blockAddresses c) of
        None \<Rightarrow> Some (False, [], c)
      | Some (currBlockAddress, q) \<Rightarrow>
          (case ls_Reset (to_int32 currBlockAddress) (bc_available c) of
             None \<Rightarrow> None
           | Some (_, l) \<Rightarrow>
               map_option (\<lambda>(ok, xs, c'). (ok, currBlockAddress # xs, c'))
                 (take_blocks n (c\<lparr>bc_blockAddresses := q, bc_available := l\<rparr>))))"

definition bc_GetBlocks :: "io_env \<Rightarrow> int \<Rightarrow> BlockController \<Rightarrow> (bool \<times> int list \<times> BlockController) option" where
  "bc_GetBlocks E p_size c =
     (case
        (if NeedsExpansion p_size c then
           (let growBy = max (bc_growthBlocks c) p_size in
            if bc_total c + growBy \<le> bc_maxBlocks c then bc_ExpandFile E growBy c else Some (True, c))
         else Some (True, c)) of
        None \<Rightarrow> None
      | Some (expanded, c') \<Rightarrow>
          if \<not> expanded then Some (False, [], c') else take_blocks (nat p_size) c')"

fun bc_ReleaseBlocks :: "int list \<Rightarrow> BlockController \<Rightarrow> (bool \<times> BlockController) option" where
  "bc_ReleaseBlocks [] c = Some (True, c)"
| "bc_ReleaseBlocks (b # bs) c =
     (case ls_Insert (to_int32 b) (bc_available c) of
        None \<Rightarrow> None
      | Some (inserted, l) \<Rightarrow>
          (let c' = c\<lparr>bc_available := l\<rparr> in
           if \<not> inserted then bc_ReleaseBlocks bs c'
           else if bc_disableCheckpoint c'
           then bc_ReleaseBlocks bs (c'\<lparr>bc_blockAddresses := queue_push b (bc_blockAddresses c')\<rparr>)
           else bc_ReleaseBlocks bs (c'\<lparr>bc_reserve := queue_push b (bc_reserve c')\<rparr>)))"

subsection \<open>Reading and writing blocks\<close>

text \<open>What the block controller is given for a posting: a null pointer (already served by the cache), the
  pointer of all ones (no posting), or an array whose first entry is the size in bytes and whose
  following entries are the block addresses.\<close>

datatype posting_ptr = PNull | PNone | PArray "int list"

definition block_count :: "int \<Rightarrow> int" where
  "block_count postingSize = drop_bit PageSizeEx (postingSize + PageSize - 1)"

text \<open>A batch of page reads: the buffers afterwards and the number of requests that completed.\<close>

definition batch_read :: "io_env \<Rightarrow> int list \<Rightarrow> bytes list \<Rightarrow> BlockController \<Rightarrow> bytes list \<times> nat" where
  "batch_read E ids reqs c =
     (map (\<lambda>i. if i < length ids \<and> e_done E (bc_clock c) i then bc_pages c (ids ! i) else reqs ! i)
        [0..<length reqs],
      length (filter (e_done E (bc_clock c)) [0..<length ids]))"

definition count_read :: "nat \<Rightarrow> nat \<Rightarrow> BlockController \<Rightarrow> BlockController" where
  "count_read n totalReads c =
     (let c' = c\<lparr>bc_read_submit := bc_read_submit c + int n,
                 bc_read_complete := bc_read_complete c + int totalReads\<rparr> in
      if totalReads < n then c'\<lparr>bc_batchReadTimeouts := bc_batchReadTimeouts c + 1\<rparr> else c')"

text \<open>The bytes of a posting from its page buffers: whole pages, and the rest of the last one.\<close>

definition assemble :: "int \<Rightarrow> bytes list \<Rightarrow> bytes" where
  "assemble postingSize bufs = take (nat postingSize) (concat bufs)"

definition bc_ReadBlocks ::
  "io_env \<Rightarrow> posting_ptr \<Rightarrow> bytes list \<Rightarrow> bytes \<Rightarrow> BlockController \<Rightarrow> (bool \<times> bytes \<times> BlockController) option" where
  "bc_ReadBlocks E p_data reqs p_value c =
     (case p_data of
        PNull \<Rightarrow> None
      | PNone \<Rightarrow> Some (True, [], c)
      | PArray [] \<Rightarrow> None
      | PArray (postingSize # addrs) \<Rightarrow>
          (let blockNum = block_count postingSize in
           if blockNum < 0 \<or> int (length reqs) < blockNum then Some (False, p_value, c)
           else if length addrs < nat blockNum then None
           else
             (let n = nat blockNum;
                  (bufs, totalReads) = batch_read E (take n addrs) reqs c;
                  c' = tick (count_read n totalReads c) in
              if totalReads < n then Some (False, p_value, c')
              else if postingSize < 0 then None
              else Some (True, assemble postingSize (take n bufs), c'))))"

text \<open>The variant that reads into a page buffer, whose memory the requests' buffers are: it has the size
  of the posting set before the read, and whatever the buffers hold after a failed one.\<close>

definition bc_ReadBlocks_page ::
  "io_env \<Rightarrow> posting_ptr \<Rightarrow> bytes list \<Rightarrow> BlockController \<Rightarrow> (bool \<times> bytes \<times> BlockController) option" where
  "bc_ReadBlocks_page E p_data reqs c =
     (case p_data of
        PNull \<Rightarrow> None
      | PNone \<Rightarrow> Some (True, [], c)
      | PArray [] \<Rightarrow> None
      | PArray (postingSize # addrs) \<Rightarrow>
          (let blockNum = block_count postingSize in
           if blockNum < 0 \<or> int (length reqs) < blockNum then Some (False, [], c)
           else if postingSize < 0 \<or> length addrs < nat blockNum then None
           else
             (let n = nat blockNum;
                  (bufs, totalReads) = batch_read E (take n addrs) reqs c;
                  c' = tick (count_read n totalReads c) in
              Some (\<not> totalReads < n, assemble postingSize (take n bufs), c'))))"

text \<open>The batch over several postings. The first loop empties the values of absent postings and collects
  the page addresses in request order; it stops where the requests do not suffice. Sizes are compared
  as \<^verbatim>\<open>size_t\<close>.\<close>

definition posting_pages :: "int \<Rightarrow> nat" where
  "posting_pages postingSize = nat (block_count (postingSize mod 2 ^ 64))"

fun scan_postings ::
  "posting_ptr list \<Rightarrow> bytes list \<Rightarrow> nat \<Rightarrow> (bytes list \<times> int list option) option" where
  "scan_postings [] vs room = Some (vs, Some [])"
| "scan_postings (PNull # ps) (v # vs) room =
     map_option (\<lambda>(vs', ids). (v # vs', ids)) (scan_postings ps vs room)"
| "scan_postings (PNone # ps) (v # vs) room =
     map_option (\<lambda>(vs', ids). ([] # vs', ids)) (scan_postings ps vs room)"
| "scan_postings (PArray (postingSize # addrs) # ps) (v # vs) room =
     (let n = posting_pages postingSize in
      if length addrs < min n room then None
      else if room < n then Some (v # vs, None)
      else map_option (\<lambda>(vs', ids). (v # vs', map_option ((@) (take n addrs)) ids))
             (scan_postings ps vs (room - n)))"
| "scan_postings _ _ room = None"

text \<open>The last loop fills the values of the postings that were read.\<close>

fun fill_values :: "posting_ptr list \<Rightarrow> bytes list \<Rightarrow> bytes list \<Rightarrow> bytes list" where
  "fill_values (PArray (postingSize # addrs) # ps) bufs (v # vs) =
     (let n = posting_pages postingSize in
      assemble postingSize (take n bufs) # fill_values ps (drop n bufs) vs)"
| "fill_values (p # ps) bufs (v # vs) = v # fill_values ps bufs vs"
| "fill_values ps bufs vs = vs"

definition bc_ReadBlocks_multi ::
  "io_env \<Rightarrow> posting_ptr list \<Rightarrow> bytes list \<Rightarrow> bytes list \<Rightarrow> BlockController \<Rightarrow>
     (bool \<times> bytes list \<times> BlockController) option" where
  "bc_ReadBlocks_multi E p_data reqs p_values c =
     (let c = c\<lparr>bc_batchReadTimes := bc_batchReadTimes c + 1\<rparr> in
      case scan_postings p_data p_values (length reqs) of
         None \<Rightarrow> None
       | Some (vs, None) \<Rightarrow> Some (False, vs, c)
       | Some (vs, Some ids) \<Rightarrow>
           (let (bufs, totalReads) = batch_read E ids reqs c;
                c' = tick (count_read (length ids) totalReads c) in
            if totalReads < length ids then Some (False, vs, c')
            else Some (True, fill_values p_data bufs vs, c')))"

text \<open>The variant into page buffers: posting \<open>i\<close> owns \<open>numPages\<close> requests, the unused ones are empty
  (\<^const>\<open>None\<close>), and a posting with more pages than its buffer is cut. The values are \<^const>\<open>None\<close> when
  the call returns before the read.\<close>

fun scan_pages :: "(posting_ptr \<times> nat) list \<Rightarrow> nat \<Rightarrow> int option list option option" where
  "scan_pages [] room = Some (Some [])"
| "scan_pages ((PArray [], numPages) # ps) room = None"
| "scan_pages ((PArray (postingSize # addrs), numPages) # ps) room =
     (let n = min (posting_pages postingSize) numPages in
      if length addrs < min n room then None
      else if room < numPages then Some None
      else map_option (map_option (\<lambda>ids. map Some (take n addrs) @ replicate (numPages - n) None @ ids))
             (scan_pages ps (room - numPages)))"
| "scan_pages ((p, numPages) # ps) room =
     (if room < numPages then None
      else map_option (map_option ((@) (replicate numPages None))) (scan_pages ps (room - numPages)))"

fun page_values :: "(posting_ptr \<times> nat) list \<Rightarrow> bytes list \<Rightarrow> bytes list \<Rightarrow> bytes list" where
  "page_values ((p, numPages) # ps) bufs (v # vs) =
     (case p of PNull \<Rightarrow> v | PNone \<Rightarrow> []
      | PArray a \<Rightarrow> assemble (hd a) (take numPages bufs)) # page_values ps (drop numPages bufs) vs"
| "page_values _ bufs vs = vs"

definition bc_ReadBlocks_pages ::
  "io_env \<Rightarrow> (posting_ptr \<times> nat) list \<Rightarrow> bytes list \<Rightarrow> bytes list \<Rightarrow> BlockController \<Rightarrow>
     (bool \<times> bytes list option \<times> BlockController) option" where
  "bc_ReadBlocks_pages E p_data reqs p_values c =
     (let c = c\<lparr>bc_batchReadTimes := bc_batchReadTimes c + 1\<rparr>; dn = e_done E (bc_clock c) in
      case scan_pages p_data (length reqs) of
         None \<Rightarrow> None
       | Some None \<Rightarrow> Some (False, None, c)
       | Some (Some ids) \<Rightarrow>
           (let bufs = map (\<lambda>i. case ids ! i of Some a \<Rightarrow> if dn i then bc_pages c a else reqs ! i
                                 | None \<Rightarrow> reqs ! i) [0..<length ids];
                real = length (filter (\<lambda>i. ids ! i \<noteq> None) [0..<length ids]);
                totalReads = length (filter (\<lambda>i. ids ! i \<noteq> None \<and> dn i) [0..<length ids]);
                c' = tick (count_read real totalReads c) in
            Some (\<not> totalReads < real, Some (page_values p_data bufs p_values), c')))"

text \<open>\<^verbatim>\<open>WriteBlocks\<close>: the value is cut into pages; the last page keeps what its request buffer held.\<close>

definition page_image :: "bytes \<Rightarrow> nat \<Rightarrow> bytes \<Rightarrow> bytes" where
  "page_image p_value i buf =
     (let part = take 4096 (drop (4096 * i) p_value) in part @ drop (length part) buf)"

definition bc_WriteBlocks ::
  "io_env \<Rightarrow> int list \<Rightarrow> bytes \<Rightarrow> bytes list \<Rightarrow> BlockController \<Rightarrow> (bool \<times> BlockController) option" where
  "bc_WriteBlocks E addrs p_value reqs c =
     (let n = length addrs; dn = e_done E (bc_clock c) in
      if length reqs < n \<or> (0 < n \<and> length p_value < 4096 * (n - 1)) then None
      else
        (let written = map (\<lambda>i. (addrs ! i, page_image p_value i (reqs ! i))) (filter dn [0..<n]);
             totalWrites = length written;
             c' = tick (c\<lparr>bc_pages := fold (\<lambda>(a, p) f. f(a := p)) written (bc_pages c),
                           bc_write_submit := bc_write_submit c + int n,
                           bc_write_complete := bc_write_complete c + int totalWrites\<rparr>) in
         Some (\<not> totalWrites < n, c')))"

subsection \<open>Checkpoint and start\<close>

text \<open>\<^verbatim>\<open>Checkpoint\<close>: the released blocks become free again, then the pool is written.\<close>

definition reload_reserve :: "BlockController \<Rightarrow> BlockController" where
  "reload_reserve c = c\<lparr>bc_blockAddresses := bc_blockAddresses c @ bc_reserve c, bc_reserve := []\<rparr>"

definition pool_image :: "BlockController \<Rightarrow> bytes list" where
  "pool_image c = int_encode 8 (RemainBlocks c) # int_encode 8 (bc_total c) #
     map (int_encode 8) (bc_blockAddresses c)"

definition bc_Checkpoint ::
  "ostream option \<Rightarrow> BlockController \<Rightarrow> ErrorCode \<times> ostream option \<times> BlockController" where
  "bc_Checkpoint file c =
     (let c = reload_reserve c in
      case file of
        None \<Rightarrow> (FailedCreateFile, None, c)
      | Some os \<Rightarrow>
          (case write_all (pool_image c) os of
             None \<Rightarrow> (DiskIOFail, Some os, c)
           | Some os' \<Rightarrow> (Success, Some os', c)))"

fun read_pool :: "nat \<Rightarrow> bytes \<Rightarrow> BlockController \<Rightarrow> (ErrorCode \<times> BlockController) option" where
  "read_pool 0 inp c = Some (Success, c)"
| "read_pool (Suc n) inp c =
     (case ReadBinary 8 inp of
        None \<Rightarrow> Some (DiskIOFail, c)
      | Some (b, inp') \<Rightarrow>
          (let currBlockAddress = int_decode b in
           case ls_Insert (to_int32 currBlockAddress) (bc_available c) of
             None \<Rightarrow> None
           | Some (inserted, l) \<Rightarrow>
               (let c' = c\<lparr>bc_available := l\<rparr> in
                if \<not> inserted then read_pool n inp' c'
                else read_pool n inp'
                  (c'\<lparr>bc_blockAddresses := queue_push currBlockAddress (bc_blockAddresses c')\<rparr>))))"

text \<open>\<^verbatim>\<open>LoadBlockPool\<close>: \<open>file\<close> is the content of the block pool file, when there is one.\<close>

definition bc_LoadBlockPool ::
  "bytes option \<Rightarrow> int \<Rightarrow> bool \<Rightarrow> nat \<Rightarrow> int \<Rightarrow> BlockController \<Rightarrow> (ErrorCode \<times> BlockController) option" where
  "bc_LoadBlockPool file startNumBlocks allowInit blockSize blockCapacity c =
     (case file of
        None \<Rightarrow>
          if allowInit then
            (if to_int32 startNumBlocks < 0 then None
             else
               map_option (\<lambda>c'. (Success, c'\<lparr>bc_total := startNumBlocks\<rparr>))
                 (add_blocks (nat startNumBlocks) 0
                    (c\<lparr>bc_available := ls_Initialize (nat (to_int32 startNumBlocks)) blockSize blockCapacity
                        Passthrough (bc_available c)\<rparr>)))
          else Some (Fail, c)
      | Some inp \<Rightarrow>
          (case ReadBinary 8 inp of
             None \<Rightarrow> Some (DiskIOFail, c)
           | Some (b, inp1) \<Rightarrow>
               (case ReadBinary 8 inp1 of
                  None \<Rightarrow> Some (DiskIOFail, c)
                | Some (b', inp2) \<Rightarrow>
                    (let blocks = int_decode b; totalAllocated = int_decode b' in
                     if to_int32 totalAllocated < 0 then None
                     else
                       (case read_pool (nat blocks) inp2
                          (c\<lparr>bc_available := ls_Initialize (nat (to_int32 totalAllocated)) blockSize
                              blockCapacity Passthrough (bc_available c)\<rparr>) of
                          Some (Success, c') \<Rightarrow> Some (Success, c'\<lparr>bc_total := totalAllocated\<rparr>)
                        | r \<Rightarrow> r)))))"

record controller_options =
  o_growThreshold :: rat
  o_growthFileSize :: nat
  o_maxFileSize :: nat
  o_startFileSize :: nat
  o_recovery :: bool
  o_disableCheckpoint :: bool
  o_datasetRowsInBlock :: nat
  o_datasetCapacity :: int

definition bc_new :: "(int \<Rightarrow> bytes) \<Rightarrow> BlockController" where
  "bc_new pages = \<lparr>bc_blockAddresses = [], bc_reserve = [], bc_available = ls_new,
     bc_growthThreshold = 5 / 100, bc_growthBlocks = 0, bc_maxBlocks = 0, bc_disableCheckpoint = False,
     bc_total = 0, bc_pages = pages, bc_read_submit = 0, bc_read_complete = 0, bc_write_submit = 0,
     bc_write_complete = 0, bc_batchReadTimes = 0, bc_batchReadTimeouts = 0, bc_clock = 0\<rparr>"

definition bc_Initialize ::
  "controller_options \<Rightarrow> bool \<Rightarrow> bytes option \<Rightarrow> BlockController \<Rightarrow> (bool \<times> BlockController) option" where
  "bc_Initialize p_opt opened poolfile c =
     (let c = c\<lparr>bc_growthThreshold := o_growThreshold p_opt,
                bc_growthBlocks := int (o_growthFileSize p_opt) * 2 ^ (30 - PageSizeEx),
                bc_maxBlocks := int (o_maxFileSize p_opt) * 2 ^ (30 - PageSizeEx),
                bc_disableCheckpoint := o_disableCheckpoint p_opt\<rparr> in
      if \<not> opened then Some (False, c)
      else
        map_option (\<lambda>(ret, c'). (ret = Success, c'))
          (bc_LoadBlockPool poolfile (int (o_startFileSize p_opt) * 2 ^ (30 - PageSizeEx))
             (\<not> o_recovery p_opt) (o_datasetRowsInBlock p_opt) (o_datasetCapacity p_opt) c))"

definition bc_ShutDown :: "ostream option \<Rightarrow> BlockController \<Rightarrow> bool \<times> ostream option \<times> BlockController" where
  "bc_ShutDown file c =
     (case bc_Checkpoint file c of (_, file', c') \<Rightarrow> (True, file', c'\<lparr>bc_blockAddresses := []\<rparr>))"

subsection \<open>The allocator's invariant\<close>

text \<open>The free blocks (reserved ones included), and the blocks handed out.\<close>

definition bc_free :: "BlockController \<Rightarrow> int list" where
  "bc_free c = bc_blockAddresses c @ bc_reserve c"

definition bc_used :: "BlockController \<Rightarrow> int set" where
  "bc_used c = {0..<bc_total c} - set (bc_free c)"

definition bc_inv :: "BlockController \<Rightarrow> bool" where
  "bc_inv c \<longleftrightarrow> distinct (bc_free c) \<and> set (bc_free c) \<subseteq> {0..<bc_total c} \<and>
     0 \<le> bc_total c \<and> bc_total c < 2 ^ 31 \<and> ls_inv (bc_available c) \<and>
     int (ls_R (bc_available c)) = bc_total c \<and> labelled (bc_available c) = nat ` set (bc_free c)"

text \<open>The label set may grow up to the cap, and the memory for it is there.\<close>

definition growth_ok :: "io_env \<Rightarrow> BlockController \<Rightarrow> bool" where
  "growth_ok E c \<longleftrightarrow> bc_maxBlocks c < 2 ^ 31 \<and> bc_maxBlocks c \<le> ds_maxRows (ls_data (bc_available c)) \<and>
     (\<forall>t. nat (bc_maxBlocks c) \<le> e_alloc E t)"

text \<open>What neither allocation nor release changes.\<close>

definition same_device :: "BlockController \<Rightarrow> BlockController \<Rightarrow> bool" where
  "same_device c c' \<longleftrightarrow> bc_pages c' = bc_pages c \<and> bc_maxBlocks c' = bc_maxBlocks c \<and>
     bc_disableCheckpoint c' = bc_disableCheckpoint c \<and> bc_growthBlocks c' = bc_growthBlocks c \<and>
     bc_growthThreshold c' = bc_growthThreshold c"

text \<open>Every page of the file has its full length.\<close>

definition device_ok :: "BlockController \<Rightarrow> bool" where
  "device_ok c \<longleftrightarrow> (\<forall>a. length (bc_pages c a) = 4096)"

text \<open>The blocks of a list that a release makes free: each once, and none that is free already.\<close>

fun newly_freed :: "int list \<Rightarrow> int set \<Rightarrow> int list" where
  "newly_freed [] F = []"
| "newly_freed (b # bs) F = (if b \<in> F then newly_freed bs F else b # newly_freed bs (insert b F))"

text \<open>A controller with eight blocks, of which \<open>2\<close> and \<open>5\<close> are in use; a device that always answers.\<close>

definition good_device :: io_env where
  "good_device = \<lparr>e_done = (\<lambda>t i. True), e_expand = (\<lambda>t. True), e_alloc = (\<lambda>t. 100)\<rparr>"

definition sample_labels8 :: LabelSet where
  "sample_labels8 = ls_new\<lparr>ls_inserted := 6, ls_data := (ds_empty 1)\<lparr>ds_rows := 8, ds_cols := 1,
     ds_data := Some [1, 1, 255, 1, 1, 255, 1, 1], ds_rowsInBlockEx := 2, ds_mycols := 1\<rparr>\<rparr>"

definition sample_controller :: BlockController where
  "sample_controller = (bc_new (\<lambda>a. replicate 4096 0))\<lparr>bc_blockAddresses := [4, 0, 1, 7], bc_reserve := [3, 6],
     bc_available := sample_labels8, bc_total := 8, bc_maxBlocks := 20, bc_growthBlocks := 4\<rparr>"

subsection \<open>Allocation keeps the invariant\<close>

lemma bc_inv_label:
  assumes "bc_inv c" "a \<in> {0..<bc_total c}"
  shows "to_int32 a = a" "0 \<le> a" "a < int (ls_R (bc_available c))"
    "nat a \<in> labelled (bc_available c) \<longleftrightarrow> a \<in> set (bc_free c)"
proof -
  show "to_int32 a = a" using assms by (intro to_int32_id) (auto simp: bc_inv_def)
  show "0 \<le> a" "a < int (ls_R (bc_available c))" using assms by (auto simp: bc_inv_def)
  have "nat a \<in> nat ` set (bc_free c) \<longleftrightarrow> a \<in> set (bc_free c)"
  proof
    assume "nat a \<in> nat ` set (bc_free c)"
    then obtain x where x: "x \<in> set (bc_free c)" "nat a = nat x" by auto
    then have "0 \<le> x" using assms(1) by (auto simp: bc_inv_def)
    then show "a \<in> set (bc_free c)" using x assms(2) by (simp add: eq_nat_nat_iff)
  qed simp
  then show "nat a \<in> labelled (bc_available c) \<longleftrightarrow> a \<in> set (bc_free c)"
    using assms(1) by (simp add: bc_inv_def)
qed

lemma nat_image_diff:
  assumes "\<And>y. y \<in> S \<Longrightarrow> 0 \<le> y" "0 \<le> (x::int)" "x \<notin> S"
  shows "nat ` insert x S - {nat x} = nat ` S"
  using assms by (auto simp: eq_nat_nat_iff)

text \<open>Popping a free block.\<close>

lemma pop_block:
  assumes "bc_inv c" "bc_blockAddresses c = a # q"
  obtains l where "ls_Reset (to_int32 a) (bc_available c) = Some (True, l)"
    "bc_inv (c\<lparr>bc_blockAddresses := q, bc_available := l\<rparr>)"
    "ds_maxRows (ls_data l) = ds_maxRows (ls_data (bc_available c))"
proof -
  let ?c = "\<lambda>l. c\<lparr>bc_blockAddresses := q, bc_available := l\<rparr>"
  have fr: "bc_free c = a # bc_free (?c l)" for l by (simp add: bc_free_def assms(2))
  have a: "a \<in> {0..<bc_total c}" using assms by (auto simp: bc_inv_def bc_free_def)
  note la = bc_inv_label[OF assms(1) a]
  have li: "ls_inv (bc_available c)" using assms(1) by (simp add: bc_inv_def)
  obtain l where l: "ls_Reset a (bc_available c) = Some (nat a \<in> labelled (bc_available c), l)" "ls_inv l"
    "ls_R l = ls_R (bc_available c)" "labelled l = labelled (bc_available c) - {nat a}"
    using ls_Reset_in_range[OF li la(2,3)] .
  have "labelled l = nat ` set (bc_free (?c l))"
    using l(4) assms(1) nat_image_diff[of "set (bc_free (?c l))" a] la(2) a
    unfolding bc_inv_def fr[of l] by (auto simp: subset_iff)
  then have "bc_inv (?c l)" using assms(1) l(2,3) unfolding bc_inv_def fr[of l] by auto
  then show thesis
    using that l(1) la(1,4) ls_Reset_maxRows[OF l(1)] by (simp add: bc_free_def assms(2))
qed

text \<open>Making a block of the file free.\<close>

lemma insert_block:
  assumes "bc_inv c" "a \<in> {0..<bc_total c}"
  obtains l where "ls_Insert (to_int32 a) (bc_available c) = Some (a \<notin> set (bc_free c), l)"
    "ls_inv l" "ls_R l = ls_R (bc_available c)" "labelled l = insert (nat a) (labelled (bc_available c))"
    "ds_maxRows (ls_data l) = ds_maxRows (ls_data (bc_available c))"
proof -
  note la = bc_inv_label[OF assms]
  have li: "ls_inv (bc_available c)" using assms(1) by (simp add: bc_inv_def)
  obtain l where l: "ls_Insert a (bc_available c) = Some (nat a \<notin> labelled (bc_available c), l)" "ls_inv l"
    "ls_R l = ls_R (bc_available c)" "labelled l = insert (nat a) (labelled (bc_available c))"
    using ls_Insert_in_range[OF li la(2,3)] .
  then show thesis using that la(1,4) ls_Insert_maxRows[OF l(1)] by simp
qed

lemma take_blocks_spec:
  assumes "bc_inv c"
  shows "\<exists>ok xs c'. take_blocks n c = Some (ok, xs, c') \<and> bc_inv c' \<and>
     xs = take n (bc_blockAddresses c) \<and> bc_blockAddresses c' = drop n (bc_blockAddresses c) \<and>
     ok = (n \<le> length (bc_blockAddresses c)) \<and> bc_reserve c' = bc_reserve c \<and> bc_total c' = bc_total c \<and>
     same_device c c' \<and> bc_clock c' = bc_clock c \<and>
     ds_maxRows (ls_data (bc_available c')) = ds_maxRows (ls_data (bc_available c))"
  using assms
proof (induction n arbitrary: c)
  case (Suc n)
  show ?case
  proof (cases "bc_blockAddresses c")
    case Nil
    then show ?thesis using Suc.prems by (auto simp: queue_try_pop_def same_device_def)
  next
    case (Cons a q)
    obtain l where l: "ls_Reset (to_int32 a) (bc_available c) = Some (True, l)"
      "bc_inv (c\<lparr>bc_blockAddresses := q, bc_available := l\<rparr>)"
      "ds_maxRows (ls_data l) = ds_maxRows (ls_data (bc_available c))"
      using pop_block[OF Suc.prems Cons] .
    from Suc.IH[OF l(2)] show ?thesis
      using Cons l by (auto simp: queue_try_pop_def same_device_def)
  qed
qed (auto simp: same_device_def)

lemma add_blocks_total:
  "add_blocks n a (c\<lparr>bc_total := T\<rparr>) = map_option (\<lambda>c'. c'\<lparr>bc_total := T\<rparr>) (add_blocks n a c)"
proof (induction n arbitrary: a c)
  case (Suc n)
  have eq: "c\<lparr>bc_total := T, bc_blockAddresses := q, bc_available := l\<rparr> =
      c\<lparr>bc_blockAddresses := q, bc_available := l\<rparr>\<lparr>bc_total := T\<rparr>" for q l by simp
  have "add_blocks n b (c\<lparr>bc_total := T, bc_blockAddresses := q, bc_available := l\<rparr>) =
      map_option (bc_total_update (\<lambda>_. T)) (add_blocks n b (c\<lparr>bc_blockAddresses := q, bc_available := l\<rparr>))"
    for b q l unfolding eq by (rule Suc.IH)
  then show ?case by (simp add: Let_def split: option.split)
qed simp

lemma add_blocks_spec:
  assumes "bc_inv c" "0 \<le> a" "a + int n \<le> bc_total c" "{a..<a + int n} \<inter> set (bc_free c) = {}"
  shows "\<exists>c'. add_blocks n a c = Some c' \<and> bc_inv c' \<and>
     bc_blockAddresses c' = bc_blockAddresses c @ map (\<lambda>i. a + int i) [0..<n] \<and>
     bc_reserve c' = bc_reserve c \<and> bc_total c' = bc_total c \<and> same_device c c' \<and>
     ds_maxRows (ls_data (bc_available c')) = ds_maxRows (ls_data (bc_available c))"
  using assms
proof (induction n arbitrary: a c)
  case (Suc n)
  have "a \<in> {a..<a + int (Suc n)}" by simp
  then have a: "a \<in> {0..<bc_total c}" "a \<notin> set (bc_free c)" using Suc.prems by (simp, blast)
  obtain l where l: "ls_Insert (to_int32 a) (bc_available c) = Some (a \<notin> set (bc_free c), l)"
    "ls_inv l" "ls_R l = ls_R (bc_available c)" "labelled l = insert (nat a) (labelled (bc_available c))"
    "ds_maxRows (ls_data l) = ds_maxRows (ls_data (bc_available c))"
    using insert_block[OF Suc.prems(1) a(1)] .
  let ?c = "c\<lparr>bc_blockAddresses := bc_blockAddresses c @ [a], bc_available := l\<rparr>"
  have fr: "set (bc_free ?c) = insert a (set (bc_free c))" by (auto simp: bc_free_def)
  have "distinct (bc_free ?c)" using Suc.prems(1) a(2) by (auto simp: bc_inv_def bc_free_def)
  then have i: "bc_inv ?c" using Suc.prems(1) l(2-4) a(1) fr by (auto simp: bc_inv_def)
  have "{a + 1..<a + 1 + int n} \<inter> set (bc_free ?c) = {}" using Suc.prems(4) by (auto simp: fr disjoint_iff)
  then obtain c' where c': "add_blocks n (a + 1) ?c = Some c'" "bc_inv c'"
    "bc_blockAddresses c' = bc_blockAddresses c @ [a] @ map (\<lambda>i. a + 1 + int i) [0..<n]"
    "bc_reserve c' = bc_reserve c" "bc_total c' = bc_total c" "same_device c c'"
    "ds_maxRows (ls_data (bc_available c')) = ds_maxRows (ls_data l)"
    using Suc.IH[OF i, of "a + 1"] Suc.prems(2,3) by (auto simp: same_device_def)
  moreover have "[a] @ map (\<lambda>i. a + 1 + int i) [0..<n] = map (\<lambda>i. a + int i) [0..<Suc n]"
    by (simp add: upt_conv_Cons map_Suc_upt[symmetric] add.assoc del: upt_Suc)
  moreover have "add_blocks (Suc n) a c = add_blocks n (a + 1) ?c"
    using l(1) by (simp add: queue_push_def Let_def)
  ultimately show ?case using l(5) by auto
qed (auto simp: same_device_def)

lemma growth_ok_frame:
  "growth_ok E c \<Longrightarrow> same_device c c' \<Longrightarrow>
   ds_maxRows (ls_data (bc_available c')) = ds_maxRows (ls_data (bc_available c)) \<Longrightarrow> growth_ok E c'"
  by (simp add: growth_ok_def same_device_def)

lemma ExpandFile_spec:
  assumes "bc_inv c" "growth_ok E c" "0 \<le> n" "bc_total c + n \<le> bc_maxBlocks c"
  shows "\<exists>ok c'. bc_ExpandFile E n c = Some (ok, c') \<and> bc_inv c' \<and> growth_ok E c' \<and> same_device c c' \<and>
     bc_reserve c' = bc_reserve c \<and>
     (if ok then bc_total c' = bc_total c + n \<and>
        bc_blockAddresses c' = bc_blockAddresses c @ map (\<lambda>i. bc_total c + int i) [0..<nat n]
      else bc_total c' = bc_total c \<and> bc_blockAddresses c' = bc_blockAddresses c)"
proof (cases "e_expand E (bc_clock c)")
  case False
  have "bc_inv (tick c)" using assms(1) by (simp add: bc_inv_def tick_def bc_free_def)
  then show ?thesis using False assms
    by (intro exI[of _ False] exI[of _ "tick c"])
      (simp add: bc_ExpandFile_def Let_def growth_ok_def same_device_def, simp add: tick_def)
next
  case True
  let ?T = "bc_total c + n" and ?l = "bc_available c"
  have n: "min n (bc_maxBlocks c - bc_total c) = n" "to_int32 n = n"
    using assms by (auto intro!: to_int32_id simp: growth_ok_def bc_inv_def)
  have R: "int (ls_R ?l) = bc_total c" "ls_inv ?l" using assms(1) by (auto simp: bc_inv_def)
  have "nat n \<le> nat (bc_maxBlocks c)" using assms(1,4) by (auto simp: bc_inv_def)
  moreover have "nat (bc_maxBlocks c) \<le> e_alloc E (bc_clock c)" using assms(2) by (simp add: growth_ok_def)
  ultimately have "nat n \<le> e_alloc E (bc_clock c)" by linarith
  moreover have "int (ls_R ?l) + n \<le> ds_maxRows (ls_data ?l)" using R assms(2,4) by (simp add: growth_ok_def)
  ultimately obtain l where l: "ls_AddBatch (e_alloc E (bc_clock c)) n ?l = Some (Success, l)" "ls_inv l"
    "labelled l = labelled ?l" "ls_R l = ls_R ?l + nat n" "ds_maxRows (ls_data l) = ds_maxRows (ls_data ?l)"
    using ls_AddBatch_success[OF R(2) assms(3)] by metis
  let ?c = "(tick c)\<lparr>bc_available := l\<rparr>"
  have fr: "bc_free (?c\<lparr>bc_total := ?T\<rparr>) = bc_free c" by (simp add: bc_free_def tick_def)
  have "bc_inv (?c\<lparr>bc_total := ?T\<rparr>)"
    using assms l(2-4) R(1) unfolding bc_inv_def fr by (auto simp: growth_ok_def)
  moreover have "{bc_total c..<bc_total c + int (nat n)} \<inter> set (bc_free (?c\<lparr>bc_total := ?T\<rparr>)) = {}"
    using assms(1,3) unfolding fr
    by (fastforce simp: bc_inv_def disjoint_iff subset_iff)
  ultimately obtain c' where c': "add_blocks (nat n) (bc_total c) (?c\<lparr>bc_total := ?T\<rparr>) = Some c'" "bc_inv c'"
     "bc_blockAddresses c' = bc_blockAddresses c @ map (\<lambda>i. bc_total c + int i) [0..<nat n]"
     "bc_reserve c' = bc_reserve c" "bc_total c' = ?T" "same_device c c'"
     "ds_maxRows (ls_data (bc_available c')) = ds_maxRows (ls_data ?l)"
    using add_blocks_spec[of "?c\<lparr>bc_total := ?T\<rparr>" "bc_total c" "nat n"] assms(1,3) l(5)
    by (auto simp: bc_inv_def same_device_def tick_def)
  obtain c'' where c'': "add_blocks (nat n) (bc_total c) ?c = Some c''" "c' = c''\<lparr>bc_total := ?T\<rparr>"
    using c'(1) unfolding add_blocks_total by auto
  have "bc_ExpandFile E n c = Some (True, c')"
    using True l(1) c'' n unfolding bc_ExpandFile_def Let_def n by (simp add: tick_def)
  then show ?thesis using c' growth_ok_frame[OF assms(2) c'(6)] by auto
qed

lemma bc_used_append:
  "set (bc_free c') = set (bc_free c) - A \<Longrightarrow> A \<subseteq> set (bc_free c) \<Longrightarrow>
   set (bc_free c) \<subseteq> {0..<bc_total c} \<Longrightarrow> bc_total c' = bc_total c \<Longrightarrow> bc_used c' = bc_used c \<union> A"
  by (auto simp: bc_used_def)

text \<open>The allocator's contract, for a pool that needs no growth and for one that grew.\<close>

lemma take_blocks_alloc:
  assumes "bc_inv c"
  obtains ok xs c' where "take_blocks n c = Some (ok, xs, c')" "bc_inv c'" "distinct xs"
    "set xs \<subseteq> {0..<bc_total c}" "set xs \<inter> bc_used c = {}" "set xs \<inter> set (bc_reserve c) = {}"
    "bc_used c' = bc_used c \<union> set xs" "bc_total c' = bc_total c" "same_device c c'"
    "ok = (n \<le> length (bc_blockAddresses c))" "length xs = min n (length (bc_blockAddresses c))"
    "bc_reserve c' = bc_reserve c" "set xs \<subseteq> set (bc_blockAddresses c)"
    "ds_maxRows (ls_data (bc_available c')) = ds_maxRows (ls_data (bc_available c))"
proof -
  let ?q = "bc_blockAddresses c"
  obtain ok xs c' where t: "take_blocks n c = Some (ok, xs, c')" "bc_inv c'" "xs = take n ?q"
     "bc_blockAddresses c' = drop n ?q" "ok = (n \<le> length ?q)" "bc_reserve c' = bc_reserve c"
     "bc_total c' = bc_total c" "same_device c c'"
     "ds_maxRows (ls_data (bc_available c')) = ds_maxRows (ls_data (bc_available c))"
    using take_blocks_spec[OF assms] by metis
  have d: "distinct (take n ?q @ drop n ?q @ bc_reserve c)" "set (bc_free c) \<subseteq> {0..<bc_total c}"
    using assms unfolding bc_inv_def bc_free_def by (metis append.assoc append_take_drop_id, blast)
  have sub: "set xs \<subseteq> set ?q" using t(3) by (auto dest: in_set_takeD)
  have sp: "set ?q = set xs \<union> set (drop n ?q)" using t(3) by (metis append_take_drop_id set_append)
  have fr: "set (bc_free c) = set xs \<union> set (drop n ?q) \<union> set (bc_reserve c)"
    "set (bc_free c') = set (drop n ?q) \<union> set (bc_reserve c)"
    using sp t(4,6) by (auto simp: bc_free_def)
  have "bc_used c' = bc_used c \<union> set xs"
    by (rule bc_used_append[OF _ _ d(2) t(7)]) (use d(1) t(3) fr in auto)
  moreover have "set xs \<inter> bc_used c = {}" using fr(1) by (auto simp: bc_used_def)
  moreover have "set xs \<inter> set (bc_reserve c) = {}" using d(1) t(3) by auto
  ultimately show thesis
    using that[OF t(1,2)] t(3,5-9) d sub fr(1) by auto
qed

lemma GetBlocks_spec:
  assumes "bc_inv c" "growth_ok E c" "0 \<le> n"
  obtains ok xs c' where "bc_GetBlocks E n c = Some (ok, xs, c')" "bc_inv c'" "growth_ok E c'" "distinct xs"
    "set xs \<subseteq> {0..<bc_total c'}" "set xs \<inter> bc_used c = {}" "set xs \<inter> set (bc_reserve c) = {}"
    "bc_used c' = bc_used c \<union> set xs" "bc_total c \<le> bc_total c'" "same_device c c'"
    "ok \<longrightarrow> length xs = nat n" "bc_reserve c' = bc_reserve c" "\<not> ok \<longrightarrow> length xs < nat n \<or> xs = []"
proof -
  let ?pre = "if NeedsExpansion n c then
      (let growBy = max (bc_growthBlocks c) n in
       if bc_total c + growBy \<le> bc_maxBlocks c then bc_ExpandFile E growBy c else Some (True, c))
     else Some (True, c)"
  obtain g c1 where g: "?pre = Some (g, c1)" "bc_inv c1" "growth_ok E c1" "same_device c c1"
    "bc_reserve c1 = bc_reserve c" "bc_used c1 = bc_used c" "bc_total c \<le> bc_total c1"
  proof (cases "NeedsExpansion n c \<and> bc_total c + max (bc_growthBlocks c) n \<le> bc_maxBlocks c")
    case True
    let ?g = "max (bc_growthBlocks c) n"
    have g01: "0 \<le> ?g" "bc_total c + ?g \<le> bc_maxBlocks c" using True assms(3) by auto
    obtain ok c1 where e: "bc_ExpandFile E ?g c = Some (ok, c1)" "bc_inv c1" "growth_ok E c1"
      "same_device c c1" "bc_reserve c1 = bc_reserve c"
      "if ok then bc_total c1 = bc_total c + ?g \<and>
         bc_blockAddresses c1 = bc_blockAddresses c @ map (\<lambda>i. bc_total c + int i) [0..<nat ?g]
       else bc_total c1 = bc_total c \<and> bc_blockAddresses c1 = bc_blockAddresses c"
      using ExpandFile_spec[OF assms(1,2) g01] by blast
    have "(\<lambda>i. bc_total c + int i) ` {0..<nat ?g} = {bc_total c..<bc_total c + ?g}"
      using assms(3) by (auto simp: image_iff intro!: bexI[of _ "nat (x - bc_total c)" for x])
    moreover have "set (bc_free c) \<subseteq> {0..<bc_total c}" "0 \<le> bc_total c" using assms(1) by (auto simp: bc_inv_def)
    ultimately have "bc_used c1 = bc_used c" "bc_total c \<le> bc_total c1"
      using e(5,6) assms(3) by (auto simp: bc_used_def bc_free_def split: if_splits)
    then show thesis using that e(1-5) True by (auto simp: Let_def)
  next
    case False
    then show thesis using that[of True c] assms by (auto simp: Let_def same_device_def)
  qed
  show thesis
  proof (cases g)
    case False
    then have "bc_GetBlocks E n c = Some (False, [], c1)" using g(1) by (simp add: bc_GetBlocks_def)
    then show thesis using that[of False "[]" c1] g by auto
  next
    case True
    obtain ok xs c' where t: "take_blocks (nat n) c1 = Some (ok, xs, c')" "bc_inv c'" "distinct xs"
      "set xs \<subseteq> {0..<bc_total c1}" "set xs \<inter> bc_used c1 = {}" "set xs \<inter> set (bc_reserve c1) = {}"
      "bc_used c' = bc_used c1 \<union> set xs" "bc_total c' = bc_total c1" "same_device c1 c'"
      "ok = (nat n \<le> length (bc_blockAddresses c1))" "length xs = min (nat n) (length (bc_blockAddresses c1))"
      "bc_reserve c' = bc_reserve c1" "set xs \<subseteq> set (bc_blockAddresses c1)"
      "ds_maxRows (ls_data (bc_available c')) = ds_maxRows (ls_data (bc_available c1))"
      using take_blocks_alloc[OF g(2)] .
    have "bc_GetBlocks E n c = Some (ok, xs, c')" using g(1) t(1) True by (simp add: bc_GetBlocks_def)
    moreover have "same_device c c'" using g(4) t(9) by (simp add: same_device_def)
    ultimately show thesis
      using that[of ok xs c'] t g growth_ok_frame[OF g(3) t(9,14)] by auto
  qed
qed

text \<open>With enough free blocks an allocation fails only when the file cannot be extended.\<close>

lemma GetBlocks_enough:
  assumes "bc_inv c" "growth_ok E c" "0 \<le> n" "n \<le> int (length (bc_blockAddresses c))" "\<forall>t. e_expand E t"
  shows "bc_GetBlocks E n c \<noteq> Some (False, xs, c')"
proof (cases "NeedsExpansion n c \<and> bc_total c + max (bc_growthBlocks c) n \<le> bc_maxBlocks c")
  case True
  then have g: "0 \<le> max (bc_growthBlocks c) n" "bc_total c + max (bc_growthBlocks c) n \<le> bc_maxBlocks c"
    using assms(3) by auto
  obtain ok c1 where e: "bc_ExpandFile E (max (bc_growthBlocks c) n) c = Some (ok, c1)" "bc_inv c1"
    "length (bc_blockAddresses c) \<le> length (bc_blockAddresses c1)"
    using ExpandFile_spec[OF assms(1,2) g] by (auto split: if_splits)
  have "ok"
    using e(1) assms(5) by (auto simp: bc_ExpandFile_def Let_def tick_def split: option.splits)
  then show ?thesis
    using True e take_blocks_spec[OF e(2), of "nat n"] assms(4) by (auto simp: bc_GetBlocks_def)
next
  case False
  then show ?thesis
    using take_blocks_spec[OF assms(1), of "nat n"] assms(4) by (auto simp: bc_GetBlocks_def Let_def)
qed

subsection \<open>Release\<close>

lemma newly_freed_set: "set (newly_freed bs F) = set bs - F"
  by (induction bs F rule: newly_freed.induct) auto

lemma newly_freed_id: "distinct bs \<Longrightarrow> set bs \<inter> F = {} \<Longrightarrow> newly_freed bs F = bs"
  by (induction bs F rule: newly_freed.induct) auto

lemma release_block:
  assumes "bc_inv c" "b \<in> {0..<bc_total c}"
  obtains c' where "\<And>bs. bc_ReleaseBlocks (b # bs) c = bc_ReleaseBlocks bs c'" "bc_inv c'"
    "bc_blockAddresses c' = bc_blockAddresses c @
       (if bc_disableCheckpoint c then newly_freed [b] (set (bc_free c)) else [])"
    "bc_reserve c' = bc_reserve c @
       (if bc_disableCheckpoint c then [] else newly_freed [b] (set (bc_free c)))"
    "bc_total c' = bc_total c" "same_device c c'"
    "ds_maxRows (ls_data (bc_available c')) = ds_maxRows (ls_data (bc_available c))"
    "bc_clock c' = bc_clock c"
proof -
  obtain l where l: "ls_Insert (to_int32 b) (bc_available c) = Some (b \<notin> set (bc_free c), l)"
    "ls_inv l" "ls_R l = ls_R (bc_available c)" "labelled l = insert (nat b) (labelled (bc_available c))"
    "ds_maxRows (ls_data l) = ds_maxRows (ls_data (bc_available c))"
    using insert_block[OF assms] .
  let ?c = "if b \<in> set (bc_free c) then c\<lparr>bc_available := l\<rparr>
    else if bc_disableCheckpoint c then c\<lparr>bc_available := l, bc_blockAddresses := bc_blockAddresses c @ [b]\<rparr>
    else c\<lparr>bc_available := l, bc_reserve := bc_reserve c @ [b]\<rparr>"
  have fr: "set (bc_free ?c) = insert b (set (bc_free c))" by (auto simp: bc_free_def)
  have "distinct (bc_free ?c)" using assms(1) by (auto simp: bc_inv_def bc_free_def)
  moreover have "labelled l = nat ` set (bc_free ?c)" using l(4) assms(1) unfolding fr by (simp add: bc_inv_def)
  ultimately have "bc_inv ?c" using assms l(2,3) fr by (auto simp: bc_inv_def)
  then show thesis
    by (rule that[rotated]) (use l(1,5) in \<open>auto simp: same_device_def queue_push_def Let_def\<close>)
qed

lemma ReleaseBlocks_spec:
  assumes "bc_inv c" "set bs \<subseteq> {0..<bc_total c}"
  shows "\<exists>c'. bc_ReleaseBlocks bs c = Some (True, c') \<and> bc_inv c' \<and>
    bc_blockAddresses c' = bc_blockAddresses c @
       (if bc_disableCheckpoint c then newly_freed bs (set (bc_free c)) else []) \<and>
    bc_reserve c' = bc_reserve c @
       (if bc_disableCheckpoint c then [] else newly_freed bs (set (bc_free c))) \<and>
    bc_total c' = bc_total c \<and> same_device c c' \<and>
    ds_maxRows (ls_data (bc_available c')) = ds_maxRows (ls_data (bc_available c)) \<and> bc_clock c' = bc_clock c"
  using assms
proof (induction bs arbitrary: c)
  case (Cons b bs)
  obtain c1 where c1: "\<And>bs. bc_ReleaseBlocks (b # bs) c = bc_ReleaseBlocks bs c1" "bc_inv c1"
    "bc_blockAddresses c1 = bc_blockAddresses c @
       (if bc_disableCheckpoint c then newly_freed [b] (set (bc_free c)) else [])"
    "bc_reserve c1 = bc_reserve c @
       (if bc_disableCheckpoint c then [] else newly_freed [b] (set (bc_free c)))"
    "bc_total c1 = bc_total c" "same_device c c1"
    "ds_maxRows (ls_data (bc_available c1)) = ds_maxRows (ls_data (bc_available c))" "bc_clock c1 = bc_clock c"
    using release_block[OF Cons.prems(1)] Cons.prems(2) by (metis insert_subset list.simps(15))
  have fr: "set (bc_free c1) = insert b (set (bc_free c))" using c1(3,4) by (auto simp: bc_free_def)
  have "newly_freed (b # bs) (set (bc_free c)) =
      newly_freed [b] (set (bc_free c)) @ newly_freed bs (set (bc_free c1))"
    by (simp add: fr insert_absorb)
  moreover have "set bs \<subseteq> {0..<bc_total c1}" "bc_disableCheckpoint c1 = bc_disableCheckpoint c"
    using Cons.prems(2) c1(5,6) by (auto simp: same_device_def)
  ultimately show ?case
    using Cons.IH[OF c1(2)] c1 by (auto simp: same_device_def)
qed (simp add: same_device_def)

lemma ReleaseBlocks_used:
  assumes "bc_inv c" "set bs \<subseteq> {0..<bc_total c}" "bc_ReleaseBlocks bs c = Some (r, c')"
  shows "bc_inv c'" "bc_used c' = bc_used c - set bs" "bc_total c' = bc_total c" "same_device c c'"
    "growth_ok E c \<Longrightarrow> growth_ok E c'" "r" "\<not> bc_disableCheckpoint c \<Longrightarrow> bc_blockAddresses c' = bc_blockAddresses c"
    "bc_clock c' = bc_clock c"
proof -
  obtain c'' where c: "bc_ReleaseBlocks bs c = Some (True, c'')" "bc_inv c''"
    "bc_blockAddresses c'' = bc_blockAddresses c @
       (if bc_disableCheckpoint c then newly_freed bs (set (bc_free c)) else [])"
    "bc_reserve c'' = bc_reserve c @
       (if bc_disableCheckpoint c then [] else newly_freed bs (set (bc_free c)))"
    "bc_total c'' = bc_total c" "same_device c c''"
    "ds_maxRows (ls_data (bc_available c'')) = ds_maxRows (ls_data (bc_available c))" "bc_clock c'' = bc_clock c"
    using ReleaseBlocks_spec[OF assms(1,2)] by blast
  have "set (bc_free c'') = set (bc_free c) \<union> set bs"
    using c(3,4) by (auto simp: bc_free_def newly_freed_set)
  then have "bc_used c'' = bc_used c - set bs" using c(5) by (auto simp: bc_used_def)
  moreover have "c'' = c'" "r" using c(1) assms(3) by auto
  ultimately show "bc_inv c'" "bc_used c' = bc_used c - set bs" "bc_total c' = bc_total c" "same_device c c'"
    "growth_ok E c \<Longrightarrow> growth_ok E c'" "r" "\<not> bc_disableCheckpoint c \<Longrightarrow> bc_blockAddresses c' = bc_blockAddresses c"
    "bc_clock c' = bc_clock c"
    using c growth_ok_frame[OF _ c(6,7)] by auto
qed

subsection \<open>The allocator as an interface\<close>

text \<open>What the posting store relies on: blocks handed out are new to every owner, and a released block is
  no longer anyone's.\<close>

locale block_allocator =
  fixes get :: "int \<Rightarrow> 's \<Rightarrow> (bool \<times> int list \<times> 's) option"
    and release :: "int list \<Rightarrow> 's \<Rightarrow> (bool \<times> 's) option"
    and used :: "'s \<Rightarrow> int set"
    and inv :: "'s \<Rightarrow> bool"
  assumes get_fresh: "inv s \<Longrightarrow> 0 \<le> n \<Longrightarrow> \<exists>ok xs s'. get n s = Some (ok, xs, s') \<and> inv s' \<and> distinct xs \<and>
      set xs \<inter> used s = {} \<and> used s' = used s \<union> set xs \<and> (ok \<longrightarrow> length xs = nat n)"
    and release_used: "inv s \<Longrightarrow> set bs \<subseteq> used s \<Longrightarrow>
      \<exists>s'. release bs s = Some (True, s') \<and> inv s' \<and> used s' = used s - set bs"
begin

text \<open>Getting blocks and giving the same blocks back leaves every owner with what it had.\<close>

lemma get_then_release:
  assumes "inv s" "0 \<le> n" "get n s = Some (ok, xs, s1)"
  shows "\<exists>s2. release xs s1 = Some (True, s2) \<and> inv s2 \<and> used s2 = used s"
proof -
  have g: "inv s1" "set xs \<inter> used s = {}" "used s1 = used s \<union> set xs"
    using get_fresh[OF assms(1,2)] assms(3) by auto
  then show ?thesis using release_used[OF g(1), of xs] by auto
qed

text \<open>Replacing the blocks of one owner: the others' blocks are neither handed out nor released.\<close>

lemma replace_blocks:
  assumes "inv s" "0 \<le> n" "get n s = Some (ok, xs, s1)" "used s = A \<union> set old" "A \<inter> set old = {}"
  shows "\<exists>s2. release old s1 = Some (True, s2) \<and> inv s2 \<and> used s2 = A \<union> set xs \<and> A \<inter> set xs = {}"
proof -
  have g: "inv s1" "set xs \<inter> used s = {}" "used s1 = used s \<union> set xs"
    using get_fresh[OF assms(1,2)] assms(3) by auto
  then show ?thesis using release_used[OF g(1), of old] assms(4,5) by fastforce
qed

end

interpretation pool: block_allocator "bc_GetBlocks E" bc_ReleaseBlocks bc_used "\<lambda>c. bc_inv c \<and> growth_ok E c"
  for E
proof
  fix c n
  assume c: "bc_inv c \<and> growth_ok E c" and n: "0 \<le> (n::int)"
  obtain ok xs c' where "bc_GetBlocks E n c = Some (ok, xs, c')" "bc_inv c'" "growth_ok E c'" "distinct xs"
    "set xs \<inter> bc_used c = {}" "bc_used c' = bc_used c \<union> set xs" "ok \<longrightarrow> length xs = nat n"
    using GetBlocks_spec c n by metis
  then show "\<exists>ok xs s'. bc_GetBlocks E n c = Some (ok, xs, s') \<and> (bc_inv s' \<and> growth_ok E s') \<and> distinct xs \<and>
      set xs \<inter> bc_used c = {} \<and> bc_used s' = bc_used c \<union> set xs \<and> (ok \<longrightarrow> length xs = nat n)"
    by auto
next
  fix c bs
  assume c: "bc_inv c \<and> growth_ok E c" and bs: "set bs \<subseteq> bc_used c"
  then have sub: "set bs \<subseteq> {0..<bc_total c}" by (auto simp: bc_used_def)
  obtain c' where r: "bc_ReleaseBlocks bs c = Some (True, c')" using ReleaseBlocks_spec[of c bs] c sub by blast
  show "\<exists>s'. bc_ReleaseBlocks bs c = Some (True, s') \<and> (bc_inv s' \<and> growth_ok E s') \<and>
      bc_used s' = bc_used c - set bs"
    using ReleaseBlocks_used[OF _ sub r] c r by auto
qed

subsection \<open>Pages\<close>

lemma block_count_nat: "nat (block_count (int n)) = (n + 4095) div 4096"
proof -
  have "block_count (int n) = int ((n + 4095) div 4096)"
    by (simp add: block_count_def PageSize_def PageSizeEx_def drop_bit_eq_div zdiv_int)
  then show ?thesis by simp
qed

lemma block_count_nonneg: "0 \<le> x \<Longrightarrow> 0 \<le> block_count x"
  by (simp add: block_count_def PageSize_def PageSizeEx_def drop_bit_eq_div)

lemma filter_upt_full: "length (filter P [0..<n]) = n \<Longrightarrow> filter P [0..<n] = [0..<n]"
  by (metis length_filter_less filter_True diff_zero length_upt less_irrefl)

lemma fold_upd_other:
  "a \<notin> fst ` set xs \<Longrightarrow> fold (\<lambda>(a, p) f. f(a := p)) xs f a = f a"
  by (induction xs arbitrary: f) auto

lemma fold_upd_apply:
  "distinct ks \<Longrightarrow> i < length ks \<Longrightarrow> length ps = length ks \<Longrightarrow>
   fold (\<lambda>(a, p) f. f(a := p)) (zip ks ps) f (ks ! i) = ps ! i"
proof (induction ks arbitrary: ps f i)
  case (Cons k ks)
  then obtain p ps' where ps: "ps = p # ps'" by (cases ps) auto
  have "k \<notin> fst ` set (zip ks ps')" using Cons.prems(1) by (auto dest: set_zip_leftD)
  then show ?case
    using Cons.prems Cons.IH[of "i - 1" ps' "f(k := p)"] fold_upd_other[of k "zip ks ps'" "f(k := p)"]
    by (cases i) (auto simp: ps simp del: fun_upd_apply, simp)
qed simp

lemma pages_give_value:
  assumes "n = (length v + 4095) div 4096" "\<And>i. i < n \<Longrightarrow> length (bufs i) = 4096"
  shows "take (length v) (concat (map (\<lambda>i. page_image v i (bufs i)) [0..<n])) = v"
proof (cases n)
  case 0
  then have "length v + 4095 < 4096" using assms(1) by (simp add: div_eq_0_iff)
  then show ?thesis by simp
next
  case (Suc m)
  have full: "concat (map (\<lambda>i. page_image v i (bufs i)) [0..<k]) = take (4096 * k) v"
    if "4096 * k \<le> length v" "k \<le> n" for k
    using that
  proof (induction k)
    case (Suc k)
    have "page_image v k (bufs k) = take 4096 (drop (4096 * k) v)"
      using Suc.prems assms(2)[of k] by (simp add: page_image_def)
    then show ?case using Suc by (simp add: take_add [symmetric] add.commute)
  qed simp
  have m: "4096 * m \<le> length v" "length v \<le> 4096 * m + 4096" using assms(1) Suc by linarith+
  have "page_image v m (bufs m) = drop (4096 * m) v @ drop (length v - 4096 * m) (bufs m)"
    using m(2) by (simp add: page_image_def Let_def)
  moreover have "concat (map (\<lambda>i. page_image v i (bufs i)) [0..<n]) =
      concat (map (\<lambda>i. page_image v i (bufs i)) [0..<m]) @ page_image v m (bufs m)"
    by (simp add: Suc)
  ultimately show ?thesis using full[OF m(1)] Suc m(1) by (simp add: min_absorb2)
qed

lemma WriteBlocks_frame:
  assumes "bc_WriteBlocks E addrs v reqs c = Some (ok, c')"
  shows "bc_blockAddresses c' = bc_blockAddresses c" "bc_reserve c' = bc_reserve c"
    "bc_available c' = bc_available c" "bc_total c' = bc_total c" "bc_maxBlocks c' = bc_maxBlocks c"
    "bc_disableCheckpoint c' = bc_disableCheckpoint c" "a \<notin> set addrs \<Longrightarrow> bc_pages c' a = bc_pages c a"
    "bc_inv c' = bc_inv c" "bc_used c' = bc_used c" "growth_ok E c' = growth_ok E c" "bc_free c' = bc_free c"
proof -
  show f: "bc_blockAddresses c' = bc_blockAddresses c" "bc_reserve c' = bc_reserve c"
    "bc_available c' = bc_available c" "bc_total c' = bc_total c" "bc_maxBlocks c' = bc_maxBlocks c"
    "bc_disableCheckpoint c' = bc_disableCheckpoint c"
    using assms by (auto simp: bc_WriteBlocks_def tick_def Let_def split: if_splits)
  show "bc_pages c' a = bc_pages c a" if "a \<notin> set addrs"
    using assms that
    by (auto simp: bc_WriteBlocks_def tick_def Let_def split: if_splits intro!: fold_upd_other)
  show "bc_inv c' = bc_inv c" "bc_used c' = bc_used c" "growth_ok E c' = growth_ok E c" "bc_free c' = bc_free c"
    using f by (auto simp: bc_inv_def bc_used_def growth_ok_def bc_free_def)
qed

lemma WriteBlocks_pages:
  assumes "bc_WriteBlocks E addrs v reqs c = Some (True, c')" "distinct addrs" "i < length addrs"
  shows "bc_pages c' (addrs ! i) = page_image v i (reqs ! i)" "length addrs \<le> length reqs"
proof -
  let ?n = "length addrs" and ?f = "\<lambda>i. page_image v i (reqs ! i)"
  have full: "filter (e_done E (bc_clock c)) [0..<?n] = [0..<?n]"
    using assms(1) length_filter_le[of "e_done E (bc_clock c)" "[0..<?n]"]
    by (intro filter_upt_full) (auto simp: bc_WriteBlocks_def Let_def split: if_splits)
  have "map (\<lambda>i. (addrs ! i, ?f i)) [0..<?n] = zip addrs (map ?f [0..<?n])"
    by (rule nth_equalityI) auto
  then have "bc_pages c' = fold (\<lambda>(a, p) f. f(a := p)) (zip addrs (map ?f [0..<?n])) (bc_pages c)"
    using assms(1) full by (auto simp: bc_WriteBlocks_def tick_def Let_def split: if_splits)
  then show "bc_pages c' (addrs ! i) = ?f i"
    using fold_upd_apply[OF assms(2,3), of "map ?f [0..<?n]"] assms(3) by simp
  show "length addrs \<le> length reqs"
    using assms(1) by (auto simp: bc_WriteBlocks_def Let_def split: if_splits)
qed

lemma WriteBlocks_value:
  assumes "bc_WriteBlocks E addrs v reqs c = Some (True, c')" "distinct addrs"
    "length addrs = nat (block_count (int (length v)))" "\<forall>b \<in> set reqs. length b = 4096"
  shows "take (length v) (concat (map (bc_pages c') addrs)) = v"
proof (cases "addrs = []")
  case True
  then have "v = []" using assms(3) by (simp add: block_count_nat div_eq_0_iff)
  then show ?thesis by simp
next
  case False
  let ?n = "length addrs" and ?pg = "\<lambda>i. page_image v i (reqs ! i)"
  have n: "?n = (length v + 4095) div 4096" using assms(3) by (simp add: block_count_nat)
  have le: "?n \<le> length reqs" using WriteBlocks_pages(2)[OF assms(1,2), of 0] False by simp
  have "map (bc_pages c') addrs = map ?pg [0..<?n]"
    by (rule nth_equalityI) (auto simp: WriteBlocks_pages(1)[OF assms(1,2)])
  then show ?thesis using pages_give_value[OF n, of "\<lambda>i. reqs ! i"] assms(4) le by (auto simp: nth_mem)
qed

lemma WriteBlocks_returns:
  assumes "length addrs \<le> length reqs" "addrs \<noteq> [] \<Longrightarrow> 4096 * (length addrs - 1) \<le> length v"
  obtains ok c' where "bc_WriteBlocks E addrs v reqs c = Some (ok, c')"
  using assms by (cases "addrs = []") (auto simp: bc_WriteBlocks_def Let_def)

lemma fold_upd_all: "(\<And>a. P (f a)) \<Longrightarrow> (\<And>x. x \<in> set xs \<Longrightarrow> P (snd x)) \<Longrightarrow> P (fold (\<lambda>(a, p) f. f(a := p)) xs f a)"
proof (induction xs arbitrary: f)
  case (Cons x xs)
  obtain k p where x: "x = (k, p)" by fastforce
  have "P ((f(k := p)) b)" for b using Cons.prems(1) Cons.prems(2)[of x] by (simp add: x)
  then show ?case using Cons.IH[of "f(k := p)"] Cons.prems(2) by (simp add: x del: fun_upd_apply)
qed simp

lemma WriteBlocks_device:
  assumes "bc_WriteBlocks E addrs v reqs c = Some (ok, c')" "device_ok c" "\<forall>b \<in> set reqs. length b = 4096"
  shows "device_ok c'"
proof -
  have "length (page_image v i (reqs ! i)) = 4096" if "i < length reqs" for i
    using assms(3) that nth_mem[of i reqs] by (auto simp: page_image_def Let_def)
  then show ?thesis
    using assms(1,2) by (auto simp: bc_WriteBlocks_def Let_def tick_def device_ok_def split: if_splits
        intro!: fold_upd_all[where P = "\<lambda>p. length p = 4096"])
qed

text \<open>Reading: the state but for the clock and the counters is unchanged, and a read that reports success
  returns the posting.\<close>

lemma ReadBlocks_cases:
  assumes "0 \<le> s" "block_count s \<le> int (length reqs)" "nat (block_count s) \<le> length addrs"
  shows "\<exists>ok w c'. bc_ReadBlocks E (PArray (s # addrs)) reqs v c = Some (ok, w, c') \<and>
     (ok \<longrightarrow> w = take (nat s) (concat (map (bc_pages c) (take (nat (block_count s)) addrs)))) \<and>
     ((\<forall>t i. e_done E t i) \<longrightarrow> ok) \<and> bc_pages c' = bc_pages c \<and> bc_inv c' = bc_inv c \<and> bc_used c' = bc_used c \<and>
     growth_ok E c' = growth_ok E c \<and> bc_blockAddresses c' = bc_blockAddresses c"
proof -
  let ?n = "nat (block_count s)"
  obtain bufs m where b: "batch_read E (take ?n addrs) reqs c = (bufs, m)" by fastforce
  have n: "\<not> block_count s < 0" "\<not> int (length reqs) < block_count s" "?n \<le> length reqs"
    using assms(1,2) block_count_nonneg by (auto simp: not_less)
  have m: "m = length (filter (e_done E (bc_clock c)) [0..<?n])" and m_le: "m \<le> ?n"
    using b assms(3) length_filter_le[of "e_done E (bc_clock c)" "[0..<?n]"] by (auto simp: batch_read_def)
  have full: "take ?n bufs = map (bc_pages c) (take ?n addrs)" if "\<not> m < ?n"
  proof -
    have "\<forall>i < ?n. e_done E (bc_clock c) i"
      using filter_upt_full[of "e_done E (bc_clock c)" ?n] m m_le that by (auto simp: filter_eq_Cons_iff filter_id_conv)
    then show ?thesis using b n(3) assms(3) by (intro nth_equalityI) (auto simp: batch_read_def)
  qed
  have all: "\<forall>t i. e_done E t i \<Longrightarrow> m = ?n" using m by simp
  show ?thesis
    using assms n b full all
    by (auto simp: bc_ReadBlocks_def Let_def count_read_def tick_def bc_inv_def bc_used_def bc_free_def growth_ok_def
        assemble_def split: if_splits)
qed

text \<open>Reading when every request completes.\<close>

lemma ReadBlocks_complete:
  assumes "0 \<le> s" "block_count s \<le> int (length reqs)" "nat (block_count s) \<le> length addrs"
    "\<And>i. i < nat (block_count s) \<Longrightarrow> e_done E (bc_clock c) i"
  shows "\<exists>c'. bc_ReadBlocks E (PArray (s # addrs)) reqs v c =
     Some (True, take (nat s) (concat (map (bc_pages c) (take (nat (block_count s)) addrs))), c') \<and>
     bc_pages c' = bc_pages c \<and> bc_inv c' = bc_inv c \<and> bc_used c' = bc_used c \<and> growth_ok E c' = growth_ok E c \<and>
     bc_free c' = bc_free c \<and> bc_total c' = bc_total c \<and> bc_clock c' = Suc (bc_clock c)"
proof -
  let ?n = "nat (block_count s)"
  have n: "\<not> block_count s < 0" "\<not> int (length reqs) < block_count s" "?n \<le> length reqs"
    using assms(1,2) block_count_nonneg by (auto simp: not_less)
  have all: "filter (e_done E (bc_clock c)) [0..<?n] = [0..<?n]" using assms(4) by (simp add: filter_id_conv)
  have "take ?n (fst (batch_read E (take ?n addrs) reqs c)) = map (bc_pages c) (take ?n addrs)"
    using n(3) assms(3,4) by (intro nth_equalityI) (auto simp: batch_read_def)
  moreover have "snd (batch_read E (take ?n addrs) reqs c) = ?n"
    using assms(3) all by (simp add: batch_read_def min_def)
  ultimately show ?thesis
    using n(1,2) assms(1,3)
    by (auto simp: bc_ReadBlocks_def Let_def assemble_def tick_def count_read_def bc_inv_def bc_used_def
        bc_free_def growth_ok_def split: prod.splits)
qed

subsection \<open>Checkpoint\<close>

lemma read_pool_total:
  "read_pool n inp (c\<lparr>bc_total := T\<rparr>) = map_option (\<lambda>(e, c'). (e, c'\<lparr>bc_total := T\<rparr>)) (read_pool n inp c)"
proof (induction n arbitrary: inp c)
  case (Suc n)
  have eq: "c\<lparr>bc_total := T, bc_available := l\<rparr> = c\<lparr>bc_available := l\<rparr>\<lparr>bc_total := T\<rparr>"
    "c\<lparr>bc_total := T, bc_available := l, bc_blockAddresses := q\<rparr> =
      c\<lparr>bc_available := l, bc_blockAddresses := q\<rparr>\<lparr>bc_total := T\<rparr>" for l q by simp_all
  have "read_pool n i (c\<lparr>bc_total := T, bc_available := l\<rparr>) =
      map_option (\<lambda>(e, c'). (e, c'\<lparr>bc_total := T\<rparr>)) (read_pool n i (c\<lparr>bc_available := l\<rparr>))"
    for i l unfolding eq(1) by (rule Suc.IH)
  moreover have "read_pool n i (c\<lparr>bc_total := T, bc_available := l, bc_blockAddresses := q\<rparr>) =
      map_option (\<lambda>(e, c'). (e, c'\<lparr>bc_total := T\<rparr>)) (read_pool n i (c\<lparr>bc_available := l, bc_blockAddresses := q\<rparr>))"
    for i l q unfolding eq(2) by (rule Suc.IH)
  ultimately show ?case by (simp add: Let_def split: option.split)
qed simp

lemma read_pool_spec:
  assumes "bc_inv c" "bc_reserve c = []" "distinct xs" "set xs \<subseteq> {0..<bc_total c}" "set xs \<inter> set (bc_free c) = {}"
  shows "\<exists>c'. read_pool (length xs) (concat (map (int_encode 8) xs) @ rest) c = Some (Success, c') \<and> bc_inv c' \<and>
     bc_blockAddresses c' = bc_blockAddresses c @ xs \<and> bc_reserve c' = [] \<and> bc_total c' = bc_total c"
  using assms
proof (induction xs arbitrary: c)
  case (Cons a xs)
  have a: "a \<in> {0..<bc_total c}" "a \<notin> set (bc_free c)" "a < 2 ^ 31"
    using Cons.prems by (auto simp: bc_inv_def)
  obtain l where l: "ls_Insert (to_int32 a) (bc_available c) = Some (a \<notin> set (bc_free c), l)"
    "ls_inv l" "ls_R l = ls_R (bc_available c)" "labelled l = insert (nat a) (labelled (bc_available c))"
    using insert_block[OF Cons.prems(1) a(1)] by metis
  let ?c = "c\<lparr>bc_available := l, bc_blockAddresses := bc_blockAddresses c @ [a]\<rparr>"
  have fr: "set (bc_free ?c) = insert a (set (bc_free c))" by (auto simp: bc_free_def)
  have "distinct (bc_free ?c)" using Cons.prems(1) a(2) by (auto simp: bc_inv_def bc_free_def)
  then have i: "bc_inv ?c" using Cons.prems(1) l(2-4) a(1) fr by (auto simp: bc_inv_def)
  have "set xs \<inter> set (bc_free ?c) = {}" using Cons.prems(3,5) unfolding fr by auto
  then obtain c' where "read_pool (length xs) (concat (map (int_encode 8) xs) @ rest) ?c = Some (Success, c')"
    "bc_inv c'" "bc_blockAddresses c' = bc_blockAddresses c @ a # xs" "bc_reserve c' = []" "bc_total c' = bc_total c"
    using Cons.IH[OF i] Cons.prems(2-4) by auto
  moreover have "int_decode (int_encode 8 a) = a" using a by (intro int_decode_encode) auto
  ultimately show ?case using l(1) a(2) by (simp add: queue_push_def Let_def)
qed simp

lemma fresh_labels_inv:
  assumes "0 \<le> T" "T < 2 ^ 31" "bc_blockAddresses c = []" "bc_reserve c = []" "bc_available c = ls_new"
  shows "bc_inv (c\<lparr>bc_available := ls_Initialize (nat T) b cp Passthrough ls_new, bc_total := T\<rparr>)"
proof -
  note i = ls_reach_inv[OF ls_init, of "nat T" b cp Passthrough]
  have "ls_R (ls_Initialize (nat T) b cp Passthrough ls_new) = nat T"
    by (simp add: ls_R_def ls_Initialize_def ds_Init_facts)
  then show ?thesis using assms i by (simp add: bc_inv_def bc_free_def)
qed

subsection \<open>Properties\<close>

text \<open>C11. The block allocator never hands out a block twice: \<^verbatim>\<open>GetBlocks\<close>, with or without growing the
  file, keeps the pool consistent (free blocks distinct, inside the file, exactly the labelled ones),
  the blocks it returns are pairwise distinct, inside the file, not in use and not among those released
  since the last checkpoint, and afterwards exactly they have become used; on success there are as many
  as asked for. On failure the blocks found so far stay marked as used.\<close>

theorem get_blocks_fresh:
  assumes "bc_inv c" "growth_ok E c" "0 \<le> p_size"
  shows "\<exists>ok xs c'. bc_GetBlocks E p_size c = Some (ok, xs, c') \<and> bc_inv c' \<and> distinct xs \<and>
    set xs \<subseteq> {0..<bc_total c'} \<and> set xs \<inter> bc_used c = {} \<and> set xs \<inter> set (bc_reserve c) = {} \<and>
    bc_used c' = bc_used c \<union> set xs \<and> bc_total c \<le> bc_total c' \<and> bc_pages c' = bc_pages c \<and>
    (if ok then length xs = nat p_size else length xs < nat p_size \<or> xs = [])"
proof -
  obtain ok xs c' where "bc_GetBlocks E p_size c = Some (ok, xs, c')" "bc_inv c'" "distinct xs"
    "set xs \<subseteq> {0..<bc_total c'}" "set xs \<inter> bc_used c = {}" "set xs \<inter> set (bc_reserve c) = {}"
    "bc_used c' = bc_used c \<union> set xs" "bc_total c \<le> bc_total c'" "same_device c c'"
    "ok \<longrightarrow> length xs = nat p_size" "\<not> ok \<longrightarrow> length xs < nat p_size \<or> xs = []"
    using GetBlocks_spec[OF assms] by metis
  then show ?thesis by (auto simp: same_device_def)
qed

lemma sample_controller_facts:
  "bc_inv sample_controller" "growth_ok good_device sample_controller" "bc_used sample_controller = {2, 5}"
  "bc_reserve sample_controller = [3, 6]" "bc_total sample_controller = 8"
proof -
  have b: "byte_column (ls_data sample_labels8)"
    by (simp add: byte_column_def ds_inv_def ds_store_ok_def fresh_spare_def sample_labels8_def
        ds_empty_def ds_width_def ds_R_def ds_cap_def)
  have c: "column (ls_data sample_labels8) = [1, 1, 255, 1, 1, 255, 1, 1]" by code_simp
  have l: "ls_inv sample_labels8"
    using b unfolding ls_inv_def c by (simp add: sample_labels8_def)
  have R: "ls_R sample_labels8 = 8" by code_simp
  have "labelled sample_labels8 = set (filter (\<lambda>i. [1, 1, 255, 1, 1, 255, 1, 1 :: u8] ! i = 1) [0..<8])"
    unfolding labelled_def c R by auto
  also have "filter (\<lambda>i. [1, 1, 255, 1, 1, 255, 1, 1 :: u8] ! i = 1) [0..<8] = [0, 1, 3, 4, 6, 7]" by code_simp
  finally have "labelled sample_labels8 = set [0, 1, 3, 4, 6, 7]" .
  then show "bc_inv sample_controller"
    using l R by (auto simp: bc_inv_def sample_controller_def bc_free_def)
  show "growth_ok good_device sample_controller"
    by (simp add: growth_ok_def good_device_def sample_controller_def sample_labels8_def ds_empty_def)
  show "bc_used sample_controller = {2, 5}"
    by (auto simp: bc_used_def bc_free_def sample_controller_def)
qed (simp_all add: sample_controller_def)

theorem get_blocks_fresh_witness:
  "\<exists>ok xs c'. bc_GetBlocks good_device 3 sample_controller = Some (ok, xs, c') \<and> bc_inv c' \<and> distinct xs \<and>
     set xs \<inter> {2, 5} = {} \<and> set xs \<inter> {3, 6} = {} \<and> bc_used c' = {2, 5} \<union> set xs"
  using get_blocks_fresh[OF sample_controller_facts(1,2), of 3] by (auto simp: sample_controller_facts)

text \<open>C12. Releasing blocks: every block that was in use becomes free exactly once, a block that is free
  already is skipped (releasing it again, or twice in one call, cannot put it in a queue twice), and with
  checkpoints enabled the freed blocks go to the reserve and not to the queue that \<^verbatim>\<open>GetBlocks\<close> takes
  from, so that a block of the last checkpoint is not overwritten before the next one.\<close>

theorem release_blocks_once:
  assumes "bc_inv c" "set bs \<subseteq> {0..<bc_total c}"
  shows "\<exists>c'. bc_ReleaseBlocks bs c = Some (True, c') \<and> bc_inv c' \<and> bc_used c' = bc_used c - set bs \<and>
    (\<exists>c''. bc_ReleaseBlocks bs c' = Some (True, c'') \<and> bc_free c'' = bc_free c') \<and>
    (if bc_disableCheckpoint c
     then bc_reserve c' = bc_reserve c \<and> set (bc_blockAddresses c') = set (bc_blockAddresses c) \<union> (set bs \<inter> bc_used c)
     else bc_blockAddresses c' = bc_blockAddresses c \<and>
       set (bc_reserve c') = set (bc_reserve c) \<union> (set bs \<inter> bc_used c))"
proof -
  obtain c' where c: "bc_ReleaseBlocks bs c = Some (True, c')" "bc_inv c'"
    "bc_blockAddresses c' = bc_blockAddresses c @
       (if bc_disableCheckpoint c then newly_freed bs (set (bc_free c)) else [])"
    "bc_reserve c' = bc_reserve c @
       (if bc_disableCheckpoint c then [] else newly_freed bs (set (bc_free c)))"
    using ReleaseBlocks_spec[OF assms] by blast
  have u: "set (newly_freed bs (set (bc_free c))) = set bs \<inter> bc_used c"
    using assms(2) by (auto simp: newly_freed_set bc_used_def)
  have again: "\<exists>c''. bc_ReleaseBlocks bs c' = Some (True, c'') \<and> bc_free c'' = bc_free c'"
  proof -
    have "set bs \<subseteq> set (bc_free c')" using c(3,4) by (auto simp: bc_free_def newly_freed_set)
    then have "newly_freed bs (set (bc_free c')) = []" by (metis Diff_eq_empty_iff newly_freed_set set_empty)
    then show ?thesis
      using ReleaseBlocks_spec[OF c(2), of bs] assms(2) ReleaseBlocks_used(3)[OF assms c(1)]
      by (auto simp: bc_free_def)
  qed
  show ?thesis using c u again ReleaseBlocks_used(2)[OF assms c(1)] by auto
qed

theorem release_blocks_once_witness:
  "\<exists>c'. bc_ReleaseBlocks [5, 3, 5] sample_controller = Some (True, c') \<and> bc_inv c' \<and> bc_used c' = {2} \<and>
     bc_blockAddresses c' = [4, 0, 1, 7] \<and> set (bc_reserve c') = {3, 5, 6}"
proof -
  have "bc_disableCheckpoint sample_controller = False" "bc_blockAddresses sample_controller = [4, 0, 1, 7]"
    by (simp_all add: sample_controller_def bc_new_def)
  then show ?thesis
    using release_blocks_once[OF sample_controller_facts(1), of "[5, 3, 5]"]
    by (auto simp: sample_controller_facts)
qed

text \<open>C22. A checkpoint of the pool can be loaded again: after \<^verbatim>\<open>Checkpoint\<close> (which first makes the reserved
  blocks free), loading the written file into a new controller gives a consistent pool with the same
  total, the same free blocks in the same order and therefore the same blocks in use.\<close>

theorem block_pool_checkpoint:
  assumes "bc_inv c" "bc_blockAddresses e = []" "bc_reserve e = []" "bc_available e = ls_new"
    "16 + 8 * length (bc_free c) \<le> os_room os"
  shows "\<exists>os' c' w. bc_Checkpoint (Some os) c = (Success, Some os', c') \<and> bc_inv c' \<and>
    os_written os' = os_written os @ w \<and> bc_used c' = bc_used c \<and>
    (\<exists>e'. bc_LoadBlockPool (Some w) startNumBlocks allowInit blockSize blockCapacity e = Some (Success, e') \<and>
       bc_inv e' \<and> bc_blockAddresses e' = bc_free c \<and> bc_total e' = bc_total c \<and> bc_used e' = bc_used c)"
proof -
  let ?c = "reload_reserve c" and ?F = "bc_free c" and ?T = "bc_total c"
  have c: "bc_free ?c = ?F" "bc_total ?c = ?T" "bc_blockAddresses ?c = ?F" "bc_available ?c = bc_available c"
    by (simp_all add: reload_reserve_def bc_free_def)
  have ci: "bc_inv ?c" "bc_used ?c = bc_used c" using assms(1) c by (simp_all add: bc_inv_def bc_used_def)
  have F: "distinct ?F" "set ?F \<subseteq> {0..<?T}" "0 \<le> ?T" "?T < 2 ^ 31" using assms(1) by (auto simp: bc_inv_def)
  have len: "int (length ?F) \<le> ?T"
    using F card_mono[of "{0..<?T}" "set ?F"] by (simp add: distinct_card)
  then have rb: "RemainBlocks ?c = int (length ?F)" using F(4) by (simp add: RemainBlocks_def c to_int32_id)
  have "length (concat (pool_image ?c)) \<le> os_room os"
    using length_concat_uniform[of "pool_image ?c" 8] assms(5) by (simp add: pool_image_def c)
  then obtain os' where os': "write_all (pool_image ?c) os = Some os'" using write_all_room by fastforce
  let ?w = "concat (pool_image ?c)"
  have "bc_Checkpoint (Some os) c = (Success, Some os', ?c)" using os' by (simp add: bc_Checkpoint_def)
  moreover have "os_written os' = os_written os @ ?w" by (rule write_all_written[OF os'])
  moreover have "\<exists>e'. bc_LoadBlockPool (Some ?w) startNumBlocks allowInit blockSize blockCapacity e =
      Some (Success, e') \<and> bc_inv e' \<and> bc_blockAddresses e' = ?F \<and> bc_total e' = ?T \<and> bc_used e' = bc_used c"
  proof -
    let ?e = "e\<lparr>bc_available := ls_Initialize (nat ?T) blockSize blockCapacity Passthrough ls_new\<rparr>"
    have w: "?w = int_encode 8 (int (length ?F)) @ int_encode 8 ?T @ concat (map (int_encode 8) ?F)"
      by (simp add: pool_image_def c rb)
    have dec: "int_decode (int_encode 8 (int (length ?F))) = int (length ?F)"
      "int_decode (int_encode 8 ?T) = ?T" "to_int32 ?T = ?T"
      using F(3,4) len by (auto intro!: int_decode_encode to_int32_id)
    obtain e1 where e1: "read_pool (length ?F) (concat (map (int_encode 8) ?F)) (?e\<lparr>bc_total := ?T\<rparr>) =
        Some (Success, e1)" "bc_inv e1" "bc_blockAddresses e1 = ?F" "bc_reserve e1 = []" "bc_total e1 = ?T"
    proof -
      have "bc_free (?e\<lparr>bc_total := ?T\<rparr>) = []" using assms(2,3) by (simp add: bc_free_def)
      then show thesis
        using that read_pool_spec[OF fresh_labels_inv[OF F(3,4) assms(2-4), of blockSize blockCapacity],
            where xs = ?F and rest = "[]"] F(1,2) assms(2,3) by auto
    qed
    obtain e2 where e2: "read_pool (length ?F) (concat (map (int_encode 8) ?F)) ?e = Some (Success, e2)"
      "e1 = e2\<lparr>bc_total := ?T\<rparr>"
      using e1(1) unfolding read_pool_total by auto
    have "bc_LoadBlockPool (Some ?w) startNumBlocks allowInit blockSize blockCapacity e = Some (Success, e1)"
      using e2 F(3) unfolding w by (simp add: bc_LoadBlockPool_def dec Let_def assms(4))
    moreover have "bc_used e1 = bc_used c" using e1(3-5) by (simp add: bc_used_def bc_free_def)
    ultimately show ?thesis using e1 by auto
  qed
  ultimately show ?thesis using ci by blast
qed

theorem block_pool_checkpoint_witness:
  "\<exists>os' c' w. bc_Checkpoint (Some \<lparr>os_written = [], os_room = 100\<rparr>) sample_controller =
       (Success, Some os', c') \<and> os_written os' = w \<and>
     (\<exists>e'. bc_LoadBlockPool (Some w) 0 False 4 20 (bc_new (\<lambda>a. [])) = Some (Success, e') \<and>
        bc_inv e' \<and> bc_blockAddresses e' = [4, 0, 1, 7, 3, 6] \<and> bc_total e' = 8)"
proof -
  have f: "bc_free sample_controller = [4, 0, 1, 7, 3, 6]" by (simp add: sample_controller_def bc_free_def)
  show ?thesis
    using block_pool_checkpoint[OF sample_controller_facts(1), of "bc_new (\<lambda>a. [])"
        "\<lparr>os_written = [], os_room = 100\<rparr>" 0 False 4 20]
    by (auto simp: f sample_controller_facts bc_new_def)
qed

text \<open>C21. What is written is read back: a posting written to distinct blocks, with every request completed,
  is returned by \<^verbatim>\<open>ReadBlocks\<close> byte for byte (its last page padded with whatever the request buffer held),
  and no block outside the list is touched.\<close>

theorem write_read_blocks:
  assumes "bc_WriteBlocks E addrs v reqs c = Some (True, c1)" "distinct addrs"
    "length addrs = nat (block_count (int (length v)))" "\<forall>b \<in> set reqs. length b = 4096"
    "\<forall>i < length addrs. e_done E (bc_clock c1) i"
  shows "(\<exists>c2. bc_ReadBlocks E (PArray (int (length v) # addrs @ rest)) reqs old c1 = Some (True, v, c2)) \<and>
    (\<forall>a. a \<notin> set addrs \<longrightarrow> bc_pages c1 a = bc_pages c a)"
proof -
  let ?n = "length addrs"
  have le: "?n \<le> length reqs"
    using assms(1) by (auto simp: bc_WriteBlocks_def Let_def split: if_splits)
  moreover have "int ?n = block_count (int (length v))" using assms(3) block_count_nonneg by simp
  then have "block_count (int (length v)) \<le> int (length reqs)" using le by linarith
  ultimately have "\<exists>c2. bc_ReadBlocks E (PArray (int (length v) # addrs @ rest)) reqs old c1 = Some (True, v, c2)"
    using ReadBlocks_complete[of "int (length v)" reqs "addrs @ rest" E c1 old] assms(3,5)
      WriteBlocks_value[OF assms(1-4)] by auto
  then show ?thesis using WriteBlocks_frame(7)[OF assms(1)] by blast
qed

theorem write_read_blocks_witness:
  "\<exists>c1 c2. bc_WriteBlocks good_device [2] [7, 8, 9] [replicate 4096 0] sample_controller = Some (True, c1) \<and>
     bc_ReadBlocks good_device (PArray [3, 2, - 1]) [replicate 4096 0] [] c1 = Some (True, [7, 8, 9], c2)"
proof -
  obtain c1 where c1: "bc_WriteBlocks good_device [2] [7, 8, 9] [replicate 4096 0] sample_controller = Some (True, c1)"
    by (simp add: bc_WriteBlocks_def good_device_def Let_def)
  have "nat (block_count (int (length [7, 8, 9 :: u8]))) = 1"
    unfolding block_count_nat by simp
  then show ?thesis
    using write_read_blocks[OF c1, of "[- 1]" "[]"] c1 by (simp add: good_device_def)
qed

end
