(* ===== verification/Posting_Store.thy ===== *)
theory Posting_Store
  imports Block_Controller
begin

text \<open>
  The key-value store \<^verbatim>\<open>FileIO\<close> of \<^verbatim>\<open>inc/Core/SPANN/ExtraFileController.h\<close> below its cache: the block
  mapping, \<^verbatim>\<open>Get\<close>, \<^verbatim>\<open>Put\<close>, \<^verbatim>\<open>Merge\<close> and \<^verbatim>\<open>Delete\<close> on the blocks of the posting file, \<^verbatim>\<open>Check\<close>, and \<^verbatim>\<open>Save\<close> and
  \<^verbatim>\<open>Load\<close> of the mapping.

  \<^verbatim>\<open>m_pBlockMapping\<close> is the list of its cells (\<^verbatim>\<open>Dataset<uintptr_t>\<close>, see theory \<open>Dataset\<close>): \<^const>\<open>None\<close> is
  the pointer of all ones that fresh cells hold, and a pointer to an array of \<^verbatim>\<open>AddressType\<close> is the array
  itself, as every array has one owner at a time (a cell of the mapping or the queue \<^verbatim>\<open>m_buffer\<close>). The
  first entry of an array is the posting's size in bytes, negative when there is none, the next ones
  are its blocks. A result \<^const>\<open>None\<close> is an access outside an array, an exception, or the endless wait of
  \<^verbatim>\<open>while (!m_buffer.try_pop(..))\<close> on an empty queue.
\<close>

record FileIO =
  fio_blockLimit :: nat
  fio_bufferLimit :: nat
  fio_mapping :: "int list option list"
  fio_buffer :: "int list list"
  fio_ctl :: BlockController

subsection \<open>The mapping\<close>

definition fio_R :: "FileIO \<Rightarrow> int" where
  "fio_R s = int (length (fio_mapping s))"

definition fio_At :: "int \<Rightarrow> FileIO \<Rightarrow> int list option option" where
  "fio_At key s = (if 0 \<le> key \<and> key < fio_R s then Some (fio_mapping s ! nat key) else None)"

definition fio_set :: "int \<Rightarrow> int list option \<Rightarrow> FileIO \<Rightarrow> FileIO" where
  "fio_set key p s = s\<lparr>fio_mapping := (fio_mapping s)[nat key := p]\<rparr>"

text \<open>Room for the key: \<open>delta = key + 1 - R\<close> new cells.\<close>

definition fio_extend :: "int \<Rightarrow> FileIO \<Rightarrow> FileIO" where
  "fio_extend key s =
     (let delta = key + 1 - fio_R s in
      if delta > 0 then s\<lparr>fio_mapping := fio_mapping s @ replicate (nat delta) None\<rparr> else s)"

text \<open>A new array: one from the queue when it holds more than its limit, otherwise from the heap; in both
  cases filled with \<open>-1\<close>.\<close>

definition fio_new_array :: "FileIO \<Rightarrow> int list \<times> FileIO" where
  "fio_new_array s =
     (replicate (fio_blockLimit s) (- 1),
      if length (fio_buffer s) > fio_bufferLimit s then s\<lparr>fio_buffer := tl (fio_buffer s)\<rparr> else s)"

definition fio_push :: "int list \<Rightarrow> FileIO \<Rightarrow> FileIO" where
  "fio_push arr s = s\<lparr>fio_buffer := queue_push arr (fio_buffer s)\<rparr>"

text \<open>\<^verbatim>\<open>GetBlocks(arr + off, n)\<close>: the addresses that were found are stored in the array.\<close>

definition fio_GetBlocks ::
  "io_env \<Rightarrow> int list \<Rightarrow> nat \<Rightarrow> int \<Rightarrow> FileIO \<Rightarrow> (bool \<times> int list \<times> FileIO) option" where
  "fio_GetBlocks E arr off n s =
     (case bc_GetBlocks E n (fio_ctl s) of
        None \<Rightarrow> None
      | Some (ok, xs, c) \<Rightarrow>
          map_option (\<lambda>arr'. (ok, arr', s\<lparr>fio_ctl := c\<rparr>)) (seg_write arr off xs))"

definition fio_WriteBlocks ::
  "io_env \<Rightarrow> int list \<Rightarrow> nat \<Rightarrow> int \<Rightarrow> bytes \<Rightarrow> bytes list \<Rightarrow> FileIO \<Rightarrow> (bool \<times> FileIO) option" where
  "fio_WriteBlocks E arr off n value reqs s =
     (case seg_read arr off (nat n) of
        None \<Rightarrow> None
      | Some addrs \<Rightarrow> map_option (\<lambda>(ok, c). (ok, s\<lparr>fio_ctl := c\<rparr>)) (bc_WriteBlocks E addrs value reqs (fio_ctl s)))"

definition fio_ReleaseBlocks :: "int list \<Rightarrow> nat \<Rightarrow> int \<Rightarrow> FileIO \<Rightarrow> (bool \<times> FileIO) option" where
  "fio_ReleaseBlocks arr off n s =
     (case seg_read arr off (nat n) of
        None \<Rightarrow> None
      | Some bs \<Rightarrow> map_option (\<lambda>(ok, c). (ok, s\<lparr>fio_ctl := c\<rparr>)) (bc_ReleaseBlocks bs (fio_ctl s)))"

subsection \<open>Get\<close>

definition fio_ReadBlocks ::
  "io_env \<Rightarrow> int list option \<Rightarrow> bytes list \<Rightarrow> bytes \<Rightarrow> FileIO \<Rightarrow> (bool \<times> bytes \<times> FileIO) option" where
  "fio_ReadBlocks E p reqs value s =
     map_option (\<lambda>(ok, v, c). (ok, v, s\<lparr>fio_ctl := c\<rparr>))
       (bc_ReadBlocks E (case p of None \<Rightarrow> PNone | Some arr \<Rightarrow> PArray arr) reqs value (fio_ctl s))"

text \<open>The checks before the read: an error, or the array of the posting.\<close>

definition fio_lookup :: "int \<Rightarrow> FileIO \<Rightarrow> (ErrorCode + int list) option" where
  "fio_lookup key s =
     (if key \<ge> fio_R s then Some (Inl Key_OverFlow)
      else
        (case fio_At key s of
           None \<Rightarrow> None
         | Some None \<Rightarrow> Some (Inl Key_NotFound)
         | Some (Some []) \<Rightarrow> None
         | Some (Some (sz # bs)) \<Rightarrow>
             if to_int32 sz < 0 then Some (Inl Posting_SizeError) else Some (Inr (sz # bs))))"

definition fio_Get_disk ::
  "io_env \<Rightarrow> int \<Rightarrow> bytes \<Rightarrow> bytes list \<Rightarrow> FileIO \<Rightarrow> (ErrorCode \<times> bytes \<times> FileIO) option" where
  "fio_Get_disk E key value reqs s =
     (case fio_lookup key s of
        None \<Rightarrow> None
      | Some (Inl e) \<Rightarrow> Some (e, value, s)
      | Some (Inr arr) \<Rightarrow>
          map_option (\<lambda>(ok, v, s'). (if ok then Success else Fail, v, s'))
            (fio_ReadBlocks E (Some arr) reqs value s))"

subsection \<open>Put\<close>

definition value_blocks :: "bytes \<Rightarrow> int" where
  "value_blocks value = to_int32 (block_count (int (length value)))"

text \<open>The first write of a posting: into \<open>arr\<close>, which is the key's own array (\<open>own\<close>) or a new one that
  becomes its array on success.\<close>

definition fio_Put_first ::
  "io_env \<Rightarrow> int \<Rightarrow> bytes \<Rightarrow> bytes list \<Rightarrow> bool \<Rightarrow> int list \<Rightarrow> FileIO \<Rightarrow> (ErrorCode \<times> FileIO) option" where
  "fio_Put_first E key value reqs own arr s =
     (let blocks = value_blocks value; keep = (\<lambda>arr s. if own then fio_set key (Some arr) s else s) in
      case fio_GetBlocks E arr 1 blocks s of
        None \<Rightarrow> None
      | Some (False, arr1, s1) \<Rightarrow> Some (DiskIOFail, keep arr1 s1)
      | Some (True, arr1, s1) \<Rightarrow>
          (let arr2 = arr1[0 := int (length value)] in
           case fio_WriteBlocks E arr2 1 blocks value reqs s1 of
             None \<Rightarrow> None
           | Some (False, s2) \<Rightarrow>
               (case fio_ReleaseBlocks arr2 1 blocks s2 of
                  None \<Rightarrow> None
                | Some (_, s3) \<Rightarrow>
                    map_option (\<lambda>arr3. (DiskIOFail, keep arr3 s3))
                      (seg_write arr2 1 (replicate (nat blocks) (- 1))))
           | Some (True, s2) \<Rightarrow> Some (Success, fio_set key (Some arr2) s2)))"

text \<open>Overwriting a posting: new blocks through an array from the queue, then the old blocks are released
  and the arrays change places.\<close>

definition fio_Put_over ::
  "io_env \<Rightarrow> int \<Rightarrow> bytes \<Rightarrow> bytes list \<Rightarrow> int list \<Rightarrow> FileIO \<Rightarrow> (ErrorCode \<times> FileIO) option" where
  "fio_Put_over E key value reqs old s =
     (let blocks = value_blocks value in
      case queue_try_pop (fio_buffer s) of
        None \<Rightarrow> None
      | Some (tmp, q) \<Rightarrow>
          (case fio_GetBlocks E tmp 1 blocks (s\<lparr>fio_buffer := q\<rparr>) of
             None \<Rightarrow> None
           | Some (False, arr1, s1) \<Rightarrow> Some (DiskIOFail, fio_push arr1 s1)
           | Some (True, arr1, s1) \<Rightarrow>
               (let arr2 = arr1[0 := int (length value)] in
                case fio_WriteBlocks E arr2 1 blocks value reqs s1 of
                  None \<Rightarrow> None
                | Some (False, s2) \<Rightarrow>
                    map_option (\<lambda>(_, s3). (DiskIOFail, fio_push arr2 s3)) (fio_ReleaseBlocks arr2 1 blocks s2)
                | Some (True, s2) \<Rightarrow>
                    map_option (\<lambda>(_, s3). (Success, fio_push old (fio_set key (Some arr2) s3)))
                      (fio_ReleaseBlocks old 1 (to_int32 (block_count (old ! 0))) s2))))"

definition fio_Put_disk ::
  "io_env \<Rightarrow> int \<Rightarrow> bytes \<Rightarrow> bytes list \<Rightarrow> FileIO \<Rightarrow> (ErrorCode \<times> FileIO) option" where
  "fio_Put_disk E key value reqs s =
     (case fio_At key s of
        None \<Rightarrow> None
      | Some None \<Rightarrow>
          (case fio_new_array s of (arr, s') \<Rightarrow>
             if arr = [] then None else fio_Put_first E key value reqs False arr s')
      | Some (Some []) \<Rightarrow> None
      | Some (Some (sz # bs)) \<Rightarrow>
          if sz < 0 then fio_Put_first E key value reqs True (sz # bs) s
          else fio_Put_over E key value reqs (sz # bs) s)"

text \<open>\<^verbatim>\<open>Put(key, value, timeout, reqs, useCache = false)\<close>, which the cache calls to write an entry back, and
  which is \<^verbatim>\<open>Put\<close> when there is no cache.\<close>

definition fio_Put_raw ::
  "io_env \<Rightarrow> int \<Rightarrow> bytes \<Rightarrow> bytes list \<Rightarrow> FileIO \<Rightarrow> (ErrorCode \<times> FileIO) option" where
  "fio_Put_raw E key value reqs s =
     (if value_blocks value \<ge> int (fio_blockLimit s) then Some (Posting_OverFlow, s)
      else fio_Put_disk E key value reqs (fio_extend key s))"

subsection \<open>Merge\<close>

text \<open>The checks of \<^verbatim>\<open>Merge\<close>: an error, or the array and the new size.\<close>

definition fio_merge_lookup :: "int \<Rightarrow> bytes \<Rightarrow> FileIO \<Rightarrow> (ErrorCode + int list \<times> int) option" where
  "fio_merge_lookup key value s =
     (if key \<ge> fio_R s then Some (Inl Key_OverFlow)
      else
        (case fio_At key s of
           None \<Rightarrow> None
         | Some None \<Rightarrow> Some (Inl Key_NotFound)
         | Some (Some []) \<Rightarrow> None
         | Some (Some (sz # bs)) \<Rightarrow>
             if sz < 0 then Some (Inl Key_NotFound)
             else
               (let newSize = sz + int (length value) in
                if to_int32 (block_count newSize) \<ge> int (fio_blockLimit s) then Some (Inl Posting_OverFlow)
                else Some (Inr (sz # bs, newSize)))))"

text \<open>The last block is partly filled: it is read, and its content and the new bytes go to new blocks, through
  an array from the queue.\<close>

definition fio_Merge_tail ::
  "io_env \<Rightarrow> int \<Rightarrow> bytes \<Rightarrow> bytes list \<Rightarrow> int list \<Rightarrow> int \<Rightarrow> nat \<Rightarrow> int \<Rightarrow> FileIO \<Rightarrow> (ErrorCode \<times> FileIO) option" where
  "fio_Merge_tail E key newValue reqs arr newSize off allocblocks s =
     (case queue_try_pop (fio_buffer s) of
        None \<Rightarrow> None
      | Some (tmp, q) \<Rightarrow>
          (case seg_write tmp 0 (take off arr) of
             None \<Rightarrow> None
           | Some tmp0 \<Rightarrow>
              (case fio_GetBlocks E tmp0 off allocblocks (s\<lparr>fio_buffer := q\<rparr>) of
                 None \<Rightarrow> None
               | Some (False, tmp1, s1) \<Rightarrow> Some (DiskIOFail, fio_push tmp1 s1)
               | Some (True, tmp1, s1) \<Rightarrow>
                   (case fio_WriteBlocks E tmp1 off allocblocks newValue reqs s1 of
                      None \<Rightarrow> None
                    | Some (False, s2) \<Rightarrow>
                        map_option (\<lambda>(_, s3). (DiskIOFail, fio_push tmp1 s3))
                          (fio_ReleaseBlocks tmp1 off allocblocks s2)
                    | Some (True, s2) \<Rightarrow>
                        map_option (\<lambda>(_, s3). (Success,
                            fio_push arr (fio_set key (Some (tmp1[0 := newSize])) s3)))
                          (fio_ReleaseBlocks arr off 1 s2)))))"

definition fio_Merge_partial ::
  "io_env \<Rightarrow> int \<Rightarrow> bytes \<Rightarrow> bytes list \<Rightarrow> int list \<Rightarrow> int \<Rightarrow> FileIO \<Rightarrow> (ErrorCode \<times> FileIO) option" where
  "fio_Merge_partial E key value reqs arr newSize s =
     (let sz = arr ! 0; sizeInPage = sz mod PageSize; oldblocks = to_int32 (sz div PageSize);
          allocblocks = to_int32 (block_count newSize) - oldblocks; off = nat (1 + oldblocks) in
      if length arr \<le> off then None
      else
        (case fio_ReadBlocks E (Some [sizeInPage, arr ! off]) reqs [] s of
           None \<Rightarrow> None
         | Some (False, _, s1) \<Rightarrow> Some (DiskIOFail, s1)
         | Some (True, lastpart, s1) \<Rightarrow>
             fio_Merge_tail E key (lastpart @ value) reqs arr newSize off allocblocks s1))"

text \<open>The last block is full: new blocks are appended in place.\<close>

definition fio_Merge_aligned ::
  "io_env \<Rightarrow> int \<Rightarrow> bytes \<Rightarrow> bytes list \<Rightarrow> int list \<Rightarrow> int \<Rightarrow> FileIO \<Rightarrow> (ErrorCode \<times> FileIO) option" where
  "fio_Merge_aligned E key value reqs arr newSize s =
     (let oldblocks = to_int32 (arr ! 0 div PageSize);
          allocblocks = to_int32 (block_count newSize) - oldblocks; off = nat (1 + oldblocks) in
      case fio_GetBlocks E arr off allocblocks s of
        None \<Rightarrow> None
      | Some (False, arr1, s1) \<Rightarrow> Some (DiskIOFail, fio_set key (Some arr1) s1)
      | Some (True, arr1, s1) \<Rightarrow>
          (case fio_WriteBlocks E arr1 off allocblocks value reqs s1 of
             None \<Rightarrow> None
           | Some (False, s2) \<Rightarrow>
               map_option (\<lambda>(_, s3). (DiskIOFail, fio_set key (Some arr1) s3))
                 (fio_ReleaseBlocks arr1 off allocblocks s2)
           | Some (True, s2) \<Rightarrow> Some (Success, fio_set key (Some (arr1[0 := newSize])) s2)))"

definition fio_Merge_disk ::
  "io_env \<Rightarrow> int \<Rightarrow> bytes \<Rightarrow> bytes list \<Rightarrow> int list \<Rightarrow> int \<Rightarrow> FileIO \<Rightarrow> (ErrorCode \<times> FileIO) option" where
  "fio_Merge_disk E key value reqs arr newSize s =
     (if arr ! 0 mod PageSize \<noteq> 0 then fio_Merge_partial E key value reqs arr newSize s
      else fio_Merge_aligned E key value reqs arr newSize s)"

text \<open>\<^verbatim>\<open>Merge\<close> of a store without a cache.\<close>

definition fio_Merge_raw ::
  "io_env \<Rightarrow> int \<Rightarrow> bytes \<Rightarrow> bytes list \<Rightarrow> FileIO \<Rightarrow> (ErrorCode \<times> FileIO) option" where
  "fio_Merge_raw E key value reqs s =
     (case fio_merge_lookup key value s of
        None \<Rightarrow> None
      | Some (Inl e) \<Rightarrow> Some (e, s)
      | Some (Inr (arr, newSize)) \<Rightarrow> fio_Merge_disk E key value reqs arr newSize s)"

subsection \<open>Delete and Check\<close>

definition fio_Delete_raw :: "int \<Rightarrow> FileIO \<Rightarrow> (ErrorCode \<times> FileIO) option" where
  "fio_Delete_raw key s =
     (if key \<ge> fio_R s then Some (Key_OverFlow, s)
      else
        (case fio_At key s of
           None \<Rightarrow> None
         | Some None \<Rightarrow> Some (Key_NotFound, s)
         | Some (Some []) \<Rightarrow> None
         | Some (Some (sz # bs)) \<Rightarrow>
             if sz < 0 then Some (Key_NotFound, s)
             else
               map_option (\<lambda>(_, s1). (Success, fio_set key None (fio_push (sz # bs) s1)))
                 (fio_ReleaseBlocks (sz # bs) 1 (to_int32 (block_count sz)) s)))"

text \<open>The loop of \<^verbatim>\<open>Check\<close> over the blocks of a posting; \<open>visited\<close> counts the uses of every block.\<close>

fun check_blocks :: "int list \<Rightarrow> int \<Rightarrow> u8 list option \<Rightarrow> ErrorCode \<times> u8 list option" where
  "check_blocks [] tot visited = (Success, visited)"
| "check_blocks (b # bs) tot visited =
     (if b < 0 \<or> b \<ge> tot then (Block_IDError, visited)
      else
        (case visited of
           None \<Rightarrow> check_blocks bs tot visited
         | Some v \<Rightarrow>
             if b \<ge> int (length v) then check_blocks bs tot visited
             else if v ! nat b > 0 then (Block_IDError, visited)
             else check_blocks bs tot (Some (v[nat b := 1]))))"

definition fio_Check :: "int \<Rightarrow> int \<Rightarrow> u8 list option \<Rightarrow> FileIO \<Rightarrow> (ErrorCode \<times> u8 list option) option" where
  "fio_Check key n visited s =
     (if key \<ge> fio_R s then Some (Key_OverFlow, visited)
      else
        (case fio_At key s of
           None \<Rightarrow> None
         | Some None \<Rightarrow> Some (Key_OverFlow, visited)
         | Some (Some []) \<Rightarrow> None
         | Some (Some (sz # bs)) \<Rightarrow>
             if sz \<noteq> n then Some (Posting_SizeError, visited)
             else
               (let blocks = nat (to_int32 (block_count sz)) in
                if length bs < blocks then None
                else Some (check_blocks (take blocks bs) (TotalBlocks (fio_ctl s)) visited))))"

subsection \<open>Saving and loading the mapping\<close>

definition mapping_rows :: "FileIO \<Rightarrow> int list list" where
  "mapping_rows s =
     map (\<lambda>p. case p of None \<Rightarrow> replicate (fio_blockLimit s) (- 1) | Some arr \<Rightarrow> take (fio_blockLimit s) arr)
       (fio_mapping s)"

definition mapping_image :: "FileIO \<Rightarrow> bytes list" where
  "mapping_image s = int_encode 4 (fio_R s) # int_encode 4 (int (fio_blockLimit s)) #
     map (\<lambda>row. concat (map (int_encode 8) row)) (mapping_rows s)"

definition fio_Save_raw :: "ostream option \<Rightarrow> FileIO \<Rightarrow> ErrorCode \<times> ostream option" where
  "fio_Save_raw file s =
     (case file of
        None \<Rightarrow> (FailedCreateFile, None)
      | Some os \<Rightarrow>
          (case write_all (mapping_image s) os of
             None \<Rightarrow> (DiskIOFail, Some os)
           | Some os' \<Rightarrow> (Success, Some os')))"

text \<open>The \<open>n\<close> addresses of a row, one after the other.\<close>

fun decode_row :: "nat \<Rightarrow> bytes \<Rightarrow> int list" where
  "decode_row 0 bs = []"
| "decode_row (Suc n) bs = int_decode (take 8 bs) # decode_row n (drop 8 bs)"

text \<open>Every row of the file becomes an array, rows of absent keys too. An array longer than the row keeps
  what the allocation held (\<open>junk n\<close> for \<open>n\<close> entries), and so does an array whose row cannot be read.\<close>

fun load_mapping ::
  "nat \<Rightarrow> nat \<Rightarrow> nat \<Rightarrow> (nat \<Rightarrow> int list) \<Rightarrow> bytes \<Rightarrow> int list option list \<Rightarrow> ErrorCode \<times> int list option list" where
  "load_mapping 0 mycols limit junk inp acc = (Success, acc)"
| "load_mapping (Suc n) mycols limit junk inp acc =
     (case ReadBinary (8 * mycols) inp of
        None \<Rightarrow> (DiskIOFail, acc @ Some (junk limit) # replicate n None)
      | Some (r, inp') \<Rightarrow>
          load_mapping n mycols limit junk inp' (acc @ [Some (decode_row mycols r @ junk (limit - mycols))]))"

definition fio_Load :: "bytes option \<Rightarrow> (nat \<Rightarrow> int list) \<Rightarrow> FileIO \<Rightarrow> (ErrorCode \<times> FileIO) option" where
  "fio_Load file junk s =
     (case file of
        None \<Rightarrow> Some (FailedOpenFile, s)
      | Some inp \<Rightarrow>
          (case load_header inp of
             None \<Rightarrow> Some (DiskIOFail, s)
           | Some (cr, mycols, inp') \<Rightarrow>
               if cr < 0 \<or> mycols < 0 then None
               else
                 (let limit = max (fio_blockLimit s) (nat mycols) in
                  case load_mapping (nat cr) (nat mycols) limit junk inp' [] of
                    (e, m) \<Rightarrow> Some (e, s\<lparr>fio_blockLimit := limit, fio_mapping := m\<rparr>))))"

subsection \<open>The store as a map from keys to postings\<close>

text \<open>The blocks of a cell of the mapping, and the bytes they hold.\<close>

fun cell_blocks :: "int list option \<Rightarrow> int list" where
  "cell_blocks (Some (sz # bs)) = (if sz < 0 then [] else take (nat (block_count sz)) bs)"
| "cell_blocks _ = []"

fun cell_value :: "(int \<Rightarrow> bytes) \<Rightarrow> int list option \<Rightarrow> bytes option" where
  "cell_value pages (Some (sz # bs)) =
     (if sz < 0 then None
      else Some (take (nat sz) (concat (map pages (cell_blocks (Some (sz # bs)))))))"
| "cell_value pages _ = None"

definition fio_value :: "FileIO \<Rightarrow> nat \<Rightarrow> bytes option" where
  "fio_value s k =
     (if k < length (fio_mapping s) then cell_value (bc_pages (fio_ctl s)) (fio_mapping s ! k) else None)"

text \<open>A cell is well-formed for a block limit: its array has that length and the blocks of its posting fit.\<close>

definition cell_ok :: "nat \<Rightarrow> int list option \<Rightarrow> bool" where
  "cell_ok limit p \<longleftrightarrow>
     (case p of None \<Rightarrow> True
      | Some arr \<Rightarrow> length arr = limit \<and> - 1 \<le> arr ! 0 \<and> nat (block_count (arr ! 0)) < limit)"

definition fio_inv :: "io_env \<Rightarrow> FileIO \<Rightarrow> bool" where
  "fio_inv E s \<longleftrightarrow>
     bc_inv (fio_ctl s) \<and> growth_ok E (fio_ctl s) \<and> device_ok (fio_ctl s) \<and> 0 < fio_blockLimit s \<and> fio_blockLimit s < 2 ^ 18 \<and>
     (\<forall>p \<in> set (fio_mapping s). cell_ok (fio_blockLimit s) p \<and> distinct (cell_blocks p) \<and>
        set (cell_blocks p) \<subseteq> bc_used (fio_ctl s)) \<and>
     (\<forall>i < length (fio_mapping s). \<forall>j < length (fio_mapping s). i \<noteq> j \<longrightarrow>
        set (cell_blocks (fio_mapping s ! i)) \<inter> set (cell_blocks (fio_mapping s ! j)) = {}) \<and>
     0 < fio_bufferLimit s \<and> fio_buffer s \<noteq> [] \<and>
     (\<forall>arr \<in> set (fio_buffer s). length arr = fio_blockLimit s)"

text \<open>The request buffers of a call: one page each, enough for the largest posting.\<close>

definition reqs_ok :: "FileIO \<Rightarrow> bytes list \<Rightarrow> bool" where
  "reqs_ok s reqs \<longleftrightarrow> fio_blockLimit s \<le> length reqs \<and> (\<forall>b \<in> set reqs. length b = 4096)"

text \<open>The key has an array without a posting (size \<open>-1\<close>), as every absent key does after \<^verbatim>\<open>Load\<close>.\<close>

definition sizeless :: "FileIO \<Rightarrow> int \<Rightarrow> bool" where
  "sizeless s key \<longleftrightarrow> 0 \<le> key \<and> key < fio_R s \<and>
     (case fio_mapping s ! nat key of None \<Rightarrow> False | Some arr \<Rightarrow> arr ! 0 < 0)"

text \<open>The controller \<open>c\<close> still holds the postings of the store: every block in use is in use, with its content.\<close>

definition ctl_keeps :: "io_env \<Rightarrow> FileIO \<Rightarrow> BlockController \<Rightarrow> bool" where
  "ctl_keeps E s c \<longleftrightarrow> bc_inv c \<and> growth_ok E c \<and> device_ok c \<and> bc_used (fio_ctl s) \<subseteq> bc_used c \<and>
     (\<forall>a \<in> bc_used (fio_ctl s). bc_pages c a = bc_pages (fio_ctl s) a)"

text \<open>The device answers every request, and \<open>n\<close> blocks are free.\<close>

definition pool_ready :: "io_env \<Rightarrow> int \<Rightarrow> BlockController \<Rightarrow> bool" where
  "pool_ready E n c \<longleftrightarrow> (\<forall>t i. e_done E t i) \<and> (\<forall>t. e_expand E t) \<and> n \<le> int (length (bc_blockAddresses c))"

text \<open>What a call that may fail promises: the store stays consistent; on success the key has the new value,
  on failure every key has the value it had; it succeeds when the pool has the blocks and the device
  answers.\<close>

definition put_result :: "io_env \<Rightarrow> FileIO \<Rightarrow> nat \<Rightarrow> bytes \<Rightarrow> int \<Rightarrow> (ErrorCode \<times> FileIO) option \<Rightarrow> bool" where
  "put_result E s k v n r \<longleftrightarrow> (\<exists>e s'. r = Some (e, s') \<and> fio_inv E s' \<and> fio_blockLimit s' = fio_blockLimit s \<and>
     length (fio_mapping s') = length (fio_mapping s) \<and> (\<forall>x. sizeless s' x \<longrightarrow> sizeless s x) \<and>
     (e = Success \<and> fio_value s' = (fio_value s)(k \<mapsto> v) \<or> e = DiskIOFail \<and> fio_value s' = fio_value s) \<and>
     (pool_ready E n (fio_ctl s) \<longrightarrow> e = Success))"

text \<open>Every entry of the mapping fits an \<^verbatim>\<open>AddressType\<close>, and the number of keys a \<^verbatim>\<open>SizeType\<close>.\<close>

definition mapping_fits :: "FileIO \<Rightarrow> bool" where
  "mapping_fits s \<longleftrightarrow> length (fio_mapping s) < 2 ^ 31 \<and>
     (\<forall>arr. Some arr \<in> set (fio_mapping s) \<longrightarrow> (\<forall>x \<in> set arr. - (2 ^ 63) \<le> x \<and> x < 2 ^ 63))"

text \<open>A store with one posting of 5000 bytes, a key without a posting, and a key with an array but no posting.\<close>

definition sample_store :: FileIO where
  "sample_store = \<lparr>fio_blockLimit = 4, fio_bufferLimit = 1,
     fio_mapping = [Some [5000, 2, 5, -1], None, Some [-1, -1, -1, -1]],
     fio_buffer = [[-1, -1, -1, -1]], fio_ctl = sample_controller\<rparr>"

definition sample_reqs :: "bytes list" where
  "sample_reqs = replicate 4 (replicate 4096 0)"

text \<open>A device that fails every request.\<close>

definition broken_device :: io_env where
  "broken_device = good_device\<lparr>e_done := \<lambda>t i. False\<rparr>"

subsection \<open>Cells\<close>

lemma block_count_div: "0 \<le> x \<Longrightarrow> block_count x = (x + 4095) div 4096"
  by (simp add: block_count_def PageSize_def PageSizeEx_def drop_bit_eq_div)

lemma value_blocks_nat:
  assumes "length v < 2 ^ 31"
  shows "value_blocks v = int ((length v + 4095) div 4096)"
    "block_count (int (length v)) = int ((length v + 4095) div 4096)"
proof -
  show bc: "block_count (int (length v)) = int ((length v + 4095) div 4096)"
    by (simp add: block_count_div zdiv_int)
  have "(length v + 4095) div 4096 < 2 ^ 31" using assms by (simp add: div_less_iff_less_mult)
  then show "value_blocks v = int ((length v + 4095) div 4096)"
    unfolding value_blocks_def bc by (intro to_int32_id) auto
qed

lemma cell_ok_array:
  assumes "cell_ok limit (Some arr)" "0 < limit"
  obtains sz bs where "arr = sz # bs" "length bs = limit - 1" "nat (block_count sz) \<le> length bs"
  using assms by (cases arr) (auto simp: cell_ok_def)

lemma cell_of_blocks:
  assumes "0 \<le> sz" "length xs = nat (block_count sz)"
  shows "cell_blocks (Some (sz # xs @ rest)) = xs"
    "cell_value pages (Some (sz # xs @ rest)) = Some (take (nat sz) (concat (map pages xs)))"
  using assms by auto

lemma cell_value_cong:
  "(\<And>a. a \<in> set (cell_blocks p) \<Longrightarrow> f a = g a) \<Longrightarrow> cell_value f p = cell_value g p"
  by (cases "(f, p)" rule: cell_value.cases) (auto cong: map_cong)

lemma fio_inv_cell:
  assumes "fio_inv E s" "k < length (fio_mapping s)"
  shows "cell_ok (fio_blockLimit s) (fio_mapping s ! k)" "distinct (cell_blocks (fio_mapping s ! k))"
    "set (cell_blocks (fio_mapping s ! k)) \<subseteq> bc_used (fio_ctl s)"
  using assms nth_mem[OF assms(2)] by (auto simp: fio_inv_def)

lemma fio_inv_disjoint:
  "fio_inv E s \<Longrightarrow> i < length (fio_mapping s) \<Longrightarrow> j < length (fio_mapping s) \<Longrightarrow> i \<noteq> j \<Longrightarrow>
   set (cell_blocks (fio_mapping s ! i)) \<inter> set (cell_blocks (fio_mapping s ! j)) = {}"
  by (simp add: fio_inv_def)

text \<open>One cell, the controller and the queue of arrays change; the blocks of the other cells keep their
  owner and their content.\<close>

lemma fio_update:
  assumes inv: "fio_inv E s" and k: "k < length (fio_mapping s)"
    and s': "fio_mapping s' = (fio_mapping s)[k := p]" "fio_blockLimit s' = fio_blockLimit s"
      "fio_bufferLimit s' = fio_bufferLimit s"
    and c: "bc_inv (fio_ctl s')" "growth_ok E (fio_ctl s')" "device_ok (fio_ctl s')"
    and p: "cell_ok (fio_blockLimit s) p" "distinct (cell_blocks p)" "set (cell_blocks p) \<subseteq> bc_used (fio_ctl s')"
    and others: "\<And>i. i < length (fio_mapping s) \<Longrightarrow> i \<noteq> k \<Longrightarrow>
      set (cell_blocks (fio_mapping s ! i)) \<subseteq> bc_used (fio_ctl s') \<and>
      set (cell_blocks (fio_mapping s ! i)) \<inter> set (cell_blocks p) = {} \<and>
      (\<forall>a \<in> set (cell_blocks (fio_mapping s ! i)). bc_pages (fio_ctl s') a = bc_pages (fio_ctl s) a)"
    and buf: "fio_buffer s' \<noteq> []" "\<forall>arr \<in> set (fio_buffer s'). length arr = fio_blockLimit s"
  shows "fio_inv E s'" "fio_value s' = (fio_value s)(k := cell_value (bc_pages (fio_ctl s')) p)"
proof -
  let ?m = "fio_mapping s"
  have cells: "cell_ok (fio_blockLimit s) q \<and> distinct (cell_blocks q) \<and> set (cell_blocks q) \<subseteq> bc_used (fio_ctl s')"
    if "q \<in> set (?m[k := p])" for q
  proof -
    from that obtain i where i: "i < length ?m" "q = ?m[k := p] ! i" by (auto simp: in_set_conv_nth)
    then show ?thesis
      using p fio_inv_cell[OF inv i(1)] others[of i] by (cases "i = k") auto
  qed
  have "set (cell_blocks (?m[k := p] ! i)) \<inter> set (cell_blocks (?m[k := p] ! j)) = {}"
    if "i < length ?m" "j < length ?m" "i \<noteq> j" for i j
  proof (cases "i = k \<or> j = k")
    case True
    then show ?thesis using that k others[of i] others[of j] by (auto simp: Int_commute)
  next
    case False
    then show ?thesis using fio_inv_disjoint[OF inv that] by simp
  qed
  then show "fio_inv E s'"
    using cells inv c buf s' by (auto simp: fio_inv_def)
  show "fio_value s' = (fio_value s)(k := cell_value (bc_pages (fio_ctl s')) p)"
  proof
    fix i
    show "fio_value s' i = ((fio_value s)(k := cell_value (bc_pages (fio_ctl s')) p)) i"
      using k s' others[of i] by (auto simp: fio_value_def nth_list_update intro!: cell_value_cong)
  qed
qed

lemma fio_extend_inv:
  assumes "fio_inv E s"
  shows "fio_inv E (fio_extend key s)" "fio_value (fio_extend key s) = fio_value s"
    "0 \<le> key \<Longrightarrow> key < fio_R (fio_extend key s)" "fio_blockLimit (fio_extend key s) = fio_blockLimit s"
    "fio_ctl (fio_extend key s) = fio_ctl s" "fio_buffer (fio_extend key s) = fio_buffer s"
    "fio_bufferLimit (fio_extend key s) = fio_bufferLimit s" "sizeless (fio_extend key s) x = sizeless s x"
proof -
  let ?d = "replicate (nat (key + 1 - fio_R s)) (None :: int list option)"
  have m: "fio_mapping (fio_extend key s) = fio_mapping s @ ?d"
    by (simp add: fio_extend_def Let_def)
  show f: "fio_blockLimit (fio_extend key s) = fio_blockLimit s" "fio_ctl (fio_extend key s) = fio_ctl s"
    "fio_buffer (fio_extend key s) = fio_buffer s" "fio_bufferLimit (fio_extend key s) = fio_bufferLimit s"
    by (simp_all add: fio_extend_def Let_def)
  show "0 \<le> key \<Longrightarrow> key < fio_R (fio_extend key s)" by (simp add: fio_R_def m)
  have nd: "?d ! i = None" if "i < length ?d" for i using that by simp
  have "cell_ok l None" for l by (simp add: cell_ok_def)
  then show "fio_inv E (fio_extend key s)"
    using assms unfolding fio_inv_def f m by (auto simp: nth_append nd dest!: in_set_replicate[THEN iffD1])
  show "fio_value (fio_extend key s) = fio_value s"
    by (auto simp: fio_value_def f m nth_append fun_eq_iff)
  show "sizeless (fio_extend key s) x = sizeless s x"
    by (auto simp: sizeless_def fio_R_def m nth_append nd nat_less_iff)
qed

subsection \<open>Get\<close>

lemma fio_ReadBlocks_cases:
  assumes "fio_inv E s" "reqs_ok s reqs" "0 \<le> sz" "nat (block_count sz) < fio_blockLimit s" "nat (block_count sz) \<le> length bs"
  obtains ok w c where "fio_ReadBlocks E (Some (sz # bs)) reqs v s = Some (ok, w, s\<lparr>fio_ctl := c\<rparr>)"
    "ok \<longrightarrow> w = take (nat sz) (concat (map (bc_pages (fio_ctl s)) (take (nat (block_count sz)) bs)))"
    "(\<forall>t i. e_done E t i) \<longrightarrow> ok" "fio_inv E (s\<lparr>fio_ctl := c\<rparr>)" "fio_value (s\<lparr>fio_ctl := c\<rparr>) = fio_value s"
    "bc_pages c = bc_pages (fio_ctl s)" "bc_used c = bc_used (fio_ctl s)"
    "bc_blockAddresses c = bc_blockAddresses (fio_ctl s)"
proof -
  have "block_count sz \<le> int (length reqs)"
    using assms(2-4) block_count_nonneg[OF assms(3)] by (auto simp: reqs_ok_def)
  then obtain ok w c where c: "bc_ReadBlocks E (PArray (sz # bs)) reqs v (fio_ctl s) = Some (ok, w, c)"
    "ok \<longrightarrow> w = take (nat sz) (concat (map (bc_pages (fio_ctl s)) (take (nat (block_count sz)) bs)))"
    "(\<forall>t i. e_done E t i) \<longrightarrow> ok" "bc_pages c = bc_pages (fio_ctl s)" "bc_inv c = bc_inv (fio_ctl s)"
    "bc_used c = bc_used (fio_ctl s)" "growth_ok E c = growth_ok E (fio_ctl s)"
    "bc_blockAddresses c = bc_blockAddresses (fio_ctl s)"
    using ReadBlocks_cases[OF assms(3) _ assms(5)] by metis
  have "fio_inv E (s\<lparr>fio_ctl := c\<rparr>)" using assms(1) c(4-7) by (simp add: fio_inv_def device_ok_def)
  moreover have "fio_value (s\<lparr>fio_ctl := c\<rparr>) = fio_value s" by (simp add: fio_value_def c(4) fun_eq_iff)
  ultimately show thesis using that c by (simp add: fio_ReadBlocks_def)
qed

subsection \<open>Put\<close>

text \<open>The controller and the queue of arrays change, no cell does.\<close>

lemma fio_ctl_update:
  assumes "fio_inv E s" "bc_inv c" "growth_ok E c" "device_ok c" "bc_used (fio_ctl s) \<subseteq> bc_used c"
    "\<And>a. a \<in> bc_used (fio_ctl s) \<Longrightarrow> bc_pages c a = bc_pages (fio_ctl s) a"
    "q \<noteq> []" "\<forall>arr \<in> set q. length arr = fio_blockLimit s"
  shows "fio_inv E (s\<lparr>fio_ctl := c, fio_buffer := q\<rparr>)" "fio_value (s\<lparr>fio_ctl := c, fio_buffer := q\<rparr>) = fio_value s"
proof -
  show "fio_inv E (s\<lparr>fio_ctl := c, fio_buffer := q\<rparr>)"
    using assms(1-5,7,8) order.trans[OF _ assms(5)] by (simp add: fio_inv_def)
  show "fio_value (s\<lparr>fio_ctl := c, fio_buffer := q\<rparr>) = fio_value s"
  proof
    fix i
    show "fio_value (s\<lparr>fio_ctl := c, fio_buffer := q\<rparr>) i = fio_value s i"
      using assms(6) fio_inv_cell(3)[OF assms(1), of i] by (auto simp: fio_value_def intro!: cell_value_cong)
  qed
qed

lemma fio_GetBlocks_spec:
  assumes "fio_inv E s" "0 \<le> n" "off + nat n \<le> length arr" "fio_ctl s' = fio_ctl s"
  obtains ok xs c where
    "fio_GetBlocks E arr off n s' = Some (ok, take off arr @ xs @ drop (off + length xs) arr, s'\<lparr>fio_ctl := c\<rparr>)"
    "bc_GetBlocks E n (fio_ctl s) = Some (ok, xs, c)"
    "bc_inv c" "growth_ok E c" "device_ok c" "distinct xs" "set xs \<inter> bc_used (fio_ctl s) = {}"
    "bc_used c = bc_used (fio_ctl s) \<union> set xs" "bc_pages c = bc_pages (fio_ctl s)"
    "ok \<longrightarrow> length xs = nat n" "length xs \<le> nat n"
proof -
  have c0: "bc_inv (fio_ctl s)" "growth_ok E (fio_ctl s)" "device_ok (fio_ctl s)"
    using assms(1) by (auto simp: fio_inv_def)
  obtain ok xs c where g: "bc_GetBlocks E n (fio_ctl s) = Some (ok, xs, c)" "bc_inv c" "growth_ok E c" "distinct xs"
    "set xs \<inter> bc_used (fio_ctl s) = {}" "bc_used c = bc_used (fio_ctl s) \<union> set xs" "same_device (fio_ctl s) c"
    "ok \<longrightarrow> length xs = nat n" "\<not> ok \<longrightarrow> length xs < nat n \<or> xs = []"
    using GetBlocks_spec[OF c0(1,2) assms(2)] by metis
  have le: "length xs \<le> nat n" using g(8,9) by (cases ok) auto
  show thesis
    by (rule that[OF _ g(1-3) _ g(4-6)])
      (use g c0(3) le assms(3,4) in \<open>auto simp: fio_GetBlocks_def seg_write_def same_device_def device_ok_def\<close>)
qed

lemma fio_WriteBlocks_spec:
  assumes "length arr = fio_blockLimit s" "off + length xs \<le> length arr" "take (length xs) (drop off arr) = xs"
    "reqs_ok s reqs" "length xs = nat (block_count (int (length v)))" "distinct xs" "device_ok (fio_ctl s1)"
    "n = int (length xs)"
  obtains ok c where "fio_WriteBlocks E arr off n v reqs s1 = Some (ok, s1\<lparr>fio_ctl := c\<rparr>)"
    "\<forall>a. a \<notin> set xs \<longrightarrow> bc_pages c a = bc_pages (fio_ctl s1) a" "bc_inv c = bc_inv (fio_ctl s1)"
    "bc_used c = bc_used (fio_ctl s1)" "growth_ok E c = growth_ok E (fio_ctl s1)" "device_ok c"
    "ok \<longrightarrow> take (length v) (concat (map (bc_pages c) xs)) = v" "bc_total c = bc_total (fio_ctl s1)"
    "(\<forall>t i. e_done E t i) \<longrightarrow> ok"
proof -
  have "length xs \<le> length reqs" using assms(1,2,4) by (simp add: reqs_ok_def)
  moreover have "4096 * (length xs - 1) \<le> length v" using assms(5) unfolding block_count_nat by linarith
  ultimately obtain ok c where w: "bc_WriteBlocks E xs v reqs (fio_ctl s1) = Some (ok, c)"
    using WriteBlocks_returns by metis
  have reqs: "\<forall>b \<in> set reqs. length b = 4096" using assms(4) by (simp add: reqs_ok_def)
  show thesis
  proof (rule that)
    show "fio_WriteBlocks E arr off n v reqs s1 = Some (ok, s1\<lparr>fio_ctl := c\<rparr>)"
      using w assms(2,3,8) by (simp add: fio_WriteBlocks_def seg_read_def)
    show "device_ok c" by (rule WriteBlocks_device[OF w assms(7) reqs])
    show "ok \<longrightarrow> take (length v) (concat (map (bc_pages c) xs)) = v"
      using WriteBlocks_value[OF _ assms(6,5) reqs, of E "fio_ctl s1" c] w by auto
    show "(\<forall>t i. e_done E t i) \<longrightarrow> ok"
      using w by (auto simp: bc_WriteBlocks_def Let_def split: if_splits)
  qed (use WriteBlocks_frame[OF w] in auto)
qed

lemma fio_ReleaseBlocks_spec:
  assumes "bc_inv (fio_ctl s1)" "growth_ok E (fio_ctl s1)" "device_ok (fio_ctl s1)" "set xs \<subseteq> bc_used (fio_ctl s1)"
    "off + length xs \<le> length arr" "take (length xs) (drop off arr) = xs" "n = int (length xs)"
  obtains c where "fio_ReleaseBlocks arr off n s1 = Some (True, s1\<lparr>fio_ctl := c\<rparr>)" "bc_inv c" "growth_ok E c"
    "device_ok c" "bc_used c = bc_used (fio_ctl s1) - set xs" "bc_pages c = bc_pages (fio_ctl s1)"
proof -
  have sub: "set xs \<subseteq> {0..<bc_total (fio_ctl s1)}" using assms(4) by (auto simp: bc_used_def)
  obtain c where r: "bc_ReleaseBlocks xs (fio_ctl s1) = Some (True, c)"
    using ReleaseBlocks_spec[OF assms(1) sub] by blast
  note u = ReleaseBlocks_used[OF assms(1) sub r]
  show thesis
  proof (rule that)
    show "fio_ReleaseBlocks arr off n s1 = Some (True, s1\<lparr>fio_ctl := c\<rparr>)"
      using r assms(5-7) by (simp add: fio_ReleaseBlocks_def seg_read_def)
    show "growth_ok E c" using u(5) assms(2) by blast
    show "device_ok c" using u(4) assms(3) by (simp add: device_ok_def same_device_def)
  qed (use u in \<open>auto simp: same_device_def\<close>)
qed

lemma ctl_keepsD:
  assumes "ctl_keeps E s c"
  shows "bc_inv c" "growth_ok E c" "device_ok c" "bc_used (fio_ctl s) \<subseteq> bc_used c"
    "a \<in> bc_used (fio_ctl s) \<Longrightarrow> bc_pages c a = bc_pages (fio_ctl s) a"
  using assms by (auto simp: ctl_keeps_def)

text \<open>Allocating blocks into an array and writing a value to them, the common part of \<^verbatim>\<open>Put\<close> and \<^verbatim>\<open>Merge\<close>:
  the pool has too few blocks; or a write fails and the blocks go back; or the value is in new blocks.\<close>

lemma fio_alloc_write:
  assumes inv: "fio_inv E s" and arr: "length arr = fio_blockLimit s" "off + n \<le> length arr"
    and s': "fio_ctl s' = fio_ctl s" and n: "n = nat (block_count (int (length v)))" and reqs: "reqs_ok s reqs"
  obtains
    (few) xs c where "length xs \<le> n" "ctl_keeps E s c" "fio_GetBlocks E arr off (int n) s' =
        Some (False, take off arr @ xs @ drop (off + length xs) arr, s'\<lparr>fio_ctl := c\<rparr>)"
      "\<not> pool_ready E (int n) (fio_ctl s)"
  | (failed) xs c1 c2 c3 where "length xs = n" "ctl_keeps E s c3" "\<not> pool_ready E (int n) (fio_ctl s)"
      "fio_GetBlocks E arr off (int n) s' = Some (True, take off arr @ xs @ drop (off + n) arr, s'\<lparr>fio_ctl := c1\<rparr>)"
      "\<forall>a. length a = fio_blockLimit s \<longrightarrow> take n (drop off a) = xs \<longrightarrow>
         fio_WriteBlocks E a off (int n) v reqs (s'\<lparr>fio_ctl := c1\<rparr>) = Some (False, s'\<lparr>fio_ctl := c2\<rparr>) \<and>
         fio_ReleaseBlocks a off (int n) (s'\<lparr>fio_ctl := c2\<rparr>) = Some (True, s'\<lparr>fio_ctl := c3\<rparr>)"
  | (written) xs c1 c2 where "length xs = n" "ctl_keeps E s c2" "distinct xs" "set xs \<inter> bc_used (fio_ctl s) = {}"
      "bc_used c2 = bc_used (fio_ctl s) \<union> set xs" "take (length v) (concat (map (bc_pages c2) xs)) = v"
      "fio_GetBlocks E arr off (int n) s' = Some (True, take off arr @ xs @ drop (off + n) arr, s'\<lparr>fio_ctl := c1\<rparr>)"
      "\<forall>a. length a = fio_blockLimit s \<longrightarrow> take n (drop off a) = xs \<longrightarrow>
         fio_WriteBlocks E a off (int n) v reqs (s'\<lparr>fio_ctl := c1\<rparr>) = Some (True, s'\<lparr>fio_ctl := c2\<rparr>)"
proof -
  let ?U = "bc_used (fio_ctl s)"
  obtain ok xs c where g:
    "fio_GetBlocks E arr off (int n) s' = Some (ok, take off arr @ xs @ drop (off + length xs) arr, s'\<lparr>fio_ctl := c\<rparr>)"
    "bc_GetBlocks E (int n) (fio_ctl s) = Some (ok, xs, c)"
    "bc_inv c" "growth_ok E c" "device_ok c" "distinct xs" "set xs \<inter> ?U = {}" "bc_used c = ?U \<union> set xs"
    "bc_pages c = bc_pages (fio_ctl s)" "ok \<Longrightarrow> length xs = n" "length xs \<le> n"
    using fio_GetBlocks_spec[OF inv, of "int n" off arr s'] arr s' by auto
  show thesis
  proof (cases ok)
    case False
    have "bc_inv (fio_ctl s)" "growth_ok E (fio_ctl s)" using inv by (auto simp: fio_inv_def)
    then have "\<not> pool_ready E (int n) (fio_ctl s)"
      using GetBlocks_enough[of "fio_ctl s" E "int n" xs c] g(2) False by (auto simp: pool_ready_def)
    then show thesis using few[of xs c] g False by (auto simp: ctl_keeps_def)
  next
    case True
    then have lx: "length xs = n" by (rule g(10))
    let ?a = "take off arr @ xs @ drop (off + n) arr" and ?s1 = "s'\<lparr>fio_ctl := c\<rparr>"
    have a: "length ?a = fio_blockLimit s" "off + length xs \<le> length ?a" "take (length xs) (drop off ?a) = xs"
      using arr lx by simp_all
    have pre: "length xs = nat (block_count (int (length v)))" "device_ok (fio_ctl ?s1)" "int n = int (length xs)"
      using n lx g(5) by simp_all
    obtain w c2 where w: "fio_WriteBlocks E ?a off (int n) v reqs ?s1 = Some (w, ?s1\<lparr>fio_ctl := c2\<rparr>)"
      "\<forall>a. a \<notin> set xs \<longrightarrow> bc_pages c2 a = bc_pages (fio_ctl ?s1) a" "bc_inv c2 = bc_inv (fio_ctl ?s1)"
      "bc_used c2 = bc_used (fio_ctl ?s1)" "growth_ok E c2 = growth_ok E (fio_ctl ?s1)" "device_ok c2"
      "w \<longrightarrow> take (length v) (concat (map (bc_pages c2) xs)) = v" "bc_total c2 = bc_total (fio_ctl ?s1)"
      "(\<forall>t i. e_done E t i) \<longrightarrow> w"
      using fio_WriteBlocks_spec[OF a reqs pre(1) g(6) pre(2,3), where E = E] .
    have keeps: "ctl_keeps E s c2" using w(2-6) g(3,4,7-9) by (auto simp: ctl_keeps_def)
    have wr: "fio_WriteBlocks E b off (int n) v reqs ?s1 = Some (w, s'\<lparr>fio_ctl := c2\<rparr>)"
      if "length b = fio_blockLimit s" "take n (drop off b) = xs" for b
      using w(1) that arr a(1,2) lx by (simp add: fio_WriteBlocks_def seg_read_def)
    show thesis
    proof (cases w)
      case w1: True
      then show thesis
        using written[of xs c2 c] wr lx keeps g(1,6-8) True w(4,7) by auto
    next
      case w0: False
      let ?s2 = "s'\<lparr>fio_ctl := c2\<rparr>"
      have c2: "bc_inv (fio_ctl ?s2)" "growth_ok E (fio_ctl ?s2)" "device_ok (fio_ctl ?s2)" "set xs \<subseteq> bc_used (fio_ctl ?s2)"
        using w(3-6) g(3,4,8) by simp_all
      obtain c3 where r: "fio_ReleaseBlocks ?a off (int n) ?s2 = Some (True, ?s2\<lparr>fio_ctl := c3\<rparr>)"
        "bc_inv c3" "growth_ok E c3" "device_ok c3" "bc_used c3 = bc_used (fio_ctl ?s2) - set xs"
        "bc_pages c3 = bc_pages (fio_ctl ?s2)"
        using fio_ReleaseBlocks_spec[OF c2 a(2,3) pre(3)] .
      have release: "fio_ReleaseBlocks b off (int n) ?s2 = Some (True, s'\<lparr>fio_ctl := c3\<rparr>)"
        if "length b = fio_blockLimit s" "take n (drop off b) = xs" for b
        using r(1) that arr a(1,2) lx by (simp add: fio_ReleaseBlocks_def seg_read_def)
      have "ctl_keeps E s c3" using r(2-6) w(2,4) g(7-9) by (auto simp: ctl_keeps_def)
      moreover have "\<not> pool_ready E (int n) (fio_ctl s)" using w0 w(9) by (auto simp: pool_ready_def)
      ultimately show thesis
        using failed[of xs c3 c c2] lx wr release w0 g(1) True by auto
    qed
  qed
qed

lemma snoc_ne: "xs @ [x] \<noteq> []"
  by simp

lemma sizeless_frame [simp]:
  "sizeless (s\<lparr>fio_ctl := c\<rparr>) = sizeless s" "sizeless (s\<lparr>fio_buffer := q\<rparr>) = sizeless s"
  by (auto simp: sizeless_def fio_R_def fun_eq_iff)

lemma sizeless_upd:
  "0 \<le> sz \<Longrightarrow> sizeless (s\<lparr>fio_mapping := (fio_mapping s)[k := Some (sz # r)]\<rparr>) x \<Longrightarrow> sizeless s x"
  by (cases "k = nat x") (auto simp: sizeless_def fio_R_def nat_less_iff)

lemma put_result_failed:
  assumes "fio_inv E s" "ctl_keeps E s c" "q \<noteq> []" "\<forall>arr \<in> set q. length arr = fio_blockLimit s"
    "\<not> pool_ready E n (fio_ctl s)"
  shows "put_result E s k v n (Some (DiskIOFail, s\<lparr>fio_ctl := c, fio_buffer := q\<rparr>))"
  using fio_ctl_update[OF assms(1) ctl_keepsD[OF assms(2)] assms(3,4)] assms(5) unfolding put_result_def
  by (intro exI[of _ DiskIOFail] exI[of _ "s\<lparr>fio_ctl := c, fio_buffer := q\<rparr>"]) auto

lemma put_result_done:
  assumes "fio_inv E s" "k < length (fio_mapping s)"
    "bc_inv c" "growth_ok E c" "device_ok c" "0 \<le> sz" "length xs = nat (block_count sz)"
    "length xs + length rest + 1 = fio_blockLimit s" "distinct xs" "set xs \<subseteq> bc_used c"
    "\<And>i. i < length (fio_mapping s) \<Longrightarrow> i \<noteq> k \<Longrightarrow>
      set (cell_blocks (fio_mapping s ! i)) \<subseteq> bc_used c \<and>
      set (cell_blocks (fio_mapping s ! i)) \<inter> set xs = {} \<and>
      (\<forall>a \<in> set (cell_blocks (fio_mapping s ! i)). bc_pages c a = bc_pages (fio_ctl s) a)"
    "take (nat sz) (concat (map (bc_pages c) xs)) = v" "q \<noteq> []" "\<forall>arr \<in> set q. length arr = fio_blockLimit s"
  shows "put_result E s k v n (Some (Success,
    s\<lparr>fio_mapping := (fio_mapping s)[k := Some (sz # xs @ rest)], fio_ctl := c, fio_buffer := q\<rparr>))"
proof -
  let ?s = "s\<lparr>fio_mapping := (fio_mapping s)[k := Some (sz # xs @ rest)], fio_ctl := c, fio_buffer := q\<rparr>"
  note cb = cell_of_blocks[OF assms(6,7), where rest = rest]
  have ok: "cell_ok (fio_blockLimit s) (Some (sz # xs @ rest))" using assms(6-8) by (auto simp: cell_ok_def)
  have "fio_inv E ?s \<and> fio_value ?s = (fio_value s)(k := cell_value (bc_pages c) (Some (sz # xs @ rest)))"
    using fio_update[OF assms(1,2), of ?s "Some (sz # xs @ rest)"] assms(3-5,9-11,13,14) ok
    unfolding cb by auto
  then show ?thesis using sizeless_upd[OF assms(6), of s k] unfolding put_result_def cb assms(12) by auto
qed

text \<open>The first write, with an array that is not yet the key's.\<close>

lemma fio_Put_first_spec:
  assumes "fio_inv E s" "0 \<le> key" "key < fio_R s" "fio_mapping s ! nat key = None"
    "length v < 2 ^ 31" "value_blocks v < int (fio_blockLimit s)" "reqs_ok s reqs"
    "length arr = fio_blockLimit s" "q \<noteq> []" "\<forall>arr \<in> set q. length arr = fio_blockLimit s"
  shows "put_result E s (nat key) v (value_blocks v) (fio_Put_first E key v reqs False arr (s\<lparr>fio_buffer := q\<rparr>))"
proof -
  define n where "n = nat (block_count (int (length v)))"
  let ?s0 = "s\<lparr>fio_buffer := q\<rparr>" and ?U = "bc_used (fio_ctl s)" and ?k = "nat key"
  have vb: "value_blocks v = int n" using value_blocks_nat[OF assms(5)] by (simp add: n_def)
  have n: "n < fio_blockLimit s" using assms(6) vb by simp
  have k: "?k < length (fio_mapping s)" using assms(2,3) by (simp add: fio_R_def nat_less_iff)
  obtain a0 ar where a0: "arr = a0 # ar" using assms(8) n by (cases arr) auto
  have le: "1 + n \<le> length arr" using assms(8) n by simp
  have len2: "length (int (length v) # xs @ drop n ar) = fio_blockLimit s" if "length xs = n" for xs
    using that assms(8) n a0 by simp
  have c0: "fio_ctl ?s0 = fio_ctl s" by simp
  show ?thesis
    using assms(1,8) le c0 n_def assms(7)
  proof (cases rule: fio_alloc_write)
    case (few xs c)
    have e: "fio_Put_first E key v reqs False arr ?s0 = Some (DiskIOFail, s\<lparr>fio_ctl := c, fio_buffer := q\<rparr>)"
      using few(3) by (simp add: fio_Put_first_def vb)
    show ?thesis unfolding e vb by (rule put_result_failed[OF assms(1) few(2) assms(9,10)]) (use few(4) in simp)
  next
    case (failed xs c1 c2 c3)
    note len2[OF failed(1)]
    then have e: "fio_Put_first E key v reqs False arr ?s0 = Some (DiskIOFail, s\<lparr>fio_ctl := c3, fio_buffer := q\<rparr>)"
      using failed(1,4,5) n by (simp add: fio_Put_first_def vb a0 seg_write_def)
    show ?thesis unfolding e by (rule put_result_failed[OF assms(1) failed(2) assms(9,10)]) (use failed(3) vb in simp)
  next
    case (written xs c1 c2)
    note len = len2[OF written(1)] and c2 = ctl_keepsD[OF written(2)]
    have "fio_Put_first E key v reqs False arr ?s0 = Some (Success, s\<lparr>fio_mapping :=
        (fio_mapping s)[?k := Some (int (length v) # xs @ drop n ar)], fio_ctl := c2, fio_buffer := q\<rparr>)"
      using written(1,7,8) len by (simp add: fio_Put_first_def vb a0 fio_set_def)
    moreover have "put_result E s ?k v (value_blocks v) (Some (Success, s\<lparr>fio_mapping :=
        (fio_mapping s)[?k := Some (int (length v) # xs @ drop n ar)], fio_ctl := c2, fio_buffer := q\<rparr>))"
    proof (rule put_result_done[OF assms(1) k c2(1-3)])
      fix i assume "i < length (fio_mapping s)" "i \<noteq> ?k"
      with fio_inv_cell(3)[OF assms(1) this(1)]
      show "set (cell_blocks (fio_mapping s ! i)) \<subseteq> bc_used c2 \<and> set (cell_blocks (fio_mapping s ! i)) \<inter> set xs = {} \<and>
          (\<forall>a \<in> set (cell_blocks (fio_mapping s ! i)). bc_pages c2 a = bc_pages (fio_ctl s) a)"
        using written(4) c2(4,5) by auto
    qed (use written len n_def assms(9,10) in auto)
    ultimately show ?thesis by simp
  qed
qed

text \<open>A key's array and its blocks.\<close>

lemma fio_cell_array:
  assumes "fio_inv E s" "0 \<le> key" "key < fio_R s" "fio_mapping s ! nat key = Some arr" "0 \<le> arr ! 0"
  obtains sz ob rest where "arr = sz # ob @ rest" "0 \<le> sz" "length ob = nat (block_count sz)"
    "cell_blocks (Some arr) = ob" "distinct ob" "set ob \<subseteq> bc_used (fio_ctl s)" "length arr = fio_blockLimit s"
    "nat (block_count sz) < fio_blockLimit s" "to_int32 (block_count sz) = int (length ob)" "nat key < length (fio_mapping s)"
    "\<forall>i < length (fio_mapping s). i \<noteq> nat key \<longrightarrow> set (cell_blocks (fio_mapping s ! i)) \<inter> set ob = {}"
proof -
  have k: "nat key < length (fio_mapping s)" using assms(2,3) by (simp add: fio_R_def nat_less_iff)
  have L: "0 < fio_blockLimit s" "fio_blockLimit s < 2 ^ 18" using assms(1) by (auto simp: fio_inv_def)
  note c = fio_inv_cell[OF assms(1) k, unfolded assms(4)]
  obtain sz bs where a: "arr = sz # bs" "length bs = fio_blockLimit s - 1" "nat (block_count sz) \<le> length bs"
    using cell_ok_array[OF c(1) L(1)] by blast
  let ?ob = "take (nat (block_count sz)) bs"
  have sz: "0 \<le> sz" "cell_blocks (Some arr) = ?ob" using assms(5) a by auto
  have lbs: "nat (block_count sz) < 2 ^ 18" using a(2,3) L by simp
  have t32: "to_int32 (block_count sz) = int (length ?ob)"
    using block_count_nonneg[OF sz(1)] a(3) lbs by (intro trans[OF to_int32_id]) auto
  have dis: "\<forall>i < length (fio_mapping s). i \<noteq> nat key \<longrightarrow> set (cell_blocks (fio_mapping s ! i)) \<inter> set ?ob = {}"
    using fio_inv_disjoint[OF assms(1) _ k] assms(4) sz(2) by auto
  show thesis
    by (rule that[of sz ?ob "drop (nat (block_count sz)) bs"]) (use a sz c t32 dis k L in auto)
qed

text \<open>Overwriting: the new blocks are written before the old ones are released.\<close>

lemma fio_Put_over_spec:
  assumes "fio_inv E s" "0 \<le> key" "key < fio_R s" "fio_mapping s ! nat key = Some old" "0 \<le> old ! 0"
    "length v < 2 ^ 31" "value_blocks v < int (fio_blockLimit s)" "reqs_ok s reqs"
  shows "put_result E s (nat key) v (value_blocks v) (fio_Put_over E key v reqs old s)"
proof -
  define n where "n = nat (block_count (int (length v)))"
  let ?U = "bc_used (fio_ctl s)" and ?k = "nat key" and ?L = "fio_blockLimit s" and ?m = "fio_mapping s"
  have vb: "value_blocks v = int n" using value_blocks_nat[OF assms(6)] by (simp add: n_def)
  have n: "n < ?L" using assms(7) vb by simp
  obtain tmp q0 where tq: "fio_buffer s = tmp # q0" using assms(1) by (cases "fio_buffer s") (auto simp: fio_inv_def)
  have bl: "length tmp = ?L" "\<forall>arr \<in> set q0. length arr = ?L" using assms(1) tq by (auto simp: fio_inv_def)
  obtain a0 ar where a0: "tmp = a0 # ar" using bl(1) n by (cases tmp) auto
  have le: "1 + n \<le> length tmp" using bl(1) n by simp
  obtain sz ob orest where o: "old = sz # ob @ orest" "0 \<le> sz" "length ob = nat (block_count sz)"
    "cell_blocks (Some old) = ob" "distinct ob" "set ob \<subseteq> ?U" "length old = ?L"
    "nat (block_count sz) < ?L" "to_int32 (block_count sz) = int (length ob)" "?k < length ?m"
    "\<forall>i < length ?m. i \<noteq> ?k \<longrightarrow> set (cell_blocks (?m ! i)) \<inter> set ob = {}"
    using fio_cell_array[OF assms(1-5)] .
  let ?s0 = "s\<lparr>fio_buffer := q0\<rparr>"
  note unf = fio_Put_over_def vb tq queue_try_pop_def fio_push_def queue_push_def fio_set_def
  have c0: "fio_ctl ?s0 = fio_ctl s" by simp
  show ?thesis
    using assms(1) bl(1) le c0 n_def assms(8)
  proof (cases rule: fio_alloc_write)
    case (few xs c)
    let ?t = "take 1 tmp @ xs @ drop (1 + length xs) tmp"
    have e: "fio_Put_over E key v reqs old s = Some (DiskIOFail, s\<lparr>fio_ctl := c, fio_buffer := q0 @ [?t]\<rparr>)"
      using few(3) by (simp add: unf)
    have "\<forall>arr \<in> set (q0 @ [?t]). length arr = ?L" using bl few(1) n by auto
    then show ?thesis unfolding e vb by (rule put_result_failed[OF assms(1) few(2) snoc_ne]) (use few(4) in simp)
  next
    case (failed xs c1 c2 c3)
    let ?t = "int (length v) # xs @ drop n ar"
    have len: "length ?t = ?L" using failed(1) bl(1) n a0 by simp
    then have e: "fio_Put_over E key v reqs old s = Some (DiskIOFail, s\<lparr>fio_ctl := c3, fio_buffer := q0 @ [?t]\<rparr>)"
      using failed(1,4,5) by (simp add: unf a0)
    have "\<forall>arr \<in> set (q0 @ [?t]). length arr = ?L" using bl len by auto
    then show ?thesis unfolding e by (rule put_result_failed[OF assms(1) failed(2) snoc_ne]) (use failed(3) vb in simp)
  next
    case (written xs c1 c2)
    let ?t = "int (length v) # xs @ drop n ar" and ?s2 = "?s0\<lparr>fio_ctl := c2\<rparr>"
    have len: "length ?t = ?L" using written(1) bl(1) n a0 by simp
    note c2 = ctl_keepsD[OF written(2)]
    have rp: "bc_inv (fio_ctl ?s2)" "growth_ok E (fio_ctl ?s2)" "device_ok (fio_ctl ?s2)"
      "set ob \<subseteq> bc_used (fio_ctl ?s2)" "1 + length ob \<le> length old" "take (length ob) (drop 1 old) = ob"
      using c2(1-4) o(1,6) by auto
    obtain c3 where r: "fio_ReleaseBlocks old 1 (int (length ob)) ?s2 = Some (True, ?s2\<lparr>fio_ctl := c3\<rparr>)"
      "bc_inv c3" "growth_ok E c3" "device_ok c3" "bc_used c3 = bc_used (fio_ctl ?s2) - set ob"
      "bc_pages c3 = bc_pages (fio_ctl ?s2)"
      using fio_ReleaseBlocks_spec[OF rp refl] .
    have "fio_Put_over E key v reqs old s = Some (Success,
        s\<lparr>fio_mapping := ?m[?k := Some ?t], fio_ctl := c3, fio_buffer := q0 @ [old]\<rparr>)"
      using written(1,7,8) len r(1) o(1,9) by (simp add: unf a0)
    moreover have "put_result E s ?k v (value_blocks v) (Some (Success,
        s\<lparr>fio_mapping := ?m[?k := Some ?t], fio_ctl := c3, fio_buffer := q0 @ [old]\<rparr>))"
    proof (rule put_result_done[OF assms(1) o(10) r(2-4)])
      show "set xs \<subseteq> bc_used c3" using r(5) written(4,5) o(6) by auto
      fix i assume i: "i < length ?m" "i \<noteq> ?k"
      show "set (cell_blocks (?m ! i)) \<subseteq> bc_used c3 \<and> set (cell_blocks (?m ! i)) \<inter> set xs = {} \<and>
          (\<forall>a \<in> set (cell_blocks (?m ! i)). bc_pages c3 a = bc_pages (fio_ctl s) a)"
        using fio_inv_cell(3)[OF assms(1) i(1)] o(11) i written(4) c2(4,5) r(5,6) by auto
    qed (use written len n_def bl o(7) r(6) in auto)
    ultimately show ?thesis by simp
  qed
qed

lemma fio_Put_raw_spec:
  assumes "fio_inv E s" "0 \<le> key" "length v < 2 ^ 31" "reqs_ok s reqs" "\<not> sizeless s key"
    "value_blocks v < int (fio_blockLimit s)"
  shows "put_result E (fio_extend key s) (nat key) v (value_blocks v) (fio_Put_raw E key v reqs s)"
proof -
  let ?s = "fio_extend key s"
  note x = fio_extend_inv[OF assms(1)]
  have k: "0 \<le> key" "key < fio_R ?s" using assms(2) x(3) by auto
  have pre: "value_blocks v < int (fio_blockLimit ?s)" "reqs_ok ?s reqs" using assms(4,6) x(4) by (auto simp: reqs_ok_def)
  have at: "fio_At key ?s = Some (fio_mapping ?s ! nat key)" using k by (simp add: fio_At_def)
  have raw: "fio_Put_raw E key v reqs s = fio_Put_disk E key v reqs ?s"
    using assms(6) by (simp add: fio_Put_raw_def)
  have L: "0 < fio_blockLimit ?s" using x(1) by (simp add: fio_inv_def)
  show ?thesis
  proof (cases "fio_mapping ?s ! nat key")
    case None
    let ?q = "if length (fio_buffer ?s) > fio_bufferLimit ?s then tl (fio_buffer ?s) else fio_buffer ?s"
    have q: "fio_new_array ?s = (replicate (fio_blockLimit ?s) (- 1), ?s\<lparr>fio_buffer := ?q\<rparr>)"
      by (simp add: fio_new_array_def)
    have "?q \<noteq> []" "\<forall>arr \<in> set ?q. length arr = fio_blockLimit ?s"
      using x(1)[of key] by (auto simp: fio_inv_def tl_Nil dest: list.set_sel(2))
    then show ?thesis
      using fio_Put_first_spec[OF x(1) k None assms(3) pre, of "replicate (fio_blockLimit ?s) (- 1)" ?q] at None L
      by (simp add: raw fio_Put_disk_def q)
  next
    case (Some arr)
    have "cell_ok (fio_blockLimit ?s) (Some arr)"
      using fio_inv_cell(1)[OF x(1)[of key], of "nat key"] k Some by (simp add: fio_R_def nat_less_iff)
    then obtain sz bs where arr: "arr = sz # bs" using cell_ok_array[OF _ L] by blast
    have "\<not> sz < 0"
    proof
      assume neg: "sz < 0"
      have "key < fio_R s"
        using Some by (rule_tac ccontr) (auto simp: fio_extend_def fio_R_def nth_append split: if_splits)
      then show False
        using assms(5) neg Some arr k(1) by (auto simp: sizeless_def fio_extend_def fio_R_def split: if_splits)
    qed
    then show ?thesis
      using fio_Put_over_spec[OF x(1) k Some _ assms(3) pre] at Some arr by (simp add: raw fio_Put_disk_def)
  qed
qed

text \<open>\<^verbatim>\<open>Put\<close> on every branch.\<close>

lemma fio_Put_raw_cases:
  assumes "fio_inv E s" "0 \<le> key" "length v < 2 ^ 31" "reqs_ok s reqs" "\<not> sizeless s key"
  shows "\<exists>e s'. fio_Put_raw E key v reqs s = Some (e, s') \<and> fio_inv E s' \<and>
     fio_value s' = (if e = Success then (fio_value s)(nat key \<mapsto> v) else fio_value s) \<and>
     e \<in> {Success, DiskIOFail, Posting_OverFlow} \<and>
     (e = Posting_OverFlow \<longleftrightarrow> value_blocks v \<ge> int (fio_blockLimit s)) \<and>
     (value_blocks v < int (fio_blockLimit s) \<and> pool_ready E (value_blocks v) (fio_ctl s) \<longrightarrow> e = Success) \<and>
     fio_blockLimit s' = fio_blockLimit s \<and> (\<forall>x. sizeless s' x \<longrightarrow> sizeless s x) \<and> fio_R s \<le> fio_R s'"
proof (cases "value_blocks v < int (fio_blockLimit s)")
  case True
  note x = fio_extend_inv[OF assms(1), of key]
  have R: "fio_R s \<le> fio_R (fio_extend key s)" by (simp add: fio_extend_def fio_R_def Let_def)
  from fio_Put_raw_spec[OF assms True] obtain e s' where r: "fio_Put_raw E key v reqs s = Some (e, s')" "fio_inv E s'"
    "e = Success \<and> fio_value s' = (fio_value s)(nat key \<mapsto> v) \<or> e = DiskIOFail \<and> fio_value s' = fio_value s"
    "pool_ready E (value_blocks v) (fio_ctl s) \<longrightarrow> e = Success" "fio_blockLimit s' = fio_blockLimit s"
    "\<forall>y. sizeless s' y \<longrightarrow> sizeless s y" "fio_R s \<le> fio_R s'"
    using R by (auto simp: put_result_def x(2,4,5,8) fio_R_def)
  then show ?thesis using True by (intro exI[of _ e] exI[of _ s']) auto
next
  case False
  then have "fio_Put_raw E key v reqs s = Some (Posting_OverFlow, s)" by (simp add: fio_Put_raw_def)
  then show ?thesis using False assms(1) by auto
qed

subsection \<open>Merge\<close>

lemma block_count_split:
  "block_count (4096 * int q + int m) = int (q + (m + 4095) div 4096)"
proof -
  have "4096 * int q + int m + 4095 = int (4096 * q + (m + 4095))" by simp
  also have "\<dots> div 4096 = int ((4096 * q + (m + 4095)) div 4096)" by (simp only: zdiv_int of_nat_numeral)
  also have "(4096 * q + (m + 4095)) div 4096 = q + (m + 4095) div 4096" by simp
  finally show ?thesis by (simp add: block_count_div)
qed

lemma concat_pages_length: "device_ok c \<Longrightarrow> length (concat (map (bc_pages c) xs)) = 4096 * length xs"
  by (induction xs) (auto simp: device_ok_def)

text \<open>The value of full blocks followed by others.\<close>

lemma value_append:
  assumes "device_ok c"
  shows "take (4096 * length xs + m) (concat (map (bc_pages c) (xs @ ys))) =
    concat (map (bc_pages c) xs) @ take m (concat (map (bc_pages c) ys))"
  using concat_pages_length[OF assms, of xs] by simp

lemma map_pages_cong: "(\<And>a. a \<in> set xs \<Longrightarrow> f a = g a) \<Longrightarrow> concat (map f xs) = concat (map g xs)"
  by (simp cong: map_cong)

text \<open>A failure after the unused part of the key's own array was changed.\<close>

lemma put_result_kept:
  assumes "fio_inv E s" "k < length (fio_mapping s)" "fio_mapping s ! k = Some (sz # ob @ r)" "0 \<le> sz"
    "length ob = nat (block_count sz)" "length r' = length r" "ctl_keeps E s c" "\<not> pool_ready E n (fio_ctl s)"
  shows "put_result E s k v n (Some (DiskIOFail,
    s\<lparr>fio_mapping := (fio_mapping s)[k := Some (sz # ob @ r')], fio_ctl := c\<rparr>))"
proof -
  let ?s = "s\<lparr>fio_mapping := (fio_mapping s)[k := Some (sz # ob @ r')], fio_ctl := c\<rparr>"
  note cell = fio_inv_cell[OF assms(1,2), unfolded assms(3)] and c = ctl_keepsD[OF assms(7)]
  note cb = cell_of_blocks[OF assms(4,5)]
  have ok: "cell_ok (fio_blockLimit s) (Some (sz # ob @ r'))" using cell(1) assms(6) by (simp add: cell_ok_def)
  have oth: "set (cell_blocks (fio_mapping s ! i)) \<subseteq> bc_used c \<and> set (cell_blocks (fio_mapping s ! i)) \<inter> set ob = {} \<and>
      (\<forall>a \<in> set (cell_blocks (fio_mapping s ! i)). bc_pages c a = bc_pages (fio_ctl s) a)"
    if "i < length (fio_mapping s)" "i \<noteq> k" for i
    using fio_inv_cell(3)[OF assms(1) that(1)] c(4,5)
      fio_inv_disjoint[OF assms(1) that(1) assms(2) that(2), unfolded assms(3) cb(1)] by auto
  have u: "set ob \<subseteq> bc_used (fio_ctl s)" "distinct ob" using cell(2,3) unfolding cb by auto
  have "concat (map (bc_pages c) ob) = concat (map (bc_pages (fio_ctl s)) ob)" using u c(5) by (intro map_pages_cong) auto
  then have v: "cell_value (bc_pages c) (Some (sz # ob @ r')) = fio_value s k"
    using assms(2) by (simp add: fio_value_def assms(3) cb del: cell_value.simps cell_blocks.simps)
  have "fio_buffer s \<noteq> []" "\<forall>arr \<in> set (fio_buffer s). length arr = fio_blockLimit s" using assms(1) by (auto simp: fio_inv_def)
  then have "fio_inv E ?s \<and> fio_value ?s = (fio_value s)(k := cell_value (bc_pages c) (Some (sz # ob @ r')))"
    using fio_update[OF assms(1,2), of ?s "Some (sz # ob @ r')"] c(1-4) ok oth u
    unfolding cb(1) by (auto simp del: cell_value.simps)
  then show ?thesis using assms(8) sizeless_upd[OF assms(4), of s k] unfolding v by (auto simp: put_result_def)
qed

lemma fio_Merge_aligned_spec:
  assumes "fio_inv E s" "0 \<le> key" "key < fio_R s" "fio_mapping s ! nat key = Some arr" "0 \<le> arr ! 0"
    "arr ! 0 mod PageSize = 0" "newSize = arr ! 0 + int (length v)" "nat (block_count newSize) < fio_blockLimit s"
    "reqs_ok s reqs" "fio_value s (nat key) = Some old"
  shows "put_result E s (nat key) (old @ v) (block_count newSize - arr ! 0 div PageSize)
    (fio_Merge_aligned E key v reqs arr newSize s)"
proof -
  let ?k = "nat key" and ?m = "fio_mapping s" and ?U = "bc_used (fio_ctl s)"
  obtain sz ob r where o: "arr = sz # ob @ r" "0 \<le> sz" "length ob = nat (block_count sz)"
    "cell_blocks (Some arr) = ob" "distinct ob" "set ob \<subseteq> ?U" "length arr = fio_blockLimit s"
    "nat (block_count sz) < fio_blockLimit s" "to_int32 (block_count sz) = int (length ob)" "?k < length ?m"
    "\<forall>i < length ?m. i \<noteq> ?k \<longrightarrow> set (cell_blocks (?m ! i)) \<inter> set ob = {}"
    using fio_cell_array[OF assms(1-5)] .
  define q n where "q = length ob" and "n = nat (block_count (int (length v)))"
  have P: "PageSize = 4096" by (simp add: PageSize_def PageSizeEx_def)
  define q' where "q' = nat (sz div 4096)"
  have "sz mod 4096 = 0" "0 \<le> sz div 4096" using assms(6) o(1,2) by (simp_all add: P)
  then have q': "sz = 4096 * int q'" using mult_div_mod_eq[of 4096 sz] by (simp add: q'_def)
  have sz: "sz = 4096 * int q" "block_count sz = int q"
    using o(3) block_count_split[of q' 0] q' by (auto simp: q_def)
  have nn: "n = (length v + 4095) div 4096" by (simp add: n_def block_count_nat)
  have new: "newSize = 4096 * int q + int (length v)" "block_count newSize = int (q + n)"
    using assms(7) o(1) sz block_count_split[of q "length v"] by (simp_all add: nn)
  have L: "fio_blockLimit s < 2 ^ 18" using assms(1) by (simp add: fio_inv_def)
  have t32: "to_int32 (block_count newSize) = int (q + n)" "to_int32 (sz div PageSize) = int q"
    using new(2) assms(8) L sz by (auto simp: P intro!: to_int32_id)
  have le: "1 + q + n \<le> length arr" using assms(8) new(2) o(7) by simp
  have tk: "take (1 + q) arr = sz # ob" "drop (1 + q + j) arr = drop j r" for j by (simp_all add: o(1) q_def)
  have val: "old = concat (map (bc_pages (fio_ctl s)) ob)"
  proof -
    have "Some old = cell_value (bc_pages (fio_ctl s)) (Some (sz # ob @ r))"
      using assms(4,10) o(10) by (simp add: fio_value_def o(1) del: cell_value.simps)
    moreover have "device_ok (fio_ctl s)" using assms(1) by (simp add: fio_inv_def)
    ultimately show ?thesis
      using concat_pages_length[of "fio_ctl s" ob] sz(1)
      unfolding cell_of_blocks(2)[OF o(2,3)] by (simp add: q_def nat_mult_distrib)
  qed
  have wr: "take n (drop (1 + q) (sz # ob @ xs @ r')) = xs" "take n (drop (1 + q) (newSize # ob @ xs @ r')) = xs"
    if "length xs = n" for xs r' using that by (simp_all add: q_def)
  have lr: "n \<le> length r" "length r = fio_blockLimit s - 1 - q" using le o(1,7) by (simp_all add: q_def)
  note kept = put_result_kept[OF assms(1) o(10) assms(4)[unfolded o(1)] o(2,3)]
  have al: "block_count newSize - arr ! 0 div PageSize = int n" using new(2) sz(1) o(1) by (simp add: P)
  have off: "nat (1 + to_int32 (arr ! 0 div PageSize)) = 1 + q"
    "to_int32 (block_count newSize) - to_int32 (arr ! 0 div PageSize) = int n"
    using t32 o(1) by (simp_all add: nat_add_distrib)
  note unf = fio_Merge_aligned_def Let_def off
  show ?thesis
    using assms(1) o(7) le refl[of "fio_ctl s"] n_def assms(9)
  proof (cases rule: fio_alloc_write)
    case (few xs c)
    have e: "fio_Merge_aligned E key v reqs arr newSize s = Some (DiskIOFail,
        s\<lparr>fio_mapping := ?m[?k := Some (sz # ob @ xs @ drop (length xs) r)], fio_ctl := c\<rparr>)"
      using few(3) unfolding unf tk by (simp add: fio_set_def)
    show ?thesis unfolding e al by (rule kept[OF _ few(2,4)]) (use few(1) lr in simp)
  next
    case (failed xs c1 c2 c3)
    have "length (sz # ob @ xs @ drop n r) = fio_blockLimit s" using failed(1) lr le o(7) by (simp add: q_def)
    note w = failed(5)[rule_format, OF this wr(1)[OF failed(1)]]
    have e: "fio_Merge_aligned E key v reqs arr newSize s = Some (DiskIOFail,
        s\<lparr>fio_mapping := ?m[?k := Some (sz # ob @ xs @ drop n r)], fio_ctl := c3\<rparr>)"
      using failed(4) w unfolding unf tk by (simp add: fio_set_def)
    show ?thesis unfolding e al by (rule kept[OF _ failed(2,3)]) (use failed(1) lr in simp)
  next
    case (written xs c1 c2)
    note c2 = ctl_keepsD[OF written(2)]
    have "length (sz # ob @ xs @ drop n r) = fio_blockLimit s" using written(1) lr le o(7) by (simp add: q_def)
    note w = written(8)[rule_format, OF this wr(1)[OF written(1)]]
    have e: "fio_Merge_aligned E key v reqs arr newSize s = Some (Success,
        s\<lparr>fio_mapping := ?m[?k := Some (newSize # (ob @ xs) @ drop n r)], fio_ctl := c2, fio_buffer := fio_buffer s\<rparr>)"
      using written(7) w unfolding unf tk by (simp add: fio_set_def)
    have "concat (map (bc_pages c2) ob) = old" unfolding val using o(6) c2(5) by (intro map_pages_cong) auto
    then have v: "take (nat newSize) (concat (map (bc_pages c2) (ob @ xs))) = old @ v"
      using value_append[OF c2(3), of ob "length v" xs] written(6) new(1) by (simp add: q_def nat_add_distrib nat_mult_distrib)
    show ?thesis unfolding e al
    proof (rule put_result_done[OF assms(1) o(10) c2(1-3) _ _ _ _ _ _ v])
      show "set (ob @ xs) \<subseteq> bc_used c2" "distinct (ob @ xs)" using o(5,6) written(3-5) by auto
      show "fio_buffer s \<noteq> []" "\<forall>arr \<in> set (fio_buffer s). length arr = fio_blockLimit s"
        using assms(1) by (auto simp: fio_inv_def)
      fix i assume i: "i < length ?m" "i \<noteq> ?k"
      show "set (cell_blocks (?m ! i)) \<subseteq> bc_used c2 \<and> set (cell_blocks (?m ! i)) \<inter> set (ob @ xs) = {} \<and>
          (\<forall>a \<in> set (cell_blocks (?m ! i)). bc_pages c2 a = bc_pages (fio_ctl s) a)"
        using fio_inv_cell(3)[OF assms(1) i(1)] o(11) i written(4) c2(4,5) by auto
    qed (use new sz(1) written(1) lr le o(7) in \<open>auto simp: q_def\<close>)
  qed
qed


lemma put_result_later:
  assumes "put_result E (s\<lparr>fio_ctl := c\<rparr>) k v n r" "fio_value (s\<lparr>fio_ctl := c\<rparr>) = fio_value s"
    "bc_blockAddresses c = bc_blockAddresses (fio_ctl s)"
  shows "put_result E s k v n r"
  using assms by (auto simp: put_result_def pool_ready_def)

text \<open>The partly filled last block \<open>lb\<close> of a posting, and the blocks before it.\<close>

lemma fio_last_block:
  assumes "fio_inv E s" "0 \<le> key" "key < fio_R s" "fio_mapping s ! nat key = Some arr" "0 \<le> arr ! 0"
    "arr ! 0 mod PageSize \<noteq> 0" "fio_value s (nat key) = Some old"
  obtains q m pre lb rest where "arr = (4096 * int q + int m) # (pre @ [lb]) @ rest" "length pre = q" "0 < m" "m < 4096"
    "distinct (pre @ [lb])" "set (pre @ [lb]) \<subseteq> bc_used (fio_ctl s)" "length arr = fio_blockLimit s"
    "nat key < length (fio_mapping s)"
    "old = concat (map (bc_pages (fio_ctl s)) pre) @ take m (bc_pages (fio_ctl s) lb)"
    "\<forall>i < length (fio_mapping s). i \<noteq> nat key \<longrightarrow> set (cell_blocks (fio_mapping s ! i)) \<inter> set (pre @ [lb]) = {}"
proof -
  let ?k = "nat key" and ?m = "fio_mapping s" and ?U = "bc_used (fio_ctl s)"
  obtain sz ob r where o: "arr = sz # ob @ r" "0 \<le> sz" "length ob = nat (block_count sz)"
    "cell_blocks (Some arr) = ob" "distinct ob" "set ob \<subseteq> ?U" "length arr = fio_blockLimit s"
    "nat (block_count sz) < fio_blockLimit s" "to_int32 (block_count sz) = int (length ob)" "?k < length ?m"
    "\<forall>i < length ?m. i \<noteq> ?k \<longrightarrow> set (cell_blocks (?m ! i)) \<inter> set ob = {}"
    using fio_cell_array[OF assms(1-5)] .
  define q m where "q = nat (sz div 4096)" and "m = nat (sz mod 4096)"
  have sz: "sz = 4096 * int q + int m" "0 < m" "m < 4096"
    using assms(6) o(1,2) pos_mod_sign[of 4096 sz] pos_mod_bound[of 4096 sz]
    by (auto simp: q_def m_def PageSize_def PageSizeEx_def nat_less_iff)
  have "(m + 4095) div 4096 = 1" using sz(2,3) by linarith
  then have "length ob = Suc q" using o(3) block_count_split[of q m] sz(1) by simp
  then obtain pre lb where ob: "ob = pre @ [lb]" "length pre = q" by (cases ob rule: rev_cases) auto
  have "Some old = cell_value (bc_pages (fio_ctl s)) (Some (sz # ob @ r))"
    using assms(4,7) o(10) by (simp add: fio_value_def o(1) del: cell_value.simps)
  also have "\<dots> = Some (take (4096 * length pre + m) (concat (map (bc_pages (fio_ctl s)) (pre @ [lb]))))"
    unfolding cell_of_blocks(2)[OF o(2,3)] using sz(1) ob by (simp add: nat_add_distrib nat_mult_distrib)
  also have "\<dots> = Some (concat (map (bc_pages (fio_ctl s)) pre) @ take m (bc_pages (fio_ctl s) lb))"
    using assms(1) value_append[of "fio_ctl s" pre m "[lb]"] by (simp add: fio_inv_def)
  finally show thesis using that[of q m pre lb r] o sz ob by simp
qed

lemma fio_Merge_tail_spec:
  assumes "fio_inv E s" "arr = sz # (pre @ [lb]) @ r" "length arr = fio_blockLimit s" "reqs_ok s reqs"
    "n = nat (block_count (int (length v)))" "newSize = 4096 * int (length pre) + int (length v)"
    "length pre + n < fio_blockLimit s" "distinct (pre @ [lb])" "set (pre @ [lb]) \<subseteq> bc_used (fio_ctl s)"
    "nat key < length (fio_mapping s)"
    "\<forall>i < length (fio_mapping s). i \<noteq> nat key \<longrightarrow> set (cell_blocks (fio_mapping s ! i)) \<inter> set (pre @ [lb]) = {}"
  shows "put_result E s (nat key) (concat (map (bc_pages (fio_ctl s)) pre) @ v) (int n)
    (fio_Merge_tail E key v reqs arr newSize (1 + length pre) (int n) s)"
proof -
  let ?k = "nat key" and ?m = "fio_mapping s" and ?U = "bc_used (fio_ctl s)" and ?L = "fio_blockLimit s"
  let ?q = "length pre"
  obtain tmp q0 where tq: "fio_buffer s = tmp # q0" using assms(1) by (cases "fio_buffer s") (auto simp: fio_inv_def)
  have bl: "length tmp = ?L" "\<forall>arr \<in> set q0. length arr = ?L" using assms(1) tq by (auto simp: fio_inv_def)
  let ?t0 = "sz # pre @ drop (1 + ?q) tmp" and ?s0 = "s\<lparr>fio_buffer := q0\<rparr>"
  have t0: "seg_write tmp 0 (take (1 + ?q) arr) = Some ?t0" using assms(2,3) bl(1) by (simp add: seg_write_def)
  have l0: "length ?t0 = ?L" "1 + ?q + n \<le> length ?t0" using bl(1) assms(7) by simp_all
  have tk: "take (1 + ?q) ?t0 = sz # pre" "drop (1 + ?q + j) ?t0 = drop (1 + ?q + j) tmp" for j by (simp_all add: add.commute)
  have c0: "fio_ctl ?s0 = fio_ctl s" by simp
  have wr: "take n (drop (1 + ?q) (sz # pre @ xs @ r')) = xs" if "length xs = n" for xs r' using that by simp
  have len: "length (sz # pre @ xs @ drop (1 + ?q + n) tmp) = ?L" if "length xs = n" for xs
    using that bl(1) assms(7) by simp
  note unf = fio_Merge_tail_def tq queue_try_pop_def list.case option.case prod.case t0 fio_push_def queue_push_def
  show ?thesis
    using assms(1) l0 c0 assms(5,4)
  proof (cases rule: fio_alloc_write)
    case (few xs c)
    let ?t = "sz # pre @ xs @ drop (1 + ?q + length xs) tmp"
    have e: "fio_Merge_tail E key v reqs arr newSize (1 + ?q) (int n) s =
        Some (DiskIOFail, s\<lparr>fio_ctl := c, fio_buffer := q0 @ [?t]\<rparr>)"
      using few(3) unfolding unf tk by simp
    have "\<forall>arr \<in> set (q0 @ [?t]). length arr = ?L" using bl few(1) assms(7) by auto
    then show ?thesis unfolding e by (rule put_result_failed[OF assms(1) few(2) snoc_ne]) (use few(4) in simp)
  next
    case (failed xs c1 c2 c3)
    let ?t = "sz # pre @ xs @ drop (1 + ?q + n) tmp"
    note w = failed(5)[rule_format, OF len[OF failed(1)] wr[OF failed(1)]]
    have e: "fio_Merge_tail E key v reqs arr newSize (1 + ?q) (int n) s =
        Some (DiskIOFail, s\<lparr>fio_ctl := c3, fio_buffer := q0 @ [?t]\<rparr>)"
      using failed(4) w unfolding unf tk by simp
    have "\<forall>arr \<in> set (q0 @ [?t]). length arr = ?L" using bl len[OF failed(1)] by auto
    then show ?thesis unfolding e by (rule put_result_failed[OF assms(1) failed(2) snoc_ne]) (use failed(3) in simp)
  next
    case (written xs c1 c2)
    let ?t = "newSize # (pre @ xs) @ drop (1 + ?q + n) tmp" and ?s2 = "?s0\<lparr>fio_ctl := c2\<rparr>"
    note w = written(8)[rule_format, OF len[OF written(1)] wr[OF written(1)]] and c2 = ctl_keepsD[OF written(2)]
    have rp: "bc_inv (fio_ctl ?s2)" "growth_ok E (fio_ctl ?s2)" "device_ok (fio_ctl ?s2)"
      "set [lb] \<subseteq> bc_used (fio_ctl ?s2)" "1 + ?q + length [lb] \<le> length arr" "take (length [lb]) (drop (1 + ?q) arr) = [lb]"
      "1 = int (length [lb])"
      using c2(1-4) assms(2,9) by auto
    obtain c3 where r: "fio_ReleaseBlocks arr (1 + ?q) 1 ?s2 = Some (True, ?s2\<lparr>fio_ctl := c3\<rparr>)"
      "bc_inv c3" "growth_ok E c3" "device_ok c3" "bc_used c3 = bc_used (fio_ctl ?s2) - set [lb]"
      "bc_pages c3 = bc_pages (fio_ctl ?s2)"
      using fio_ReleaseBlocks_spec[OF rp] .
    have e: "fio_Merge_tail E key v reqs arr newSize (1 + ?q) (int n) s = Some (Success,
        s\<lparr>fio_mapping := ?m[?k := Some ?t], fio_ctl := c3, fio_buffer := q0 @ [arr]\<rparr>)"
      using written(7) w r(1) unfolding unf tk by (simp add: fio_set_def)
    have "concat (map (bc_pages c3) pre) = concat (map (bc_pages (fio_ctl s)) pre)"
      using assms(9) c2(5) r(6) by (intro map_pages_cong) auto
    then have v: "take (nat newSize) (concat (map (bc_pages c3) (pre @ xs))) = concat (map (bc_pages (fio_ctl s)) pre) @ v"
      using value_append[OF r(4), of pre "length v" xs] written(6) r(6) assms(6)
      by (simp add: nat_add_distrib nat_mult_distrib)
    have nb: "block_count newSize = int (?q + n)"
      using block_count_split[of ?q "length v"] by (simp add: assms(5,6) block_count_nat)
    show ?thesis unfolding e
    proof (rule put_result_done[OF assms(1) assms(10) r(2-4) _ _ _ _ _ _ v])
      show "set (pre @ xs) \<subseteq> bc_used c3" "distinct (pre @ xs)"
        using assms(8,9) written(3-5) r(5) by auto
      fix i assume i: "i < length ?m" "i \<noteq> ?k"
      show "set (cell_blocks (?m ! i)) \<subseteq> bc_used c3 \<and> set (cell_blocks (?m ! i)) \<inter> set (pre @ xs) = {} \<and>
          (\<forall>a \<in> set (cell_blocks (?m ! i)). bc_pages c3 a = bc_pages (fio_ctl s) a)"
        using fio_inv_cell(3)[OF assms(1) i(1)] assms(11) i written(4) c2(4,5) r(5,6) by auto
    qed (use nb assms(6) written(1) bl assms(3,7) in auto)
  qed
qed

lemma fio_Merge_partial_spec:
  assumes "fio_inv E s" "0 \<le> key" "key < fio_R s" "fio_mapping s ! nat key = Some arr" "0 \<le> arr ! 0"
    "arr ! 0 mod PageSize \<noteq> 0" "newSize = arr ! 0 + int (length v)" "nat (block_count newSize) < fio_blockLimit s"
    "reqs_ok s reqs" "fio_value s (nat key) = Some old"
  shows "put_result E s (nat key) (old @ v) (block_count newSize - arr ! 0 div PageSize)
    (fio_Merge_partial E key v reqs arr newSize s)"
proof -
  let ?k = "nat key" and ?m = "fio_mapping s" and ?U = "bc_used (fio_ctl s)" and ?L = "fio_blockLimit s"
  obtain q m pre lb r where o: "arr = (4096 * int q + int m) # (pre @ [lb]) @ r" "length pre = q" "0 < m" "m < 4096"
    "distinct (pre @ [lb])" "set (pre @ [lb]) \<subseteq> ?U" "length arr = ?L" "?k < length ?m"
    "old = concat (map (bc_pages (fio_ctl s)) pre) @ take m (bc_pages (fio_ctl s) lb)"
    "\<forall>i < length ?m. i \<noteq> ?k \<longrightarrow> set (cell_blocks (?m ! i)) \<inter> set (pre @ [lb]) = {}"
    using fio_last_block[OF assms(1-6,10)] .
  define part n where "part = take m (bc_pages (fio_ctl s) lb)" and "n = nat (block_count (int (length (part @ v))))"
  have P: "PageSize = 4096" by (simp add: PageSize_def PageSizeEx_def)
  have "length (bc_pages (fio_ctl s) lb) = 4096" using assms(1) by (simp add: fio_inv_def device_ok_def)
  then have lp: "length part = m" using o(4) by (simp add: part_def)
  have nn: "n = (m + length v + 4095) div 4096" unfolding n_def block_count_nat by (simp add: lp)
  have L: "?L < 2 ^ 18" using assms(1) by (simp add: fio_inv_def)
  have new: "newSize = 4096 * int q + int (m + length v)" "block_count newSize = int (q + n)"
    using assms(7) o(1) block_count_split[of q "m + length v"] by (simp_all add: nn add.assoc)
  have sz: "arr ! 0 div PageSize = int q" "arr ! 0 mod PageSize = int m" using o(1,4) by (simp_all add: P)
  have t32: "to_int32 (int q + int n) = int q + int n" "to_int32 (int q) = int q"
    using new(2) assms(8) L by (auto intro!: to_int32_id)
  have off: "nat (1 + to_int32 (int q)) = 1 + q" "to_int32 (block_count newSize) - to_int32 (int q) = int n"
    "arr ! (1 + q) = lb" "(length arr \<le> 1 + q) = False"
    using t32 o(1,2) unfolding new(2) by (simp_all add: nat_add_distrib nth_append)
  have al: "block_count newSize - arr ! 0 div PageSize = int n" using new(2) sz(1) by simp
  have nb: "length pre + n < ?L" using new(2) assms(8) o(2) by simp
  have rd: "nat (block_count (int m)) = 1" unfolding block_count_nat using o(3,4) by linarith
  obtain ok w c where R: "fio_ReadBlocks E (Some (int m # [lb])) reqs [] s = Some (ok, w, s\<lparr>fio_ctl := c\<rparr>)"
    "ok \<longrightarrow> w = take (nat (int m)) (concat (map (bc_pages (fio_ctl s)) (take (nat (block_count (int m))) [lb])))"
    "(\<forall>t i. e_done E t i) \<longrightarrow> ok" "fio_inv E (s\<lparr>fio_ctl := c\<rparr>)" "fio_value (s\<lparr>fio_ctl := c\<rparr>) = fio_value s"
    "bc_pages c = bc_pages (fio_ctl s)" "bc_used c = ?U" "bc_blockAddresses c = bc_blockAddresses (fio_ctl s)"
    using fio_ReadBlocks_cases[OF assms(1,9), of "int m" "[lb]" "[]"] rd o(1,7) by auto
  have wp: "ok \<longrightarrow> w = part" using R(2) rd by (simp add: part_def)
  note unf = fio_Merge_partial_def Let_def sz off R(1) if_False option.case prod.case
  show ?thesis
  proof (cases ok)
    case False
    then have "\<not> pool_ready E (int n) (fio_ctl s)" using R(3) by (auto simp: pool_ready_def)
    moreover have "fio_Merge_partial E key v reqs arr newSize s = Some (DiskIOFail, s\<lparr>fio_ctl := c\<rparr>)"
      using False unfolding unf by simp
    ultimately show ?thesis using R(4,5) al by (simp add: put_result_def)
  next
    case True
    have "put_result E (s\<lparr>fio_ctl := c\<rparr>) ?k (concat (map (bc_pages (fio_ctl (s\<lparr>fio_ctl := c\<rparr>))) pre) @ part @ v) (int n)
      (fio_Merge_tail E key (part @ v) reqs arr newSize (1 + length pre) (int n) (s\<lparr>fio_ctl := c\<rparr>))"
      by (rule fio_Merge_tail_spec[OF R(4) o(1) _ _ n_def])
        (use o(2,5-8,10) new(1) nb assms(9) R(7) lp in \<open>auto simp: reqs_ok_def\<close>)
    then have "put_result E s ?k (old @ v) (int n)
      (fio_Merge_tail E key (part @ v) reqs arr newSize (1 + length pre) (int n) (s\<lparr>fio_ctl := c\<rparr>))"
      using put_result_later[OF _ R(5,8)] R(6) o(9) by (simp add: part_def)
    then show ?thesis unfolding al unf using True wp o(2) new(2) by simp
  qed
qed


lemma posting_size_bound:
  assumes "nat (block_count sz) < limit" "limit < 2 ^ 18"
  shows "sz < 2 ^ 30"
proof (cases "0 \<le> sz")
  case True
  then have "(sz + 4095) div 4096 < 262144" using assms by (simp add: block_count_div)
  then show ?thesis using div_mult_mod_eq[of "sz + 4095" 4096] pos_mod_bound[of 4096 "sz + 4095"] by simp
qed simp

text \<open>The checks before a read.\<close>

lemma fio_lookup_cases:
  assumes "fio_inv E s" "0 \<le> key"
  obtains (none) "fio_value s (nat key) = None" "fio_lookup key s =
      Some (Inl (if key \<ge> fio_R s then Key_OverFlow else if sizeless s key then Posting_SizeError else Key_NotFound))"
  | (found) sz bs where "fio_lookup key s = Some (Inr (sz # bs))" "fio_mapping s ! nat key = Some (sz # bs)" "0 \<le> sz"
      "nat (block_count sz) < fio_blockLimit s" "nat (block_count sz) \<le> length bs" "nat key < length (fio_mapping s)"
      "fio_value s (nat key) = Some (take (nat sz) (concat (map (bc_pages (fio_ctl s)) (take (nat (block_count sz)) bs))))"
proof (cases "key < fio_R s")
  case True
  then have k: "nat key < length (fio_mapping s)" using assms(2) by (simp add: fio_R_def nat_less_iff)
  have at: "fio_At key s = Some (fio_mapping s ! nat key)" using True assms(2) by (simp add: fio_At_def)
  have L: "0 < fio_blockLimit s" "fio_blockLimit s < 2 ^ 18" using assms(1) by (auto simp: fio_inv_def)
  show thesis
  proof (cases "fio_mapping s ! nat key")
    case None
    then show thesis using True at k assms(2) by (intro none) (simp_all add: fio_lookup_def fio_value_def sizeless_def)
  next
    case (Some arr)
    have ok: "cell_ok (fio_blockLimit s) (Some arr)" using fio_inv_cell(1)[OF assms(1) k] Some by simp
    then obtain sz bs where a: "arr = sz # bs" "length bs = fio_blockLimit s - 1" "nat (block_count sz) \<le> length bs"
      using cell_ok_array[OF _ L(1)] by blast
    have lt: "nat (block_count sz) < fio_blockLimit s" "- 1 \<le> sz" using ok a(1) by (auto simp: cell_ok_def)
    show thesis
    proof (cases "sz < 0")
      case neg: True
      then have "to_int32 sz < 0" using lt(2) by (simp add: to_int32_id)
      then show thesis
        using True neg at k Some a(1) assms(2) by (intro none) (simp_all add: fio_lookup_def fio_value_def sizeless_def)
    next
      case False
      have "sz < 2 ^ 30" using posting_size_bound[of sz "fio_blockLimit s"] lt L by simp
      then have "\<not> to_int32 sz < 0" using False by (simp add: to_int32_id)
      then show thesis
        using True False at k Some a lt by (intro found[of sz bs]) (simp_all add: fio_lookup_def fio_value_def)
    qed
  qed
next
  case False
  then have "fio_value s (nat key) = None" using assms(2) by (simp add: fio_value_def fio_R_def nat_less_iff)
  then show thesis using False by (intro none) (simp_all add: fio_lookup_def)
qed

lemma fio_merge_lookup_spec:
  assumes "fio_inv E s" "0 \<le> key" "length v < 2 ^ 31"
  shows "fio_merge_lookup key v s =
    (case fio_value s (nat key) of
       None \<Rightarrow> Some (Inl (if key \<ge> fio_R s then Key_OverFlow else Key_NotFound))
     | Some old \<Rightarrow>
         (case fio_mapping s ! nat key of
            None \<Rightarrow> None
          | Some arr \<Rightarrow>
              Some (if block_count (arr ! 0 + int (length v)) \<ge> int (fio_blockLimit s) then Inl Posting_OverFlow
                    else Inr (arr, arr ! 0 + int (length v)))))"
proof (cases "key < fio_R s")
  case True
  then have k: "nat key < length (fio_mapping s)" using assms(2) by (simp add: fio_R_def nat_less_iff)
  have at: "fio_At key s = Some (fio_mapping s ! nat key)" using True assms(2) by (simp add: fio_At_def)
  have L: "0 < fio_blockLimit s" "fio_blockLimit s < 2 ^ 18" using assms(1) by (auto simp: fio_inv_def)
  show ?thesis
  proof (cases "fio_mapping s ! nat key")
    case None
    then show ?thesis using True at k by (simp add: fio_merge_lookup_def fio_value_def)
  next
    case (Some arr)
    have "cell_ok (fio_blockLimit s) (Some arr)" using fio_inv_cell(1)[OF assms(1) k] Some by simp
    then obtain sz bs where a: "arr = sz # bs" "length bs = fio_blockLimit s - 1" "nat (block_count sz) \<le> length bs"
      using cell_ok_array[OF _ L(1)] by blast
    have "to_int32 (block_count (sz + int (length v))) = block_count (sz + int (length v))" if "0 \<le> sz"
    proof -
      have "sz < 2 ^ 30" using a(2,3) L by (intro posting_size_bound[of sz "fio_blockLimit s"]) auto
      then show ?thesis using that assms(3) by (intro to_int32_id) (auto simp: block_count_div)
    qed
    then show ?thesis using True at k Some a(1) by (simp add: fio_merge_lookup_def fio_value_def Let_def)
  qed
next
  case False
  then have "fio_value s (nat key) = None" using assms(2) by (simp add: fio_value_def fio_R_def nat_less_iff)
  then show ?thesis using False by (simp add: fio_merge_lookup_def)
qed

lemma fio_Merge_disk_spec:
  assumes "fio_inv E s" "0 \<le> key" "key < fio_R s" "fio_mapping s ! nat key = Some arr" "fio_value s (nat key) = Some old"
    "newSize = arr ! 0 + int (length v)" "block_count newSize < int (fio_blockLimit s)" "reqs_ok s reqs"
  shows "put_result E s (nat key) (old @ v) (block_count newSize - arr ! 0 div PageSize)
    (fio_Merge_disk E key v reqs arr newSize s)"
proof -
  have k: "nat key < length (fio_mapping s)" using assms(2,3) by (simp add: fio_R_def nat_less_iff)
  have "arr \<noteq> []" using fio_inv_cell(1)[OF assms(1) k] assms(1,4) by (auto simp: cell_ok_def fio_inv_def)
  then have "0 \<le> arr ! 0" using assms(4,5) k by (cases arr) (auto simp: fio_value_def split: if_splits)
  moreover have "nat (block_count newSize) < fio_blockLimit s" using assms(1,7) by (auto simp: fio_inv_def)
  ultimately show ?thesis
    using fio_Merge_aligned_spec[OF assms(1-4) _ _ assms(6) _ assms(8,5)]
      fio_Merge_partial_spec[OF assms(1-4) _ _ assms(6) _ assms(8,5)] by (simp add: fio_Merge_disk_def)
qed

subsection \<open>Saving and loading\<close>

lemma decode_row_encode:
  "\<forall>x \<in> set row. - (2 ^ 63) \<le> x \<and> x < 2 ^ 63 \<Longrightarrow> decode_row (length row) (concat (map (int_encode 8) row)) = row"
  by (induction row) (auto simp: int_decode_encode)

lemma load_mapping_rows:
  assumes "\<forall>row \<in> set rows. length row = c \<and> (\<forall>x \<in> set row. - (2 ^ 63) \<le> x \<and> x < 2 ^ 63)"
  shows "load_mapping (length rows) c limit junk (concat (map (\<lambda>row. concat (map (int_encode 8) row)) rows)) acc =
    (Success, acc @ map (\<lambda>row. Some (row @ junk (limit - c))) rows)"
  using assms
proof (induction rows arbitrary: acc)
  case (Cons row rows)
  have "length (concat (map (int_encode 8) row)) = 8 * c"
    using Cons.prems by (simp add: length_concat o_def sum_list_triv)
  moreover have "decode_row c (concat (map (int_encode 8) row)) = row" using Cons.prems decode_row_encode[of row] by auto
  ultimately show ?case using Cons by simp
qed simp

lemma mapping_rows_fit:
  assumes "fio_inv E s" "mapping_fits s"
  shows "\<forall>row \<in> set (mapping_rows s). length row = fio_blockLimit s \<and> (\<forall>x \<in> set row. - (2 ^ 63) \<le> x \<and> x < 2 ^ 63)"
proof
  fix row assume "row \<in> set (mapping_rows s)"
  then obtain p where p: "p \<in> set (fio_mapping s)"
    "row = (case p of None \<Rightarrow> replicate (fio_blockLimit s) (- 1) | Some arr \<Rightarrow> take (fio_blockLimit s) arr)"
    by (auto simp: mapping_rows_def)
  have "cell_ok (fio_blockLimit s) p" using assms(1) p(1) by (simp add: fio_inv_def)
  then show "length row = fio_blockLimit s \<and> (\<forall>x \<in> set row. - (2 ^ 63) \<le> x \<and> x < 2 ^ 63)"
    using p assms(2) by (cases p) (auto simp: cell_ok_def mapping_fits_def dest: in_set_takeD)
qed

lemma saved_cell_value:
  assumes "cell_ok limit p" "0 < limit"
  shows "cell_value pages (Some ((case p of None \<Rightarrow> replicate limit (- 1) | Some arr \<Rightarrow> take limit arr) @ j)) = cell_value pages p"
proof (cases p)
  case None
  then show ?thesis using assms(2) by (cases limit) auto
next
  case (Some arr)
  obtain sz bs where a: "arr = sz # bs" "length bs = limit - 1" "nat (block_count sz) \<le> length bs"
    using cell_ok_array[OF assms(1)[unfolded Some] assms(2)] .
  then show ?thesis using assms(2) Some by simp
qed

subsection \<open>Properties of the store\<close>

lemma sample_store_facts:
  "fio_inv good_device sample_store" "fio_inv broken_device sample_store" "reqs_ok sample_store sample_reqs"
  "\<not> sizeless sample_store 0" "\<not> sizeless sample_store 1" "sizeless sample_store 2"
  "fio_value sample_store 0 = Some (replicate 5000 0)" "pool_ready good_device 2 sample_controller"
  "fio_value sample_store 9 = None" "fio_R sample_store = 3"
proof -
  note c = sample_controller_facts
  have d: "device_ok sample_controller" by (simp add: device_ok_def sample_controller_def bc_new_def)
  have g: "growth_ok broken_device sample_controller" using c(2) by (simp add: growth_ok_def broken_device_def)
  have b: "block_count 5000 = 2" "block_count (- 1) = 0" by code_simp+
  have "fio_inv E sample_store" if "growth_ok E sample_controller" for E
    unfolding fio_inv_def using c that d b
    by (auto simp: sample_store_def cell_ok_def less_Suc_eq nth_Cons' numeral_3_eq_3)
  then show "fio_inv good_device sample_store" "fio_inv broken_device sample_store" using c(2) g by auto
  show "fio_value sample_store 0 = Some (replicate 5000 0)"
    by (simp add: fio_value_def sample_store_def b sample_controller_def bc_new_def replicate_add[symmetric])
qed (auto simp: reqs_ok_def sample_reqs_def sizeless_def sample_store_def fio_R_def pool_ready_def good_device_def
      sample_controller_def fio_value_def)


text \<open>C9. \<^verbatim>\<open>Put\<close> on the posting file, as an update of a map from keys to byte strings: on every call the
  store stays consistent (arrays and blocks have one owner each); on success the key maps to the new value
  and every other key to its old one; on failure every key keeps its value, the overwritten one included.
  It fails only because the value needs too many pages, or because blocks or the device are not
  available. The key must not be one that has an array but no posting.\<close>

theorem posting_put:
  assumes "fio_inv E s" "0 \<le> key" "length v < 2 ^ 31" "reqs_ok s reqs" "\<not> sizeless s key"
  shows "\<exists>e s'. fio_Put_raw E key v reqs s = Some (e, s') \<and> fio_inv E s' \<and>
     fio_value s' = (if e = Success then (fio_value s)(nat key \<mapsto> v) else fio_value s) \<and>
     e \<in> {Success, DiskIOFail, Posting_OverFlow} \<and>
     (e = Posting_OverFlow \<longleftrightarrow> value_blocks v \<ge> int (fio_blockLimit s)) \<and>
     (value_blocks v < int (fio_blockLimit s) \<and> pool_ready E (value_blocks v) (fio_ctl s) \<longrightarrow> e = Success)"
  using fio_Put_raw_cases[OF assms] by metis

theorem posting_put_witness:
  "\<exists>s'. fio_Put_raw good_device 0 [1, 2, 3] sample_reqs sample_store = Some (Success, s') \<and>
     fio_value s' = (fio_value sample_store)(0 \<mapsto> [1, 2, 3])"
proof -
  have b: "value_blocks [1, 2, 3] = 1" by code_simp
  have "pool_ready good_device 1 (fio_ctl sample_store)"
    using sample_store_facts(8) by (simp add: pool_ready_def sample_store_def)
  then show ?thesis
    using posting_put[OF sample_store_facts(1) _ _ sample_store_facts(3,4), of "[1, 2, 3]"] b
    by (auto simp: sample_store_def)
qed




text \<open>\<^verbatim>\<open>Get\<close> on the posting file: a stored posting is returned byte for byte whenever the call reports
  success, which it does when the device answers; a read error is reported as a failure; a key without a
  posting gets its error code. No call changes a posting.\<close>

theorem posting_get:
  assumes "fio_inv E s" "0 \<le> key" "reqs_ok s reqs"
  shows "case fio_value s (nat key) of
      None \<Rightarrow> fio_Get_disk E key w reqs s =
        Some (if key \<ge> fio_R s then Key_OverFlow else if sizeless s key then Posting_SizeError else Key_NotFound, w, s)
    | Some v \<Rightarrow> \<exists>e w' s'. fio_Get_disk E key w reqs s = Some (e, w', s') \<and> fio_inv E s' \<and> fio_value s' = fio_value s \<and>
        (e = Success \<and> w' = v \<or> e = Fail) \<and> ((\<forall>t i. e_done E t i) \<longrightarrow> e = Success)"
  using assms(1,2)
proof (cases rule: fio_lookup_cases)
  case none
  then show ?thesis by (simp add: fio_Get_disk_def)
next
  case (found sz bs)
  from fio_ReadBlocks_cases[OF assms(1,3) found(3-5), of w] obtain ok w' c where
    r: "fio_ReadBlocks E (Some (sz # bs)) reqs w s = Some (ok, w', s\<lparr>fio_ctl := c\<rparr>)"
    "ok \<longrightarrow> w' = take (nat sz) (concat (map (bc_pages (fio_ctl s)) (take (nat (block_count sz)) bs)))"
    "(\<forall>t i. e_done E t i) \<longrightarrow> ok" "fio_inv E (s\<lparr>fio_ctl := c\<rparr>)" "fio_value (s\<lparr>fio_ctl := c\<rparr>) = fio_value s" .
  have "fio_Get_disk E key w reqs s = Some (if ok then Success else Fail, w', s\<lparr>fio_ctl := c\<rparr>)"
    using found(1) r(1) by (simp add: fio_Get_disk_def)
  then show ?thesis using r(2-5) found(7) by auto
qed

theorem posting_get_witness:
  "(\<exists>s'. fio_Get_disk good_device 0 [] sample_reqs sample_store = Some (Success, replicate 5000 0, s')) \<and>
   fio_Get_disk good_device 9 [] sample_reqs sample_store = Some (Key_OverFlow, [], sample_store)"
  using posting_get[OF sample_store_facts(1) _ sample_store_facts(3), of 0 "[]"]
    posting_get[OF sample_store_facts(1) _ sample_store_facts(3), of 9 "[]"] sample_store_facts(7,9,10)
  by (auto simp: good_device_def)

lemma fio_Delete_cases:
  assumes "fio_inv E s" "0 \<le> key"
  shows "case fio_value s (nat key) of
      None \<Rightarrow> fio_Delete_raw key s = Some (if key \<ge> fio_R s then Key_OverFlow else Key_NotFound, s)
    | Some v \<Rightarrow> \<exists>s'. fio_Delete_raw key s = Some (Success, s') \<and> fio_inv E s' \<and>
        fio_value s' = (fio_value s)(nat key := None) \<and>
        bc_used (fio_ctl s') = bc_used (fio_ctl s) - set (cell_blocks (fio_mapping s ! nat key)) \<and>
        fio_blockLimit s' = fio_blockLimit s \<and> fio_R s' = fio_R s \<and> (\<forall>x. sizeless s' x \<longrightarrow> sizeless s x)"
proof (cases "fio_value s (nat key)")
  case None
  show ?thesis
  proof (cases "key < fio_R s")
    case True
    then have k: "nat key < length (fio_mapping s)" using assms(2) by (simp add: fio_R_def nat_less_iff)
    have "\<forall>arr. fio_mapping s ! nat key = Some arr \<longrightarrow> arr \<noteq> []"
      using fio_inv_cell(1)[OF assms(1) k] assms(1) by (auto simp: cell_ok_def fio_inv_def)
    then show ?thesis using True None assms(2) k
      by (auto simp: fio_Delete_raw_def fio_At_def fio_value_def split: option.splits list.splits if_splits)
  qed (use None in \<open>simp add: fio_Delete_raw_def\<close>)
next
  case (Some v)
  then obtain arr where arr: "fio_mapping s ! nat key = Some arr" "key < fio_R s"
    by (cases "fio_mapping s ! nat key") (auto simp: fio_value_def fio_R_def split: if_splits)
  have k: "nat key < length (fio_mapping s)" using arr(2) assms(2) by (simp add: fio_R_def nat_less_iff)
  have "arr \<noteq> []" using fio_inv_cell(1)[OF assms(1) k] assms(1) arr(1) by (auto simp: cell_ok_def fio_inv_def)
  then have "0 \<le> arr ! 0" using Some arr(1) k by (cases arr) (auto simp: fio_value_def split: if_splits)
  from fio_cell_array[OF assms arr(2,1) this] obtain sz ob r where o: "arr = sz # ob @ r" "0 \<le> sz"
    "cell_blocks (Some arr) = ob" "set ob \<subseteq> bc_used (fio_ctl s)" "length arr = fio_blockLimit s"
    "to_int32 (block_count sz) = int (length ob)"
    "\<forall>i < length (fio_mapping s). i \<noteq> nat key \<longrightarrow> set (cell_blocks (fio_mapping s ! i)) \<inter> set ob = {}" by metis
  have c: "bc_inv (fio_ctl s)" "growth_ok E (fio_ctl s)" "device_ok (fio_ctl s)" using assms(1) by (auto simp: fio_inv_def)
  have po: "1 + length ob \<le> length arr" "take (length ob) (drop 1 arr) = ob" using o(1) by auto
  obtain c' where r: "fio_ReleaseBlocks arr 1 (int (length ob)) s = Some (True, s\<lparr>fio_ctl := c'\<rparr>)" "bc_inv c'"
    "growth_ok E c'" "device_ok c'" "bc_used c' = bc_used (fio_ctl s) - set ob" "bc_pages c' = bc_pages (fio_ctl s)"
    using fio_ReleaseBlocks_spec[OF c o(4) po refl] .
  let ?s = "s\<lparr>fio_ctl := c', fio_buffer := fio_buffer s @ [arr], fio_mapping := (fio_mapping s)[nat key := None]\<rparr>"
  have d: "fio_Delete_raw key s = Some (Success, ?s)"
    using arr r(1) o(1,2,6) assms(2)
    by (simp add: fio_Delete_raw_def fio_At_def fio_push_def queue_push_def fio_set_def)
  have oth: "set (cell_blocks (fio_mapping s ! i)) \<subseteq> bc_used c'" if "i < length (fio_mapping s)" "i \<noteq> nat key" for i
    using fio_inv_cell(3)[OF assms(1) that(1)] o(7) that r(5) by auto
  have "\<forall>a \<in> set (fio_buffer s). length a = fio_blockLimit s" using assms(1) by (simp add: fio_inv_def)
  then have "fio_inv E ?s \<and> fio_value ?s = (fio_value s)(nat key := None)"
    using fio_update[OF assms(1) k, of ?s None] r(2-4,6) oth o(5) by (auto simp: cell_ok_def)
  moreover have "sizeless ?s x \<longrightarrow> sizeless s x" for x by (cases "nat x = nat key") (auto simp: sizeless_def fio_R_def nat_less_iff)
  ultimately show ?thesis using d r(5) o(3) arr(1) Some by (auto simp: fio_R_def)
qed

text \<open>\<^verbatim>\<open>Delete\<close> on the posting file removes exactly its key: the posting is gone, its blocks and only they are
  released, every other posting is unchanged; a key without a posting is reported and nothing changes.\<close>

theorem posting_delete:
  assumes "fio_inv E s" "0 \<le> key"
  shows "case fio_value s (nat key) of
      None \<Rightarrow> fio_Delete_raw key s = Some (if key \<ge> fio_R s then Key_OverFlow else Key_NotFound, s)
    | Some v \<Rightarrow> \<exists>s'. fio_Delete_raw key s = Some (Success, s') \<and> fio_inv E s' \<and>
        fio_value s' = (fio_value s)(nat key := None) \<and>
        bc_used (fio_ctl s') = bc_used (fio_ctl s) - set (cell_blocks (fio_mapping s ! nat key))"
  using fio_Delete_cases[OF assms] by (auto split: option.splits)

theorem posting_delete_witness:
  "\<exists>s'. fio_Delete_raw 0 sample_store = Some (Success, s') \<and> fio_value s' = (fio_value sample_store)(0 := None)"
  using posting_delete[OF sample_store_facts(1), of 0] sample_store_facts(7) by auto


text \<open>C23. The block mapping survives a restart: when the file has room, \<^verbatim>\<open>Save\<close> succeeds, and \<^verbatim>\<open>Load\<close> of what was
  written, into a store of any block limit and whatever fresh arrays hold, gives back every posting (read
  from the same posting file). Every key has an array afterwards: a key without a posting comes back as
  one with an array of size \<open>-1\<close>.\<close>

theorem posting_mapping_reload:
  assumes "fio_inv E s" "mapping_fits s" "os_written os = []" "length (concat (mapping_image s)) \<le> os_room os"
  shows "\<exists>os' s2. fio_Save_raw (Some os) s = (Success, Some os') \<and>
     fio_Load (Some (os_written os')) junk s1 = Some (Success, s2) \<and>
     fio_blockLimit s2 = max (fio_blockLimit s1) (fio_blockLimit s) \<and> fio_R s2 = fio_R s \<and>
     fio_value (s2\<lparr>fio_ctl := fio_ctl s\<rparr>) = fio_value s \<and>
     (\<forall>k < length (fio_mapping s). fio_value s k = None \<longrightarrow> sizeless s2 (int k))"
proof -
  let ?rows = "mapping_rows s" and ?L = "fio_blockLimit s"
  let ?lim = "max (fio_blockLimit s1) ?L"
  let ?new = "map (\<lambda>row. Some (row @ junk (?lim - ?L))) ?rows"
  let ?s2 = "s1\<lparr>fio_blockLimit := ?lim, fio_mapping := ?new\<rparr>"
  obtain os' where w: "write_all (mapping_image s) os = Some os'" "os_written os' = concat (mapping_image s)"
    using assms(3,4) write_all_room[of "mapping_image s" os] write_all_written[of "mapping_image s" os] by auto
  have L: "0 < ?L" "?L < 2 ^ 18" using assms(1) by (auto simp: fio_inv_def)
  have lr: "length ?rows = length (fio_mapping s)" by (simp add: mapping_rows_def)
  have dec: "int_decode (int_encode 4 (fio_R s)) = fio_R s" "int_decode (int_encode 4 (int ?L)) = int ?L"
    using assms(2) L by (auto simp: mapping_fits_def fio_R_def intro!: int_decode_encode)
  have load: "fio_Load (Some (os_written os')) junk s1 = Some (Success, ?s2)"
    using load_mapping_rows[OF mapping_rows_fit[OF assms(1,2)], of ?lim junk "[]"] dec lr
    by (simp add: w(2) mapping_image_def fio_Load_def load_header_def fio_R_def Let_def)
  have cell: "cell_value pages (?new ! k) = cell_value pages (fio_mapping s ! k)" if "k < length (fio_mapping s)" for k pages
    using saved_cell_value[OF fio_inv_cell(1)[OF assms(1) that] L(1)] that by (simp add: mapping_rows_def)
  then have val: "fio_value (?s2\<lparr>fio_ctl := fio_ctl s\<rparr>) = fio_value s"
    by (simp add: fio_value_def fun_eq_iff lr)
  have sl: "sizeless ?s2 (int k)" if k: "k < length (fio_mapping s)" "fio_value s k = None" for k
  proof -
    have "cell_value (bc_pages (fio_ctl s)) (?new ! k) = None" using k cell by (simp add: fio_value_def)
    moreover obtain x xs where "?rows ! k = x # xs"
      using mapping_rows_fit[OF assms(1,2)] k(1) L(1) lr nth_mem[of k ?rows] by (cases "?rows ! k") auto
    ultimately show ?thesis using k(1) lr by (auto simp: sizeless_def fio_R_def split: if_splits)
  qed
  show ?thesis
    using w load val sl lr by (intro exI[of _ os'] exI[of _ ?s2]) (auto simp: fio_Save_raw_def fio_R_def)
qed

theorem posting_mapping_reload_witness:
  "\<exists>os' s2. fio_Save_raw (Some \<lparr>os_written = [], os_room = 200\<rparr>) sample_store = (Success, Some os') \<and>
     fio_Load (Some (os_written os')) (\<lambda>n. replicate n 0) sample_store = Some (Success, s2) \<and>
     fio_value (s2\<lparr>fio_ctl := fio_ctl sample_store\<rparr>) = fio_value sample_store \<and> sizeless s2 1"
proof -
  have f: "mapping_fits sample_store" by (auto simp: mapping_fits_def sample_store_def)
  have r: "length (concat (mapping_image sample_store)) \<le> 200"
    by (simp add: mapping_image_def mapping_rows_def sample_store_def length_concat sum_list_replicate)
  have "fio_value sample_store 1 = None" "1 < length (fio_mapping sample_store)"
    by (simp_all add: fio_value_def sample_store_def)
  then show ?thesis
    using posting_mapping_reload[OF sample_store_facts(1) f,
        of "\<lparr>os_written = [], os_room = 200\<rparr>" "\<lambda>n. replicate n 0" sample_store] r by fastforce
qed

text \<open>C37. A failed write leaves a posting behind when the key has an array of size \<open>-1\<close>, as every key
  without a posting has after a restart: the array gets the size of the value before the write, the failure
  resets the blocks to \<open>-1\<close> but not the size, so the key now has a posting on blocks \<open>-1\<close>.\<close>

theorem put_failure_leaves_posting:
  "\<exists>s'. fio_Put_raw broken_device 2 [1] sample_reqs sample_store = Some (DiskIOFail, s') \<and>
     fio_value sample_store 2 = None \<and> fio_mapping s' ! 2 = Some [1, -1, -1, -1] \<and> fio_value s' 2 \<noteq> None"
proof -
  have "map_option (\<lambda>(e, s). (e, fio_mapping s)) (fio_Put_raw broken_device 2 [1] sample_reqs sample_store) =
      Some (DiskIOFail, [Some [5000, 2, 5, -1], None, Some [1, -1, -1, -1]])" by code_simp
  then show ?thesis by (auto simp: fio_value_def sample_store_def)
qed

end
