(* ===== verification/Lru_Cache.thy ===== *)
theory Lru_Cache
  imports Block_Controller
begin

text \<open>
  The write-back cache of the posting store: \<^verbatim>\<open>LRUCache\<close> and \<^verbatim>\<open>ShardedLRUCache\<close> of
  \<^verbatim>\<open>inc/Core/SPANN/ExtraFileController.h\<close>. A cache holds the newest value of some keys; an entry that leaves
  the cache is first written to the store behind it.

  The list \<open>lru_keys\<close> has the most recently used key first, the hash map is a partial function. The store
  is a state \<open>'s\<close> with the two calls the cache makes, \<^verbatim>\<open>Put(.., useCache = false)\<close> as \<open>fput\<close> and
  \<^verbatim>\<open>Get(.., useCache = false)\<close> as \<open>fget\<close>. A result \<^const>\<open>None\<close> is an access through an invalid iterator, or a call
  of the store that does not return. Sizes and capacities are \<^verbatim>\<open>int64_t\<close>; the casts to \<^verbatim>\<open>int\<close> and the
  comparisons of an \<^verbatim>\<open>int\<close> with a \<^verbatim>\<open>size_t\<close> are written out.
\<close>

type_synonym 's fput = "int \<Rightarrow> bytes \<Rightarrow> 's \<Rightarrow> (ErrorCode \<times> 's) option"

type_synonym 's fget = "int \<Rightarrow> 's \<Rightarrow> (ErrorCode \<times> bytes \<times> 's) option"

record CacheCounters =
  cc_query :: int
  cc_query_hits :: int
  cc_put :: int
  cc_evict :: int

record LRUCache =
  lru_capacity :: int
  lru_limit :: int
  lru_size :: int
  lru_keys :: "int list"
  lru_cache :: "int \<Rightarrow> bytes option"
  lru_stat :: CacheCounters

subsection \<open>One shard\<close>

definition lru_new :: "int \<Rightarrow> int \<Rightarrow> LRUCache" where
  "lru_new capacity limit = \<lparr>lru_capacity = capacity, lru_limit = min capacity (limit * 2 ^ PageSizeEx), lru_size = 0,
     lru_keys = [], lru_cache = (\<lambda>k. None),
     lru_stat = \<lparr>cc_query = 0, cc_query_hits = 0, cc_put = 0, cc_evict = 0\<rparr>\<rparr>"

definition count_put :: "LRUCache \<Rightarrow> LRUCache" where
  "count_put c = c\<lparr>lru_stat := (lru_stat c)\<lparr>cc_put := cc_put (lru_stat c) + 1\<rparr>\<rparr>"

definition lru_erase :: "int \<Rightarrow> bytes \<Rightarrow> LRUCache \<Rightarrow> LRUCache" where
  "lru_erase key v c = c\<lparr>lru_size := lru_size c - int (length v), lru_keys := remove1 key (lru_keys c),
     lru_cache := (lru_cache c)(key := None)\<rparr>"

text \<open>\<^verbatim>\<open>evict\<close> of an entry with its value: it is written back, and kept when that fails. \<^verbatim>\<open>del\<close> calls it with a
  null pointer and drops the entry.\<close>

definition lru_evict :: "'s fput \<Rightarrow> int \<Rightarrow> bytes \<Rightarrow> LRUCache \<Rightarrow> 's \<Rightarrow> (bool \<times> LRUCache \<times> 's) option" where
  "lru_evict fput key v c s =
     (let c = c\<lparr>lru_stat := (lru_stat c)\<lparr>cc_evict := cc_evict (lru_stat c) + 1\<rparr>\<rparr> in
      case fput key v s of
        None \<Rightarrow> None
      | Some (e, s') \<Rightarrow> if e \<noteq> Success then Some (False, c, s') else Some (True, lru_erase key v c, s'))"

definition lru_get :: "int \<Rightarrow> LRUCache \<Rightarrow> bytes option \<times> LRUCache" where
  "lru_get key c =
     (let st = lru_stat c; c1 = c\<lparr>lru_stat := st\<lparr>cc_query := cc_query st + 1\<rparr>\<rparr> in
      case lru_cache c key of
        None \<Rightarrow> (None, c1)
      | Some v \<Rightarrow> (Some v, c\<lparr>lru_stat := st\<lparr>cc_query := cc_query st + 1, cc_query_hits := cc_query_hits st + 1\<rparr>\<rparr>))"

text \<open>The eviction loops: while \<open>short\<close> holds of \<^verbatim>\<open>(int)(capacity - size)\<close> and more than \<open>lo\<close> keys are left, the
  least recently used entry goes.\<close>

function evict_loop :: "'s fput \<Rightarrow> (int \<Rightarrow> bool) \<Rightarrow> nat \<Rightarrow> LRUCache \<Rightarrow> 's \<Rightarrow> (bool \<times> LRUCache \<times> 's) option" where
  "evict_loop fput short lo c s =
     (if short (to_int32 (lru_capacity c - lru_size c)) \<and> lo < length (lru_keys c) then
        (case lru_cache c (last (lru_keys c)) of
           None \<Rightarrow> None
         | Some v \<Rightarrow>
             (case lru_evict fput (last (lru_keys c)) v c s of
                Some (True, c', s') \<Rightarrow> evict_loop fput short lo c' s'
              | r \<Rightarrow> r))
      else Some (True, c, s))"
  by pat_completeness auto
termination
proof (relation "measure (\<lambda>(fput, short, lo, c, s). length (lru_keys c))", goal_cases)
  case (2 fput short lo c s)
  then have "lru_keys c \<noteq> []" by auto
  then show ?case
    using 2 by (auto simp: lru_evict_def lru_erase_def Let_def length_remove1 split: option.splits if_splits)
qed simp

definition touch :: "int \<Rightarrow> LRUCache \<Rightarrow> LRUCache" where
  "touch key c = c\<lparr>lru_keys := key # remove1 key (lru_keys c)\<rparr>"

definition lru_insert :: "int \<Rightarrow> bytes \<Rightarrow> LRUCache \<Rightarrow> LRUCache" where
  "lru_insert key v c = c\<lparr>lru_keys := key # lru_keys c, lru_cache := (lru_cache c)(key \<mapsto> v),
     lru_size := lru_size c + int (length v)\<rparr>"

text \<open>An entry that could not be updated is evicted; whether that works is not looked at.\<close>

definition give_up :: "'s fput \<Rightarrow> int \<Rightarrow> bytes \<Rightarrow> LRUCache \<Rightarrow> 's \<Rightarrow> (bool \<times> LRUCache \<times> 's) option" where
  "give_up fput key old c s = map_option (\<lambda>(_, c', s'). (False, c', s')) (lru_evict fput key old c s)"

definition lru_put :: "'s fput \<Rightarrow> int \<Rightarrow> bytes \<Rightarrow> LRUCache \<Rightarrow> 's \<Rightarrow> (bool \<times> LRUCache \<times> 's) option" where
  "lru_put fput key value c0 s =
     (let c = count_put c0; put_size = to_int32 (int (length value)) in
      case lru_cache c key of
        Some old \<Rightarrow>
          if put_size > lru_limit c then give_up fput key old c s
          else
            (let delta_size = put_size - to_int32 (int (length old)) in
             case evict_loop fput (\<lambda>room. room < delta_size) 1 (touch key c) s of
               None \<Rightarrow> None
             | Some (False, c', s') \<Rightarrow> give_up fput key old c' s'
             | Some (True, c', s') \<Rightarrow>
                 Some (True, c'\<lparr>lru_cache := (lru_cache c')(key \<mapsto> value), lru_size := lru_size c' + delta_size\<rparr>, s'))
      | None \<Rightarrow>
          if put_size > lru_limit c then Some (False, c, s)
          else
            (case evict_loop fput (\<lambda>room. put_size > room) 0 c s of
               None \<Rightarrow> None
             | Some (False, c', s') \<Rightarrow> Some (False, c', s')
             | Some (True, c', s') \<Rightarrow> Some (True, lru_insert key value c', s')))"

definition lru_del :: "int \<Rightarrow> LRUCache \<Rightarrow> bool \<times> LRUCache" where
  "lru_del key c = (case lru_cache c key of None \<Rightarrow> (False, c) | Some v \<Rightarrow> (True, lru_erase key v c))"

text \<open>\<^verbatim>\<open>merge\<close>. When the key is not cached, its posting comes from the store; the room is then compared with a
  \<^verbatim>\<open>size_t\<close>, so a negative room counts as a huge one.\<close>

definition lru_merge ::
  "'s fput \<Rightarrow> 's fget \<Rightarrow> (bytes \<Rightarrow> bool) \<Rightarrow> int \<Rightarrow> bytes \<Rightarrow> LRUCache \<Rightarrow> 's \<Rightarrow> (bool \<times> LRUCache \<times> 's) option" where
  "lru_merge fput fget checksum key value c0 s =
     (let c = count_put c0; merge_size = to_int32 (int (length value)) in
      case lru_cache c key of
        None \<Rightarrow>
          (case fget key s of
             None \<Rightarrow> None
           | Some (ret, buf, s1) \<Rightarrow>
               if ret \<noteq> Success \<or> \<not> checksum buf then Some (False, c, s1)
               else
                 (case evict_loop fput (\<lambda>room. int (length (buf @ value)) > room mod 2 ^ 64) 0 c s1 of
                    None \<Rightarrow> None
                  | Some (False, c', s') \<Rightarrow> Some (False, c', s')
                  | Some (True, c', s') \<Rightarrow> Some (True, lru_insert key (buf @ value) c', s')))
      | Some old \<Rightarrow>
          if int (length value) + int (length old) > lru_limit c then give_up fput key old c s
          else
            (case evict_loop fput (\<lambda>room. room < merge_size) 1 (touch key c) s of
               None \<Rightarrow> None
             | Some (False, c', s') \<Rightarrow> give_up fput key old c' s'
             | Some (True, c', s') \<Rightarrow>
                 Some (True, c'\<lparr>lru_cache := (lru_cache c')(key \<mapsto> old @ value),
                    lru_size := lru_size c' + merge_size\<rparr>, s')))"

text \<open>\<^verbatim>\<open>flush\<close> writes all entries in the order in which the hash map is walked (\<open>order\<close>), then empties the cache.\<close>

fun flush_loop :: "'s fput \<Rightarrow> (int \<Rightarrow> bytes option) \<Rightarrow> int list \<Rightarrow> 's \<Rightarrow> (bool \<times> 's) option" where
  "flush_loop fput m [] s = Some (True, s)"
| "flush_loop fput m (k # ks) s =
     (case m k of
        None \<Rightarrow> None
      | Some v \<Rightarrow>
          (case fput k v s of
             None \<Rightarrow> None
           | Some (e, s') \<Rightarrow> if e \<noteq> Success then Some (False, s') else flush_loop fput m ks s'))"

definition lru_flush :: "'s fput \<Rightarrow> int list \<Rightarrow> LRUCache \<Rightarrow> 's \<Rightarrow> (bool \<times> LRUCache \<times> 's) option" where
  "lru_flush fput order c s =
     (case flush_loop fput (lru_cache c) order s of
        None \<Rightarrow> None
      | Some (False, s') \<Rightarrow> Some (False, c, s')
      | Some (True, s') \<Rightarrow> Some (True, c\<lparr>lru_cache := (\<lambda>k. None), lru_keys := [], lru_size := 0\<rparr>, s'))"

subsection \<open>All shards\<close>

definition shard_new :: "nat \<Rightarrow> int \<Rightarrow> int \<Rightarrow> LRUCache list" where
  "shard_new shards capacity limit = replicate shards (lru_new (capacity div int shards) limit)"

text \<open>\<^verbatim>\<open>hash\<close>; a negative key gives a negative shard number, for which there is no shard.\<close>

definition shard_hash :: "int \<Rightarrow> 'a list \<Rightarrow> nat option" where
  "shard_hash key cs = (if cs = [] \<or> key < 0 then None else Some (nat (key mod int (length cs))))"

definition on_shard ::
  "int \<Rightarrow> (LRUCache \<Rightarrow> 's \<Rightarrow> (bool \<times> LRUCache \<times> 's) option) \<Rightarrow> LRUCache list \<Rightarrow> 's \<Rightarrow> (bool \<times> LRUCache list \<times> 's) option" where
  "on_shard key f cs s =
     (case shard_hash key cs of
        None \<Rightarrow> None
      | Some i \<Rightarrow> map_option (\<lambda>(ok, c, s'). (ok, cs[i := c], s')) (f (cs ! i) s))"

definition shard_put :: "'s fput \<Rightarrow> int \<Rightarrow> bytes \<Rightarrow> LRUCache list \<Rightarrow> 's \<Rightarrow> (bool \<times> LRUCache list \<times> 's) option" where
  "shard_put fput key value = on_shard key (lru_put fput key value)"

definition shard_merge ::
  "'s fput \<Rightarrow> 's fget \<Rightarrow> (bytes \<Rightarrow> bool) \<Rightarrow> int \<Rightarrow> bytes \<Rightarrow> LRUCache list \<Rightarrow> 's \<Rightarrow> (bool \<times> LRUCache list \<times> 's) option" where
  "shard_merge fput fget checksum key value = on_shard key (lru_merge fput fget checksum key value)"

definition shard_get :: "int \<Rightarrow> LRUCache list \<Rightarrow> (bytes option \<times> LRUCache list) option" where
  "shard_get key cs =
     map_option (\<lambda>i. case lru_get key (cs ! i) of (r, c) \<Rightarrow> (r, cs[i := c])) (shard_hash key cs)"

definition shard_del :: "int \<Rightarrow> LRUCache list \<Rightarrow> (bool \<times> LRUCache list) option" where
  "shard_del key cs =
     map_option (\<lambda>i. case lru_del key (cs ! i) of (r, c) \<Rightarrow> (r, cs[i := c])) (shard_hash key cs)"

fun shard_flush :: "'s fput \<Rightarrow> int list list \<Rightarrow> LRUCache list \<Rightarrow> 's \<Rightarrow> (bool \<times> LRUCache list \<times> 's) option" where
  "shard_flush fput (order # orders) (c # cs) s =
     (case lru_flush fput order c s of
        None \<Rightarrow> None
      | Some (False, c', s') \<Rightarrow> Some (False, c' # cs, s')
      | Some (True, c', s') \<Rightarrow> map_option (\<lambda>(ok, cs', s''). (ok, c' # cs', s'')) (shard_flush fput orders cs s'))"
| "shard_flush fput orders [] s = Some (True, [], s)"
| "shard_flush fput [] (c # cs) s = None"

definition add_counters :: "CacheCounters \<Rightarrow> CacheCounters \<Rightarrow> CacheCounters" where
  "add_counters a b = \<lparr>cc_query = cc_query a + cc_query b, cc_query_hits = cc_query_hits a + cc_query_hits b,
     cc_put = cc_put a + cc_put b, cc_evict = cc_evict a + cc_evict b\<rparr>"

definition shard_stat :: "LRUCache list \<Rightarrow> CacheCounters" where
  "shard_stat cs = foldl (\<lambda>r c. add_counters r (lru_stat c)) \<lparr>cc_query = 0, cc_query_hits = 0, cc_put = 0, cc_evict = 0\<rparr> cs"

definition shard_memory :: "LRUCache list \<Rightarrow> int" where
  "shard_memory cs = sum_list (map lru_size cs)"

subsection \<open>Invariant and view\<close>

text \<open>The list of keys and the map hold the same keys, each key once, and \<open>size\<close> is the number of cached bytes.\<close>

definition lru_ok :: "LRUCache \<Rightarrow> bool" where
  "lru_ok c \<longleftrightarrow> distinct (lru_keys c) \<and> set (lru_keys c) = dom (lru_cache c) \<and>
     lru_size c = (\<Sum>k \<leftarrow> lru_keys c. int (length (the (lru_cache c k))))"

text \<open>The cache is within its capacity, which an \<^verbatim>\<open>int\<close> can hold.\<close>

definition lru_bounded :: "LRUCache \<Rightarrow> bool" where
  "lru_bounded c \<longleftrightarrow> lru_limit c \<le> lru_capacity c \<and> lru_capacity c < 2 ^ 31 \<and> lru_size c \<le> lru_capacity c"

text \<open>What a reader of the store sees: the cached value if there is one, otherwise the value behind the cache.\<close>

definition view :: "(int \<Rightarrow> bytes option) \<Rightarrow> (int \<Rightarrow> bytes option) \<Rightarrow> int \<Rightarrow> bytes option" where
  "view m f = f ++ m"

definition shard_map :: "LRUCache list \<Rightarrow> int \<Rightarrow> bytes option" where
  "shard_map cs k = (case shard_hash k cs of None \<Rightarrow> None | Some i \<Rightarrow> lru_cache (cs ! i) k)"

definition shards_ok :: "LRUCache list \<Rightarrow> bool" where
  "shards_ok cs \<longleftrightarrow> cs \<noteq> [] \<and> (\<forall>i < length cs. lru_ok (cs ! i) \<and> (\<forall>k \<in> dom (lru_cache (cs ! i)). shard_hash k cs = Some i))"

subsection \<open>Bookkeeping of one shard\<close>

declare evict_loop.simps [simp del]

lemma sum_list_remove1:
  fixes f :: "'a \<Rightarrow> int"
  shows "x \<in> set xs \<Longrightarrow> (\<Sum>k \<leftarrow> remove1 x xs. f k) = (\<Sum>k \<leftarrow> xs. f k) - f x"
  by (induction xs) auto

lemma lru_erase_ok:
  assumes "lru_ok c" "lru_cache c k = Some v"
  shows "lru_ok (lru_erase k v c)"
proof -
  have k: "k \<in> set (lru_keys c)" using assms by (auto simp: lru_ok_def)
  have "(\<Sum>x \<leftarrow> remove1 k (lru_keys c). int (length (the (((lru_cache c)(k := None)) x)))) =
      (\<Sum>x \<leftarrow> remove1 k (lru_keys c). int (length (the (lru_cache c x))))"
    using assms(1) by (intro arg_cong[where f = sum_list] map_cong) (auto simp: lru_ok_def)
  then show ?thesis
    using assms sum_list_remove1[OF k, of "\<lambda>x. int (length (the (lru_cache c x)))"]
    by (auto simp: lru_ok_def lru_erase_def)
qed

lemma touch_ok:
  assumes "lru_ok c" "lru_cache c k = Some v"
  shows "lru_ok (touch k c)"
proof -
  have k: "k \<in> set (lru_keys c)" using assms by (auto simp: lru_ok_def)
  then show ?thesis
    using assms sum_list_remove1[OF k, of "\<lambda>x. int (length (the (lru_cache c x)))"]
    by (auto simp: lru_ok_def touch_def)
qed

lemma sum_list_upd_other:
  "k \<notin> set ks \<Longrightarrow> (\<Sum>x \<leftarrow> ks. int (length (the ((m(k := y)) x)))) = (\<Sum>x \<leftarrow> ks. int (length (the (m x))))"
  by (intro arg_cong[where f = sum_list] map_cong) auto

lemma lru_insert_ok:
  assumes "lru_ok c" "lru_cache c k = None"
  shows "lru_ok (lru_insert k v c)"
proof -
  have "k \<notin> set (lru_keys c)" using assms by (auto simp: lru_ok_def)
  then show ?thesis using assms sum_list_upd_other[of k "lru_keys c" "lru_cache c" "Some v"]
    by (auto simp: lru_ok_def lru_insert_def)
qed

text \<open>Changing the value of the first key.\<close>

lemma lru_change_ok:
  assumes "lru_ok c" "lru_keys c = k # ks" "lru_cache c k = Some old"
  shows "lru_ok (c\<lparr>lru_cache := (lru_cache c)(k \<mapsto> v), lru_size := lru_size c + (int (length v) - int (length old))\<rparr>)"
proof -
  have "k \<notin> set ks" using assms by (auto simp: lru_ok_def)
  then show ?thesis using assms sum_list_upd_other[of k ks "lru_cache c" "Some v"] by (auto simp: lru_ok_def)
qed

lemma lru_size_nonneg: "lru_ok c \<Longrightarrow> 0 \<le> lru_size c"
  by (auto simp: lru_ok_def intro!: sum_list_nonneg)

subsection \<open>The store behind the cache\<close>

text \<open>What the cache relies on: a value that is \<open>fit\<close> for its key can be written; then the store holds it, or the
  call reports a failure and the store holds what it held; and no write makes another value unfit. The
  value of a key that is read is the one the store holds.\<close>

locale backing_store =
  fixes fput :: "'s fput" and fget :: "'s fget" and val :: "'s \<Rightarrow> int \<Rightarrow> bytes option" and fit :: "'s \<Rightarrow> int \<Rightarrow> bytes \<Rightarrow> bool"
    and good :: "'s \<Rightarrow> bool"
  assumes put_law: "fit s k v \<Longrightarrow> \<exists>e s'. fput k v s = Some (e, s') \<and>
      val s' = (if e = Success then (val s)(k \<mapsto> v) else val s) \<and> good s' \<and> (\<forall>k' v'. fit s k' v' \<longrightarrow> fit s' k' v')"
    and fit_small: "fit s k v \<Longrightarrow> length v < 2 ^ 31"
    and get_law: "good s \<Longrightarrow> 0 \<le> k \<Longrightarrow> \<exists>e w s'. fget k s = Some (e, w, s') \<and> val s' = val s \<and> good s' \<and>
      (e = Success \<longrightarrow> val s k = Some w) \<and> (\<forall>k' v'. fit s k' v' \<longrightarrow> fit s' k' v')"
begin

definition cached :: "LRUCache \<Rightarrow> 's \<Rightarrow> bool" where
  "cached c s \<longleftrightarrow> lru_ok c \<and> good s \<and> (\<forall>k v. lru_cache c k = Some v \<longrightarrow> fit s k v)"

definition later :: "LRUCache \<Rightarrow> 's \<Rightarrow> LRUCache \<Rightarrow> 's \<Rightarrow> bool" where
  "later c s c' s' \<longleftrightarrow> view (lru_cache c') (val s') = view (lru_cache c) (val s) \<and>
     (\<forall>k v. fit s k v \<longrightarrow> fit s' k v) \<and> lru_capacity c' = lru_capacity c \<and> lru_limit c' = lru_limit c \<and>
     lru_size c' \<le> lru_size c \<and> dom (lru_cache c') \<subseteq> dom (lru_cache c) \<and> (\<forall>k v. lru_cache c' k = Some v \<longrightarrow> val s' k = val s k)"

lemma later_trans:
  assumes "later c s c' s'" "later c' s' c'' s''"
  shows "later c s c'' s''"
proof -
  have "dom (lru_cache c'') \<subseteq> dom (lru_cache c)" using assms subset_trans unfolding later_def by blast
  moreover have "val s'' k = val s k" if "lru_cache c'' k = Some v" for k v
    using assms that unfolding later_def by (metis domD domI subsetD)
  ultimately show ?thesis using assms by (simp add: later_def)
qed

lemma evict_spec:
  assumes "cached c s" "lru_cache c k = Some v"
  shows "\<exists>b c' s'. lru_evict fput k v c s = Some (b, c', s') \<and> cached c' s' \<and> later c s c' s' \<and>
     lru_cache c' = (if b then (lru_cache c)(k := None) else lru_cache c) \<and>
     lru_keys c' = (if b then remove1 k (lru_keys c) else lru_keys c)"
proof -
  have f: "fit s k v" "lru_ok c" using assms by (auto simp: cached_def)
  obtain e s' where p: "fput k v s = Some (e, s')" "val s' = (if e = Success then (val s)(k \<mapsto> v) else val s)" "good s'"
    "\<forall>k' v'. fit s k' v' \<longrightarrow> fit s' k' v'" using put_law[OF f(1)] by blast
  let ?c = "c\<lparr>lru_stat := (lru_stat c)\<lparr>cc_evict := cc_evict (lru_stat c) + 1\<rparr>\<rparr>"
  have ok: "lru_ok ?c" "lru_ok (lru_erase k v ?c)" using f(2) assms(2) lru_erase_ok[of ?c k v] by (auto simp: lru_ok_def)
  show ?thesis
  proof (cases "e = Success")
    case True
    have "view ((lru_cache c)(k := None)) (val s') = view (lru_cache c) (val s)"
      using p(2) True assms(2) by (auto simp: view_def map_add_def fun_eq_iff split: option.splits)
    then show ?thesis
      using p True ok(2) assms(1)
      by (intro exI[of _ True] exI[of _ "lru_erase k v ?c"] exI[of _ s'])
        (auto simp: lru_evict_def Let_def cached_def later_def lru_erase_def)
  next
    case False
    then show ?thesis
      using p ok(1) assms(1)
      by (intro exI[of _ False] exI[of _ ?c] exI[of _ s']) (auto simp: lru_evict_def Let_def cached_def later_def)
  qed
qed


text \<open>The eviction loops: what is left of the list is its front part, and a reader sees the same values. When
  the loop ends by its condition there is room, or only \<open>lo\<close> keys are left.\<close>

lemma evict_loop_spec:
  assumes "cached c s"
  shows "\<exists>b c' s' n. evict_loop fput short lo c s = Some (b, c', s') \<and> cached c' s' \<and> later c s c' s' \<and>
     lru_keys c' = take n (lru_keys c) \<and> lru_cache c' = lru_cache c |` set (lru_keys c') \<and>
     (lo \<le> length (lru_keys c) \<longrightarrow> lo \<le> length (lru_keys c')) \<and>
     (b \<longrightarrow> \<not> (short (to_int32 (lru_capacity c' - lru_size c')) \<and> lo < length (lru_keys c')))"
  using assms
proof (induction "length (lru_keys c)" arbitrary: c s rule: less_induct)
  case less
  let ?k = "last (lru_keys c)"
  have c: "set (lru_keys c) = dom (lru_cache c)" "distinct (lru_keys c)" using less.prems by (auto simp: cached_def lru_ok_def)
  show ?case
  proof (cases "short (to_int32 (lru_capacity c - lru_size c)) \<and> lo < length (lru_keys c)")
    case False
    have "lru_cache c = lru_cache c |` set (lru_keys c)" unfolding c(1) by (simp add: restrict_map_def fun_eq_iff domIff)
    then show ?thesis
      using False less.prems evict_loop.simps[of fput short lo c s] by (intro exI[of _ True] exI[of _ c] exI[of _ s] exI[of _ "length (lru_keys c)"]) (auto simp: later_def)
  next
    case True
    then have ne: "lru_keys c \<noteq> []" by auto
    then obtain v where v: "lru_cache c ?k = Some v" using c(1) last_in_set[of "lru_keys c"] by auto
    from evict_spec[OF less.prems v] obtain b c1 s1 where e: "lru_evict fput ?k v c s = Some (b, c1, s1)" "cached c1 s1"
      "later c s c1 s1" "lru_cache c1 = (if b then (lru_cache c)(?k := None) else lru_cache c)"
      "lru_keys c1 = (if b then remove1 ?k (lru_keys c) else lru_keys c)" by blast
    have bl: "remove1 ?k (lru_keys c) = butlast (lru_keys c)"
      using c(2) ne by (metis append_butlast_last_id distinct_append disjoint_insert(2) list.set(2) remove1_append remove1.simps(2) append_Nil2)
    have res: "lru_cache c1 = lru_cache c |` set (lru_keys c1)"
      using e(2) e(4) c by (auto simp: cached_def lru_ok_def restrict_map_def fun_eq_iff domIff split: if_splits)
    show ?thesis
    proof (cases b)
      case False
      then show ?thesis
        using True v e res evict_loop.simps[of fput short lo c s] by (intro exI[of _ False] exI[of _ c1] exI[of _ s1] exI[of _ "length (lru_keys c)"]) auto
    next
      case b: True
      have lt: "length (lru_keys c1) < length (lru_keys c)" using e(5) b bl ne by simp
      from less.hyps[OF lt e(2)] obtain b' c' s' n where i: "evict_loop fput short lo c1 s1 = Some (b', c', s')" "cached c' s'"
        "later c1 s1 c' s'" "lru_keys c' = take n (lru_keys c1)" "lru_cache c' = lru_cache c1 |` set (lru_keys c')"
        "lo \<le> length (lru_keys c1) \<longrightarrow> lo \<le> length (lru_keys c')"
        "b' \<longrightarrow> \<not> (short (to_int32 (lru_capacity c' - lru_size c')) \<and> lo < length (lru_keys c'))" by blast
      have "evict_loop fput short lo c s = Some (b', c', s')" using True v e(1) i(1) b by (simp add: evict_loop.simps)
      moreover have "lru_keys c' = take (min n (length (lru_keys c) - 1)) (lru_keys c)"
        using i(4) e(5) b bl by (simp add: butlast_conv_take min.commute)
      moreover have "lru_cache c' = lru_cache c |` set (lru_keys c')"
        using i(4,5) res set_take_subset[of n "lru_keys c1"] by (auto simp: restrict_map_def fun_eq_iff)
      moreover have "lo \<le> length (lru_keys c')" using i(6) True e(5) b bl by auto
      ultimately show ?thesis using i(2,7) later_trans[OF e(3) i(3)] by blast
    qed
  qed
qed


lemma evict_loop_facts:
  assumes "cached c s" "evict_loop fput short lo c s = Some (b, c', s')"
  obtains n where "cached c' s'" "later c s c' s'" "lru_keys c' = take n (lru_keys c)"
    "lru_cache c' = lru_cache c |` set (lru_keys c')" "lo \<le> length (lru_keys c) \<longrightarrow> lo \<le> length (lru_keys c')"
    "b \<longrightarrow> \<not> (short (to_int32 (lru_capacity c' - lru_size c')) \<and> lo < length (lru_keys c'))"
  using evict_loop_spec[OF assms(1), of short lo] unfolding assms(2) by blast

lemma give_up_spec:
  assumes "cached c s" "lru_cache c k = Some v"
  shows "\<exists>c' s'. give_up fput k v c s = Some (False, c', s') \<and> cached c' s' \<and> later c s c' s'"
  using evict_spec[OF assms] by (auto simp: give_up_def)

lemma cached_count: "cached (count_put c) s = cached c s" "later (count_put c) s c' s' = later c s c' s'"
  by (auto simp: cached_def lru_ok_def later_def count_put_def)

text \<open>Making room for a new entry.\<close>

lemma room_insert:
  assumes "cached c s" "lru_cache c k = None" "fit s k v" "evict_loop fput short 0 c s = Some (True, c', s')"
  shows "cached (lru_insert k v c') s'"
    "view (lru_cache (lru_insert k v c')) (val s') = (view (lru_cache c) (val s))(k \<mapsto> v)"
    "short (to_int32 (lru_capacity c' - lru_size c')) \<longrightarrow> lru_size c' = 0" "later c s c' s'"
proof -
  from evict_loop_facts[OF assms(1,4)] have e: "cached c' s'" "later c s c' s'"
    "lru_cache c' = lru_cache c |` set (lru_keys c')"
    "\<not> (short (to_int32 (lru_capacity c' - lru_size c')) \<and> 0 < length (lru_keys c'))" by blast+
  have k: "lru_cache c' k = None" using e(3) assms(2) by (simp add: restrict_map_def)
  have "lru_ok (lru_insert k v c')" using e(1) k by (intro lru_insert_ok) (auto simp: cached_def)
  moreover have "fit s' k v" using e(2) assms(3) by (auto simp: later_def)
  ultimately show "cached (lru_insert k v c') s'" using e(1) by (auto simp: cached_def lru_insert_def)
  have "view ((lru_cache c')(k \<mapsto> v)) (val s') = (view (lru_cache c') (val s'))(k \<mapsto> v)" by (simp add: view_def)
  then show "view (lru_cache (lru_insert k v c')) (val s') = (view (lru_cache c) (val s))(k \<mapsto> v)"
    using e(2) by (simp add: later_def lru_insert_def)
  show "short (to_int32 (lru_capacity c' - lru_size c')) \<longrightarrow> lru_size c' = 0"
    using e(1,4) by (auto simp: cached_def lru_ok_def)
qed (use evict_loop_facts[OF assms(1,4)] in blast)

text \<open>Making room for a longer value of a cached key.\<close>

lemma room_change:
  assumes "cached c s" "lru_cache c k = Some old" "fit s k v" "evict_loop fput short 1 (touch k c) s = Some (b, c', s')"
    "d = int (length v) - int (length old)"
  shows "cached c' s'" "lru_cache c' k = Some old" "later c s c' s'"
    "b \<longrightarrow> cached (c'\<lparr>lru_cache := (lru_cache c')(k \<mapsto> v), lru_size := lru_size c' + d\<rparr>) s'"
    "view ((lru_cache c')(k \<mapsto> v)) (val s') = (view (lru_cache c) (val s))(k \<mapsto> v)"
    "b \<longrightarrow> short (to_int32 (lru_capacity c' - lru_size c')) \<longrightarrow> lru_size c' = int (length old)"
proof -
  have t: "cached (touch k c) s" using assms(1,2) touch_ok[of c k old] by (auto simp: cached_def touch_def)
  have l: "later (touch k c) s c' s' = later c s c' s'" "lru_keys (touch k c) = k # remove1 k (lru_keys c)"
    "lru_cache (touch k c) = lru_cache c" by (simp_all add: later_def touch_def)
  from evict_loop_facts[OF t assms(4), unfolded l] obtain n where e: "cached c' s'" "later c s c' s'"
    "lru_keys c' = take n (k # remove1 k (lru_keys c))" "lru_cache c' = lru_cache c |` set (lru_keys c')"
    "1 \<le> length (k # remove1 k (lru_keys c)) \<longrightarrow> 1 \<le> length (lru_keys c')"
    "b \<longrightarrow> \<not> (short (to_int32 (lru_capacity c' - lru_size c')) \<and> 1 < length (lru_keys c'))" .
  show "cached c' s'" "later c s c' s'" by fact+
  obtain ks where ks: "lru_keys c' = k # ks" using e(3,5) by (cases n) auto
  show old: "lru_cache c' k = Some old" using e(4) assms(2) ks by (simp add: restrict_map_def)
  have "fit s' k v" using e(2) assms(3) by (auto simp: later_def)
  then show "b \<longrightarrow> cached (c'\<lparr>lru_cache := (lru_cache c')(k \<mapsto> v), lru_size := lru_size c' + d\<rparr>) s'"
    using e(1) lru_change_ok[OF _ ks old, of v] assms(5) by (auto simp: cached_def)
  have "view ((lru_cache c')(k \<mapsto> v)) (val s') = (view (lru_cache c') (val s'))(k \<mapsto> v)" by (simp add: view_def)
  then show "view ((lru_cache c')(k \<mapsto> v)) (val s') = (view (lru_cache c) (val s))(k \<mapsto> v)"
    using e(2) by (simp add: later_def)
  show "b \<longrightarrow> short (to_int32 (lru_capacity c' - lru_size c')) \<longrightarrow> lru_size c' = int (length old)"
    using e(1,6) ks old by (auto simp: cached_def lru_ok_def)
qed


text \<open>What a call on the shard promises about the cache and the store.\<close>

definition kept :: "int set \<Rightarrow> LRUCache \<Rightarrow> 's \<Rightarrow> LRUCache \<Rightarrow> 's \<Rightarrow> (int \<Rightarrow> bytes option) \<Rightarrow> bool" where
  "kept K c s c' s' vw \<longleftrightarrow> cached c' s' \<and> dom (lru_cache c') \<subseteq> dom (lru_cache c) \<union> K \<and>
     (\<forall>k v. k \<notin> K \<longrightarrow> lru_cache c' k = Some v \<longrightarrow> val s' k = val s k \<or> val s' k = Some v) \<and> (\<forall>k \<in> K. val s' k = val s k) \<and>
     view (lru_cache c') (val s') = vw \<and> (\<forall>k v. fit s k v \<longrightarrow> fit s' k v) \<and> lru_capacity c' = lru_capacity c \<and> lru_limit c' = lru_limit c"

lemma keptI: "cached c' s' \<Longrightarrow> later c s c' s' \<Longrightarrow> kept {} c s c' s' (view (lru_cache c) (val s))"
  by (simp add: kept_def later_def le_supI1)

lemma later_bounded: "later c s c' s' \<Longrightarrow> lru_bounded c \<Longrightarrow> lru_bounded c'"
  by (auto simp: later_def lru_bounded_def)

text \<open>After a loop that ended with success there is room, or the rest of the cache is empty.\<close>

lemma room_bound:
  assumes "cached c' s'" "later c s c' s'" "lru_bounded c" "d + e \<le> lru_limit c"
    "to_int32 (lru_capacity c' - lru_size c') < d \<longrightarrow> lru_size c' = e"
  shows "lru_size c' + d \<le> lru_capacity c'"
proof -
  have b: "lru_bounded c'" "lru_limit c' = lru_limit c" using later_bounded assms(2,3) by (auto simp: later_def)
  have "to_int32 (lru_capacity c' - lru_size c') = lru_capacity c' - lru_size c'"
    using b(1) assms(1) lru_size_nonneg[of c'] by (intro to_int32_id) (auto simp: lru_bounded_def cached_def)
  then show ?thesis using assms(4,5) b by (auto simp: lru_bounded_def)
qed

lemma touch_cached: "cached c s \<Longrightarrow> lru_cache c k = Some v \<Longrightarrow> cached (touch k c) s"
  using touch_ok[of c k v] by (auto simp: cached_def touch_def)

lemma change_spec:
  assumes "cached c s" "lru_cache c k = Some old" "fit s k v" "d = int (length v) - int (length old)" "int (length v) \<le> lru_limit c"
  shows "\<exists>b c' s'. (case evict_loop fput (\<lambda>room. room < d) 1 (touch k c) s of
        None \<Rightarrow> None
      | Some (False, c', s') \<Rightarrow> give_up fput k old c' s'
      | Some (True, c', s') \<Rightarrow>
          Some (True, c'\<lparr>lru_cache := (lru_cache c')(k \<mapsto> v), lru_size := lru_size c' + d\<rparr>, s')) = Some (b, c', s') \<and>
     kept (if b then {k} else {}) c s c' s' (if b then (view (lru_cache c) (val s))(k \<mapsto> v) else view (lru_cache c) (val s)) \<and>
     (b \<longrightarrow> lru_cache c' k = Some v) \<and> (lru_bounded c \<longrightarrow> lru_bounded c')"
proof -
  obtain b c' s' where e: "evict_loop fput (\<lambda>room. room < d) 1 (touch k c) s = Some (b, c', s')"
    using evict_loop_spec[OF touch_cached[OF assms(1,2)]] by blast
  note r = room_change[OF assms(1-3) e assms(4)]
  show ?thesis
  proof (cases b)
    case True
    let ?c = "c'\<lparr>lru_cache := (lru_cache c')(k \<mapsto> v), lru_size := lru_size c' + d\<rparr>"
    have "d + int (length old) \<le> lru_limit c" using assms(4,5) by simp
    note rb = room_bound[OF r(1,3) _ this r(6)[rule_format, OF True, THEN impI]]
    have "lru_bounded ?c" if "lru_bounded c"
      using rb[OF that] later_bounded[OF r(3) that] by (simp add: lru_bounded_def)
    moreover have "kept {k} c s ?c s' ((view (lru_cache c) (val s))(k \<mapsto> v))"
      using r(2,3,4,5) True by (simp add: kept_def later_def subset_insertI2)
    ultimately show ?thesis
      using e True by (intro exI[of _ True] exI[of _ ?c] exI[of _ s']) simp
  next
    case False
    from give_up_spec[OF r(1,2)] obtain c'' s'' where g: "give_up fput k old c' s' = Some (False, c'', s'')" "cached c'' s''"
      "later c' s' c'' s''" by blast
    note l = later_trans[OF r(3) g(3)]
    show ?thesis
      using e False g(1) keptI[OF g(2) l] later_bounded[OF l]
      by (intro exI[of _ False] exI[of _ c''] exI[of _ s'']) simp
  qed
qed

lemma insert_spec:
  assumes "cached c s" "lru_cache c k = None" "fit s k v"
  shows "\<exists>b c' s'. (case evict_loop fput short 0 c s of
        None \<Rightarrow> None
      | Some (False, c', s') \<Rightarrow> Some (False, c', s')
      | Some (True, c', s') \<Rightarrow> Some (True, lru_insert k v c', s')) = Some (b, c', s') \<and>
     kept (if b then {k} else {}) c s c' s' (if b then (view (lru_cache c) (val s))(k \<mapsto> v) else view (lru_cache c) (val s)) \<and>
     (b \<longrightarrow> lru_cache c' k = Some v) \<and>
     (lru_bounded c \<longrightarrow> int (length v) \<le> lru_limit c \<longrightarrow> (\<forall>room. room < int (length v) \<and> 0 \<le> room \<longrightarrow> short room) \<longrightarrow> lru_bounded c')"
proof -
  obtain b c' s' where e: "evict_loop fput short 0 c s = Some (b, c', s')"
    using evict_loop_spec[OF assms(1)] by blast
  show ?thesis
  proof (cases b)
    case True
    have e1: "evict_loop fput short 0 c s = Some (True, c', s')" using e True by simp
    note r = room_insert[OF assms e1]
    have c': "cached c' s'" using evict_loop_facts[OF assms(1) e] by blast
    have "lru_bounded (lru_insert k v c')" if b: "lru_bounded c" "int (length v) \<le> lru_limit c"
      "\<forall>room. room < int (length v) \<and> 0 \<le> room \<longrightarrow> short room"
    proof -
      have bc: "lru_bounded c'" using later_bounded[OF r(4) b(1)] .
      then have "0 \<le> to_int32 (lru_capacity c' - lru_size c')"
        using c' lru_size_nonneg[of c'] by (subst to_int32_id) (auto simp: lru_bounded_def cached_def)
      then show ?thesis
        using room_bound[OF c' r(4) b(1), of "int (length v)" 0] r(3) b bc by (auto simp: lru_bounded_def lru_insert_def)
    qed
    moreover have "val s' k = val s k" using r(4) assms(2) unfolding later_def
      by (metis domIff map_add_dom_app_simps(3) subsetD view_def)
    then have "kept {k} c s (lru_insert k v c') s' ((view (lru_cache c) (val s))(k \<mapsto> v))"
      using r(1,2,4) by (simp add: kept_def later_def lru_insert_def subset_insertI2)
    ultimately show ?thesis
      using e1 by (intro exI[of _ True] exI[of _ "lru_insert k v c'"] exI[of _ s']) (simp, simp add: lru_insert_def)
  next
    case False
    from evict_loop_facts[OF assms(1) e] have "cached c' s'" "later c s c' s'" by blast+
    then show ?thesis
      using e False keptI[of c' s' c s] later_bounded[of c s c' s']
      by (intro exI[of _ False] exI[of _ c'] exI[of _ s']) simp
  qed
qed

lemma put_spec:
  assumes "cached c s" "fit s key v"
  shows "\<exists>b c' s'. lru_put fput key v c s = Some (b, c', s') \<and>
     kept (if b then {key} else {}) c s c' s' (if b then (view (lru_cache c) (val s))(key \<mapsto> v) else view (lru_cache c) (val s)) \<and>
     (b \<longrightarrow> lru_cache c' key = Some v) \<and> (lru_bounded c \<longrightarrow> lru_bounded c')"
proof -
  let ?c = "count_put c"
  have eq: "lru_cache ?c = lru_cache c" "lru_limit ?c = lru_limit c" "lru_bounded ?c = lru_bounded c" "kept K ?c = kept K c" for K
    by (auto simp: count_put_def lru_bounded_def kept_def fun_eq_iff)
  have c: "cached ?c s" using assms(1) by (simp add: cached_count)
  have lv: "to_int32 (int (length v)) = int (length v)" using fit_small[OF assms(2)] by (intro to_int32_id) auto
  show ?thesis
  proof (cases "lru_cache c key")
    case (Some old)
    have lo: "to_int32 (int (length old)) = int (length old)"
      using fit_small[of s key old] assms(1) Some by (intro to_int32_id) (auto simp: cached_def)
    show ?thesis
    proof (cases "int (length v) > lru_limit c")
      case True
      then show ?thesis
        using give_up_spec[OF c, of key old] Some keptI later_bounded
        by (auto simp: lru_put_def Let_def eq lv cached_count)
    next
      case False
      have e: "lru_put fput key v c s = (case evict_loop fput (\<lambda>room. room < int (length v) - int (length old)) 1 (touch key ?c) s of
            None \<Rightarrow> None
          | Some (False, c', s') \<Rightarrow> give_up fput key old c' s'
          | Some (True, c', s') \<Rightarrow> Some (True, c'\<lparr>lru_cache := (lru_cache c')(key \<mapsto> v),
              lru_size := lru_size c' + (int (length v) - int (length old))\<rparr>, s'))"
        using Some False by (simp add: lru_put_def Let_def eq lv lo)
      have "lru_cache ?c key = Some old" "int (length v) \<le> lru_limit ?c" using Some False by (simp_all add: eq)
      from change_spec[OF c this(1) assms(2) refl this(2)] show ?thesis unfolding e eq .
    qed
  next
    case None
    show ?thesis
    proof (cases "int (length v) > lru_limit c")
      case True
      then show ?thesis using None c eq by (simp add: lru_put_def Let_def lv kept_def) (auto simp: count_put_def)
    next
      case False
      have e: "lru_put fput key v c s = (case evict_loop fput (\<lambda>room. room < int (length v)) 0 ?c s of
            None \<Rightarrow> None
          | Some (False, c', s') \<Rightarrow> Some (False, c', s')
          | Some (True, c', s') \<Rightarrow> Some (True, lru_insert key v c', s'))"
        using None False by (simp add: lru_put_def Let_def eq lv)
      have "lru_cache ?c key = None" using None by (simp add: eq)
      from insert_spec[OF c this assms(2), of "\<lambda>room. room < int (length v)"]
      show ?thesis unfolding e eq using False by (simp only: not_less) blast
    qed
  qed
qed


lemma merge_spec:
  assumes "cached c s" "0 \<le> key" "\<forall>old. view (lru_cache c) (val s) key = Some old \<longrightarrow> fit s key (old @ v)"
  shows "\<exists>b c' s'. lru_merge fput fget checksum key v c s = Some (b, c', s') \<and>
     kept (if b then {key} else {}) c s c' s' (if b then (view (lru_cache c) (val s))(key \<mapsto> the (view (lru_cache c) (val s) key) @ v)
        else view (lru_cache c) (val s)) \<and>
     (b \<longrightarrow> (\<exists>old. view (lru_cache c) (val s) key = Some old \<and> lru_cache c' key = Some (old @ v))) \<and>
     (lru_bounded c \<longrightarrow> (\<forall>old. view (lru_cache c) (val s) key = Some old \<longrightarrow> int (length (old @ v)) \<le> lru_limit c) \<longrightarrow> lru_bounded c')"
proof -
  let ?c = "count_put c" and ?V = "view (lru_cache c) (val s)"
  have eq: "lru_cache ?c = lru_cache c" "lru_limit ?c = lru_limit c" "lru_bounded ?c = lru_bounded c" "kept K ?c = kept K c" for K
    by (auto simp: count_put_def lru_bounded_def kept_def fun_eq_iff)
  have c: "cached ?c s" using assms(1) by (simp add: cached_count)
  show ?thesis
  proof (cases "lru_cache c key")
    case (Some old)
    then have V: "?V key = Some old" by (simp add: view_def)
    have fit: "fit s key (old @ v)" using assms(3) V by blast
    have lv: "to_int32 (int (length v)) = int (length (old @ v)) - int (length old)"
      using fit_small[OF fit] by (subst to_int32_id) auto
    have Some': "lru_cache ?c key = Some old" using Some by (simp add: eq)
    show ?thesis
    proof (cases "int (length v) + int (length old) > lru_limit c")
      case True
      then show ?thesis
        using give_up_spec[OF c Some'] Some keptI later_bounded
        by (auto simp: lru_merge_def Let_def eq cached_count)
    next
      case False
      have e: "lru_merge fput fget checksum key v c s = (case evict_loop fput (\<lambda>room. room < int (length (old @ v)) - int (length old)) 1 (touch key ?c) s of
            None \<Rightarrow> None
          | Some (False, c', s') \<Rightarrow> give_up fput key old c' s'
          | Some (True, c', s') \<Rightarrow> Some (True, c'\<lparr>lru_cache := (lru_cache c')(key \<mapsto> old @ v),
              lru_size := lru_size c' + (int (length (old @ v)) - int (length old))\<rparr>, s'))"
        using Some False unfolding lru_merge_def Let_def eq lv by simp
      have "int (length (old @ v)) \<le> lru_limit ?c" using False by (simp add: eq)
      from change_spec[OF c Some' fit refl this] show ?thesis unfolding e eq using V by (simp only: option.sel) blast
    qed
  next
    case None
    then have V: "?V key = val s key" by (simp add: view_def map_add_def)
    have "good s" using assms(1) by (simp add: cached_def)
    from get_law[OF this assms(2)] obtain e w s1 where g: "fget key s = Some (e, w, s1)" "val s1 = val s" "good s1"
      "e = Success \<longrightarrow> val s key = Some w" "\<forall>k' v'. fit s k' v' \<longrightarrow> fit s1 k' v'" by blast
    have c1: "cached ?c s1" using c g by (auto simp: cached_def)
    have None': "lru_cache ?c key = None" using None by (simp add: eq)
    have k1: "kept K c s c' s' vw" if "kept K ?c s1 c' s' vw" for K c' s' vw
      using that g(2,5) unfolding kept_def count_put_def by simp
    show ?thesis
    proof (cases "e \<noteq> Success \<or> \<not> checksum w")
      case True
      then have e: "lru_merge fput fget checksum key v c s = Some (False, ?c, s1)" using None' g(1) by (auto simp: lru_merge_def Let_def)
      have "kept {} ?c s1 ?c s1 ?V" using c1 g(2) eq(1) by (simp add: kept_def)
      then show ?thesis using e k1 eq(3) by (intro exI[of _ False] exI[of _ ?c] exI[of _ s1]) simp
    next
      case False
      then have V': "?V key = Some w" "fit s1 key (w @ v)" using g(4,5) V assms(3) by auto
      have e: "lru_merge fput fget checksum key v c s = (case evict_loop fput (\<lambda>room. int (length (w @ v)) > room mod 2 ^ 64) 0 ?c s1 of
            None \<Rightarrow> None
          | Some (False, c', s') \<Rightarrow> Some (False, c', s')
          | Some (True, c', s') \<Rightarrow> Some (True, lru_insert key (w @ v) c', s'))"
        using None' False g(1) unfolding lru_merge_def Let_def by simp
      have m: "\<forall>room. room < int (length (w @ v)) \<and> 0 \<le> room \<longrightarrow> room mod 2 ^ 64 < int (length (w @ v))"
        by (auto intro: order.strict_trans1[OF zmod_le_nonneg_dividend])
      from insert_spec[OF c1 None' V'(2), of "\<lambda>room. room mod 2 ^ 64 < int (length (w @ v))"]
      obtain b c' s' where i: "lru_merge fput fget checksum key v c s = Some (b, c', s')"
        "kept (if b then {key} else {}) ?c s1 c' s' (if b then (view (lru_cache ?c) (val s1))(key \<mapsto> w @ v) else view (lru_cache ?c) (val s1))"
        "b \<longrightarrow> lru_cache c' key = Some (w @ v)" "lru_bounded ?c \<longrightarrow> int (length (w @ v)) \<le> lru_limit ?c \<longrightarrow> lru_bounded c'"
        unfolding e using m by blast
      show ?thesis
        using i k1[OF i(2)] V'(1) unfolding eq g(2)
        by (intro exI[of _ b] exI[of _ c'] exI[of _ s']) (cases b; simp)
    qed
  qed
qed

text \<open>\<^verbatim>\<open>flush\<close>: on success the store holds what a reader saw; on failure a reader still sees it.\<close>

lemma flush_loop_spec:
  assumes "good s" "\<forall>k \<in> set ks. \<exists>v. m k = Some v \<and> fit s k v"
  shows "\<exists>b s'. flush_loop fput m ks s = Some (b, s') \<and> good s' \<and> (\<forall>k v. fit s k v \<longrightarrow> fit s' k v) \<and>
     (\<exists>n. val s' = val s ++ (m |` set (take n ks))) \<and> (b \<longrightarrow> val s' = val s ++ (m |` set ks))"
  using assms
proof (induction ks arbitrary: s)
  case (Cons k ks)
  then obtain v where v: "m k = Some v" "fit s k v" by auto
  from put_law[OF v(2)] obtain e s1 where p: "fput k v s = Some (e, s1)"
    "val s1 = (if e = Success then (val s)(k \<mapsto> v) else val s)" "good s1" "\<forall>k' v'. fit s k' v' \<longrightarrow> fit s1 k' v'" by blast
  show ?case
  proof (cases "e = Success")
    case False
    then show ?thesis using p v(1) by (intro exI[of _ False] exI[of _ s1]) (auto intro!: exI[of _ 0])
  next
    case True
    have upd: "val s1 ++ (m |` set xs) = val s ++ (m |` set (k # xs))" for xs
      using p(2) True v(1) by (auto simp: map_add_def restrict_map_def fun_eq_iff split: option.splits)
    from Cons.IH[OF p(3)] Cons.prems(2) p(4) obtain b s' n where i: "flush_loop fput m ks s1 = Some (b, s')" "good s'"
      "\<forall>k v. fit s1 k v \<longrightarrow> fit s' k v" "val s' = val s1 ++ (m |` set (take n ks))" "b \<longrightarrow> val s' = val s1 ++ (m |` set ks)"
      by (metis list.set_intros(2))
    have ex: "\<exists>n. val s' = val s ++ (m |` set (take n (k # ks)))"
      using i(4) upd[of "take n ks"] by (intro exI[of _ "Suc n"]) simp
    have "flush_loop fput m (k # ks) s = Some (b, s')" using p(1) True v(1) i(1) by simp
    moreover have "b \<longrightarrow> val s' = val s ++ (m |` set (k # ks))" using i(5) upd[of ks] by simp
    ultimately show ?thesis using i(2,3) p(4) ex by blast
  qed
qed (auto intro!: exI[of _ 0])

lemma flush_spec:
  assumes "cached c s" "set order = dom (lru_cache c)"
  shows "\<exists>b c' s'. lru_flush fput order c s = Some (b, c', s') \<and> kept {} c s c' s' (view (lru_cache c) (val s)) \<and>
     (b \<longrightarrow> lru_cache c' = Map.empty \<and> val s' = view (lru_cache c) (val s)) \<and> (lru_bounded c \<longrightarrow> lru_bounded c')"
proof -
  let ?m = "lru_cache c"
  have g: "good s" "\<forall>k \<in> set order. \<exists>v. ?m k = Some v \<and> fit s k v" using assms by (auto simp: cached_def)
  from flush_loop_spec[OF g] obtain b s' n where f: "flush_loop fput ?m order s = Some (b, s')" "good s'"
    "\<forall>k v. fit s k v \<longrightarrow> fit s' k v" "val s' = val s ++ (?m |` set (take n order))" "b \<longrightarrow> val s' = val s ++ (?m |` set order)" by blast
  have full: "?m |` set order = ?m" using assms(2) by (auto simp: restrict_map_def fun_eq_iff domIff)
  show ?thesis
  proof (cases b)
    case True
    let ?c = "c\<lparr>lru_cache := \<lambda>k. None, lru_keys := [], lru_size := 0\<rparr>"
    have "kept {} c s ?c s' (view ?m (val s))" using f True full by (auto simp: kept_def cached_def lru_ok_def view_def)
    moreover have "lru_bounded c \<longrightarrow> lru_bounded ?c"
      using lru_size_nonneg[of c] assms(1) by (auto simp: lru_bounded_def cached_def)
    ultimately show ?thesis using f True full
      by (intro exI[of _ True] exI[of _ ?c] exI[of _ s']) (auto simp: lru_flush_def view_def)
  next
    case False
    have "view ?m (val s') = view ?m (val s)"
      using f(4) by (auto simp: view_def map_add_def restrict_map_def fun_eq_iff split: option.splits)
    moreover have "val s' k = val s k \<or> val s' k = Some v" if "lru_cache c k = Some v" for k v
      using f(4) that by (auto simp: map_add_def restrict_map_def)
    ultimately have "kept {} c s c s' (view ?m (val s))" using f(2,3) assms(1) by (simp add: kept_def cached_def)
    then show ?thesis using f(1) False by (intro exI[of _ False] exI[of _ c] exI[of _ s']) (auto simp: lru_flush_def)
  qed
qed


text \<open>The shards together: a call works on one shard, and the keys of the others are seen as before.\<close>

definition shared :: "LRUCache list \<Rightarrow> 's \<Rightarrow> bool" where
  "shared cs s \<longleftrightarrow> shards_ok cs \<and> (\<forall>i < length cs. cached (cs ! i) s)"

lemma shard_hash_upd: "shard_hash k (cs[i := c]) = shard_hash k cs"
  by (auto simp: shard_hash_def)

lemma shard_hash_less: "shard_hash k cs = Some i \<Longrightarrow> i < length cs"
  by (auto simp: shard_hash_def nat_less_iff split: if_splits)

lemma shard_step:
  assumes "shared cs s" "i < length cs" "kept K (cs ! i) s c' s' vw" "\<forall>k \<in> K. shard_hash k cs = Some i"
    "\<forall>k. k \<notin> K \<longrightarrow> vw k = view (lru_cache (cs ! i)) (val s) k"
  shows "shared (cs[i := c']) s'"
    "view (shard_map (cs[i := c'])) (val s') = (\<lambda>k. if k \<in> K then vw k else view (shard_map cs) (val s) k)"
    "dom (shard_map (cs[i := c'])) \<subseteq> dom (shard_map cs) \<union> K"
    "\<forall>k w. shard_map (cs[i := c']) k = Some w \<longrightarrow> k \<in> K \<or> val s' k = val s k \<or> val s' k = Some w"
proof -
  have k: "cached c' s'" "dom (lru_cache c') \<subseteq> dom (lru_cache (cs ! i)) \<union> K" "view (lru_cache c') (val s') = vw"
    "\<forall>k v. fit s k v \<longrightarrow> fit s' k v" using assms(3) by (auto simp: kept_def)
  have sh: "\<forall>j < length cs. lru_ok (cs ! j) \<and> (\<forall>k \<in> dom (lru_cache (cs ! j)). shard_hash k cs = Some j)"
    "\<forall>j < length cs. cached (cs ! j) s" "cs \<noteq> []" using assms(1) by (auto simp: shared_def shards_ok_def)
  have ki: "\<forall>k \<in> dom (lru_cache c'). shard_hash k cs = Some i" using k(2) sh(1) assms(2,4) by blast
  have "cached (cs ! j) s'" if "j < length cs" for j
    using sh(2) that k(1,4) by (auto simp: cached_def)
  then show "shared (cs[i := c']) s'"
    using sh k(1) ki assms(2) by (auto simp: shared_def shards_ok_def shard_hash_upd nth_list_update cached_def)
  show "dom (shard_map (cs[i := c'])) \<subseteq> dom (shard_map cs) \<union> K"
    using k(2) assms(2) by (fastforce simp: shard_map_def shard_hash_upd nth_list_update split: option.splits if_splits)
  have other: "val s' x = val s x" if "shard_hash x cs \<noteq> Some i" for x
  proof -
    have "lru_cache c' x = None" "lru_cache (cs ! i) x = None" "x \<notin> K" using that ki sh(1) assms(2,4) by auto
    then show ?thesis using fun_cong[OF k(3), of x] assms(5) by (auto simp: view_def map_add_def)
  qed
  show "\<forall>k w. shard_map (cs[i := c']) k = Some w \<longrightarrow> k \<in> K \<or> val s' k = val s k \<or> val s' k = Some w"
  proof (intro allI impI)
    fix x w assume w: "shard_map (cs[i := c']) x = Some w"
    show "x \<in> K \<or> val s' x = val s x \<or> val s' x = Some w"
    proof (cases "shard_hash x cs = Some i")
      case True
      then have "lru_cache c' x = Some w" using w assms(2) by (simp add: shard_map_def shard_hash_upd)
      then show ?thesis using assms(3) by (auto simp: kept_def)
    qed (use other in blast)
  qed
  show "view (shard_map (cs[i := c'])) (val s') = (\<lambda>k. if k \<in> K then vw k else view (shard_map cs) (val s) k)"
  proof
    fix x
    have vx: "view (lru_cache c') (val s') x = vw x" by (simp add: k(3))
    show "view (shard_map (cs[i := c'])) (val s') x = (if x \<in> K then vw x else view (shard_map cs) (val s) x)"
    proof (cases "shard_hash x cs = Some i")
      case True
      then have "view (shard_map (cs[i := c'])) (val s') x = vw x"
        using vx assms(2) by (simp add: view_def map_add_def shard_map_def shard_hash_upd)
      then show ?thesis using True assms(5) by (auto simp: view_def map_add_def shard_map_def)
    next
      case False
      then have "x \<notin> K" using assms(4) by auto
      then show ?thesis
        using False other[OF False] assms(2) by (auto simp: view_def map_add_def shard_map_def shard_hash_upd split: option.splits)
    qed
  qed
qed

lemma shard_view: "shard_hash k cs = Some i \<Longrightarrow> view (shard_map cs) f k = view (lru_cache (cs ! i)) f k"
  by (simp add: view_def map_add_def shard_map_def)

lemma shared_mono:
  "shared cs s \<Longrightarrow> good s' \<Longrightarrow> \<forall>k v. fit s k v \<longrightarrow> fit s' k v \<Longrightarrow> shared cs s'"
  by (auto simp: shared_def cached_def)

text \<open>What a call on the shards promises: \<open>b\<close> is its answer, and after a positive one the key has the value \<open>w\<close>.\<close>

definition shard_kept :: "bool \<Rightarrow> int \<Rightarrow> bytes \<Rightarrow> LRUCache list \<Rightarrow> 's \<Rightarrow> LRUCache list \<Rightarrow> 's \<Rightarrow> bool" where
  "shard_kept b key w cs s cs' s' \<longleftrightarrow> shared cs' s' \<and> length cs' = length cs \<and>
     view (shard_map cs') (val s') = (if b then (view (shard_map cs) (val s))(key \<mapsto> w) else view (shard_map cs) (val s)) \<and>
     (\<forall>k v. fit s k v \<longrightarrow> fit s' k v) \<and> dom (shard_map cs') \<subseteq> dom (shard_map cs) \<union> (if b then {key} else {}) \<and>
     (b \<longrightarrow> val s' key = val s key) \<and> (\<forall>k v. shard_map cs' k = Some v \<longrightarrow> k = key \<and> b \<or> val s' k = val s k \<or> val s' k = Some v)"

lemma shard_call:
  assumes "shared cs s" "shard_hash key cs = Some i"
    "kept (if b then {key} else {}) (cs ! i) s c' s' (if b then (view (lru_cache (cs ! i)) (val s))(key \<mapsto> w) else view (lru_cache (cs ! i)) (val s))"
  shows "shard_kept b key w cs s (cs[i := c']) s'"
proof -
  note il = shard_hash_less[OF assms(2)]
  have h: "\<forall>k \<in> (if b then {key} else {}). shard_hash k cs = Some i"
    "\<forall>k. k \<notin> (if b then {key} else {}) \<longrightarrow> (if b then (view (lru_cache (cs ! i)) (val s))(key \<mapsto> w)
        else view (lru_cache (cs ! i)) (val s)) k = view (lru_cache (cs ! i)) (val s) k" using assms(2) by auto
  note st = shard_step[OF assms(1) il assms(3) h]
  have "view (shard_map (cs[i := c'])) (val s') = (if b then (view (shard_map cs) (val s))(key \<mapsto> w) else view (shard_map cs) (val s))"
    unfolding st(2) by (auto simp: fun_eq_iff)
  moreover have "b \<longrightarrow> val s' key = val s key" using assms(3) by (simp add: kept_def)
  moreover have "\<forall>k v. fit s k v \<longrightarrow> fit s' k v" using assms(3) by (simp add: kept_def)
  moreover have "\<forall>k v. shard_map (cs[i := c']) k = Some v \<longrightarrow> k = key \<and> b \<or> val s' k = val s k \<or> val s' k = Some v"
    using st(4) by (simp split: if_splits)
  ultimately show ?thesis using st(1,3) by (simp add: shard_kept_def)
qed

lemma shard_exists: "shared cs s \<Longrightarrow> 0 \<le> key \<Longrightarrow> \<exists>i. shard_hash key cs = Some i"
  by (auto simp: shared_def shards_ok_def shard_hash_def)

lemma shard_cached: "shared cs s \<Longrightarrow> shard_hash key cs = Some i \<Longrightarrow> cached (cs ! i) s"
  using shard_hash_less by (auto simp: shared_def)

lemma shard_put_spec:
  assumes "shared cs s" "fit s key v" "0 \<le> key"
  shows "\<exists>b cs' s'. shard_put fput key v cs s = Some (b, cs', s') \<and> shard_kept b key v cs s cs' s' \<and>
     (b \<longrightarrow> shard_map cs' key = Some v) \<and> ((\<forall>c \<in> set cs. lru_bounded c) \<longrightarrow> (\<forall>c \<in> set cs'. lru_bounded c))"
proof -
  obtain i where i: "shard_hash key cs = Some i" using shard_exists[OF assms(1,3)] by blast
  note il = shard_hash_less[OF i]
  from put_spec[OF shard_cached[OF assms(1) i] assms(2)] obtain b c' s' where p: "lru_put fput key v (cs ! i) s = Some (b, c', s')"
    "kept (if b then {key} else {}) (cs ! i) s c' s' (if b then (view (lru_cache (cs ! i)) (val s))(key \<mapsto> v) else view (lru_cache (cs ! i)) (val s))"
    "b \<longrightarrow> lru_cache c' key = Some v" "lru_bounded (cs ! i) \<longrightarrow> lru_bounded c'" by blast
  have "b \<longrightarrow> shard_map (cs[i := c']) key = Some v" using p(3) i il by (simp add: shard_map_def shard_hash_upd)
  moreover have "(\<forall>c \<in> set cs. lru_bounded c) \<longrightarrow> (\<forall>c \<in> set (cs[i := c']). lru_bounded c)"
    using p(4) il set_update_subset_insert[of cs i c'] by (auto dest!: nth_mem)
  moreover have "shard_put fput key v cs s = Some (b, cs[i := c'], s')" using p(1) i by (simp add: shard_put_def on_shard_def)
  ultimately show ?thesis using shard_call[OF assms(1) i p(2)] by blast
qed

lemma shard_merge_spec:
  assumes "shared cs s" "0 \<le> key" "\<forall>old. view (shard_map cs) (val s) key = Some old \<longrightarrow> fit s key (old @ v)"
  shows "\<exists>b cs' s'. shard_merge fput fget checksum key v cs s = Some (b, cs', s') \<and>
     shard_kept b key (the (view (shard_map cs) (val s) key) @ v) cs s cs' s' \<and>
     (b \<longrightarrow> (\<exists>old. view (shard_map cs) (val s) key = Some old \<and> shard_map cs' key = Some (old @ v)))"
proof -
  obtain i where i: "shard_hash key cs = Some i" using shard_exists[OF assms(1,2)] by blast
  note il = shard_hash_less[OF i] and vi = shard_view[OF i, of "val s"]
  from merge_spec[OF shard_cached[OF assms(1) i] assms(2) assms(3)[unfolded vi]] obtain b c' s' where
    p: "lru_merge fput fget checksum key v (cs ! i) s = Some (b, c', s')"
    "kept (if b then {key} else {}) (cs ! i) s c' s' (if b then (view (lru_cache (cs ! i)) (val s))(key \<mapsto> the (view (lru_cache (cs ! i)) (val s) key) @ v)
       else view (lru_cache (cs ! i)) (val s))"
    "b \<longrightarrow> (\<exists>old. view (lru_cache (cs ! i)) (val s) key = Some old \<and> lru_cache c' key = Some (old @ v))" by blast
  have "b \<longrightarrow> (\<exists>old. view (shard_map cs) (val s) key = Some old \<and> shard_map (cs[i := c']) key = Some (old @ v))"
    using p(3) i il vi by (simp add: shard_map_def shard_hash_upd)
  moreover have "shard_merge fput fget checksum key v cs s = Some (b, cs[i := c'], s')"
    using p(1) i by (simp add: shard_merge_def on_shard_def)
  ultimately show ?thesis using shard_call[OF assms(1) i p(2)] unfolding vi by blast
qed

lemma shard_get_spec:
  assumes "shared cs s" "0 \<le> key"
  shows "\<exists>cs'. shard_get key cs = Some (shard_map cs key, cs') \<and> shared cs' s \<and> shard_map cs' = shard_map cs \<and> length cs' = length cs"
proof -
  obtain i where i: "shard_hash key cs = Some i" using shard_exists[OF assms] by blast
  note il = shard_hash_less[OF i]
  obtain c' where c: "lru_get key (cs ! i) = (lru_cache (cs ! i) key, c')" "lru_cache c' = lru_cache (cs ! i)"
    "lru_keys c' = lru_keys (cs ! i)" "lru_size c' = lru_size (cs ! i)"
    by (cases "lru_cache (cs ! i) key") (auto simp: lru_get_def Let_def)
  have "cached c' s" using shard_cached[OF assms(1) i] c by (simp add: cached_def lru_ok_def)
  then have "shared (cs[i := c']) s"
    using assms(1) c(2) il by (auto simp: shared_def shards_ok_def shard_hash_upd nth_list_update cached_def)
  moreover have "shard_map (cs[i := c']) = shard_map cs"
    using c(2) il by (auto simp: shard_map_def shard_hash_upd nth_list_update fun_eq_iff split: option.splits)
  ultimately show ?thesis using i c(1) by (auto simp: shard_get_def shard_map_def)
qed

lemma shard_del_spec:
  assumes "shared cs s" "0 \<le> key"
  shows "\<exists>b cs'. shard_del key cs = Some (b, cs') \<and> shared cs' s \<and> shard_map cs' = (shard_map cs)(key := None) \<and> length cs' = length cs"
proof -
  obtain i where i: "shard_hash key cs = Some i" using shard_exists[OF assms] by blast
  note il = shard_hash_less[OF i]
  obtain b c' where c: "lru_del key (cs ! i) = (b, c')" by fastforce
  have cm: "lru_cache c' = (lru_cache (cs ! i))(key := None)"
    using c by (auto simp: lru_del_def lru_erase_def split: option.splits)
  have "lru_ok c'" using c shard_cached[OF assms(1) i] lru_erase_ok[of "cs ! i" key]
    by (auto simp: lru_del_def cached_def split: option.splits)
  then have "cached c' s" using shard_cached[OF assms(1) i] cm by (auto simp: cached_def)
  then have "shared (cs[i := c']) s"
    using assms(1) cm il by (auto simp: shared_def shards_ok_def shard_hash_upd nth_list_update cached_def)
  moreover have "shard_map (cs[i := c']) = (shard_map cs)(key := None)"
    using cm il i by (auto simp: shard_map_def shard_hash_upd nth_list_update fun_eq_iff split: option.splits)
  ultimately show ?thesis using i c by (auto simp: shard_del_def)
qed

text \<open>The store keeps, for every cached key, a posting of the length of the cached value.\<close>

definition tracks :: "LRUCache list \<Rightarrow> 's \<Rightarrow> bool" where
  "tracks cs s \<longleftrightarrow> (\<forall>k v. shard_map cs k = Some v \<longrightarrow> (\<exists>w. val s k = Some w \<and> length w = length v))"

lemma tracks_step:
  assumes "tracks cs s" "view (shard_map cs') (val s') k = view (shard_map cs) (val s) k" "shard_map cs' k = Some v"
    "shard_map cs k \<noteq> None" "val s' k = val s k \<or> val s' k = Some v"
  shows "\<exists>w. val s' k = Some w \<and> length w = length v"
proof -
  obtain v0 where "shard_map cs k = Some v0" using assms(4) by auto
  then have "shard_map cs k = Some v" using assms(2,3) by (simp add: view_def map_add_def)
  then show ?thesis using assms(1,5) by (auto simp: tracks_def)
qed

lemma shard_flush_spec:
  assumes "shared (pre @ cs) s" "length orders = length cs" "\<forall>i < length cs. set (orders ! i) = dom (lru_cache (cs ! i))"
  shows "\<exists>b cs' s'. shard_flush fput orders cs s = Some (b, cs', s') \<and> shared (pre @ cs') s' \<and> length cs' = length cs \<and>
     view (shard_map (pre @ cs')) (val s') = view (shard_map (pre @ cs)) (val s) \<and>
     (b \<longrightarrow> (\<forall>c \<in> set cs'. lru_cache c = Map.empty)) \<and> (\<forall>k w. fit s k w \<longrightarrow> fit s' k w) \<and>
     (tracks (pre @ cs) s \<longrightarrow> tracks (pre @ cs') s')"
  using assms
proof (induction cs arbitrary: pre orders s)
  case (Cons c cs)
  then obtain order os where o: "orders = order # os" by (cases orders) auto
  have i: "length pre < length (pre @ c # cs)" "(pre @ c # cs) ! length pre = c" by simp_all
  have "cached c s" using Cons.prems(1) i unfolding shared_def by metis
  moreover have "set order = dom (lru_cache c)" using Cons.prems(3) o by force
  ultimately obtain b c' s1 where f: "lru_flush fput order c s = Some (b, c', s1)" "kept {} c s c' s1 (view (lru_cache c) (val s))"
    "b \<longrightarrow> lru_cache c' = Map.empty" using flush_spec by blast
  have st: "shared (pre @ c' # cs) s1" "view (shard_map (pre @ c' # cs)) (val s1) = view (shard_map (pre @ c # cs)) (val s)"
    "dom (shard_map (pre @ c' # cs)) \<subseteq> dom (shard_map (pre @ c # cs))"
    "\<forall>k w. shard_map (pre @ c' # cs) k = Some w \<longrightarrow> val s1 k = val s k \<or> val s1 k = Some w"
    using shard_step[OF Cons.prems(1) i(1), of "{}" c' s1 "view (lru_cache c) (val s)"] f(2) i(2) by auto
  have tr: "tracks (pre @ c # cs) s \<longrightarrow> tracks (pre @ c' # cs) s1"
  proof (unfold tracks_def[of "pre @ c' # cs"], intro impI allI)
    fix k v assume "tracks (pre @ c # cs) s" "shard_map (pre @ c' # cs) k = Some v"
    moreover from this(2) have "shard_map (pre @ c # cs) k \<noteq> None" using st(3) by auto
    ultimately show "\<exists>w. val s1 k = Some w \<and> length w = length v"
      using tracks_step[of "pre @ c # cs" s "pre @ c' # cs" s1 k v] st(2,4) by auto
  qed
  have fit: "\<forall>k w. fit s k w \<longrightarrow> fit s1 k w" using f(2) by (simp add: kept_def)
  show ?case
  proof (cases b)
    case False
    then show ?thesis using f(1) o st(1,2) fit tr by (intro exI[of _ False] exI[of _ "c' # cs"] exI[of _ s1]) simp
  next
    case True
    have "\<forall>i < length cs. set (os ! i) = dom (lru_cache (cs ! i))" using Cons.prems(3) o by force
    with Cons.IH[of "pre @ [c']" s1 os] st(1) Cons.prems(2) o obtain b' cs' s' where
      r: "shard_flush fput os cs s1 = Some (b', cs', s')" "shared (pre @ c' # cs') s'" "length cs' = length cs"
      "view (shard_map (pre @ c' # cs')) (val s') = view (shard_map (pre @ c' # cs)) (val s1)"
      "b' \<longrightarrow> (\<forall>c \<in> set cs'. lru_cache c = Map.empty)" "\<forall>k w. fit s1 k w \<longrightarrow> fit s' k w"
      "tracks (pre @ c' # cs) s1 \<longrightarrow> tracks (pre @ c' # cs') s'" by auto
    then show ?thesis
      using f(1,3) o True st(2) fit tr by (intro exI[of _ b'] exI[of _ "c' # cs'"] exI[of _ s']) auto
  qed
qed auto

end

end
