(* ===== verification/File_Io.thy ===== *)
theory File_Io
  imports Posting_Store Lru_Cache "HOL-Library.Monad_Syntax"
begin

text \<open>
  The whole key-value store \<^verbatim>\<open>FileIO\<close> of \<^verbatim>\<open>inc/Core/SPANN/ExtraFileController.h\<close>: the posting file of theory
  \<open>Posting_Store\<close> behind the sharded write-back cache of theory \<open>Lru_Cache\<close>. An empty list of shards stands for
  the null pointer \<^verbatim>\<open>m_pShardedLRUCache\<close>. The cache writes entries back with its own request buffers
  (\<open>creqs\<close>), a call reads and writes with the caller's (\<open>reqs\<close>). The calls of one thread run one after the
  other, so the locks of the shards are not part of the model.
\<close>

record CachedIO =
  cio_store :: FileIO
  cio_caches :: "LRUCache list"

subsection \<open>The calls of the cache\<close>

definition fio_put :: "io_env \<Rightarrow> bytes list \<Rightarrow> FileIO fput" where
  "fio_put E creqs key v s = fio_Put_raw E key v creqs s"

definition fio_ReadBlocks_page ::
  "io_env \<Rightarrow> int list option \<Rightarrow> bytes list \<Rightarrow> FileIO \<Rightarrow> (bool \<times> bytes \<times> FileIO) option" where
  "fio_ReadBlocks_page E p reqs s =
     map_option (\<lambda>(ok, v, c). (ok, v, s\<lparr>fio_ctl := c\<rparr>))
       (bc_ReadBlocks_page E (case p of None \<Rightarrow> PNone | Some arr \<Rightarrow> PArray arr) reqs (fio_ctl s))"

text \<open>\<^verbatim>\<open>Get\<close> into a page buffer without the cache.\<close>

definition fio_get :: "io_env \<Rightarrow> bytes list \<Rightarrow> FileIO fget" where
  "fio_get E creqs key s =
     (case fio_lookup key s of
        None \<Rightarrow> None
      | Some (Inl e) \<Rightarrow> Some (e, [], s)
      | Some (Inr arr) \<Rightarrow>
          map_option (\<lambda>(ok, v, s'). (if ok then Success else Fail, v, s'))
            (fio_ReadBlocks_page E (Some arr) creqs s))"

subsection \<open>Get\<close>

definition cio_Get ::
  "io_env \<Rightarrow> int \<Rightarrow> bytes \<Rightarrow> bytes list \<Rightarrow> CachedIO \<Rightarrow> (ErrorCode \<times> bytes \<times> CachedIO) option" where
  "cio_Get E key value reqs d =
     (case fio_lookup key (cio_store d) of
        None \<Rightarrow> None
      | Some (Inl e) \<Rightarrow> Some (e, value, d)
      | Some (Inr arr) \<Rightarrow>
          (let disk = (\<lambda>d. map_option (\<lambda>(ok, v, s'). (if ok then Success else Fail, v, d\<lparr>cio_store := s'\<rparr>))
                 (fio_ReadBlocks E (Some arr) reqs value (cio_store d))) in
           if cio_caches d = [] then disk d
           else
             (case shard_get key (cio_caches d) of
                None \<Rightarrow> None
              | Some (Some v, cs) \<Rightarrow> Some (Success, v, d\<lparr>cio_caches := cs\<rparr>)
              | Some (None, cs) \<Rightarrow> disk (d\<lparr>cio_caches := cs\<rparr>))))"

text \<open>The loop of \<^verbatim>\<open>MultiGet\<close>: the values found in the cache and the pointers for the batch read. A key
  outside the mapping adds no pointer, but the values are counted on.\<close>

fun multi_scan ::
  "int list \<Rightarrow> nat \<Rightarrow> bytes list \<Rightarrow> posting_ptr list \<Rightarrow> CachedIO \<Rightarrow> (bytes list \<times> posting_ptr list \<times> CachedIO) option" where
  "multi_scan [] i values blocks d = Some (values, blocks, d)"
| "multi_scan (key # keys) i values blocks d =
     (if key < fio_R (cio_store d) then
        (let ptr = (case fio_At key (cio_store d) of None \<Rightarrow> None | Some None \<Rightarrow> Some PNone | Some (Some a) \<Rightarrow> Some (PArray a)) in
         if cio_caches d = [] then
           (case ptr of None \<Rightarrow> None | Some p \<Rightarrow> multi_scan keys (Suc i) values (blocks @ [p]) d)
         else
           (case shard_get key (cio_caches d) of
              None \<Rightarrow> None
            | Some (Some v, cs) \<Rightarrow> multi_scan keys (Suc i) (values[i := v]) (blocks @ [PNull]) (d\<lparr>cio_caches := cs\<rparr>)
            | Some (None, cs) \<Rightarrow>
                (case ptr of None \<Rightarrow> None | Some p \<Rightarrow> multi_scan keys (Suc i) values (blocks @ [p]) (d\<lparr>cio_caches := cs\<rparr>))))
      else multi_scan keys (Suc i) values blocks d)"

text \<open>\<^verbatim>\<open>MultiGet\<close> into strings; \<open>values\<close> are resized to the number of keys.\<close>

definition cio_MultiGet ::
  "io_env \<Rightarrow> int list \<Rightarrow> bytes list \<Rightarrow> bytes list \<Rightarrow> CachedIO \<Rightarrow> (ErrorCode \<times> bytes list \<times> CachedIO) option" where
  "cio_MultiGet E keys values reqs d =
     (let values = take (length keys) values @ replicate (length keys - length values) [] in
      case multi_scan keys 0 values [] d of
        None \<Rightarrow> None
      | Some (vs, blocks, d') \<Rightarrow>
          map_option (\<lambda>(ok, vs', c). (if ok then Success else Fail, vs', d'\<lparr>cio_store := (cio_store d')\<lparr>fio_ctl := c\<rparr>\<rparr>))
            (bc_ReadBlocks_multi E blocks reqs vs (fio_ctl (cio_store d'))))"

subsection \<open>Put\<close>

text \<open>The bookkeeping after the cache has taken a value of \<open>blocks\<close> pages: an array for a new key, blocks
  allocated or released to match the new size.\<close>

definition fio_adjust :: "io_env \<Rightarrow> int \<Rightarrow> int \<Rightarrow> int \<Rightarrow> FileIO \<Rightarrow> (ErrorCode \<times> FileIO) option" where
  "fio_adjust E key n blocks s =
     (case (case fio_At key s of
              None \<Rightarrow> None
            | Some None \<Rightarrow> (case fio_new_array s of (arr, s') \<Rightarrow> Some (arr, fio_set key (Some arr) s'))
            | Some (Some arr) \<Rightarrow> Some (arr, s)) of
        None \<Rightarrow> None
      | Some ([], s) \<Rightarrow> None
      | Some (sz # bs, s) \<Rightarrow>
          (let oldblocks = (if sz < 0 then 0 else to_int32 (block_count sz)) in
           if blocks - oldblocks > 0 then
             (case fio_GetBlocks E (sz # bs) (nat (oldblocks + 1)) (blocks - oldblocks) s of
                None \<Rightarrow> None
              | Some (False, arr', s') \<Rightarrow> Some (DiskIOFail, fio_set key (Some arr') s')
              | Some (True, arr', s') \<Rightarrow> Some (Success, fio_set key (Some (arr'[0 := n])) s'))
           else if blocks - oldblocks < 0 then
             map_option (\<lambda>(ok, s'). if ok then (Success, fio_set key (Some (n # bs)) s') else (DiskIOFail, s'))
               (fio_ReleaseBlocks (sz # bs) (nat (blocks + 1)) (oldblocks - blocks) s)
           else Some (Success, fio_set key (Some (n # bs)) s)))"

text \<open>\<^verbatim>\<open>Put(.., useCache = true)\<close>.\<close>

definition cio_Put ::
  "io_env \<Rightarrow> bytes list \<Rightarrow> int \<Rightarrow> bytes \<Rightarrow> bytes list \<Rightarrow> CachedIO \<Rightarrow> (ErrorCode \<times> CachedIO) option" where
  "cio_Put E creqs key value reqs d =
     (if value_blocks value \<ge> int (fio_blockLimit (cio_store d)) then Some (Posting_OverFlow, d)
      else
        (let s = fio_extend key (cio_store d);
             disk = (\<lambda>s cs. map_option (\<lambda>(e, s'). (e, \<lparr>cio_store = s', cio_caches = cs\<rparr>)) (fio_Put_disk E key value reqs s)) in
         if cio_caches d = [] then disk s []
         else
           (case shard_put (fio_put E creqs) key value (cio_caches d) s of
              None \<Rightarrow> None
            | Some (False, cs, s') \<Rightarrow> disk s' cs
            | Some (True, cs, s') \<Rightarrow>
                map_option (\<lambda>(e, s''). (e, \<lparr>cio_store = s'', cio_caches = cs\<rparr>))
                  (fio_adjust E key (int (length value)) (value_blocks value) s'))))"

subsection \<open>Merge\<close>

text \<open>The bookkeeping after the cache has merged: blocks for the longer value, and the new size.\<close>

definition fio_grow :: "io_env \<Rightarrow> int \<Rightarrow> int \<Rightarrow> FileIO \<Rightarrow> (ErrorCode \<times> FileIO) option" where
  "fio_grow E key newSize s =
     (case fio_At key s of
        Some (Some (sz # bs)) \<Rightarrow>
          (let oldblocks = to_int32 (block_count sz); allocblocks = to_int32 (block_count newSize) - oldblocks in
           if allocblocks > 0 then
             (case fio_GetBlocks E (sz # bs) (nat (1 + oldblocks)) allocblocks s of
                None \<Rightarrow> None
              | Some (False, arr', s') \<Rightarrow> Some (DiskIOFail, fio_set key (Some arr') s')
              | Some (True, arr', s') \<Rightarrow> Some (Success, fio_set key (Some (arr'[0 := newSize])) s'))
           else Some (Success, fio_set key (Some (newSize # bs)) s))
      | _ \<Rightarrow> None)"

text \<open>\<^verbatim>\<open>Merge\<close>. The array of the key is read again when the cache did not take the value; it is the same one
  unless the cache has written the key's posting back.\<close>

definition cio_Merge ::
  "io_env \<Rightarrow> bytes list \<Rightarrow> (bytes \<Rightarrow> bool) \<Rightarrow> int \<Rightarrow> bytes \<Rightarrow> bytes list \<Rightarrow> CachedIO \<Rightarrow> (ErrorCode \<times> CachedIO) option" where
  "cio_Merge E creqs checksum key value reqs d =
     (case fio_merge_lookup key value (cio_store d) of
        None \<Rightarrow> None
      | Some (Inl e) \<Rightarrow> Some (e, d)
      | Some (Inr (arr, newSize)) \<Rightarrow>
          (let disk = (\<lambda>s cs. case fio_At key s of
                 Some (Some arr') \<Rightarrow> map_option (\<lambda>(e, s'). (e, \<lparr>cio_store = s', cio_caches = cs\<rparr>))
                   (fio_Merge_disk E key value reqs arr' newSize s)
               | _ \<Rightarrow> None) in
           if cio_caches d = [] then disk (cio_store d) []
           else
             (case shard_merge (fio_put E creqs) (fio_get E creqs) checksum key value (cio_caches d) (cio_store d) of
                None \<Rightarrow> None
              | Some (False, cs, s') \<Rightarrow> disk s' cs
              | Some (True, cs, s') \<Rightarrow>
                  map_option (\<lambda>(e, s''). (e, \<lparr>cio_store = s'', cio_caches = cs\<rparr>)) (fio_grow E key newSize s'))))"

subsection \<open>Delete, statistics, saving and stopping\<close>

definition cio_Delete :: "int \<Rightarrow> CachedIO \<Rightarrow> (ErrorCode \<times> CachedIO) option" where
  "cio_Delete key d =
     (if key \<ge> fio_R (cio_store d) then Some (Key_OverFlow, d)
      else
        (case (if cio_caches d = [] then Some (False, []) else shard_del key (cio_caches d)) of
           None \<Rightarrow> None
         | Some (_, cs) \<Rightarrow>
             map_option (\<lambda>(e, s'). (e, \<lparr>cio_store = s', cio_caches = cs\<rparr>)) (fio_Delete_raw key (cio_store d))))"

definition cio_GetNumBlocks :: "CachedIO \<Rightarrow> int" where
  "cio_GetNumBlocks d = TotalBlocks (fio_ctl (cio_store d))"

definition cio_remainGB :: "CachedIO \<Rightarrow> int" where
  "cio_remainGB d = to_int32 (drop_bit (30 - PageSizeEx)
     (to_int32 (RemainBlocks (fio_ctl (cio_store d)) + ReserveBlocks (fio_ctl (cio_store d)))))"

text \<open>\<^verbatim>\<open>Save\<close> flushes the cache, then writes the mapping.\<close>

definition cio_Save ::
  "io_env \<Rightarrow> bytes list \<Rightarrow> int list list \<Rightarrow> ostream option \<Rightarrow> CachedIO \<Rightarrow> (ErrorCode \<times> ostream option \<times> CachedIO) option" where
  "cio_Save E creqs orders file d =
     (case (if cio_caches d = [] then Some (True, [], cio_store d)
            else shard_flush (fio_put E creqs) orders (cio_caches d) (cio_store d)) of
        None \<Rightarrow> None
      | Some (False, cs, s) \<Rightarrow> Some (Fail, file, \<lparr>cio_store = s, cio_caches = cs\<rparr>)
      | Some (True, cs, s) \<Rightarrow>
          (case fio_Save_raw file s of (e, file') \<Rightarrow> Some (e, file', \<lparr>cio_store = s, cio_caches = cs\<rparr>)))"

text \<open>\<^verbatim>\<open>Checkpoint\<close>: the result of \<^verbatim>\<open>Save\<close> is not looked at.\<close>

definition cio_Checkpoint ::
  "io_env \<Rightarrow> bytes list \<Rightarrow> int list list \<Rightarrow> ostream option \<Rightarrow> ostream option \<Rightarrow> CachedIO \<Rightarrow>
     (ErrorCode \<times> ostream option \<times> ostream option \<times> CachedIO) option" where
  "cio_Checkpoint E creqs orders mapfile poolfile d =
     map_option (\<lambda>(_, mapfile', d').
         case bc_Checkpoint poolfile (fio_ctl (cio_store d')) of
           (e, poolfile', c) \<Rightarrow> (e, mapfile', poolfile', d'\<lparr>cio_store := (cio_store d')\<lparr>fio_ctl := c\<rparr>\<rparr>))
       (cio_Save E creqs orders mapfile d)"

text \<open>\<^verbatim>\<open>ShutDown\<close>, the second call of which does nothing.\<close>

definition cio_ShutDown ::
  "io_env \<Rightarrow> bytes list \<Rightarrow> int list list \<Rightarrow> ostream option \<Rightarrow> ostream option \<Rightarrow> bool \<times> CachedIO \<Rightarrow>
     (ostream option \<times> ostream option \<times> bool \<times> CachedIO) option" where
  "cio_ShutDown E creqs orders mapfile poolfile st =
     (case st of (m_shutdownCalled, d) \<Rightarrow>
      if m_shutdownCalled then Some (mapfile, poolfile, True, d)
      else
        map_option (\<lambda>(_, mapfile', d').
            let s = cio_store d' in
            case bc_ShutDown poolfile (fio_ctl s) of
              (_, poolfile', c) \<Rightarrow> (mapfile', poolfile', True,
                 \<lparr>cio_store = s\<lparr>fio_mapping := map (\<lambda>_. None) (fio_mapping s), fio_buffer := [], fio_ctl := c\<rparr>, cio_caches = []\<rparr>))
          (cio_Save E creqs orders mapfile d))"

subsection \<open>What a reader sees\<close>

definition fio_val :: "FileIO \<Rightarrow> int \<Rightarrow> bytes option" where
  "fio_val s k = (if 0 \<le> k then fio_value s (nat k) else None)"

text \<open>The cache has one request buffer per page of the largest posting.\<close>

definition creqs_ok :: "FileIO \<Rightarrow> bytes list \<Rightarrow> bool" where
  "creqs_ok s creqs \<longleftrightarrow> reqs_ok s creqs \<and> length creqs = fio_blockLimit s"

definition fio_fit :: "io_env \<Rightarrow> bytes list \<Rightarrow> FileIO \<Rightarrow> int \<Rightarrow> bytes \<Rightarrow> bool" where
  "fio_fit E creqs s k v \<longleftrightarrow> fio_inv E s \<and> creqs_ok s creqs \<and> 0 \<le> k \<and> k < fio_R s \<and> length v < 2 ^ 31 \<and> \<not> sizeless s k"

definition fio_good :: "io_env \<Rightarrow> bytes list \<Rightarrow> FileIO \<Rightarrow> bool" where
  "fio_good E creqs s \<longleftrightarrow> fio_inv E s \<and> creqs_ok s creqs"

definition cio_view :: "CachedIO \<Rightarrow> int \<Rightarrow> bytes option" where
  "cio_view d = view (shard_map (cio_caches d)) (fio_val (cio_store d))"

text \<open>The store and the cache are consistent: every cached key has an array whose size is the length of the
  cached value.\<close>

definition cio_inv :: "io_env \<Rightarrow> bytes list \<Rightarrow> CachedIO \<Rightarrow> bool" where
  "cio_inv E creqs d \<longleftrightarrow> fio_good E creqs (cio_store d) \<and>
     (cio_caches d \<noteq> [] \<longrightarrow> shards_ok (cio_caches d) \<and>
        (\<forall>k v. shard_map (cio_caches d) k = Some v \<longrightarrow> fio_fit E creqs (cio_store d) k v \<and>
           (\<exists>w. fio_val (cio_store d) k = Some w \<and> length w = length v)))"

text \<open>What the bookkeeping promises: only the key's cell changes, and after a success it holds a posting of
  size \<open>n\<close>.\<close>

definition adjusted :: "io_env \<Rightarrow> nat \<Rightarrow> int \<Rightarrow> FileIO \<Rightarrow> (ErrorCode \<times> FileIO) option \<Rightarrow> bool" where
  "adjusted E k n s r \<longleftrightarrow> (\<exists>e s'. r = Some (e, s') \<and> fio_inv E s' \<and> fio_blockLimit s' = fio_blockLimit s \<and>
     length (fio_mapping s') = length (fio_mapping s) \<and> (\<forall>i. i \<noteq> k \<longrightarrow> fio_value s' i = fio_value s i) \<and>
     (e = Success \<and> (\<exists>w. fio_value s' k = Some w \<and> int (length w) = n) \<and> (\<forall>x. sizeless s' x \<longrightarrow> sizeless s x) \<or>
      e = DiskIOFail))"

text \<open>A shard of 10000 bytes, entries of at most two pages, with a newer value of key 0.\<close>

definition sample_shard :: LRUCache where
  "sample_shard = (lru_new 10000 2)\<lparr>lru_cache := [0 \<mapsto> replicate 5000 1], lru_keys := [0], lru_size := 5000\<rparr>"

definition sample_cached :: CachedIO where
  "sample_cached = \<lparr>cio_store = sample_store, cio_caches = [sample_shard]\<rparr>"

subsection \<open>The posting file as the store behind the cache\<close>

lemma ReadBlocks_page_same:
  assumes "bc_ReadBlocks E (PArray (sz # a)) reqs v c = Some (ok, w, c')" "0 \<le> sz" "nat (block_count sz) \<le> length a"
    "block_count sz \<le> int (length reqs)"
  obtains w' where "bc_ReadBlocks_page E (PArray (sz # a)) reqs c = Some (ok, w', c')" "ok \<longrightarrow> w' = w"
  using assms block_count_nonneg[OF assms(2)]
  by (auto simp: bc_ReadBlocks_def bc_ReadBlocks_page_def Let_def split: prod.splits if_splits)

lemma fio_get_law:
  assumes "fio_good E creqs s" "0 \<le> k"
  shows "\<exists>e w s'. fio_get E creqs k s = Some (e, w, s') \<and> fio_val s' = fio_val s \<and> fio_good E creqs s' \<and>
    (e = Success \<longrightarrow> fio_val s k = Some w) \<and> (\<forall>k' v'. fio_fit E creqs s k' v' \<longrightarrow> fio_fit E creqs s' k' v')"
proof -
  have i: "fio_inv E s" "reqs_ok s creqs" "length creqs = fio_blockLimit s" using assms(1) by (auto simp: fio_good_def creqs_ok_def)
  from i(1) assms(2) show ?thesis
  proof (cases rule: fio_lookup_cases)
    case none
    then show ?thesis using assms(1) by (auto simp: fio_get_def split: if_splits)
  next
    case (found sz bs)
    from fio_ReadBlocks_cases[OF i(1,2) found(3-5), of "[]"] obtain ok w c where
      r: "fio_ReadBlocks E (Some (sz # bs)) creqs [] s = Some (ok, w, s\<lparr>fio_ctl := c\<rparr>)"
      "ok \<longrightarrow> w = take (nat sz) (concat (map (bc_pages (fio_ctl s)) (take (nat (block_count sz)) bs)))"
      "(\<forall>t i. e_done E t i) \<longrightarrow> ok" "fio_inv E (s\<lparr>fio_ctl := c\<rparr>)" "fio_value (s\<lparr>fio_ctl := c\<rparr>) = fio_value s" .
    have "bc_ReadBlocks E (PArray (sz # bs)) creqs [] (fio_ctl s) = Some (ok, w, c)"
      using r(1) by (cases "bc_ReadBlocks E (PArray (sz # bs)) creqs [] (fio_ctl s)")
        (auto simp: fio_ReadBlocks_def dest!: arg_cong[where f = fio_ctl])
    moreover have "block_count sz \<le> int (length creqs)" using i(2) found(4) by (auto simp: creqs_ok_def reqs_ok_def)
    ultimately obtain w' where p: "bc_ReadBlocks_page E (PArray (sz # bs)) creqs (fio_ctl s) = Some (ok, w', c)" "ok \<longrightarrow> w' = w"
      using ReadBlocks_page_same found(3,5) by blast
    have "fio_get E creqs k s = Some (if ok then Success else Fail, w', s\<lparr>fio_ctl := c\<rparr>)"
      using found(1) p(1) by (simp add: fio_get_def fio_ReadBlocks_page_def)
    moreover have "fio_val (s\<lparr>fio_ctl := c\<rparr>) = fio_val s" using r(5) by (simp add: fio_val_def fun_eq_iff)
    ultimately show ?thesis
      using r(2,4) p(2) found(7) i(2,3) assms(2) by (auto simp: fio_good_def fio_fit_def creqs_ok_def reqs_ok_def fio_val_def fio_R_def)
  qed
qed

interpretation store: backing_store "fio_put E creqs" "fio_get E creqs" fio_val "fio_fit E creqs" "fio_good E creqs" for E creqs
proof
  fix s k v assume f: "fio_fit E creqs s k v"
  then have "fio_inv E s" "0 \<le> k" "length v < 2 ^ 31" "reqs_ok s creqs" "\<not> sizeless s k" by (auto simp: fio_fit_def creqs_ok_def)
  from fio_Put_raw_cases[OF this] obtain e s' where p: "fio_Put_raw E k v creqs s = Some (e, s')" "fio_inv E s'"
    "fio_value s' = (if e = Success then (fio_value s)(nat k \<mapsto> v) else fio_value s)"
    "fio_blockLimit s' = fio_blockLimit s" "\<forall>x. sizeless s' x \<longrightarrow> sizeless s x" "fio_R s \<le> fio_R s'" by blast
  have "fio_val s' = (if e = Success then (fio_val s)(k \<mapsto> v) else fio_val s)"
    using p(3) \<open>0 \<le> k\<close> by (auto simp: fio_val_def fun_eq_iff)
  then show "\<exists>e s'. fio_put E creqs k v s = Some (e, s') \<and>
      fio_val s' = (if e = Success then (fio_val s)(k \<mapsto> v) else fio_val s) \<and> fio_good E creqs s' \<and>
      (\<forall>k' v'. fio_fit E creqs s k' v' \<longrightarrow> fio_fit E creqs s' k' v')"
    using p(1,2,4-6) f by (intro exI[of _ e] exI[of _ s']) (auto simp: fio_put_def fio_good_def fio_fit_def creqs_ok_def reqs_ok_def)
  show "length v < 2 ^ 31" by fact
qed (rule fio_get_law)

subsection \<open>The bookkeeping of cached calls\<close>

text \<open>The cell of a key gets blocks that no other key has.\<close>

lemma fio_cell_upd:
  assumes "fio_inv E s" "k < length (fio_mapping s)" "bc_inv c" "growth_ok E c" "device_ok c"
    "bc_pages c = bc_pages (fio_ctl s)" "cell_ok (fio_blockLimit s) p" "distinct (cell_blocks p)" "set (cell_blocks p) \<subseteq> bc_used c"
    "\<forall>i < length (fio_mapping s). i \<noteq> k \<longrightarrow> set (cell_blocks (fio_mapping s ! i)) \<inter> set (cell_blocks p) = {} \<and>
       set (cell_blocks (fio_mapping s ! i)) \<subseteq> bc_used c"
    "q \<noteq> []" "\<forall>arr \<in> set q. length arr = fio_blockLimit s"
  shows "fio_inv E (s\<lparr>fio_buffer := q, fio_ctl := c, fio_mapping := (fio_mapping s)[k := p]\<rparr>)"
    "fio_value (s\<lparr>fio_buffer := q, fio_ctl := c, fio_mapping := (fio_mapping s)[k := p]\<rparr>) =
       (fio_value s)(k := cell_value (bc_pages c) p)"
  using fio_update[OF assms(1,2), of "s\<lparr>fio_buffer := q, fio_ctl := c, fio_mapping := (fio_mapping s)[k := p]\<rparr>" p] assms(3-12)
  by auto

lemma fio_buffer_ok:
  assumes "fio_inv E s"
  shows "fio_buffer s \<noteq> []" "\<forall>arr \<in> set (fio_buffer s). length arr = fio_blockLimit s"
  using assms by (auto simp: fio_inv_def)

lemma cell_value_length:
  assumes "device_ok c" "cell_ok limit (Some arr)" "arr \<noteq> []" "0 \<le> arr ! 0"
  shows "\<exists>w. cell_value (bc_pages c) (Some arr) = Some w \<and> int (length w) = arr ! 0"
proof -
  obtain sz bs where a: "arr = sz # bs" using assms(3) by (cases arr) auto
  have sz: "0 \<le> sz" "nat (block_count sz) \<le> length bs" using assms(2,4) a by (auto simp: cell_ok_def)
  have "length (take (nat (block_count sz)) bs) = nat (block_count sz)" using sz(2) by simp
  then have "length (concat (map (bc_pages c) (take (nat (block_count sz)) bs))) = 4096 * nat (block_count sz)"
    using concat_pages_length[OF assms(1)] by metis
  moreover have "sz \<le> 4096 * block_count sz"
    unfolding block_count_div[OF sz(1)] using div_mult_mod_eq[of "sz + 4095" 4096] pos_mod_bound[of 4096 "sz + 4095"] by linarith
  then have "nat sz \<le> 4096 * nat (block_count sz)" using block_count_nonneg[OF sz(1)] by linarith
  ultimately show ?thesis using sz(1) a by simp
qed

lemma adjusted_by:
  assumes "fio_inv E s" "k < length (fio_mapping s)" "bc_inv c" "growth_ok E c" "device_ok c"
    "bc_pages c = bc_pages (fio_ctl s)" "cell_ok (fio_blockLimit s) (Some arr)" "distinct (cell_blocks (Some arr))"
    "set (cell_blocks (Some arr)) \<subseteq> bc_used c"
    "\<forall>i < length (fio_mapping s). i \<noteq> k \<longrightarrow> set (cell_blocks (fio_mapping s ! i)) \<inter> set (cell_blocks (Some arr)) = {} \<and>
       set (cell_blocks (fio_mapping s ! i)) \<subseteq> bc_used c"
    "q \<noteq> []" "\<forall>arr \<in> set q. length arr = fio_blockLimit s" "e = Success \<and> arr \<noteq> [] \<and> 0 \<le> arr ! 0 \<and> arr ! 0 = n \<or> e = DiskIOFail"
  shows "adjusted E k n s (Some (e, s\<lparr>fio_buffer := q, fio_ctl := c, fio_mapping := (fio_mapping s)[k := Some arr]\<rparr>))"
proof -
  let ?s = "s\<lparr>fio_buffer := q, fio_ctl := c, fio_mapping := (fio_mapping s)[k := Some arr]\<rparr>"
  note u = fio_cell_upd[OF assms(1-12)]
  have "(\<exists>w. cell_value (bc_pages c) (Some arr) = Some w \<and> int (length w) = arr ! 0) \<and> (\<forall>x. sizeless ?s x \<longrightarrow> sizeless s x)"
    if "arr \<noteq> []" "0 \<le> arr ! 0"
    using that sizeless_upd[of "arr ! 0" "s\<lparr>fio_buffer := q, fio_ctl := c\<rparr>" k "tl arr"]
      cell_value_length[OF assms(5,7) that] by (cases arr) auto
  then show ?thesis
    unfolding adjusted_def using u assms(13) by (intro exI[of _ e] exI[of _ ?s]) auto
qed

lemma block_count_zero: "block_count 0 = 0" "block_count (- 1) = 0"
  by code_simp+

text \<open>Allocation into the array of a key that has the blocks \<open>ob\<close>.\<close>

lemma adjusted_get:
  assumes "fio_inv E s" "nat key < length (fio_mapping s)" "cell_blocks (fio_mapping s ! nat key) = ob"
    "- 1 \<le> sz" "length ob = nat (block_count sz)" "sz < 0 \<longrightarrow> ob = []" "length ob + length r + 1 = fio_blockLimit s"
    "0 \<le> n" "int (length ob) < block_count n" "block_count n < int (fio_blockLimit s)"
    "q \<noteq> []" "\<forall>arr \<in> set q. length arr = fio_blockLimit s" "\<And>p. m[nat key := p] = (fio_mapping s)[nat key := p]"
  shows "adjusted E (nat key) n s (case fio_GetBlocks E (sz # ob @ r) (1 + length ob) (block_count n - int (length ob))
       (s\<lparr>fio_buffer := q, fio_mapping := m\<rparr>) of
      None \<Rightarrow> None
    | Some (False, arr', s') \<Rightarrow> Some (DiskIOFail, fio_set key (Some arr') s')
    | Some (True, arr', s') \<Rightarrow> Some (Success, fio_set key (Some (arr'[0 := n])) s'))"
proof -
  let ?k = "nat key" and ?o = "length ob" and ?m = "fio_mapping s" and ?U = "bc_used (fio_ctl s)"
  let ?s0 = "s\<lparr>fio_buffer := q, fio_mapping := m\<rparr>" and ?arr = "sz # ob @ r"
  define a where "a = nat (block_count n - int ?o)"
  have a: "block_count n - int ?o = int a" "?o + a = nat (block_count n)" "1 + ?o + a \<le> length ?arr"
    using assms(7,9,10) by (auto simp: a_def)
  have c0: "fio_ctl ?s0 = fio_ctl s" by simp
  have pre: "0 \<le> int a" "1 + ?o + nat (int a) \<le> length ?arr" using a by simp_all
  obtain ok xs c where g: "fio_GetBlocks E ?arr (1 + ?o) (int a) ?s0 =
      Some (ok, take (1 + ?o) ?arr @ xs @ drop (1 + ?o + length xs) ?arr, ?s0\<lparr>fio_ctl := c\<rparr>)"
    "bc_GetBlocks E (int a) (fio_ctl s) = Some (ok, xs, c)"
    "bc_inv c" "growth_ok E c" "device_ok c" "distinct xs" "set xs \<inter> ?U = {}" "bc_used c = ?U \<union> set xs"
    "bc_pages c = bc_pages (fio_ctl s)" "ok \<longrightarrow> length xs = nat (int a)" "length xs \<le> nat (int a)"
    using fio_GetBlocks_spec[OF assms(1) pre c0] .
  have arr: "take (1 + ?o) ?arr @ xs @ drop (1 + ?o + length xs) ?arr = sz # ob @ xs @ drop (length xs) r" by simp
  have ob: "distinct ob" "set ob \<subseteq> ?U" using fio_inv_cell(2,3)[OF assms(1,2)] assms(3) by auto
  have oth: "set (cell_blocks (?m ! i)) \<subseteq> ?U" "i \<noteq> ?k \<Longrightarrow> set (cell_blocks (?m ! i)) \<inter> set ob = {}" if "i < length ?m" for i
    using fio_inv_cell(3)[OF assms(1) that] fio_inv_disjoint[OF assms(1) that assms(2)] assms(3) by auto
  have L: "length ob < fio_blockLimit s" using assms(7) by simp
  show ?thesis
  proof (cases ok)
    case False
    have cb: "cell_blocks (Some (sz # ob @ xs @ drop (length xs) r)) = ob" using assms(5,6) by auto
    have ok: "cell_ok (fio_blockLimit s) (Some (sz # ob @ xs @ drop (length xs) r))"
      using assms(4,5,7) g(11) a(3) L by (auto simp: cell_ok_def)
    have "adjusted E ?k n s (Some (DiskIOFail, s\<lparr>fio_buffer := q, fio_ctl := c, fio_mapping := ?m[?k := Some (sz # ob @ xs @ drop (length xs) r)]\<rparr>))"
      by (rule adjusted_by[OF assms(1,2) g(3-5,9) ok]) (use cb ob g(8) oth assms(11,12) in auto)
    then show ?thesis using g(1) False by (simp add: a(1) fio_set_def assms(13))
  next
    case True
    have lx: "length xs = a" using g(10) True by simp
    have cb: "cell_blocks (Some (n # (ob @ xs) @ drop a r)) = ob @ xs"
      using cell_of_blocks(1)[OF assms(8), of "ob @ xs" "drop a r"] a(2) lx by simp
    have ok: "cell_ok (fio_blockLimit s) (Some (n # (ob @ xs) @ drop a r))"
      using assms(7,8,10) a lx by (auto simp: cell_ok_def)
    have "adjusted E ?k n s (Some (Success, s\<lparr>fio_buffer := q, fio_ctl := c, fio_mapping := ?m[?k := Some (n # (ob @ xs) @ drop a r)]\<rparr>))"
    proof (rule adjusted_by[OF assms(1,2) g(3-5,9) ok], unfold cb)
      show "\<forall>i < length ?m. i \<noteq> ?k \<longrightarrow> set (cell_blocks (?m ! i)) \<inter> set (ob @ xs) = {} \<and> set (cell_blocks (?m ! i)) \<subseteq> bc_used c"
        using oth g(7,8) by fastforce
    qed (use ob g(6-8) assms(8,11,12) in auto)
    then show ?thesis using g(1) True lx by (simp add: a(1) fio_set_def assms(13))
  qed
qed


text \<open>Releasing the blocks behind the first \<open>m\<close>, or none.\<close>

lemma adjusted_release:
  assumes "fio_inv E s" "0 \<le> key" "key < fio_R s" "fio_mapping s ! nat key = Some (sz # bs)" "0 \<le> sz" "0 \<le> n"
    "block_count n \<le> block_count sz"
  shows "adjusted E (nat key) n s (map_option (\<lambda>(ok, s'). if ok then (Success, fio_set key (Some (n # bs)) s') else (DiskIOFail, s'))
       (fio_ReleaseBlocks (sz # bs) (nat (block_count n + 1)) (block_count sz - block_count n) s))"
proof -
  let ?k = "nat key" and ?m = "fio_mapping s" and ?U = "bc_used (fio_ctl s)"
  have "0 \<le> (sz # bs) ! 0" using assms(5) by simp
  from fio_cell_array[OF assms(1-4) this] obtain ob r where o: "bs = ob @ r" "length ob = nat (block_count sz)"
    "cell_blocks (Some (sz # bs)) = ob" "distinct ob" "set ob \<subseteq> ?U" "length (sz # bs) = fio_blockLimit s"
    "nat (block_count sz) < fio_blockLimit s" "?k < length ?m"
    "\<forall>i < length ?m. i \<noteq> ?k \<longrightarrow> set (cell_blocks (?m ! i)) \<inter> set ob = {}" by (metis list.inject)
  define keep where "keep = nat (block_count n)"
  have kl: "keep \<le> length ob" using o(2) assms(7) by (simp add: keep_def nat_mono)
  let ?tl = "drop keep ob"
  have c: "bc_inv (fio_ctl s)" "growth_ok E (fio_ctl s)" "device_ok (fio_ctl s)" using assms(1) by (auto simp: fio_inv_def)
  have nn: "nat (block_count n + 1) = 1 + keep" "block_count sz - block_count n = int (length ?tl)"
    using block_count_nonneg[OF assms(6)] block_count_nonneg[OF assms(5)] o(2) kl
    by (auto simp: keep_def nat_add_distrib)
  have pre: "set ?tl \<subseteq> ?U" "1 + keep + length ?tl \<le> length (sz # bs)" "take (length ?tl) (drop (1 + keep) (sz # bs)) = ?tl"
    using o(1,5) kl by (auto dest: in_set_dropD)
  obtain c' where r: "fio_ReleaseBlocks (sz # bs) (1 + keep) (int (length ?tl)) s = Some (True, s\<lparr>fio_ctl := c'\<rparr>)" "bc_inv c'"
    "growth_ok E c'" "device_ok c'" "bc_used c' = ?U - set ?tl" "bc_pages c' = bc_pages (fio_ctl s)"
    using fio_ReleaseBlocks_spec[OF c pre refl] .
  have cb: "cell_blocks (Some (n # bs)) = take keep ob" using assms(6) o(1) kl by (simp add: keep_def)
  have tk: "set (take keep ob) \<inter> set ?tl = {}" using o(4) set_take_disj_set_drop_if_distinct by blast
  have oth: "set (cell_blocks (?m ! i)) \<inter> set (take keep ob) = {} \<and> set (cell_blocks (?m ! i)) \<subseteq> bc_used c'"
    if "i < length ?m" "i \<noteq> ?k" for i
    using o(9) that fio_inv_cell(3)[OF assms(1) that(1)] r(5) set_take_subset[of keep ob] set_drop_subset[of keep ob] by fastforce
  have "adjusted E ?k n s (Some (Success, s\<lparr>fio_buffer := fio_buffer s, fio_ctl := c', fio_mapping := ?m[?k := Some (n # bs)]\<rparr>))"
  proof (rule adjusted_by[OF assms(1) o(8) r(2-4,6)], unfold cb)
    show "cell_ok (fio_blockLimit s) (Some (n # bs))"
      using o(2,6,7) assms(6) kl by (simp add: cell_ok_def keep_def)
    show "set (take keep ob) \<subseteq> bc_used c'" using o(5) r(5) tk set_take_subset[of keep ob] by auto
  qed (use o(4) oth fio_buffer_ok[OF assms(1)] assms(6) in auto)
  then show ?thesis using r(1) by (simp add: nn fio_set_def)
qed


lemma fio_adjust_spec:
  assumes "fio_inv E s" "0 \<le> key" "key < fio_R s" "\<not> sizeless s key" "0 \<le> n" "block_count n < int (fio_blockLimit s)"
  shows "adjusted E (nat key) n s (fio_adjust E key n (block_count n) s)"
proof -
  let ?k = "nat key" and ?L = "fio_blockLimit s"
  have k: "?k < length (fio_mapping s)" using assms(2,3) by (simp add: fio_R_def nat_less_iff)
  have at: "fio_At key s = Some (fio_mapping s ! ?k)" using assms(2,3) by (simp add: fio_At_def)
  have L: "0 < ?L" "?L < 2 ^ 18" using assms(1) by (auto simp: fio_inv_def)
  note q0 = fio_buffer_ok[OF assms(1)] and bn = block_count_nonneg[OF assms(5)]
  show ?thesis
  proof (cases "fio_mapping s ! ?k")
    case None
    let ?q = "if length (fio_buffer s) > fio_bufferLimit s then tl (fio_buffer s) else fio_buffer s"
    let ?r = "replicate (?L - 1) (- 1) :: int list"
    let ?s' = "s\<lparr>fio_buffer := ?q, fio_mapping := (fio_mapping s)[?k := Some (- 1 # ?r)]\<rparr>"
    have q: "?q \<noteq> []" "\<forall>arr \<in> set ?q. length arr = ?L"
      using assms(1) by (auto simp: fio_inv_def tl_Nil dest: list.set_sel(2))
    have new: "(case fio_new_array s of (arr, s') \<Rightarrow> Some (arr, fio_set key (Some arr) s')) = Some (- 1 # ?r, ?s')"
      using L(1) by (cases ?L) (auto simp: fio_new_array_def fio_set_def)
    note unf = fio_adjust_def at None option.case new list.case prod.case
    show ?thesis
    proof (cases "0 < block_count n")
      case True
      have "adjusted E ?k n s (case fio_GetBlocks E (- 1 # [] @ ?r) (1 + length ([] :: int list)) (block_count n - int (length ([] :: int list))) ?s' of
            None \<Rightarrow> None
          | Some (False, arr', s') \<Rightarrow> Some (DiskIOFail, fio_set key (Some arr') s')
          | Some (True, arr', s') \<Rightarrow> Some (Success, fio_set key (Some (arr'[0 := n])) s'))"
        by (rule adjusted_get[OF assms(1) k]) (use None L True assms(5,6) q in \<open>auto simp: block_count_zero\<close>)
      then show ?thesis using True unfolding unf by (simp add: Let_def)
    next
      case False
      then have b0: "block_count n = 0" using bn by simp
      have c: "bc_inv (fio_ctl s)" "growth_ok E (fio_ctl s)" "device_ok (fio_ctl s)" using assms(1) by (auto simp: fio_inv_def)
      have "adjusted E ?k n s (Some (Success, s\<lparr>fio_buffer := ?q, fio_ctl := fio_ctl s, fio_mapping := (fio_mapping s)[?k := Some (n # ?r)]\<rparr>))"
        by (rule adjusted_by[OF assms(1) k c])
          (use fio_inv_cell(3)[OF assms(1)] b0 L q assms(5) in \<open>auto simp: cell_ok_def\<close>)
      then show ?thesis using b0 unfolding unf by (simp add: Let_def fio_set_def)
    qed
  next
    case (Some arr)
    have "arr \<noteq> []" using fio_inv_cell(1)[OF assms(1) k] L Some by (auto simp: cell_ok_def)
    then have "0 \<le> arr ! 0" using assms(2-4) Some by (auto simp: sizeless_def)
    from fio_cell_array[OF assms(1-3) Some this] obtain sz ob r where o: "arr = sz # ob @ r" "0 \<le> sz"
      "length ob = nat (block_count sz)" "cell_blocks (Some arr) = ob" "length arr = ?L"
      "to_int32 (block_count sz) = int (length ob)" by metis
    have bs: "int (length ob) = block_count sz" using o(3) block_count_nonneg[OF o(2)] by simp
    have nb: "nat (block_count sz + 1) = 1 + length ob" using bs by simp
    note unf = fio_adjust_def at Some o(1) option.case list.case prod.case
    consider "0 < block_count n - block_count sz" | "block_count n - block_count sz \<le> 0" by linarith
    then show ?thesis
    proof cases
      case 1
      have "adjusted E ?k n s (case fio_GetBlocks E (sz # ob @ r) (1 + length ob) (block_count n - int (length ob))
            (s\<lparr>fio_buffer := fio_buffer s, fio_mapping := fio_mapping s\<rparr>) of
            None \<Rightarrow> None
          | Some (False, arr', s') \<Rightarrow> Some (DiskIOFail, fio_set key (Some arr') s')
          | Some (True, arr', s') \<Rightarrow> Some (Success, fio_set key (Some (arr'[0 := n])) s'))"
        by (rule adjusted_get[OF assms(1) k]) (use o Some L 1 bs assms(5,6) q0 in auto)
      then show ?thesis using 1 o(2,6) bs nb unfolding unf by (simp add: Let_def)
    next
      case 2
      have "adjusted E ?k n s (map_option (\<lambda>(ok, s'). if ok then (Success, fio_set key (Some (n # ob @ r)) s') else (DiskIOFail, s'))
         (fio_ReleaseBlocks (sz # ob @ r) (nat (block_count n + 1)) (block_count sz - block_count n) s))"
        using adjusted_release[OF assms(1-3), of sz "ob @ r" n] Some o(1,2) assms(5) 2 by simp
      then show ?thesis using 2 o(2,6) bs nb unfolding unf
        by (cases "block_count n = block_count sz") (auto simp: Let_def fio_ReleaseBlocks_def seg_read_def)
    qed
  qed
qed


lemma fio_grow_spec:
  assumes "fio_inv E s" "0 \<le> key" "key < fio_R s" "fio_mapping s ! nat key = Some (sz # bs)" "0 \<le> sz" "sz \<le> n"
    "block_count n < int (fio_blockLimit s)"
  shows "adjusted E (nat key) n s (fio_grow E key n s)"
proof -
  have sl: "\<not> sizeless s key" using assms(4,5) by (simp add: sizeless_def)
  have n: "0 \<le> n" using assms(5,6) by simp
  have L: "fio_blockLimit s < 2 ^ 18" using assms(1) by (simp add: fio_inv_def)
  have t: "to_int32 (block_count n) = block_count n" using assms(7) L block_count_nonneg[OF n] by (intro to_int32_id) auto
  have le: "block_count sz \<le> block_count n"
    unfolding block_count_div[OF assms(5)] block_count_div[OF n] using assms(6) by (intro zdiv_mono1) auto
  have t': "to_int32 (block_count sz) = block_count sz"
    using assms(7) L le block_count_nonneg[OF assms(5)] by (intro to_int32_id) auto
  have at: "fio_At key s = Some (Some (sz # bs))" using assms(2-4) by (simp add: fio_At_def)
  have "fio_grow E key n s = fio_adjust E key n (block_count n) s"
    using assms(5) le unfolding fio_grow_def fio_adjust_def at by (simp add: Let_def add.commute t t')
  then show ?thesis using fio_adjust_spec[OF assms(1-3) sl n assms(7)] by simp
qed


subsection \<open>The cached calls\<close>

lemma cio_shared:
  "cio_inv E creqs d \<longleftrightarrow> fio_good E creqs (cio_store d) \<and>
     (cio_caches d \<noteq> [] \<longrightarrow> store.shared E creqs (cio_caches d) (cio_store d) \<and> store.tracks (cio_caches d) (cio_store d))"
proof (cases "cio_caches d = []")
  case False
  let ?cs = "cio_caches d" and ?s = "cio_store d"
  have "(\<forall>k v. shard_map ?cs k = Some v \<longrightarrow> fio_fit E creqs ?s k v) \<longleftrightarrow>
      (\<forall>i < length ?cs. \<forall>k v. lru_cache (?cs ! i) k = Some v \<longrightarrow> fio_fit E creqs ?s k v)" if "shards_ok ?cs"
    using that store.shard_hash_less by (fastforce simp: shards_ok_def shard_map_def split: option.splits)
  then show ?thesis
    using False unfolding cio_inv_def store.shared_def store.tracks_def store.cached_def
    by (auto simp: shards_ok_def)
qed (simp add: cio_inv_def)

lemma cio_parts:
  assumes "cio_inv E creqs d"
  shows "fio_inv E (cio_store d)" "creqs_ok (cio_store d) creqs"
    "cio_caches d \<noteq> [] \<Longrightarrow> store.shared E creqs (cio_caches d) (cio_store d)"
    "cio_caches d \<noteq> [] \<Longrightarrow> store.tracks (cio_caches d) (cio_store d)"
  using assms by (auto simp: cio_shared fio_good_def)

lemma cio_upd:
  "d\<lparr>cio_store := s\<rparr> = \<lparr>cio_store = s, cio_caches = cio_caches d\<rparr>" "d\<lparr>cio_caches := cs\<rparr> = \<lparr>cio_store = cio_store d, cio_caches = cs\<rparr>"
  by (cases d; simp)+

lemma shard_map_Nil [simp]: "shard_map [] = Map.empty"
  by (simp add: shard_map_def shard_hash_def fun_eq_iff)

text \<open>A cached key has a posting in the file, of the same length.\<close>

lemma cio_view_cases:
  assumes "cio_inv E creqs d" "0 \<le> key"
  obtains (none) "cio_view d key = None" "shard_map (cio_caches d) key = None" "fio_value (cio_store d) (nat key) = None"
  | (some) v w where "cio_view d key = Some v" "fio_value (cio_store d) (nat key) = Some w" "length w = length v"
      "shard_map (cio_caches d) key = Some v \<or> shard_map (cio_caches d) key = None \<and> w = v"
proof (cases "shard_map (cio_caches d) key")
  case None
  then show thesis
    using assms(2) none some by (cases "fio_value (cio_store d) (nat key)") (auto simp: cio_view_def view_def map_add_def fio_val_def)
next
  case (Some v)
  then have "cio_caches d \<noteq> []" by auto
  then obtain w where "fio_val (cio_store d) key = Some w" "length w = length v"
    using cio_parts(4)[OF assms(1)] Some by (auto simp: store.tracks_def)
  then show thesis using Some assms(2) by (intro some[of v w]) (auto simp: cio_view_def view_def fio_val_def)
qed

lemma cio_same:
  assumes "cio_inv E creqs d" "fio_inv E s'" "fio_value s' = fio_value (cio_store d)" "fio_blockLimit s' = fio_blockLimit (cio_store d)"
    "fio_mapping s' = fio_mapping (cio_store d)" "cio_caches d \<noteq> [] \<longrightarrow> shards_ok cs" "shard_map cs = shard_map (cio_caches d)"
    "cio_caches d = [] \<longrightarrow> cs = []"
  shows "cio_inv E creqs \<lparr>cio_store = s', cio_caches = cs\<rparr>" "cio_view \<lparr>cio_store = s', cio_caches = cs\<rparr> = cio_view d"
proof -
  have v: "fio_val s' = fio_val (cio_store d)" using assms(3) by (simp add: fio_val_def fun_eq_iff)
  have "fio_fit E creqs s' k v" if "fio_fit E creqs (cio_store d) k v" for k v
    using that assms(2,4,5) by (auto simp: fio_fit_def creqs_ok_def reqs_ok_def fio_R_def sizeless_def)
  moreover have "fio_good E creqs s'" using assms(1,2,4) by (auto simp: cio_inv_def fio_good_def creqs_ok_def reqs_ok_def)
  ultimately show "cio_inv E creqs \<lparr>cio_store = s', cio_caches = cs\<rparr>"
    using assms(1,6,7,8) v by (auto simp: cio_inv_def)
  show "cio_view \<lparr>cio_store = s', cio_caches = cs\<rparr> = cio_view d" using v assms(7) by (simp add: cio_view_def)
qed

lemma cio_get_cache:
  assumes "cio_inv E creqs d" "0 \<le> key" "cio_caches d \<noteq> []"
  obtains cs where "shard_get key (cio_caches d) = Some (shard_map (cio_caches d) key, cs)" "shards_ok cs"
    "shard_map cs = shard_map (cio_caches d)" "cs \<noteq> []"
  proof -
  obtain cs where "shard_get key (cio_caches d) = Some (shard_map (cio_caches d) key, cs)" "store.shared E creqs cs (cio_store d)"
    "shard_map cs = shard_map (cio_caches d)" using store.shard_get_spec[OF cio_parts(3)[OF assms(1,3)] assms(2)] by blast
  then show thesis using that by (simp add: store.shared_def shards_ok_def)
qed

text \<open>The read from the file, behind whatever shards.\<close>

lemma cio_disk_read:
  assumes "cio_inv E creqs d" "0 \<le> key" "reqs_ok (cio_store d) reqs" "fio_lookup key (cio_store d) = Some (Inr arr)"
    "shard_map (cio_caches d) key = None" "cio_caches d \<noteq> [] \<longrightarrow> shards_ok cs" "shard_map cs = shard_map (cio_caches d)"
    "cio_caches d = [] \<longrightarrow> cs = []"
  shows "\<exists>e w' d' v. map_option (\<lambda>(ok, v, s'). (if ok then Success else Fail, v, \<lparr>cio_store = s', cio_caches = cs\<rparr>))
        (fio_ReadBlocks E (Some arr) reqs w (cio_store d)) = Some (e, w', d') \<and> cio_inv E creqs d' \<and> cio_view d' = cio_view d \<and>
      cio_view d key = Some v \<and> (e = Success \<and> w' = v \<or> e = Fail) \<and> ((\<forall>t i. e_done E t i) \<longrightarrow> e = Success)"
  using cio_parts(1)[OF assms(1)] assms(2)
proof (cases rule: fio_lookup_cases)
  case none
  then show ?thesis using assms(4) by simp
next
  case (found sz bs)
  let ?s = "cio_store d"
  from fio_ReadBlocks_cases[OF cio_parts(1)[OF assms(1)] assms(3) found(3-5), of w] obtain ok w' c where
    r: "fio_ReadBlocks E (Some (sz # bs)) reqs w ?s = Some (ok, w', ?s\<lparr>fio_ctl := c\<rparr>)"
    "ok \<longrightarrow> w' = take (nat sz) (concat (map (bc_pages (fio_ctl ?s)) (take (nat (block_count sz)) bs)))"
    "(\<forall>t i. e_done E t i) \<longrightarrow> ok" "fio_inv E (?s\<lparr>fio_ctl := c\<rparr>)" "fio_value (?s\<lparr>fio_ctl := c\<rparr>) = fio_value ?s" .
  have arr: "arr = sz # bs" using assms(4) found(1) by simp
  have v: "cio_view d key = fio_value ?s (nat key)"
    using assms(2,5) by (simp add: cio_view_def view_def map_add_def fio_val_def)
  have "cio_inv E creqs \<lparr>cio_store = ?s\<lparr>fio_ctl := c\<rparr>, cio_caches = cs\<rparr>"
    "cio_view \<lparr>cio_store = ?s\<lparr>fio_ctl := c\<rparr>, cio_caches = cs\<rparr> = cio_view d"
    using cio_same[OF assms(1) r(4,5) _ _ assms(6-8)] by simp_all
  then show ?thesis using r(1-3) found(7) v arr by auto
qed

lemma cio_Get_cases:
  assumes "cio_inv E creqs d" "0 \<le> key" "reqs_ok (cio_store d) reqs"
  shows "case cio_view d key of
      None \<Rightarrow> cio_Get E key w reqs d = Some (if key \<ge> fio_R (cio_store d) then Key_OverFlow
         else if sizeless (cio_store d) key then Posting_SizeError else Key_NotFound, w, d)
    | Some v \<Rightarrow> \<exists>e w' d'. cio_Get E key w reqs d = Some (e, w', d') \<and> cio_inv E creqs d' \<and> cio_view d' = cio_view d \<and>
        (e = Success \<and> w' = v \<or> e = Fail) \<and>
        ((\<forall>t i. e_done E t i) \<or> shard_map (cio_caches d) key \<noteq> None \<longrightarrow> e = Success)"
proof -
  let ?s = "cio_store d" and ?cs = "cio_caches d"
  note i = cio_parts(1)[OF assms(1)]
  from assms(1,2) show ?thesis
  proof (cases rule: cio_view_cases)
    case none
    from i assms(2) show ?thesis
    proof (cases rule: fio_lookup_cases)
      case (found sz bs)
      then show ?thesis using none(3) by simp
    qed (use none in \<open>simp add: cio_Get_def\<close>)
  next
    case (some v w0)
    from i assms(2) obtain sz bs where l: "fio_lookup key ?s = Some (Inr (sz # bs))"
      using some(2) by (cases rule: fio_lookup_cases) auto
    show ?thesis
    proof (cases "?cs = []")
      case True
      then have "shard_map ?cs key = None" by simp
      from cio_disk_read[OF assms(1-3) l this, of "[]" w] True some(1) show ?thesis
        by (simp add: cio_Get_def l cio_upd)
    next
      case False
      obtain cs where g: "shard_get key ?cs = Some (shard_map ?cs key, cs)" "shards_ok cs" "shard_map cs = shard_map ?cs" "cs \<noteq> []"
        using cio_get_cache[OF assms(1,2) False] .
      show ?thesis
      proof (cases "shard_map ?cs key")
        case None
        have "?cs = [] \<longrightarrow> cs = []" "?cs \<noteq> [] \<longrightarrow> shards_ok cs" using False g(2) by simp_all
        from cio_disk_read[OF assms(1-3) l None this(2) g(3) this(1), of w] None False g(1) some(1) show ?thesis
          by (simp add: cio_Get_def l cio_upd)
      next
        case (Some v')
        have "cio_inv E creqs \<lparr>cio_store = ?s, cio_caches = cs\<rparr>" "cio_view \<lparr>cio_store = ?s, cio_caches = cs\<rparr> = cio_view d"
          using cio_same[OF assms(1) i refl refl refl] g(2,3) False by simp_all
        moreover have "v' = v" using some(4) Some by simp
        ultimately show ?thesis using Some False g(1) some(1) by (simp add: cio_Get_def l cio_upd)
      qed
    qed
  qed
qed

text \<open>The state after a call whose cache part gave the shards \<open>cs'\<close> and the store \<open>s'\<close>, and whose bookkeeping
  or write of the key gave \<open>s''\<close>.\<close>

lemma cio_finish:
  assumes "store.tracks cs s" "store.shard_kept E creqs b key v cs s cs' s'" "cs \<noteq> []" "0 \<le> key"
    "fio_inv E s''" "fio_blockLimit s'' = fio_blockLimit s'" "fio_R s' \<le> fio_R s''" "\<forall>x. sizeless s'' x \<longrightarrow> sizeless s' x"
    "\<forall>i. i \<noteq> nat key \<longrightarrow> fio_value s'' i = fio_value s' i"
    "\<forall>x. shard_map cs' key = Some x \<longrightarrow> (\<exists>w. fio_value s'' (nat key) = Some w \<and> length w = length x)"
  shows "cio_inv E creqs \<lparr>cio_store = s'', cio_caches = cs'\<rparr>"
proof -
  note k = assms(2)[unfolded store.shard_kept_def]
  have cs': "cs' \<noteq> []" using k assms(3) by auto
  have fit: "\<forall>k x. fio_fit E creqs s' k x \<longrightarrow> fio_fit E creqs s'' k x"
    using assms(5-8) by (auto simp: fio_fit_def creqs_ok_def reqs_ok_def)
  have sh: "store.shared E creqs cs' s'" using k by blast
  then have "fio_good E creqs s'" using cs' by (auto simp: store.shared_def store.cached_def)
  then have good: "fio_good E creqs s''" using assms(5,6) by (auto simp: fio_good_def creqs_ok_def reqs_ok_def)
  have oth: "fio_val s'' j = fio_val s' j" if "j \<noteq> key" for j
    using assms(4,9) that by (auto simp: fio_val_def nat_eq_iff)
  have "\<exists>w. fio_val s'' j = Some w \<and> length w = length x" if m: "shard_map cs' j = Some x" for j x
  proof (cases "j = key")
    case True
    then show ?thesis using assms(4,10) m by (simp add: fio_val_def)
  next
    case False
    have "view (shard_map cs') (fio_val s') j = view (shard_map cs) (fio_val s) j" using k False by (simp split: if_splits)
    moreover have "shard_map cs j \<noteq> None" using k False m by (auto split: if_splits)
    moreover have "fio_val s' j = fio_val s j \<or> fio_val s' j = Some x" using k False m by blast
    ultimately show ?thesis using store.tracks_step[OF assms(1) _ m] oth[OF False] by simp
  qed
  then have "store.tracks cs' s''" by (simp add: store.tracks_def)
  then show ?thesis using store.shared_mono[OF sh good fit] good by (simp add: cio_shared)
qed

lemma cio_view_update:
  assumes "fio_val s'' = (fio_val s')(key \<mapsto> v)" "shard_map cs' key = None"
  shows "cio_view \<lparr>cio_store = s'', cio_caches = cs'\<rparr> = (view (shard_map cs') (fio_val s'))(key \<mapsto> v)"
  using assms by (auto simp: cio_view_def view_def map_add_def fun_eq_iff split: option.splits)

lemma view_cached: "m k = Some x \<Longrightarrow> view m f k = Some x"
  by (simp add: view_def)

lemma cio_view_hidden:
  assumes "\<forall>j. j \<noteq> key \<longrightarrow> fio_val s'' j = fio_val s' j" "shard_map cs' key = Some v"
  shows "cio_view \<lparr>cio_store = s'', cio_caches = cs'\<rparr> = (view (shard_map cs') (fio_val s'))(key \<mapsto> v)"
  using assms by (auto simp: cio_view_def view_def map_add_def fun_eq_iff split: option.splits)

lemma fio_val_other: "0 \<le> key \<Longrightarrow> \<forall>i. i \<noteq> nat key \<longrightarrow> fio_value s'' i = fio_value s' i \<Longrightarrow> j \<noteq> key \<Longrightarrow> fio_val s'' j = fio_val s' j"
  by (auto simp: fio_val_def nat_eq_iff)

lemma value_blocks_small: "length v < 2 ^ 31 \<Longrightarrow> value_blocks v = block_count (int (length v))"
  unfolding value_blocks_def block_count_div[OF of_nat_0_le_iff] by (rule to_int32_id) auto

lemma store_good:
  assumes "store.shared E creqs cs s'" "fio_inv E s''" "fio_blockLimit s'' = fio_blockLimit s'"
  shows "fio_good E creqs s''"
proof -
  have "fio_good E creqs s'" using assms(1) by (cases cs) (auto simp: store.shared_def store.cached_def shards_ok_def)
  then show ?thesis using assms(2,3) by (simp add: fio_good_def creqs_ok_def reqs_ok_def)
qed

text \<open>A call that writes \<open>w\<close> under the key: after a success a reader sees exactly that change, unless an entry of
  the key is still cached that could not be written back; after a failure he sees it or nothing.\<close>

definition cio_written :: "io_env \<Rightarrow> bytes list \<Rightarrow> int \<Rightarrow> bytes \<Rightarrow> CachedIO \<Rightarrow> ErrorCode \<Rightarrow> CachedIO \<Rightarrow> bool" where
  "cio_written E creqs key w d e d' \<longleftrightarrow> fio_good E creqs (cio_store d') \<and> (\<forall>k. k \<noteq> key \<longrightarrow> cio_view d' k = cio_view d k) \<and>
     (case e of
        Success \<Rightarrow> cio_inv E creqs d' \<and> cio_view d' = (cio_view d)(key \<mapsto> w) \<or>
          shard_map (cio_caches d') key \<noteq> None \<and> shard_map (cio_caches d') key = shard_map (cio_caches d) key
      | DiskIOFail \<Rightarrow> cio_view d' key \<in> {cio_view d key, Some w}
      | _ \<Rightarrow> False)"

text \<open>The cache has not taken the value and the file is written.\<close>

lemma cio_written_disk:
  assumes "store.tracks cs s" "store.shard_kept E creqs False key w0 cs s cs' s'" "cs \<noteq> []" "0 \<le> key"
    "view (shard_map cs) (fio_val s) = cio_view d" "cs = cio_caches d"
    "shard_map cs' key = None \<longrightarrow> w' = w"
    "fio_inv E s''" "e = Success \<and> fio_value s'' = (fio_value s')(nat key \<mapsto> w') \<or> e = DiskIOFail \<and> fio_value s'' = fio_value s'"
    "fio_blockLimit s'' = fio_blockLimit s'" "fio_R s' \<le> fio_R s''" "\<forall>x. sizeless s'' x \<longrightarrow> sizeless s' x"
  shows "cio_written E creqs key w d e \<lparr>cio_store = s'', cio_caches = cs'\<rparr>"
proof -
  note k = assms(2)[unfolded store.shard_kept_def]
  have vw: "view (shard_map cs') (fio_val s') = cio_view d" using k assms(5) by simp
  have good: "fio_good E creqs s''"
    using store_good[OF _ assms(8,10)] k assms(3) by auto
  show ?thesis
  proof (cases "e = Success")
    case True
    then have v: "fio_val s'' = (fio_val s')(key \<mapsto> w')" and o: "\<forall>i. i \<noteq> nat key \<longrightarrow> fio_value s'' i = fio_value s' i"
      using assms(4,9) by (auto simp: fio_val_def fun_eq_iff nat_eq_iff)
    have other: "cio_view \<lparr>cio_store = s'', cio_caches = cs'\<rparr> j = cio_view d j" if "j \<noteq> key" for j
      using that v unfolding vw[symmetric] by (auto simp: cio_view_def view_def map_add_def split: option.split)
    show ?thesis
    proof (cases "shard_map cs' key")
      case None
      then have "\<forall>x. shard_map cs' key = Some x \<longrightarrow> (\<exists>w. fio_value s'' (nat key) = Some w \<and> length w = length x)" by simp
      note inv = cio_finish[OF assms(1-4,8,10-12) o this]
      then show ?thesis using True good cio_view_update[OF v None] vw None assms(7) by (simp add: cio_written_def)
    next
      case (Some x)
      then obtain y where "shard_map cs key = Some y" using k by auto
      then have "shard_map cs key = Some x" using vw assms(5) Some view_cached by metis
      then show ?thesis using True good other Some assms(6) by (simp add: cio_written_def)
    qed
  next
    case False
    then have "fio_val s'' = fio_val s'" using assms(9) by (simp add: fio_val_def fun_eq_iff)
    then have "cio_view \<lparr>cio_store = s'', cio_caches = cs'\<rparr> = cio_view d" using vw by (simp add: cio_view_def)
    then show ?thesis using False assms(9) good by (simp add: cio_written_def)
  qed
qed

text \<open>The cache has taken the value and the blocks are adjusted.\<close>

lemma cio_written_cache:
  assumes "store.tracks cs s" "store.shard_kept E creqs True key w cs s cs' s'" "cs \<noteq> []" "0 \<le> key"
    "view (shard_map cs) (fio_val s) = cio_view d" "shard_map cs' key = Some w"
    "adjusted E (nat key) (int (length w)) s' r"
  shows "\<exists>e s''. r = Some (e, s'') \<and> cio_written E creqs key w d e \<lparr>cio_store = s'', cio_caches = cs'\<rparr>"
proof -
  note k = assms(2)[unfolded store.shard_kept_def]
  have vw: "view (shard_map cs') (fio_val s') = (cio_view d)(key \<mapsto> w)" using k assms(5) by simp
  from assms(7) obtain e s'' where a: "r = Some (e, s'')" "fio_inv E s''" "fio_blockLimit s'' = fio_blockLimit s'"
    "fio_R s' = fio_R s''" "\<forall>i. i \<noteq> nat key \<longrightarrow> fio_value s'' i = fio_value s' i"
    "e = Success \<and> (\<exists>w'. fio_value s'' (nat key) = Some w' \<and> int (length w') = int (length w)) \<and> (\<forall>x. sizeless s'' x \<longrightarrow> sizeless s' x) \<or>
      e = DiskIOFail" unfolding adjusted_def fio_R_def by auto
  have view: "cio_view \<lparr>cio_store = s'', cio_caches = cs'\<rparr> = (cio_view d)(key \<mapsto> w)"
    using cio_view_hidden[OF _ assms(6), of s'' s'] fio_val_other[OF assms(4) a(5)] vw by simp
  have good: "fio_good E creqs s''"
    using store_good[OF _ a(2,3)] k assms(3) by auto
  show ?thesis
  proof (cases "e = Success")
    case True
    then have "\<forall>x. shard_map cs' key = Some x \<longrightarrow> (\<exists>w. fio_value s'' (nat key) = Some w \<and> length w = length x)"
      "\<forall>x. sizeless s'' x \<longrightarrow> sizeless s' x" using a(6) assms(6) by auto
    from cio_finish[OF assms(1-4) a(2,3) _ this(2) a(5) this(1)] a(1,4) True good view show ?thesis
      by (simp add: cio_written_def)
  next
    case False
    then show ?thesis using a(1,6) good view by (simp add: cio_written_def)
  qed
qed

lemma cio_Put_cases:
  assumes "cio_inv E creqs d" "0 \<le> key" "length v < 2 ^ 31" "reqs_ok (cio_store d) reqs" "\<not> sizeless (cio_store d) key"
    "value_blocks v < int (fio_blockLimit (cio_store d))"
  shows "\<exists>e d'. cio_Put E creqs key v reqs d = Some (e, d') \<and> cio_written E creqs key v d e d' \<and>
     ((\<forall>c \<in> set (cio_caches d). lru_bounded c) \<longrightarrow> (\<forall>c \<in> set (cio_caches d'). lru_bounded c))"
proof -
  let ?d = "cio_store d" and ?s = "fio_extend key (cio_store d)" and ?cs = "cio_caches d"
  note i = cio_parts[OF assms(1)]
  note x = fio_extend_inv[OF i(1), of key]
  have val: "fio_val ?s = fio_val ?d" by (simp add: fio_val_def x(2) fun_eq_iff)
  have R: "fio_R ?d \<le> fio_R ?s" by (simp add: fio_extend_def fio_R_def Let_def)
  have vw: "view (shard_map ?cs) (fio_val ?s) = cio_view d" by (simp add: cio_view_def val)
  have disk: "\<exists>e s''. fio_Put_disk E key v reqs s' = Some (e, s'') \<and> fio_inv E s'' \<and>
      (e = Success \<and> fio_value s'' = (fio_value s')(nat key \<mapsto> v) \<or> e = DiskIOFail \<and> fio_value s'' = fio_value s') \<and>
      fio_blockLimit s'' = fio_blockLimit s' \<and> fio_R s' \<le> fio_R s'' \<and> (\<forall>x. sizeless s'' x \<longrightarrow> sizeless s' x)"
    if "fio_fit E creqs s' key v" "fio_blockLimit s' = fio_blockLimit ?d" for s'
  proof -
    have "reqs_ok s' reqs" using that(2) assms(4) by (simp add: creqs_ok_def reqs_ok_def)
    moreover have "fio_Put_raw E key v reqs s' = fio_Put_disk E key v reqs s'"
      using that assms(6) by (simp add: fio_Put_raw_def fio_extend_def fio_fit_def Let_def)
    ultimately show ?thesis
      using that fio_Put_raw_cases[of E s' key v reqs] assms(6) by (auto simp: fio_fit_def split: if_splits)
  qed
  have fit: "fio_fit E creqs ?s key v" using i(2) x(1,3,4,8) assms(2,3,5) by (simp add: fio_fit_def creqs_ok_def reqs_ok_def)
  show ?thesis
  proof (cases "?cs = []")
    case True
    from disk[OF fit x(4)] obtain e s'' where p: "fio_Put_disk E key v reqs ?s = Some (e, s'')" "fio_inv E s''"
      "e = Success \<and> fio_value s'' = (fio_value ?s)(nat key \<mapsto> v) \<or> e = DiskIOFail \<and> fio_value s'' = fio_value ?s"
      "fio_blockLimit s'' = fio_blockLimit ?s" by blast
    have "fio_good E creqs s''" using i(2) p(2,4) x(4) by (simp add: fio_good_def creqs_ok_def reqs_ok_def)
    moreover have "e = Success \<and> fio_val s'' = (fio_val ?d)(key \<mapsto> v) \<or> e = DiskIOFail \<and> fio_val s'' = fio_val ?d"
      using p(3) x(2) assms(2) by (auto simp: fio_val_def fun_eq_iff)
    ultimately have "cio_written E creqs key v d e \<lparr>cio_store = s'', cio_caches = []\<rparr>"
      using True by (auto simp: cio_written_def cio_inv_def cio_view_def view_def)
    then show ?thesis using p(1) True assms(6) by (simp add: cio_Put_def Let_def)
  next
    case False
    have fits: "\<forall>k w. fio_fit E creqs ?d k w \<longrightarrow> fio_fit E creqs ?s k w"
      using R by (auto simp: fio_fit_def creqs_ok_def reqs_ok_def x(1,4,8))
    have "fio_good E creqs ?s" using i(2) by (simp add: fio_good_def creqs_ok_def reqs_ok_def x(1,4))
    note sh = store.shared_mono[OF i(3)[OF False] this fits]
    have tr: "store.tracks ?cs ?s" using i(4)[OF False] by (simp add: store.tracks_def val)
    from store.shard_put_spec[OF sh fit assms(2)] obtain b cs' s' where p: "shard_put (fio_put E creqs) key v ?cs ?s = Some (b, cs', s')"
      "store.shard_kept E creqs b key v ?cs ?s cs' s'" "b \<longrightarrow> shard_map cs' key = Some v" "(\<forall>c \<in> set ?cs. lru_bounded c) \<longrightarrow> (\<forall>c \<in> set cs'. lru_bounded c)" by blast
    have fit': "fio_fit E creqs s' key v" using p(2) fit by (simp add: store.shard_kept_def)
    have lim: "fio_blockLimit s' = fio_blockLimit ?d" using fit' i(2) by (simp add: fio_fit_def creqs_ok_def)
    show ?thesis
    proof (cases b)
      case True
      have p2: "store.shard_kept E creqs True key v ?cs ?s cs' s'" using p(2) True by simp
      have "adjusted E (nat key) (int (length v)) s' (fio_adjust E key (int (length v)) (value_blocks v) s')"
        using fio_adjust_spec[of E s' key "int (length v)"] fit' lim assms(3,6) by (simp add: fio_fit_def value_blocks_small)
      from cio_written_cache[OF tr p2 False assms(2) vw _ this] p(1,3,4) True False assms(6) show ?thesis
        by (auto simp: cio_Put_def Let_def)
    next
      case f: False
      have p2: "store.shard_kept E creqs False key v ?cs ?s cs' s'" using p(2) f by simp
      from disk[OF fit' lim] obtain e s'' where q: "fio_Put_disk E key v reqs s' = Some (e, s'')" "fio_inv E s''"
        "e = Success \<and> fio_value s'' = (fio_value s')(nat key \<mapsto> v) \<or> e = DiskIOFail \<and> fio_value s'' = fio_value s'"
        "fio_blockLimit s'' = fio_blockLimit s'" "fio_R s' \<le> fio_R s''" "\<forall>x. sizeless s'' x \<longrightarrow> sizeless s' x" by blast
      from cio_written_disk[OF tr p2 False assms(2) vw refl _ q(2-6)] p(1,4) q(1) f False assms(6) show ?thesis
        by (simp add: cio_Put_def Let_def)
    qed
  qed
qed

text \<open>The size stored in the array is the length of the posting.\<close>

lemma fio_posting_size:
  assumes "fio_inv E s" "0 \<le> key" "fio_value s (nat key) = Some w"
  obtains sz bs where "fio_mapping s ! nat key = Some (sz # bs)" "key < fio_R s" "sz = int (length w)" "fio_At key s = Some (Some (sz # bs))"
  using assms(1,2)
proof (cases rule: fio_lookup_cases)
  case (found sz bs)
  have "key < fio_R s" using found(6) assms(2) by (simp add: fio_R_def)
  moreover have "device_ok (fio_ctl s)" using assms(1) by (simp add: fio_inv_def)
  from cell_value_length[OF this _ _, of "fio_blockLimit s" "sz # bs"] have "int (length w) = sz"
    using fio_inv_cell(1)[OF assms(1) found(6)] found(2,3,6) assms(3) by (auto simp: fio_value_def)
  ultimately show thesis using that found(2) assms(2) by (simp add: fio_At_def)
qed (use assms(3) in simp)

text \<open>Whatever the cache did, the posting of the key in the file keeps its length.\<close>

lemma kept_posting:
  assumes "store.shard_kept E creqs b key w0 cs s cs' s'" "fio_val s key = Some w" "view (shard_map cs) (fio_val s) key = Some old"
    "length w = length old"
  obtains w' where "fio_val s' key = Some w'" "length w' = length old"
proof -
  note k = assms(1)[unfolded store.shard_kept_def]
  show thesis
  proof (cases b)
    case True
    then show thesis using that k assms(2,4) by simp
  next
    case False
    then have v: "view (shard_map cs') (fio_val s') key = Some old" using k assms(3) by simp
    show thesis
    proof (cases "shard_map cs' key")
      case None
      then show thesis using that v by (simp add: view_def map_add_def)
    next
      case (Some x)
      then have "x = old" "fio_val s' key = fio_val s key \<or> fio_val s' key = Some x" using v k False Some view_cached[of "shard_map cs'" key x "fio_val s'"] by auto
      then show thesis using that assms(2,4) by auto
    qed
  qed
qed

lemma cio_Merge_cases:
  assumes "cio_inv E creqs d" "0 \<le> key" "length v < 2 ^ 31" "reqs_ok (cio_store d) reqs"
  shows "case cio_view d key of
      None \<Rightarrow> cio_Merge E creqs checksum key v reqs d = Some (if key \<ge> fio_R (cio_store d) then Key_OverFlow else Key_NotFound, d)
    | Some old \<Rightarrow>
        if block_count (int (length (old @ v))) \<ge> int (fio_blockLimit (cio_store d))
        then cio_Merge E creqs checksum key v reqs d = Some (Posting_OverFlow, d)
        else \<exists>e d'. cio_Merge E creqs checksum key v reqs d = Some (e, d') \<and> cio_written E creqs key (old @ v) d e d'"
proof -
  let ?s = "cio_store d" and ?cs = "cio_caches d"
  note i = cio_parts[OF assms(1)]
  note l = fio_merge_lookup_spec[OF i(1) assms(2,3)]
  from assms(1,2) show ?thesis
  proof (cases rule: cio_view_cases)
    case none
    then show ?thesis using l by (simp add: cio_Merge_def)
  next
    case (some old w)
    let ?n = "int (length (old @ v))"
    obtain sz bs where a: "fio_mapping ?s ! nat key = Some (sz # bs)" "key < fio_R ?s" "sz = int (length w)"
      using fio_posting_size[OF i(1) assms(2) some(2)] .
    have l': "fio_merge_lookup key v ?s = Some (if block_count ?n \<ge> int (fio_blockLimit ?s) then Inl Posting_OverFlow else Inr (sz # bs, ?n))"
      unfolding l some(2) a option.case using some(3) by simp
    show ?thesis
    proof (cases "block_count ?n \<ge> int (fio_blockLimit ?s)")
      case True
      then show ?thesis using l' some(1) by (simp add: cio_Merge_def)
    next
      case False
      then have bn: "block_count ?n < int (fio_blockLimit ?s)" by simp
      have disk: "\<exists>e s''. (case fio_At key s' of
            Some (Some arr') \<Rightarrow> map_option (\<lambda>(e, s'). (e, \<lparr>cio_store = s', cio_caches = cs'\<rparr>)) (fio_Merge_disk E key v reqs arr' ?n s')
          | _ \<Rightarrow> None) = Some (e, \<lparr>cio_store = s'', cio_caches = cs'\<rparr>) \<and> fio_inv E s'' \<and>
          (e = Success \<and> fio_value s'' = (fio_value s')(nat key \<mapsto> x @ v) \<or> e = DiskIOFail \<and> fio_value s'' = fio_value s') \<and>
          fio_blockLimit s'' = fio_blockLimit s' \<and> fio_R s' \<le> fio_R s'' \<and> (\<forall>x. sizeless s'' x \<longrightarrow> sizeless s' x)"
        if p: "fio_inv E s'" "fio_blockLimit s' = fio_blockLimit ?s" "fio_value s' (nat key) = Some x" "length x = length old" for s' x cs'
      proof -
        obtain sz' bs' where b: "fio_mapping s' ! nat key = Some (sz' # bs')" "key < fio_R s'" "sz' = int (length x)"
          "fio_At key s' = Some (Some (sz' # bs'))" using fio_posting_size[OF p(1) assms(2) p(3)] .
        have "?n = (sz' # bs') ! 0 + int (length v)" "reqs_ok s' reqs" using b(3) p(2,4) assms(4) by (simp_all add: reqs_ok_def)
        from fio_Merge_disk_spec[OF p(1) assms(2) b(2,1) p(3) this(1) _ this(2)] bn p(2) b(4) show ?thesis
          by (auto simp: put_result_def fio_R_def)
      qed
      show ?thesis
      proof (cases "?cs = []")
        case True
        have wo: "w = old" using some(4) True by simp
        from disk[OF i(1) refl some(2,3), of "[]"] obtain e s'' where q: "(case fio_At key ?s of
            Some (Some arr') \<Rightarrow> map_option (\<lambda>(e, s'). (e, \<lparr>cio_store = s', cio_caches = []\<rparr>)) (fio_Merge_disk E key v reqs arr' ?n ?s)
          | _ \<Rightarrow> None) = Some (e, \<lparr>cio_store = s'', cio_caches = []\<rparr>)" "fio_inv E s''"
          "e = Success \<and> fio_value s'' = (fio_value ?s)(nat key \<mapsto> w @ v) \<or> e = DiskIOFail \<and> fio_value s'' = fio_value ?s"
          "fio_blockLimit s'' = fio_blockLimit ?s" by blast
        have "fio_good E creqs s''" using i(2) q(2,4) by (simp add: fio_good_def creqs_ok_def reqs_ok_def)
        moreover have "e = Success \<and> fio_val s'' = (fio_val ?s)(key \<mapsto> old @ v) \<or> e = DiskIOFail \<and> fio_val s'' = fio_val ?s"
          using q(3) wo assms(2) by (auto simp: fio_val_def fun_eq_iff)
        ultimately have "cio_written E creqs key (old @ v) d e \<lparr>cio_store = s'', cio_caches = []\<rparr>"
          using True by (auto simp: cio_written_def cio_inv_def cio_view_def view_def)
        then show ?thesis using q(1) True False some(1) l' by (simp add: cio_Merge_def Let_def del: length_append)
      next
        case c: False
        have lim: "fio_blockLimit ?s < 2 ^ 18" using i(1) by (simp add: fio_inv_def)
        have "?n \<le> 4096 * block_count ?n"
          unfolding block_count_div[OF of_nat_0_le_iff] by simp
        then have small: "length (old @ v) < 2 ^ 31" using bn lim by simp
        have sl: "\<not> sizeless ?s key" using a by (simp add: sizeless_def)
        have fit: "fio_fit E creqs ?s key (old @ v)"
          using i(1,2) assms(2) a(2) small sl by (simp add: fio_fit_def)
        have V: "view (shard_map ?cs) (fio_val ?s) key = Some old" using some(1) by (simp add: cio_view_def)
        from store.shard_merge_spec[OF i(3)[OF c] assms(2), of v checksum] V fit obtain b cs' s' where
          p: "shard_merge (fio_put E creqs) (fio_get E creqs) checksum key v ?cs ?s = Some (b, cs', s')"
          "store.shard_kept E creqs b key (old @ v) ?cs ?s cs' s'" "b \<longrightarrow> shard_map cs' key = Some (old @ v)" by auto
        have fit': "fio_fit E creqs s' key (old @ v)" using p(2) fit by (simp add: store.shard_kept_def)
        have lim': "fio_blockLimit s' = fio_blockLimit ?s" using fit' i(2) by (simp add: fio_fit_def creqs_ok_def)
        have inv': "fio_inv E s'" using fit' by (simp add: fio_fit_def)
        have "fio_val ?s key = Some w" using some(2) assms(2) by (simp add: fio_val_def)
        from kept_posting[OF p(2) this V some(3)] obtain w' where w': "fio_value s' (nat key) = Some w'" "length w' = length old"
          using assms(2) by (auto simp: fio_val_def)
        have vw: "view (shard_map ?cs) (fio_val ?s) = cio_view d" by (simp add: cio_view_def)
        show ?thesis
        proof (cases b)
          case True
          have p2: "store.shard_kept E creqs True key (old @ v) ?cs ?s cs' s'" using p(2) True by simp
          obtain sz' bs' where g: "fio_mapping s' ! nat key = Some (sz' # bs')" "key < fio_R s'" "sz' = int (length w')"
            using fio_posting_size[OF inv' assms(2) w'(1)] .
          have "adjusted E (nat key) ?n s' (fio_grow E key ?n s')"
            using fio_grow_spec[OF inv' assms(2) g(2,1)] g(3) w'(2) bn lim' by simp
          from cio_written_cache[OF i(4)[OF c] p2 c assms(2) vw _ this] p(1,3) True c False some(1) l' show ?thesis
            by (auto simp: cio_Merge_def Let_def simp del: length_append)
        next
          case f: False
          have p2: "store.shard_kept E creqs False key (old @ v) ?cs ?s cs' s'" using p(2) f by simp
          have old: "shard_map cs' key = None \<longrightarrow> w' @ v = old @ v"
          proof -
            have "view (shard_map cs') (fio_val s') key = Some old" using p2 V by (simp add: store.shard_kept_def)
            then show ?thesis using w'(1) assms(2) by (auto simp: view_def map_add_def fio_val_def)
          qed
          from disk[OF inv' lim' w', of cs'] obtain e s'' where q: "(case fio_At key s' of
              Some (Some arr') \<Rightarrow> map_option (\<lambda>(e, s'). (e, \<lparr>cio_store = s', cio_caches = cs'\<rparr>)) (fio_Merge_disk E key v reqs arr' ?n s')
            | _ \<Rightarrow> None) = Some (e, \<lparr>cio_store = s'', cio_caches = cs'\<rparr>)" "fio_inv E s''"
            "e = Success \<and> fio_value s'' = (fio_value s')(nat key \<mapsto> w' @ v) \<or> e = DiskIOFail \<and> fio_value s'' = fio_value s'"
            "fio_blockLimit s'' = fio_blockLimit s'" "fio_R s' \<le> fio_R s''" "\<forall>x. sizeless s'' x \<longrightarrow> sizeless s' x" by blast
          have "cio_Merge E creqs checksum key v reqs d = Some (e, \<lparr>cio_store = s'', cio_caches = cs'\<rparr>)"
            using p(1) q(1) f c False l' by (simp add: cio_Merge_def Let_def del: length_append)
          then show ?thesis
            using cio_written_disk[OF i(4)[OF c] p2 c assms(2) vw refl old q(2-6)] False some(1) by (simp del: length_append)
        qed
      qed
    qed
  qed
qed

lemma cio_Delete_cases:
  assumes "cio_inv E creqs d" "0 \<le> key"
  shows "\<exists>e d'. cio_Delete key d = Some (e, d') \<and> cio_inv E creqs d' \<and> cio_view d' = (cio_view d)(key := None) \<and>
     e = (if cio_view d key \<noteq> None then Success else if key \<ge> fio_R (cio_store d) then Key_OverFlow else Key_NotFound)"
proof -
  let ?s = "cio_store d" and ?cs = "cio_caches d"
  note i = cio_parts[OF assms(1)]
  have vn: "cio_view d key = None \<longleftrightarrow> fio_value ?s (nat key) = None"
    using assms by (cases rule: cio_view_cases) auto
  show ?thesis
  proof (cases "key < fio_R ?s")
    case False
    then have "fio_value ?s (nat key) = None" using assms(2) by (simp add: fio_value_def fio_R_def nat_less_iff)
    then show ?thesis using False assms(1) vn by (simp add: cio_Delete_def fun_upd_idem)
  next
    case True
    obtain b cs where c: "(if ?cs = [] then Some (False, []) else shard_del key ?cs) = Some (b, cs)"
      "?cs \<noteq> [] \<longrightarrow> store.shared E creqs cs ?s \<and> cs \<noteq> []" "?cs = [] \<longrightarrow> cs = []" "shard_map cs = (shard_map ?cs)(key := None)"
      using store.shard_del_spec[OF i(3) assms(2)] by (cases "?cs = []") fastforce+
    obtain e s' where s: "fio_Delete_raw key ?s = Some (e, s')" "fio_inv E s'" "fio_value s' = (fio_value ?s)(nat key := None)"
      "fio_blockLimit s' = fio_blockLimit ?s" "fio_R s' = fio_R ?s" "\<forall>x. sizeless s' x \<longrightarrow> sizeless ?s x"
      "e = (if fio_value ?s (nat key) = None then Key_NotFound else Success)"
      using fio_Delete_cases[OF i(1) assms(2)] True i(1) by (cases "fio_value ?s (nat key)") (auto simp: fun_upd_idem)
    have v: "fio_val s' = (fio_val ?s)(key := None)" using s(3) assms(2) by (auto simp: fio_val_def fun_eq_iff nat_eq_iff)
    have view: "cio_view \<lparr>cio_store = s', cio_caches = cs\<rparr> = (cio_view d)(key := None)"
      using v c(4) by (auto simp: cio_view_def view_def map_add_def fun_eq_iff split: option.split)
    have good: "fio_good E creqs s'" using i(2) s(2,4) by (simp add: fio_good_def creqs_ok_def reqs_ok_def)
    have fit: "\<forall>k v. fio_fit E creqs ?s k v \<longrightarrow> fio_fit E creqs s' k v"
      using s(2,4-6) by (auto simp: fio_fit_def creqs_ok_def reqs_ok_def)
    have "store.tracks cs s'" if "?cs \<noteq> []"
      using i(4)[OF that] by (auto simp: store.tracks_def c(4) v)
    then have "cio_inv E creqs \<lparr>cio_store = s', cio_caches = cs\<rparr>"
      using c(2,3) good store.shared_mono[OF _ good fit] by (auto simp: cio_shared)
    then show ?thesis using True c(1) s(1,7) view vn by (simp add: cio_Delete_def)
  qed
qed

lemma cio_Save_cases:
  assumes "cio_inv E creqs d" "length orders = length (cio_caches d)"
    "\<forall>i < length (cio_caches d). set (orders ! i) = dom (lru_cache (cio_caches d ! i))"
  shows "\<exists>b d'. cio_inv E creqs d' \<and> cio_view d' = cio_view d \<and>
     (b \<longrightarrow> fio_val (cio_store d') = cio_view d \<and> (\<forall>c \<in> set (cio_caches d'). lru_cache c = Map.empty)) \<and>
     cio_Save E creqs orders file d = (if b then (case fio_Save_raw file (cio_store d') of (e, f) \<Rightarrow> Some (e, f, d')) else Some (Fail, file, d'))"
proof (cases "cio_caches d = []")
  case True
  then have "d = \<lparr>cio_store = cio_store d, cio_caches = []\<rparr>" by (cases d) simp
  then show ?thesis using True assms(1)
    by (intro exI[of _ True] exI[of _ d]) (simp add: cio_Save_def cio_view_def view_def split: prod.splits)
next
  case False
  let ?s = "cio_store d" and ?cs = "cio_caches d"
  note i = cio_parts[OF assms(1)]
  have "store.shared E creqs ([] @ ?cs) ?s" using i(3)[OF False] by simp
  from store.shard_flush_spec[OF this assms(2,3)] obtain b cs' s' where
    f: "shard_flush (fio_put E creqs) orders ?cs ?s = Some (b, cs', s')" "store.shared E creqs cs' s'" "length cs' = length ?cs"
    "view (shard_map cs') (fio_val s') = view (shard_map ?cs) (fio_val ?s)" "b \<longrightarrow> (\<forall>c \<in> set cs'. lru_cache c = Map.empty)"
    "store.tracks ?cs ?s \<longrightarrow> store.tracks cs' s'" by auto
  have ne: "cs' \<noteq> []" using f(3) False by auto
  have "fio_good E creqs s'" using f(2) ne by (cases cs') (auto simp: store.shared_def store.cached_def)
  then have inv: "cio_inv E creqs \<lparr>cio_store = s', cio_caches = cs'\<rparr>" using f(2,6) i(4)[OF False] by (simp add: cio_shared)
  have "shard_map cs' = Map.empty" if b
    using that f(5) store.shard_hash_less by (fastforce simp: shard_map_def fun_eq_iff split: option.split)
  then have "b \<longrightarrow> fio_val s' = cio_view d" using f(4) by (auto simp: cio_view_def view_def)
  then show ?thesis using f(1,4,5) inv False
    by (intro exI[of _ b] exI[of _ "\<lparr>cio_store = s', cio_caches = cs'\<rparr>"]) (cases b; simp add: cio_Save_def cio_view_def)
qed

subsection \<open>Properties of the cached store\<close>

lemma sample_cached_map: "shard_map (cio_caches sample_cached) = [0 \<mapsto> replicate 5000 1]"
  by (auto simp: shard_map_def shard_hash_def sample_cached_def sample_shard_def lru_new_def fun_eq_iff)

lemma sample_cached_facts:
  "cio_view sample_cached 0 = Some (replicate 5000 1)" "cio_view sample_cached 9 = None" "cio_view sample_cached 1 = None"
  "cio_store sample_cached = sample_store" "shard_map (cio_caches sample_cached) 0 = Some (replicate 5000 1)"
  "\<forall>c \<in> set (cio_caches sample_cached). lru_bounded c"
  by (simp_all add: sample_cached_map cio_view_def view_def)
    (simp_all add: fio_val_def fio_value_def sample_cached_def sample_store_def sample_shard_def lru_new_def lru_bounded_def PageSizeEx_def)

lemma sample_cached_inv:
  assumes "fio_inv E sample_store"
  shows "cio_inv E sample_reqs sample_cached"
proof -
  have "creqs_ok sample_store sample_reqs"
    using sample_store_facts(3) by (simp add: creqs_ok_def sample_reqs_def sample_store_def)
  then have "fio_good E sample_reqs sample_store" "fio_fit E sample_reqs sample_store 0 (replicate 5000 1)"
    using assms sample_store_facts(4,10) by (simp_all add: fio_good_def fio_fit_def)
  moreover have "shards_ok (cio_caches sample_cached)"
    by (simp add: shards_ok_def lru_ok_def sample_cached_def sample_shard_def shard_hash_def)
  ultimately show ?thesis
    using sample_store_facts(7) unfolding cio_inv_def sample_cached_map by (simp add: sample_cached_def fio_val_def)
qed

lemmas sample_inv = sample_cached_inv[OF sample_store_facts(1)] sample_cached_inv[OF sample_store_facts(2)]

text \<open>C5. \<^verbatim>\<open>Get\<close> with the cache in front returns what a reader of the store is to see: the cached value when the key
  is cached, whatever the device does, otherwise the posting of the file, byte for byte, or a failure when
  the device does not answer. A key with neither gets its error code. No posting changes.\<close>

theorem cached_get:
  assumes "cio_inv E creqs d" "0 \<le> key" "reqs_ok (cio_store d) reqs"
  shows "case cio_view d key of
      None \<Rightarrow> cio_Get E key w reqs d = Some (if key \<ge> fio_R (cio_store d) then Key_OverFlow
         else if sizeless (cio_store d) key then Posting_SizeError else Key_NotFound, w, d)
    | Some v \<Rightarrow> \<exists>e w' d'. cio_Get E key w reqs d = Some (e, w', d') \<and> cio_inv E creqs d' \<and> cio_view d' = cio_view d \<and>
        (e = Success \<and> w' = v \<or> e = Fail) \<and>
        ((\<forall>t i. e_done E t i) \<or> shard_map (cio_caches d) key \<noteq> None \<longrightarrow> e = Success)"
  by (rule cio_Get_cases[OF assms])

theorem cached_get_witness:
  "(\<exists>d'. cio_Get broken_device 0 [] sample_reqs sample_cached = Some (Success, replicate 5000 1, d')) \<and>
   cio_Get broken_device 9 [] sample_reqs sample_cached = Some (Key_OverFlow, [], sample_cached)"
  using cached_get[OF sample_inv(2), of 0 sample_reqs "[]"]
    cached_get[OF sample_inv(2), of 9 sample_reqs "[]"]
    sample_cached_facts(1,2,4,5) sample_store_facts(3,10) by auto





text \<open>\<^verbatim>\<open>Delete\<close> removes the key from the cache and from the file: a reader sees it no more and every other key
  as before.\<close>

theorem cached_delete:
  assumes "cio_inv E creqs d" "0 \<le> key"
  shows "\<exists>e d'. cio_Delete key d = Some (e, d') \<and> cio_inv E creqs d' \<and> cio_view d' = (cio_view d)(key := None) \<and>
     e = (if cio_view d key \<noteq> None then Success else if key \<ge> fio_R (cio_store d) then Key_OverFlow else Key_NotFound)"
  by (rule cio_Delete_cases[OF assms])

theorem cached_delete_witness:
  "\<exists>d'. cio_Delete 0 sample_cached = Some (Success, d') \<and> cio_view d' = (cio_view sample_cached)(0 := None)"
  using cached_delete[OF sample_inv(1), of 0] sample_cached_facts(1) by auto

text \<open>C8. \<^verbatim>\<open>Save\<close> loses nothing a reader sees, in whatever order the hash maps are walked: either a write-back
  fails, which is reported, and every key is seen as before; or all shards are empty, the file
  holds exactly what readers saw, and the mapping that is written belongs to that file.\<close>

theorem cached_save:
  assumes "cio_inv E creqs d" "length orders = length (cio_caches d)"
    "\<forall>i < length (cio_caches d). set (orders ! i) = dom (lru_cache (cio_caches d ! i))"
  shows "\<exists>b d'. cio_inv E creqs d' \<and> cio_view d' = cio_view d \<and>
     (b \<longrightarrow> fio_val (cio_store d') = cio_view d \<and> (\<forall>c \<in> set (cio_caches d'). lru_cache c = Map.empty)) \<and>
     cio_Save E creqs orders file d = (if b then (case fio_Save_raw file (cio_store d') of (e, f) \<Rightarrow> Some (e, f, d')) else Some (Fail, file, d'))"
  by (rule cio_Save_cases[OF assms])

theorem cached_save_witness:
  "\<exists>b d'. cio_view d' = cio_view sample_cached \<and>
     (b \<longrightarrow> fio_val (cio_store d') = cio_view sample_cached) \<and>
     cio_Save good_device sample_reqs [[0]] None sample_cached = (if b then Some (FailedCreateFile, None, d') else Some (Fail, None, d'))"
proof -
  have "length [[0]] = length (cio_caches sample_cached)"
    "\<forall>i < length (cio_caches sample_cached). set ([[0]] ! i) = dom (lru_cache (cio_caches sample_cached ! i))"
    by (simp_all add: sample_cached_def sample_shard_def)
  from cached_save[OF sample_inv(1) this, of None] obtain b d' where "cio_view d' = cio_view sample_cached"
    "b \<longrightarrow> fio_val (cio_store d') = cio_view sample_cached" "cio_Save good_device sample_reqs [[0]] None sample_cached =
      (if b then (case fio_Save_raw None (cio_store d') of (e, f) \<Rightarrow> Some (e, f, d')) else Some (Fail, None, d'))" by blast
  then show ?thesis unfolding fio_Save_raw_def by (intro exI[of _ b] exI[of _ d']) simp
qed


text \<open>C40. \<^verbatim>\<open>MultiGet\<close> with a key outside the mapping gives the following keys the wrong places: the posting of
  key 0, the second key asked for, is returned as the value of the first.\<close>

theorem multi_get_misaligned:
  "\<exists>d. cio_MultiGet good_device [9, 0] [] sample_reqs
       \<lparr>cio_store = sample_store\<lparr>fio_mapping := [Some [3, 2, - 1, - 1]]\<rparr>, cio_caches = []\<rparr> = Some (Success, [[0, 0, 0], []], d)"
proof -
  have "map_option (\<lambda>(e, vs, d). (e, vs)) (cio_MultiGet good_device [9, 0] [] sample_reqs
       \<lparr>cio_store = sample_store\<lparr>fio_mapping := [Some [3, 2, - 1, - 1]]\<rparr>, cio_caches = []\<rparr>) = Some (Success, [[0, 0, 0], []])"
    by code_simp
  then show ?thesis by auto
qed

end
