(* ===== verification/Static_Postings.thy ===== *)
theory Static_Postings
  imports Binary_Io
begin

text \<open>
  Where the static searcher of SPANN puts its postings (\<^verbatim>\<open>inc/Core/SPANN/ExtraStaticSearcher.h\<close>): \<^verbatim>\<open>SelectPostingOffset\<close> packs them into
  pages of 4096 bytes, best fit first. \<^const>\<open>None\<close> is the exception of the code. Page numbers are unbounded here where
  the code has an \<^verbatim>\<open>int\<close>; a list of fewer than \<open>2 ^ 31\<close> postings and pages keeps them apart from wrapping.
\<close>

definition page_bytes :: nat where "page_bytes = 4096"

subsection \<open>The places of postings\<close>

record PageModWithID =
  pm_id :: int
  pm_rest :: nat

definition pm_cmp :: "PageModWithID \<Rightarrow> PageModWithID \<Rightarrow> bool" where
  "pm_cmp a b = (if pm_rest a = pm_rest b then pm_id a < pm_id b else pm_rest a > pm_rest b)"

text \<open>The \<^verbatim>\<open>std::set\<close> with this order is its elements in order.\<close>

fun pm_insert :: "PageModWithID \<Rightarrow> PageModWithID list \<Rightarrow> PageModWithID list" where
  "pm_insert x [] = [x]"
| "pm_insert x (y # ys) = (if pm_cmp x y then x # y # ys else if pm_cmp y x then y # pm_insert x ys else y # ys)"

definition lower_bound :: "PageModWithID list \<Rightarrow> PageModWithID \<Rightarrow> PageModWithID list" where
  "lower_bound xs key = dropWhile (\<lambda>a. pm_cmp a key) xs"

definition list_rests :: "nat list \<Rightarrow> PageModWithID list" where
  "list_rests p_postingListBytes =
     fold (\<lambda>i s. if p_postingListBytes ! i = 0 then s
                 else pm_insert \<lparr>pm_id = int i, pm_rest = p_postingListBytes ! i mod page_bytes\<rparr> s)
       [0 ..< length p_postingListBytes] []"

text \<open>The state of the loop. A place is a page and an offset in it; \<^const>\<open>None\<close> is a cell of the arrays that is not set.\<close>

record packing =
  pg_rest :: "PageModWithID list"
  pg_page :: nat
  pg_off :: nat
  pg_place :: "(nat \<times> nat) option list"
  pg_order :: "nat list"

fun select_loop :: "nat \<Rightarrow> nat list \<Rightarrow> packing \<Rightarrow> packing option" where
  "select_loop fuel bs p =
     (if pg_rest p = [] then Some p
      else
        (case fuel of
           0 \<Rightarrow> None
         | Suc f \<Rightarrow>
             (let key = \<lparr>pm_id = -1, pm_rest = page_bytes - pg_off p\<rparr>; tail = lower_bound (pg_rest p) key in
              if tail = [] \<or> (pm_rest key \<noteq> page_bytes \<and> pm_rest (hd tail) = 0)
              then select_loop f bs (p\<lparr>pg_page := pg_page p + 1, pg_off := 0\<rparr>)
              else
                (let it = hd tail; i = nat (pm_id it); off = pg_off p + pm_rest it in
                 if off > page_bytes then None
                 else
                   select_loop f bs \<lparr>
                     pg_rest = remove1 it (pg_rest p),
                     pg_page = (if off = page_bytes then pg_page p + 1 else pg_page p) + bs ! i div page_bytes,
                     pg_off = (if off = page_bytes then 0 else off),
                     pg_place = (pg_place p)[i := Some (pg_page p, pg_off p)],
                     pg_order = pg_order p @ [i]\<rparr>))))"

declare select_loop.simps [simp del]

definition SelectPostingOffset :: "nat list \<Rightarrow> packing option" where
  "SelectPostingOffset bs =
     select_loop (2 * length bs) bs
       \<lparr>pg_rest = list_rests bs, pg_page = 0, pg_off = 0, pg_place = replicate (length bs) None, pg_order = []\<rparr>"

subsection \<open>What a placement is\<close>

text \<open>Where a posting starts in the section of the lists.\<close>

definition target :: "(nat \<times> nat) option list \<Rightarrow> nat \<Rightarrow> nat" where
  "target places i = (case places ! i of None \<Rightarrow> 0 | Some (pg, off) \<Rightarrow> pg * page_bytes + off)"

text \<open>Postings one behind the other from \<open>a\<close> on, with gaps of less than a page.\<close>

fun chain :: "(nat \<Rightarrow> nat) \<Rightarrow> (nat \<Rightarrow> nat) \<Rightarrow> nat \<Rightarrow> nat list \<Rightarrow> bool" where
  "chain tgt sz a [] \<longleftrightarrow> True"
| "chain tgt sz a (i # is) \<longleftrightarrow> a \<le> tgt i \<and> tgt i < a + page_bytes \<and> chain tgt sz (tgt i + sz i) is"

definition chain_end :: "(nat \<Rightarrow> nat) \<Rightarrow> (nat \<Rightarrow> nat) \<Rightarrow> nat \<Rightarrow> nat list \<Rightarrow> nat" where
  "chain_end tgt sz a is = (if is = [] then a else tgt (last is) + sz (last is))"

text \<open>A posting does not take more pages than it needs.\<close>

definition tight :: "(nat \<times> nat) option list \<Rightarrow> nat list \<Rightarrow> nat \<Rightarrow> bool" where
  "tight places bs i \<longleftrightarrow> (\<exists>pg off. places ! i = Some (pg, off) \<and> off < page_bytes \<and> off + bs ! i mod page_bytes \<le> page_bytes \<and>
     (bs ! i mod page_bytes = 0 \<longrightarrow> off = 0))"

definition packed :: "nat list \<Rightarrow> packing \<Rightarrow> bool" where
  "packed bs p \<longleftrightarrow>
     length (pg_place p) = length bs \<and> pg_off p < page_bytes \<and>
     (\<forall>x \<in> set (pg_rest p). 0 \<le> pm_id x \<and> pm_rest x = bs ! nat (pm_id x) mod page_bytes) \<and>
     distinct (map pm_id (pg_rest p)) \<and> distinct (pg_order p) \<and>
     set (pg_order p) \<inter> (nat \<circ> pm_id) ` set (pg_rest p) = {} \<and>
     set (pg_order p) \<union> (nat \<circ> pm_id) ` set (pg_rest p) = {i. i < length bs \<and> bs ! i \<noteq> 0} \<and>
     chain (target (pg_place p)) ((!) bs) 0 (pg_order p) \<and>
     chain_end (target (pg_place p)) ((!) bs) 0 (pg_order p) \<le> pg_page p * page_bytes + pg_off p \<and>
     pg_page p * page_bytes + pg_off p < chain_end (target (pg_place p)) ((!) bs) 0 (pg_order p) + page_bytes \<and>
     (pg_off p \<noteq> 0 \<longrightarrow> pg_page p * page_bytes + pg_off p = chain_end (target (pg_place p)) ((!) bs) 0 (pg_order p)) \<and>
     (\<forall>i \<in> set (pg_order p). tight (pg_place p) bs i)"

lemma page_bytes_pos: "0 < page_bytes"
  by (simp add: page_bytes_def)

lemma chain_snoc:
  "chain tgt sz a (is @ [i]) \<longleftrightarrow> chain tgt sz a is \<and> chain_end tgt sz a is \<le> tgt i \<and> tgt i < chain_end tgt sz a is + page_bytes"
  by (induction tgt sz a "is" rule: chain.induct) (auto simp: chain_end_def)

lemma chain_cong: "\<forall>i \<in> set is. tgt i = tgt' i \<Longrightarrow> chain tgt sz a is = chain tgt' sz a is"
  by (induction tgt sz a "is" rule: chain.induct) auto

lemma chain_end_cong: "\<forall>i \<in> set is. tgt i = tgt' i \<Longrightarrow> chain_end tgt sz a is = chain_end tgt' sz a is"
  by (simp add: chain_end_def)

lemma new_page_packed:
  assumes "packed bs p" "pg_off p \<noteq> 0"
  shows "packed bs (p\<lparr>pg_page := pg_page p + 1, pg_off := 0\<rparr>)"
  using assms page_bytes_pos by (auto simp: packed_def)

lemma place_packed:
  assumes "packed bs p" "it \<in> set (pg_rest p)" "pg_off p + pm_rest it \<le> page_bytes" "pm_rest it = 0 \<longrightarrow> pg_off p = 0"
  defines "i \<equiv> nat (pm_id it)" and "off \<equiv> pg_off p + pm_rest it"
  shows "packed bs \<lparr>pg_rest = remove1 it (pg_rest p),
     pg_page = (if off = page_bytes then pg_page p + 1 else pg_page p) + bs ! i div page_bytes,
     pg_off = (if off = page_bytes then 0 else off), pg_place = (pg_place p)[i := Some (pg_page p, pg_off p)], pg_order = pg_order p @ [i]\<rparr>"
proof -
  let ?P = page_bytes and ?pl = "(pg_place p)[i := Some (pg_page p, pg_off p)]"
  let ?page = "(if off = ?P then pg_page p + 1 else pg_page p) + bs ! i div ?P" and ?off = "if off = ?P then 0 else off"
  note k = assms(1)[unfolded packed_def]
  have id: "0 \<le> pm_id it" and rest: "pm_rest it = bs ! i mod ?P" using k assms(2) by (auto simp: i_def)
  have "i \<in> (nat \<circ> pm_id) ` set (pg_rest p)" using assms(2) by (auto simp: i_def)
  then have i: "i < length bs" "bs ! i \<noteq> 0" "i \<notin> set (pg_order p)" "i < length (pg_place p)" using k by auto
  have tgt: "target ?pl i = pg_page p * ?P + pg_off p" using i(4) by (simp add: target_def)
  have nth: "\<forall>j \<in> set (pg_order p). ?pl ! j = pg_place p ! j" using i(3) by (metis nth_list_update_neq)
  have same: "\<forall>j \<in> set (pg_order p). target (pg_place p) j = target ?pl j" "\<forall>j \<in> set (pg_order p). tight ?pl bs j = tight (pg_place p) bs j"
    using nth by (simp_all add: target_def tight_def)
  have pos: "?page * ?P + ?off = pg_page p * ?P + pg_off p + bs ! i"
  proof -
    have e: "bs ! i = bs ! i div ?P * ?P + bs ! i mod ?P" by (rule div_mult_mod_eq[symmetric])
    show ?thesis
    proof (cases "off = ?P")
      case True
      then have "?page * ?P + ?off = pg_page p * ?P + ?P + bs ! i div ?P * ?P" by (simp add: add_mult_distrib)
      then show ?thesis using True rest e unfolding off_def by linarith
    next
      case False
      then have "?page * ?P + ?off = pg_page p * ?P + bs ! i div ?P * ?P + off" by (simp add: add_mult_distrib)
      then show ?thesis using rest e unfolding off_def by linarith
    qed
  qed
  have dr: "distinct (pg_rest p)" and inj: "inj_on pm_id (set (pg_rest p))" using k by (auto simp: distinct_map)
  have sr: "set (remove1 it (pg_rest p)) = set (pg_rest p) - {it}" using dr by (simp add: set_remove1_eq)
  have "\<forall>x \<in> set (pg_rest p). 0 \<le> pm_id x" using k by blast
  then have "inj_on nat (pm_id ` set (pg_rest p))" unfolding inj_on_def by (metis imageE int_nat_eq)
  then have ij: "inj_on (nat \<circ> pm_id) (set (pg_rest p))" by (rule comp_inj_on[OF inj])
  have img: "(nat \<circ> pm_id) ` set (remove1 it (pg_rest p)) = (nat \<circ> pm_id) ` set (pg_rest p) - {i}"
    unfolding sr i_def using inj_on_image_set_diff[OF ij, of "set (pg_rest p)" "{it}"] assms(2) by simp
  have dm: "distinct (map pm_id (remove1 it (pg_rest p)))" using dr inj_on_subset[OF inj, of "set (remove1 it (pg_rest p))"] sr
    by (simp add: distinct_map distinct_remove1)
  have ch: "chain (target ?pl) ((!) bs) 0 (pg_order p @ [i])"
    using k tgt chain_cong[OF same(1)] chain_end_cong[OF same(1)] by (auto simp: chain_snoc)
  have ce: "chain_end (target ?pl) ((!) bs) 0 (pg_order p @ [i]) = pg_page p * ?P + pg_off p + bs ! i"
    unfolding chain_end_def by (simp add: tgt)
  have ti: "tight ?pl bs i" using i(4) assms(3,4) k rest by (auto simp: tight_def)
  have "?off < ?P" using assms(3) page_bytes_pos by (auto simp: off_def)
  moreover have "\<forall>x \<in> set (remove1 it (pg_rest p)). 0 \<le> pm_id x \<and> pm_rest x = bs ! nat (pm_id x) mod ?P" using k sr by auto
  moreover have "set (pg_order p @ [i]) \<inter> (nat \<circ> pm_id) ` set (remove1 it (pg_rest p)) = {}" unfolding img using k by auto
  moreover have "set (pg_order p @ [i]) \<union> (nat \<circ> pm_id) ` set (remove1 it (pg_rest p)) = {j. j < length bs \<and> bs ! j \<noteq> 0}"
    unfolding img using k i(1,2) by auto
  ultimately show ?thesis unfolding packed_def packing.select_convs unfolding ce using k dm ch ti same(2) i(3) pos page_bytes_pos by auto
qed


subsection \<open>The placement of all postings\<close>

lemma lower_bound_hd:
  assumes "lower_bound xs key \<noteq> []"
  shows "hd (lower_bound xs key) \<in> set xs" "\<not> pm_cmp (hd (lower_bound xs key)) key"
  using assms hd_dropWhile[of "\<lambda>a. pm_cmp a key" xs] set_dropWhileD[of "hd (dropWhile (\<lambda>a. pm_cmp a key) xs)" "\<lambda>a. pm_cmp a key" xs]
  by (auto simp: lower_bound_def)

lemma select_loop_packs:
  assumes "packed bs p" "2 * length (pg_rest p) + (if pg_off p = 0 then 0 else 1) \<le> fuel"
  shows "\<exists>p'. select_loop fuel bs p = Some p' \<and> packed bs p' \<and> pg_rest p' = []"
  using assms
proof (induction fuel arbitrary: p)
  case 0
  then show ?case by (auto simp: select_loop.simps[of 0] split: if_splits)
next
  case (Suc f)
  let ?key = "\<lparr>pm_id = -1, pm_rest = page_bytes - pg_off p\<rparr>"
  let ?tail = "lower_bound (pg_rest p) ?key"
  show ?case
  proof (cases "pg_rest p = []")
    case True
    then show ?thesis using Suc.prems(1) by (simp add: select_loop.simps)
  next
    case ne: False
    have off: "pg_off p < page_bytes" using Suc.prems(1) by (simp add: packed_def)
    show ?thesis
    proof (cases "?tail = [] \<or> (pm_rest ?key \<noteq> page_bytes \<and> pm_rest (hd ?tail) = 0)")
      case new: True
      have "pg_off p \<noteq> 0"
      proof
        assume z: "pg_off p = 0"
        have "\<forall>x \<in> set (pg_rest p). pm_rest x < page_bytes" using Suc.prems(1) page_bytes_pos by (auto simp: packed_def)
        then have "\<not> pm_cmp x ?key" if "x \<in> set (pg_rest p)" for x using that z by (auto simp: pm_cmp_def)
        then have "?tail = pg_rest p" using ne by (cases "pg_rest p") (auto simp: lower_bound_def)
        then show False using new ne z by simp
      qed
      then have "packed bs (p\<lparr>pg_page := pg_page p + 1, pg_off := 0\<rparr>)" "2 * length (pg_rest p) \<le> f"
        using new_page_packed[OF Suc.prems(1)] Suc.prems(2) by simp_all
      then have "\<exists>p'. select_loop f bs (p\<lparr>pg_page := pg_page p + 1, pg_off := 0\<rparr>) = Some p' \<and> packed bs p' \<and> pg_rest p' = []"
        by (intro Suc.IH) simp_all
      then show ?thesis using new ne by (subst select_loop.simps) (simp add: Let_def)
    next
      case fits: False
      let ?it = "hd ?tail"
      have it: "?it \<in> set (pg_rest p)" "pg_off p + pm_rest ?it \<le> page_bytes" "pm_rest ?it = 0 \<longrightarrow> pg_off p = 0"
        using fits lower_bound_hd[of "pg_rest p" ?key] off Suc.prems(1) by (auto simp: pm_cmp_def packed_def split: if_splits)
      note k = place_packed[OF Suc.prems(1) it]
      let ?i = "nat (pm_id ?it)" and ?off = "pg_off p + pm_rest ?it"
      let ?p = "\<lparr>pg_rest = remove1 ?it (pg_rest p), pg_page = (if ?off = page_bytes then pg_page p + 1 else pg_page p) + bs ! ?i div page_bytes,
         pg_off = (if ?off = page_bytes then 0 else ?off), pg_place = (pg_place p)[?i := Some (pg_page p, pg_off p)], pg_order = pg_order p @ [?i]\<rparr>"
      have "length (remove1 ?it (pg_rest p)) = length (pg_rest p) - 1" using it(1) by (simp add: length_remove1)
      moreover have "0 < length (pg_rest p)" using ne by simp
      ultimately have "2 * length (remove1 ?it (pg_rest p)) + 1 \<le> f" using Suc.prems(2) by linarith
      then have r: "\<exists>p'. select_loop f bs ?p = Some p' \<and> packed bs p' \<and> pg_rest p' = []" by (intro Suc.IH[OF k]) simp
      have "\<not> page_bytes < pg_off p + pm_rest ?it" using it(2) by simp
      then have "select_loop (Suc f) bs p = select_loop f bs ?p"
        unfolding select_loop.simps[of "Suc f"] Let_def nat.case using fits ne by (simp only: if_False if_True)
      then show ?thesis using r by (simp only:)
    qed
  qed
qed

lemma pm_insert_set: "\<forall>y \<in> set ys. pm_id y \<noteq> pm_id x \<Longrightarrow> set (pm_insert x ys) = insert x (set ys) \<and> length (pm_insert x ys) = Suc (length ys)"
  by (induction x ys rule: pm_insert.induct) (auto simp: pm_cmp_def split: if_splits)

lemma list_rests_spec:
  "set (list_rests bs) = (\<lambda>i. \<lparr>pm_id = int i, pm_rest = bs ! i mod page_bytes\<rparr>) ` {i. i < length bs \<and> bs ! i \<noteq> 0} \<and>
   distinct (map pm_id (list_rests bs)) \<and> length (list_rests bs) \<le> length bs"
proof -
  let ?e = "\<lambda>i. \<lparr>pm_id = int i, pm_rest = bs ! i mod page_bytes\<rparr>"
  let ?f = "\<lambda>i s. if bs ! i = 0 then s else pm_insert (?e i) s"
  have "set (fold ?f [0 ..< n] []) = ?e ` {i. i < n \<and> bs ! i \<noteq> 0} \<and> distinct (map pm_id (fold ?f [0 ..< n] [])) \<and> length (fold ?f [0 ..< n] []) \<le> n" for n
  proof (induction n)
    case (Suc n)
    let ?s = "fold ?f [0 ..< n] []"
    show ?case
    proof (cases "bs ! n = 0")
      case True
      then show ?thesis using Suc by (auto simp: less_Suc_eq)
    next
      case False
      have n: "\<forall>y \<in> set ?s. pm_id y \<noteq> pm_id (?e n)" using Suc by auto
      note i = pm_insert_set[OF n]
      have "card (set (pm_insert (?e n) ?s)) = length (pm_insert (?e n) ?s)"
        using i n Suc distinct_card[of ?s] by (auto simp: distinct_map card_insert_if)
      then have "distinct (pm_insert (?e n) ?s)" by (rule card_distinct)
      moreover have "inj_on pm_id (insert (?e n) (set ?s))" using n Suc by (auto simp: distinct_map)
      ultimately have "distinct (map pm_id (pm_insert (?e n) ?s))" using i by (simp add: distinct_map)
      moreover have "{i. i < Suc n \<and> bs ! i \<noteq> 0} = insert n {i. i < n \<and> bs ! i \<noteq> 0}" using False by auto
      ultimately show ?thesis using Suc i False by simp
    qed
  qed simp
  then show ?thesis unfolding list_rests_def .
qed

lemma SelectPostingOffset_packs:
  "\<exists>p. SelectPostingOffset bs = Some p \<and> packed bs p \<and> pg_rest p = []"
proof -
  let ?p = "\<lparr>pg_rest = list_rests bs, pg_page = 0, pg_off = 0, pg_place = replicate (length bs) None, pg_order = []\<rparr>"
  note l = list_rests_spec[of bs]
  have "(nat \<circ> pm_id) ` set (list_rests bs) = {i. i < length bs \<and> bs ! i \<noteq> 0}" using l by (auto simp: image_image)
  then have "packed bs ?p" using l page_bytes_pos by (auto simp: packed_def chain_end_def)
  then show ?thesis unfolding SelectPostingOffset_def using l by (intro select_loop_packs) simp_all
qed


end
