(* ===== verification/Static_Index.thy ===== *)
theory Static_Index
  imports Static_Postings "HOL-Library.Monad_Syntax" "HOL-Library.Signed_Division"
begin

text \<open>
  The static index file of SPANN (\<^verbatim>\<open>inc/Core/SPANN/ExtraStaticSearcher.h\<close>): the data of a posting
  (\<^verbatim>\<open>GetPostingListFullData\<close>), the file with the head, the table of postings and their contents
  (\<^verbatim>\<open>OutputSSDIndexFile\<close>), the head as it is loaded (\<^verbatim>\<open>LoadingHeadInfo\<close>, \<^verbatim>\<open>LoadIndex\<close>), and a posting as it is read
  back (\<^verbatim>\<open>GetWritePosting\<close>, \<^verbatim>\<open>GetPostingDebug\<close>).

  The files are those without data compression and without delta encoding, for both layouts of a posting.
  \<^const>\<open>None\<close> is an exception or an error code of the code, or an access outside a buffer.
\<close>

subsection \<open>The vectors and their postings\<close>

record vector_set =
  vs_data :: bytes
  vs_dimension :: int
  vs_count :: int
  vs_perVectorDataSize :: nat

definition GetVector :: "vector_set \<Rightarrow> int \<Rightarrow> bytes option" where
  "GetVector vs vid =
     (if vid < 0 \<or> vid \<ge> vs_count vs then None
      else seg_read (vs_data vs) (nat vid * vs_perVectorDataSize vs) (vs_perVectorDataSize vs))"

record Edge =
  e_node :: int
  e_distance :: dist
  e_tonode :: int

record Selection =
  m_start :: nat
  m_selections :: "Edge list"

text \<open>The edges are sorted by \<^verbatim>\<open>node\<close>, as \<^verbatim>\<open>std::lower_bound\<close> asks.\<close>

definition sel_lower_bound :: "Selection \<Rightarrow> int \<Rightarrow> nat" where
  "sel_lower_bound sel node = m_start sel + length (takeWhile (\<lambda>e. e_node e < node) (m_selections sel))"

definition sel_at :: "Selection \<Rightarrow> nat \<Rightarrow> Edge option" where
  "sel_at sel offset =
     (if m_start sel \<le> offset \<and> offset - m_start sel < length (m_selections sel)
      then Some (m_selections sel ! (offset - m_start sel)) else None)"

fun posting_elements :: "Selection \<Rightarrow> vector_set \<Rightarrow> int \<Rightarrow> nat \<Rightarrow> nat \<Rightarrow> (bytes \<times> bytes) list option" where
  "posting_elements sel vs pid idx 0 = Some []"
| "posting_elements sel vs pid idx (Suc n) =
     do {
       e \<leftarrow> sel_at sel idx;
       if e_node e \<noteq> pid then None
       else do {
         v \<leftarrow> GetVector vs (e_tonode e);
         es \<leftarrow> posting_elements sel vs pid (idx + 1) n;
         Some ((int_encode 4 (e_tonode e), v) # es)
       }
     }"

definition GetPostingListFullData :: "Selection \<Rightarrow> vector_set \<Rightarrow> bool \<Rightarrow> int \<Rightarrow> nat \<Rightarrow> bytes option" where
  "GetPostingListFullData sel vs rearrange pid n =
     do {
       es \<leftarrow> posting_elements sel vs pid (sel_lower_bound sel pid) n;
       Some (if rearrange then concat (map snd es) @ concat (map fst es)
             else concat (map (\<lambda>(i, v). i @ v) es))
     }"

subsection \<open>Writing the file\<close>

definition padding_size :: "nat \<Rightarrow> nat" where
  "padding_size n = (if page_bytes - n mod page_bytes = page_bytes then 0 else page_bytes - n mod page_bytes)"

definition zeros :: "nat \<Rightarrow> bytes" where
  "zeros n = replicate n 0"

definition write_padding :: "nat \<Rightarrow> ostream \<Rightarrow> ostream option" where
  "write_padding n os = (if 0 < n then WriteBinary (zeros n) os else Some os)"

text \<open>The entry of a posting in the table. A posting with vectors but without a place reads a cell that is not set.\<close>

definition list_meta :: "nat list \<Rightarrow> nat list \<Rightarrow> (nat \<times> nat) option list \<Rightarrow> nat \<Rightarrow> bytes list option" where
  "list_meta sizes bs places i =
     (if 0 < sizes ! i
      then do {
        (pageNum, pageOffset) \<leftarrow> places ! i;
        Some [int_encode 4 (int pageNum), le_encode 2 pageOffset, int_encode 4 (int (sizes ! i)),
              le_encode 2 (bs ! i div page_bytes + (if bs ! i mod page_bytes \<noteq> 0 then 1 else 0))]
      }
      else Some [int_encode 4 0, le_encode 2 0, int_encode 4 0, le_encode 2 0])"

fun write_metas :: "nat list \<Rightarrow> nat list \<Rightarrow> (nat \<times> nat) option list \<Rightarrow> nat list \<Rightarrow> ostream \<Rightarrow> ostream option" where
  "write_metas sizes bs places [] os = Some os"
| "write_metas sizes bs places (i # is) os =
     do { m \<leftarrow> list_meta sizes bs places i; os \<leftarrow> write_all m os; write_metas sizes bs places is os }"

text \<open>The contents: \<open>full\<close> is \<^verbatim>\<open>GetPostingListFullData\<close> for the posting with that number.\<close>

fun write_contents ::
  "(nat \<Rightarrow> nat \<Rightarrow> bytes option) \<Rightarrow> nat \<Rightarrow> nat list \<Rightarrow> (nat \<times> nat) option list \<Rightarrow> nat list \<Rightarrow> nat \<Rightarrow> ostream \<Rightarrow> (nat \<times> ostream) option" where
  "write_contents full space sizes places [] listOffset os = Some (listOffset, os)"
| "write_contents full space sizes places (i # is) listOffset os =
     do {
       (pageNum, pageOffset) \<leftarrow> places ! i;
       let targetOffset = pageNum * page_bytes + pageOffset;
       if targetOffset < listOffset then None
       else if targetOffset - listOffset > page_bytes then None
       else do {
         os \<leftarrow> write_padding (targetOffset - listOffset) os;
         if sizes ! i = 0 then write_contents full space sizes places is targetOffset os
         else do {
           d \<leftarrow> full i (sizes ! i);
           if sizes ! i * space \<noteq> length d then None
           else do { os \<leftarrow> WriteBinary d os; write_contents full space sizes places is (targetOffset + sizes ! i * space) os }
         }
       }
     }"

definition header_size :: "nat \<Rightarrow> nat" where
  "header_size n = 4 * 4 + (4 + 2 + 4 + 2) * n"

definition OutputSSDIndexFile ::
  "bool \<Rightarrow> nat \<Rightarrow> nat list \<Rightarrow> nat list \<Rightarrow> Selection \<Rightarrow> (nat \<times> nat) option list \<Rightarrow> nat list \<Rightarrow> vector_set \<Rightarrow> nat \<Rightarrow> ostream \<Rightarrow> ostream option" where
  "OutputSSDIndexFile rearrange space sizes bs sel places order vs p_postingListOffset os =
     (let listOffset = header_size (length sizes) + padding_size (header_size (length sizes)) in
      do {
        os \<leftarrow> write_all [int_encode 4 (int (length sizes)), int_encode 4 (vs_count vs), int_encode 4 (vs_dimension vs),
                         int_encode 4 (int (listOffset div page_bytes))] os;
        os \<leftarrow> write_metas sizes bs places [0 ..< length sizes] os;
        os \<leftarrow> write_padding (padding_size (header_size (length sizes))) os;
        if length (os_written os) \<noteq> listOffset then None
        else do {
          (contents, os) \<leftarrow> write_contents
             (\<lambda>i n. GetPostingListFullData sel vs rearrange (int (i + p_postingListOffset)) n) space sizes places order 0 os;
          write_padding (padding_size contents) os
        }
      })"

text \<open>The end of \<^verbatim>\<open>BuildIndex\<close> for one file: sizes, places, and the file.\<close>

definition build_file :: "bool \<Rightarrow> nat list \<Rightarrow> Selection \<Rightarrow> vector_set \<Rightarrow> ostream \<Rightarrow> ostream option" where
  "build_file rearrange sizes sel vs os =
     (let space = vs_perVectorDataSize vs + 4; bs = map (\<lambda>n. n * space) sizes in
      do {
        p \<leftarrow> SelectPostingOffset bs;
        OutputSSDIndexFile rearrange space sizes bs sel (pg_place p) (pg_order p) vs 0 os
      })"

subsection \<open>Loading the head\<close>

record ListInfo =
  listTotalBytes :: int
  listEleCount :: int
  listPageCount :: nat
  listOffset :: nat
  pageOffset :: nat

record searcher =
  s_vectorInfoSize :: int
  s_iDataDimension :: int
  s_listInfos :: "ListInfo list"
  s_indexFiles :: "bytes list"
  s_totalListCount :: int
  s_oneContext :: bool
  s_listPerFile :: int
  s_rearrange :: bool

definition ReadInt :: "bytes \<Rightarrow> (int \<times> bytes) option" where
  "ReadInt is = do { (b, is) \<leftarrow> ReadBinary 4 is; Some (int_decode b, is) }"

definition ReadUInt16 :: "bytes \<Rightarrow> (nat \<times> bytes) option" where
  "ReadUInt16 is = do { (b, is) \<leftarrow> ReadBinary 2 is; Some (le_decode b, is) }"

text \<open>The limit of pages cuts a posting that is too long: what is left of it are whole vectors, and the pages that hold them.\<close>

definition load_list :: "int \<Rightarrow> int \<Rightarrow> int \<Rightarrow> bytes \<Rightarrow> (ListInfo \<times> bytes) option" where
  "load_list vis m_listPageOffset p_postingPageLimit is =
     do {
       (pageNum, is) \<leftarrow> ReadInt is;
       (off, is) \<leftarrow> ReadUInt16 is;
       (ele, is) \<leftarrow> ReadInt is;
       (pc, is) \<leftarrow> ReadUInt16 is;
       if vis = 0 then None
       else
         let n = min ele ((min (int pc) p_postingPageLimit * int page_bytes) sdiv vis);
             pages = (vis * n + int off + (int page_bytes - 1)) div int page_bytes
         in Some (\<lparr>listTotalBytes = ele * vis, listEleCount = n, listPageCount = nat (pages mod 2 ^ 16),
                   listOffset = nat ((m_listPageOffset + pageNum) * int page_bytes mod 2 ^ 64), pageOffset = off\<rparr>, is)
     }"

fun load_lists :: "int \<Rightarrow> int \<Rightarrow> int \<Rightarrow> nat \<Rightarrow> bytes \<Rightarrow> (ListInfo list \<times> bytes) option" where
  "load_lists vis lpo limit 0 is = Some ([], is)"
| "load_lists vis lpo limit (Suc n) is =
     do { (l, is) \<leftarrow> load_list vis lpo limit is; (ls, is) \<leftarrow> load_lists vis lpo limit n is; Some (l # ls, is) }"

text \<open>\<open>vt\<close> is the size of a value. The file is read from its start.\<close>

definition LoadingHeadInfo :: "nat \<Rightarrow> int \<Rightarrow> bytes \<Rightarrow> searcher \<Rightarrow> (int \<times> searcher) option" where
  "LoadingHeadInfo vt limit file s =
     do {
       (listCount, is) \<leftarrow> ReadInt file;
       (totalDocumentCount, is) \<leftarrow> ReadInt is;
       (dim, is) \<leftarrow> ReadInt is;
       (lpo, is) \<leftarrow> ReadInt is;
       if s_vectorInfoSize s \<noteq> 0 \<and> s_vectorInfoSize s \<noteq> dim * int vt + 4 then None
       else do {
         let vis = dim * int vt + 4;
         (ls, is) \<leftarrow> load_lists vis lpo limit (nat listCount) is;
         Some (listCount, s\<lparr>s_vectorInfoSize := vis, s_iDataDimension := dim, s_listInfos := s_listInfos s @ ls\<rparr>)
       }
     }"

text \<open>The files of the index are opened one after the other, as long as there is one with the next name.\<close>

fun load_files :: "nat \<Rightarrow> int \<Rightarrow> bytes list \<Rightarrow> searcher \<Rightarrow> searcher option" where
  "load_files vt limit [] s = Some s"
| "load_files vt limit (f # fs) s =
     do {
       (c, s) \<leftarrow> LoadingHeadInfo vt limit f (s\<lparr>s_indexFiles := s_indexFiles s @ [f]\<rparr>);
       load_files vt limit fs (s\<lparr>s_totalListCount := s_totalListCount s + c\<rparr>)
     }"

definition LoadIndex :: "nat \<Rightarrow> int \<Rightarrow> int \<Rightarrow> int \<Rightarrow> bool \<Rightarrow> bytes list \<Rightarrow> searcher option" where
  "LoadIndex vt m_searchPostingPageLimit m_postingVectorLimit m_dim rearrange files =
     (if files = [] then None
      else do {
        let limit = max m_searchPostingPageLimit
                      ((m_postingVectorLimit * (m_dim * int vt + 4) + int page_bytes - 1) div int page_bytes);
        s \<leftarrow> load_files vt limit files
               \<lparr>s_vectorInfoSize = 0, s_iDataDimension = 0, s_listInfos = [], s_indexFiles = [], s_totalListCount = 0,
                s_oneContext = False, s_listPerFile = 0, s_rearrange = False\<rparr>;
        Some (s\<lparr>s_oneContext := (length (s_indexFiles s) = 1), s_rearrange := rearrange,
                s_listPerFile := (s_totalListCount s + int (length (s_indexFiles s)) - 1) div int (length (s_indexFiles s))\<rparr>)
      })"

subsection \<open>Reading a posting\<close>

text \<open>The pages of a posting, from its file into a buffer.\<close>

definition read_pages :: "searcher \<Rightarrow> nat \<Rightarrow> bytes option" where
  "read_pages s pid =
     (if pid < length (s_listInfos s)
      then
        let l = s_listInfos s ! pid; fileid = (if s_oneContext s then 0 else nat (int pid div s_listPerFile s)) in
        if fileid < length (s_indexFiles s)
        then seg_read (s_indexFiles s ! fileid) (listOffset l) (listPageCount l * page_bytes) else None
      else None)"

definition GetWritePosting :: "searcher \<Rightarrow> nat \<Rightarrow> bool \<Rightarrow> bytes option" where
  "GetWritePosting s pid write =
     (if write then None
      else do {
        posting \<leftarrow> read_pages s pid;
        let l = s_listInfos s ! pid;
        seg_read posting (pageOffset l) (nat (listEleCount l * s_vectorInfoSize s))
      })"

definition ParsePostingListRearrange :: "int \<Rightarrow> int \<Rightarrow> int \<Rightarrow> int \<times> int" where
  "ParsePostingListRearrange vis i eleCount = ((vis - 4) * eleCount + 4 * i, (vis - 4) * i)"

definition ParsePostingList :: "int \<Rightarrow> int \<Rightarrow> int \<Rightarrow> int \<times> int" where
  "ParsePostingList vis i eleCount = (vis * i, vis * i + 4)"

definition parse_element :: "nat \<Rightarrow> searcher \<Rightarrow> bytes \<Rightarrow> int \<Rightarrow> nat \<Rightarrow> (int \<times> bytes) option" where
  "parse_element vt s data n i =
     (let (offsetVectorID, offsetVector) =
            (if s_rearrange s then ParsePostingListRearrange else ParsePostingList) (s_vectorInfoSize s) (int i) n in
      do {
        b \<leftarrow> seg_read data (nat offsetVectorID) 4;
        v \<leftarrow> seg_read data (nat offsetVector) (nat (s_iDataDimension s * int vt));
        Some (int_decode b, v)
      })"

fun parse_elements :: "nat \<Rightarrow> searcher \<Rightarrow> bytes \<Rightarrow> int \<Rightarrow> nat list \<Rightarrow> (int \<times> bytes) list option" where
  "parse_elements vt s data n [] = Some []"
| "parse_elements vt s data n (i # is) =
     do { x \<leftarrow> parse_element vt s data n i; xs \<leftarrow> parse_elements vt s data n is; Some (x # xs) }"

text \<open>The numbers and the vectors of a posting, as the searches walk over them.\<close>

definition GetPostingDebug :: "nat \<Rightarrow> searcher \<Rightarrow> nat \<Rightarrow> (int \<times> bytes) list option" where
  "GetPostingDebug vt s pid =
     do {
       buffer \<leftarrow> read_pages s pid;
       let l = s_listInfos s ! pid;
       parse_elements vt s (drop (pageOffset l) buffer) (listEleCount l) [0 ..< nat (listEleCount l)]
     }"

subsection \<open>The data of a posting\<close>

text \<open>The vectors that are assigned to a posting: those of its first \<open>n\<close> edges.\<close>

definition assigned :: "Selection \<Rightarrow> int \<Rightarrow> nat \<Rightarrow> int list" where
  "assigned sel pid n = take n (map e_tonode (filter (\<lambda>e. e_node e = pid) (m_selections sel)))"

definition vector_of :: "vector_set \<Rightarrow> int \<Rightarrow> bytes" where
  "vector_of vs v = the (GetVector vs v)"

definition posting_bytes :: "bool \<Rightarrow> vector_set \<Rightarrow> int list \<Rightarrow> bytes" where
  "posting_bytes rearrange vs ids =
     (if rearrange then concat (map (vector_of vs) ids) @ concat (map (int_encode 4) ids)
      else concat (map (\<lambda>v. int_encode 4 v @ vector_of vs v) ids))"

definition has_vector :: "vector_set \<Rightarrow> int \<Rightarrow> bool" where
  "has_vector vs v \<longleftrightarrow> 0 \<le> v \<and> v < vs_count vs"

definition vectors_ok :: "vector_set \<Rightarrow> bool" where
  "vectors_ok vs \<longleftrightarrow> vs_count vs < 2 ^ 31 \<and> length (vs_data vs) = nat (vs_count vs) * vs_perVectorDataSize vs"

lemma GetVector_ok:
  assumes "vectors_ok vs" "has_vector vs v"
  shows "GetVector vs v = Some (vector_of vs v)" "length (vector_of vs v) = vs_perVectorDataSize vs"
proof -
  let ?s = "vs_perVectorDataSize vs"
  have "nat v + 1 \<le> nat (vs_count vs)" using assms(2) by (auto simp: has_vector_def)
  then have "(nat v + 1) * ?s \<le> nat (vs_count vs) * ?s" by (rule mult_le_mono1)
  then have "nat v * ?s + ?s \<le> length (vs_data vs)" using assms(1) by (simp add: vectors_ok_def add.commute)
  then obtain w where "GetVector vs v = Some w" "length w = ?s"
    using assms(2) by (auto simp: GetVector_def has_vector_def seg_read_def)
  then show "GetVector vs v = Some (vector_of vs v)" "length (vector_of vs v) = ?s" by (simp_all add: vector_of_def)
qed

lemma dropWhile_sorted:
  "sorted (map f xs) \<Longrightarrow> dropWhile (\<lambda>x. f x < p) xs = filter (\<lambda>x. f x = p) xs @ filter (\<lambda>x. p < f x) xs" for p :: int
proof (induction xs)
  case (Cons x xs)
  show ?case
  proof (cases "f x < p")
    case False
    then have "\<forall>y \<in> set xs. \<not> f y < p" using Cons.prems by force
    then have "dropWhile (\<lambda>y. f y < p) xs = xs" by (cases xs) auto
    moreover have "f x \<noteq> p \<Longrightarrow> filter (\<lambda>y. f y = p) xs = []" using Cons.prems False by (force simp: filter_empty_conv)
    ultimately show ?thesis using Cons False by auto
  qed (use Cons in auto)
qed simp

lemma posting_elements_drop:
  assumes "drop k (m_selections sel) = es @ rst" "\<forall>e \<in> set es. e_node e = pid \<and> has_vector vs (e_tonode e)" "vectors_ok vs"
  shows "posting_elements sel vs pid (m_start sel + k) (length es) = Some (map (\<lambda>e. (int_encode 4 (e_tonode e), vector_of vs (e_tonode e))) es)"
  using assms(1,2)
proof (induction es arbitrary: k)
  case (Cons e es)
  have k: "k < length (m_selections sel)" using Cons.prems(1) by (cases "k < length (m_selections sel)") auto
  then have d: "m_selections sel ! k = e" "drop (Suc k) (m_selections sel) = es @ rst"
    using Cons.prems(1) Cons_nth_drop_Suc[OF k] by auto
  have "sel_at sel (m_start sel + k) = Some e" using k d(1) by (simp add: sel_at_def)
  moreover have "posting_elements sel vs pid (m_start sel + Suc k) (length es) = Some (map (\<lambda>e. (int_encode 4 (e_tonode e), vector_of vs (e_tonode e))) es)"
    using Cons.prems(2) by (intro Cons.IH d(2)) auto
  ultimately show ?case using Cons.prems(2) GetVector_ok(1)[OF assms(3)] by simp
qed simp

text \<open>A posting of \<open>n\<close> vectors can be written: its edges are there, and their vectors are.\<close>

definition assignment_ok :: "Selection \<Rightarrow> vector_set \<Rightarrow> nat list \<Rightarrow> bool" where
  "assignment_ok sel vs sizes \<longleftrightarrow> sorted (map e_node (m_selections sel)) \<and>
     (\<forall>i < length sizes. sizes ! i \<le> length (filter (\<lambda>e. e_node e = int i) (m_selections sel))) \<and>
     (\<forall>e \<in> set (m_selections sel). e_node e < int (length sizes) \<longrightarrow> has_vector vs (e_tonode e))"

lemma assigned_ok:
  assumes "assignment_ok sel vs sizes" "i < length sizes"
  shows "length (assigned sel (int i) (sizes ! i)) = sizes ! i" "\<forall>v \<in> set (assigned sel (int i) (sizes ! i)). has_vector vs v"
  using assms by (auto simp: assignment_ok_def assigned_def dest!: in_set_takeD)

lemma GetPostingListFullData_ok:
  assumes "assignment_ok sel vs sizes" "vectors_ok vs" "i < length sizes"
  shows "GetPostingListFullData sel vs rearrange (int i) (sizes ! i) = Some (posting_bytes rearrange vs (assigned sel (int i) (sizes ! i)))"
proof -
  let ?F = "filter (\<lambda>e. e_node e = int i) (m_selections sel)" and ?n = "sizes ! i"
  let ?k = "length (takeWhile (\<lambda>e. e_node e < int i) (m_selections sel))"
  have so: "sorted (map e_node (m_selections sel))" and n: "?n \<le> length ?F" using assms(1,3) by (auto simp: assignment_ok_def)
  have "drop ?k (m_selections sel) = dropWhile (\<lambda>e. e_node e < int i) (m_selections sel)" by (simp add: dropWhile_eq_drop)
  also have "\<dots> = take ?n ?F @ drop ?n ?F @ filter (\<lambda>e. int i < e_node e) (m_selections sel)" by (simp add: dropWhile_sorted[OF so])
  finally have "posting_elements sel vs (int i) (m_start sel + ?k) (length (take ?n ?F)) =
      Some (map (\<lambda>e. (int_encode 4 (e_tonode e), vector_of vs (e_tonode e))) (take ?n ?F))"
    by (rule posting_elements_drop) (use assms in \<open>auto simp: assignment_ok_def dest!: in_set_takeD\<close>)
  then have "posting_elements sel vs (int i) (sel_lower_bound sel (int i)) ?n =
      Some (map (\<lambda>v. (int_encode 4 v, vector_of vs v)) (assigned sel (int i) ?n))"
    using n by (simp add: sel_lower_bound_def assigned_def take_map min_absorb2)
  then show ?thesis by (simp add: GetPostingListFullData_def posting_bytes_def comp_def)
qed

lemma length_posting_bytes:
  assumes "\<forall>v \<in> set ids. has_vector vs v" "vectors_ok vs"
  shows "length (posting_bytes rearrange vs ids) = length ids * (vs_perVectorDataSize vs + 4)"
  using assms(1) GetVector_ok(2)[OF assms(2)] by (induction ids) (auto simp: posting_bytes_def length_concat)

subsection \<open>What is written\<close>

definition append_os :: "ostream \<Rightarrow> bytes \<Rightarrow> ostream" where
  "append_os os w = os\<lparr>os_written := os_written os @ w, os_room := os_room os - length w\<rparr>"

lemma append_os_simps [simp]:
  "os_written (append_os os w) = os_written os @ w" "os_room (append_os os w) = os_room os - length w"
  "append_os (append_os os w) w' = append_os os (w @ w')" "append_os os [] = os"
  by (simp_all add: append_os_def)

lemma WriteBinary_append_os: "length w \<le> os_room os \<Longrightarrow> WriteBinary w os = Some (append_os os w)"
  by (simp add: WriteBinary_def append_os_def)

lemma write_all_append_os: "length (concat ws) \<le> os_room os \<Longrightarrow> write_all ws os = Some (append_os os (concat ws))"
  by (induction ws arbitrary: os) (simp_all add: WriteBinary_append_os)

lemma length_zeros [simp]: "length (zeros n) = n"
  by (simp add: zeros_def)

lemma write_padding_append_os: "n \<le> os_room os \<Longrightarrow> write_padding n os = Some (append_os os (zeros n))"
  by (auto simp: write_padding_def WriteBinary_append_os zeros_def)

lemma padded: "page_bytes dvd n + padding_size n" "padding_size n < page_bytes"
proof -
  show "padding_size n < page_bytes" using page_bytes_pos by (auto simp: padding_size_def)
  show "page_bytes dvd n + padding_size n"
  proof (cases "n mod page_bytes = 0")
    case True
    then show ?thesis by (simp add: padding_size_def mod_eq_0_iff_dvd)
  next
    case False
    then have "padding_size n = page_bytes - n mod page_bytes" using page_bytes_pos by (auto simp: padding_size_def)
    then have "n + padding_size n = n div page_bytes * page_bytes + page_bytes"
      using div_mult_mod_eq[of n page_bytes] mod_less_divisor[OF page_bytes_pos, of n] by linarith
    then show ?thesis by simp
  qed
qed

lemma write_metas_append_os:
  assumes "\<forall>i \<in> set is. list_meta sizes bs places i = Some (m i)" "length (concat (map (\<lambda>i. concat (m i)) is)) \<le> os_room os"
  shows "write_metas sizes bs places is os = Some (append_os os (concat (map (\<lambda>i. concat (m i)) is)))"
  using assms by (induction "is" arbitrary: os) (simp_all add: write_all_append_os)

lemma seg_read_shift: "length C = k \<Longrightarrow> seg_read (C @ D) (k + off) n = seg_read D off n"
  by (simp add: seg_read_def)

lemma seg_read_extend: "seg_read C off n = Some r \<Longrightarrow> seg_read (C @ D) off n = Some r"
  by (auto simp: seg_read_def split: if_splits)

lemma chain_after: "chain tgt sz a is \<Longrightarrow> i \<in> set is \<Longrightarrow> a \<le> tgt i"
proof (induction tgt sz a "is" rule: chain.induct)
  case (2 tgt sz a j "is")
  then show ?case by (cases "i = j") force+
qed simp

lemma chain_end_after: "chain tgt sz a is \<Longrightarrow> a \<le> chain_end tgt sz a is"
  by (cases "is" rule: rev_cases) (auto simp: chain_end_def dest: chain_after[of _ _ _ _ "last is"] intro: trans_le_add1)

lemma chain_end_Cons [simp]: "chain_end tgt sz a (i # is) = chain_end tgt sz (tgt i + sz i) is"
  by (simp add: chain_end_def)

lemma write_contents_writes:
  assumes "chain (target places) sz a is"
    "\<forall>i \<in> set is. places ! i \<noteq> None \<and> 0 < sizes ! i \<and> sz i = sizes ! i * space \<and> full i (sizes ! i) = Some (d i) \<and> length (d i) = sz i"
  shows "\<exists>C. a + length C = chain_end (target places) sz a is \<and>
    (\<forall>i \<in> set is. seg_read C (target places i - a) (sz i) = Some (d i)) \<and>
    (\<forall>os. length C \<le> os_room os \<longrightarrow>
       write_contents full space sizes places is a os = Some (chain_end (target places) sz a is, append_os os C))"
  using assms
proof (induction "is" arbitrary: a)
  case Nil
  then show ?case by (simp add: chain_end_def)
next
  case (Cons i "is")
  let ?t = "target places i" and ?g = "target places i - a"
  have t: "a \<le> ?t" "?t < a + page_bytes" "chain (target places) sz (?t + sz i) is" using Cons.prems(1) by auto
  obtain pg off where p: "places ! i = Some (pg, off)" "?t = pg * page_bytes + off"
    using Cons.prems(2) by (auto simp: target_def split: option.splits)
  have i: "0 < sizes ! i" "sz i = sizes ! i * space" "full i (sizes ! i) = Some (d i)" "length (d i) = sz i" using Cons.prems(2) by auto
  obtain C where C: "?t + sz i + length C = chain_end (target places) sz (?t + sz i) is"
    "\<forall>j \<in> set is. seg_read C (target places j - (?t + sz i)) (sz j) = Some (d j)"
    "\<forall>os. length C \<le> os_room os \<longrightarrow>
       write_contents full space sizes places is (?t + sz i) os = Some (chain_end (target places) sz (?t + sz i) is, append_os os C)"
    using Cons.IH[OF t(3)] Cons.prems(2) by auto
  let ?C = "(zeros ?g @ d i) @ C"
  have "seg_read ?C (target places j - a) (sz j) = Some (d j)" if j: "j \<in> set (i # is)" for j
  proof (cases "j = i")
    case True
    have "seg_read (zeros ?g @ d i @ C) (?g + 0) (sz i) = seg_read (d i @ C) 0 (sz i)" by (rule seg_read_shift) simp
    then show ?thesis using True i(4) by (simp add: seg_read_def)
  next
    case False
    then have "?t + sz i \<le> target places j" using j chain_after[OF t(3)] by simp
    then have "target places j - a = (?g + sz i) + (target places j - (?t + sz i))" using t(1) by simp
    then show ?thesis using seg_read_shift[of "zeros ?g @ d i" "?g + sz i" C] i(4) C(2) False j by simp
  qed
  moreover have "write_contents full space sizes places (i # is) a os = Some (chain_end (target places) sz a (i # is), append_os os ?C)"
    if "length ?C \<le> os_room os" for os
  proof -
    have "?g \<le> os_room os" "length (d i) \<le> os_room (append_os os (zeros ?g))" "length C \<le> os_room (append_os os (zeros ?g @ d i))"
      using that by auto
    then show ?thesis using p t(1,2) i C(3) by (simp add: write_padding_append_os WriteBinary_append_os Let_def)
  qed
  moreover have "a + length ?C = chain_end (target places) sz a (i # is)" using C(1) t(1) i(4) by simp
  ultimately show ?case by (intro exI[of _ ?C]) blast
qed

text \<open>The room that a file takes at most.\<close>

lemma chain_end_bound: "chain tgt sz a is \<Longrightarrow> chain_end tgt sz a is \<le> a + (\<Sum>i \<leftarrow> is. sz i + page_bytes)"
proof (induction tgt sz a "is" rule: chain.induct)
  case (2 tgt sz a i "is")
  then show ?case by simp
qed (simp add: chain_end_def)

lemma sum_order_bound:
  assumes "distinct is" "set is \<subseteq> {..< length bs}"
  shows "(\<Sum>i \<leftarrow> is. bs ! i + page_bytes) \<le> sum_list bs + length bs * page_bytes"
proof -
  have "(\<Sum>i \<leftarrow> is. bs ! i + page_bytes) = (\<Sum>i \<in> set is. bs ! i + page_bytes)" by (rule sum_list_distinct_conv_sum_set[OF assms(1)])
  also have "\<dots> \<le> (\<Sum>i \<in> {..< length bs}. bs ! i + page_bytes)" by (rule sum_mono2) (use assms(2) in auto)
  also have "\<dots> = sum_list bs + length bs * page_bytes" by (simp add: sum.distrib sum_list_sum_nth atLeast0LessThan)
  finally show ?thesis .
qed

subsection \<open>What is loaded\<close>

lemma ReadInt_append: "- (2 ^ 31) \<le> x \<Longrightarrow> x < 2 ^ 31 \<Longrightarrow> ReadInt (int_encode 4 x @ is) = Some (x, is)"
  using int_decode_encode[of 4 x] by (simp add: ReadInt_def)

lemma ReadUInt16_append: "x < 2 ^ 16 \<Longrightarrow> ReadUInt16 (le_encode 2 x @ is) = Some (x, is)"
  by (simp add: ReadUInt16_def le_decode_encode)

definition list_info :: "nat \<Rightarrow> nat \<Rightarrow> nat \<Rightarrow> nat \<Rightarrow> nat \<Rightarrow> ListInfo" where
  "list_info space lpo pg off n = \<lparr>listTotalBytes = int (n * space), listEleCount = int n,
     listPageCount = (n * space + off + (page_bytes - 1)) div page_bytes, listOffset = (lpo + pg) * page_bytes, pageOffset = off\<rparr>"

lemma sdiv_nonneg: "0 \<le> a \<Longrightarrow> 0 < b \<Longrightarrow> a sdiv b = a div b" for a b :: int
  by (cases "a = 0") (auto simp: signed_divide_int_def sgn_if)

lemma nat_mod_u64: "x < 2 ^ 64 \<Longrightarrow> nat (int x mod 2 ^ 64) = x"
  using zmod_int[of x "2 ^ 64"] by simp

lemma load_list_ok:
  assumes "pg < 2 ^ 31" "off < page_bytes" "n < 2 ^ 31" "pc < 2 ^ 16" "0 < space" "lpo < 2 ^ 31"
    "n * space \<le> pc * page_bytes" "int (n * space) \<le> limit * int page_bytes" "limit < 2 ^ 15"
  shows "load_list (int space) (int lpo) limit (concat [int_encode 4 (int pg), le_encode 2 off, int_encode 4 (int n), le_encode 2 pc] @ is) =
    Some (list_info space lpo pg off n, is)"
proof -
  let ?m = "min (int pc) limit * int page_bytes" and ?pages = "(n * space + off + (page_bytes - 1)) div page_bytes"
  have "int (n * space) \<le> int pc * int page_bytes" using assms(7) by (metis of_nat_le_iff of_nat_mult)
  then have m: "int n * int space \<le> ?m" using assms(8) by (simp add: min_def)
  have "0 \<le> ?m" using order_trans[OF _ m, of 0] by simp
  then have "?m sdiv int space = ?m div int space" using assms(5) by (intro sdiv_nonneg) simp_all
  moreover have "int n * int space div int space \<le> ?m div int space" using m assms(5) by (intro zdiv_mono1) auto
  ultimately have n: "min (int n) (?m sdiv int space) = int n" using assms(5) by simp
  have "(int space * int n + int off + (int page_bytes - 1)) div int page_bytes = int ?pages"
    using page_bytes_pos by (simp add: zdiv_int of_nat_diff mult.commute add_diff_eq)
  moreover have "?pages < 2 ^ 16"
  proof -
    have "int (n * space) \<le> (2 ^ 15 - 1) * int page_bytes"
      using order_trans[OF assms(8) mult_right_mono[of limit "2 ^ 15 - 1" "int page_bytes"]] assms(9) by simp
    moreover have "int x \<le> (2 ^ 15 - 1) * int page_bytes \<Longrightarrow> x \<le> 134213632" for x :: nat by (simp add: page_bytes_def)
    ultimately have "n * space \<le> 134213632" by blast
    then show ?thesis using assms(2) by (intro less_mult_imp_div_less) (simp add: page_bytes_def)
  qed
  moreover have "nat ((int lpo + int pg) * int page_bytes mod 2 ^ 64) = (lpo + pg) * page_bytes"
  proof -
    have "(lpo + pg) * page_bytes < 2 ^ 64" using assms(1,6) by (simp add: page_bytes_def)
    moreover have "(int lpo + int pg) * int page_bytes = int ((lpo + pg) * page_bytes)" by simp
    ultimately show ?thesis by (simp only: nat_mod_u64)
  qed
  moreover have "int ?pages mod 2 ^ 16 = int ?pages" if "?pages < 2 ^ 16" using that zmod_int[of ?pages "2 ^ 16"] by simp
  moreover have "ReadInt (int_encode 4 (int pg) @ xs) = Some (int pg, xs)" "ReadInt (int_encode 4 (int n) @ xs) = Some (int n, xs)"
    "ReadUInt16 (le_encode 2 off @ xs) = Some (off, xs)" "ReadUInt16 (le_encode 2 pc @ xs) = Some (pc, xs)" for xs
    using assms(1-4) by (simp_all add: ReadInt_append ReadUInt16_append page_bytes_def)
  moreover have "int space \<noteq> 0" using assms(5) by simp
  ultimately show ?thesis using n
    by (simp only: load_list_def list_info_def Let_def concat.simps append_assoc append_Nil append_Nil2 Option.bind.simps prod.case if_False
        nat_int of_nat_mult simp_thms)
qed

lemma load_lists_ok:
  assumes "\<forall>i \<in> set is. \<forall>r. load_list vis lpo limit (concat (m i) @ r) = Some (info i, r)"
  shows "load_lists vis lpo limit (length is) (concat (map (\<lambda>i. concat (m i)) is) @ r) = Some (map info is, r)"
  using assms by (induction "is") simp_all

subsection \<open>What is read back\<close>

lemma seg_read_seg_read: "seg_read xs a k = Some ys \<Longrightarrow> off + n \<le> k \<Longrightarrow> seg_read ys off n = seg_read xs (a + off) n"
  by (auto simp: seg_read_def drop_take min_def add.commute split: if_splits)

lemma seg_read_block:
  assumes "\<forall>x \<in> set xs. length (f x) = k" "i < length xs"
  shows "seg_read (concat (map f xs) @ r) (i * k) k = Some (f (xs ! i))"
  using assms
proof (induction xs arbitrary: i)
  case (Cons x xs)
  show ?case
  proof (cases i)
    case 0
    then show ?thesis using Cons.prems by (simp add: seg_read_def)
  next
    case (Suc j)
    then show ?thesis using Cons seg_read_shift[of "f x" k "concat (map f xs) @ r" "j * k" k] by simp
  qed
qed simp

lemma parse_element_ok:
  assumes "\<forall>v \<in> set ids. has_vector vs v" "vectors_ok vs" "i < length ids"
    "s_vectorInfoSize s = int (vs_perVectorDataSize vs + 4)" "nat (s_iDataDimension s * int vt) = vs_perVectorDataSize vs"
  shows "parse_element vt s (posting_bytes (s_rearrange s) vs ids @ r) (int (length ids)) i = Some (ids ! i, vector_of vs (ids ! i))"
proof -
  let ?k = "vs_perVectorDataSize vs" and ?v = "ids ! i"
  have hv: "has_vector vs ?v" using assms(1,3) by simp
  have l: "\<forall>v \<in> set ids. length (vector_of vs v) = ?k" using assms(1) GetVector_ok(2)[OF assms(2)] by blast
  have dec: "int_decode (int_encode 4 ?v) = ?v"
    using hv assms(2) by (intro int_decode_encode) (auto simp: has_vector_def vectors_ok_def)
  show ?thesis
  proof (cases "s_rearrange s")
    case True
    let ?V = "concat (map (vector_of vs) ids)" and ?I = "concat (map (int_encode 4) ids)"
    have "length ?V = length ids * ?k" using l by (induction ids) auto
    then have "seg_read ((?V @ ?I) @ r) (length ids * ?k + i * 4) 4 = Some (int_encode 4 ?v)"
      using seg_read_shift[of ?V _ "?I @ r"] seg_read_block[of ids "int_encode 4" 4 i r] assms(3) by simp
    moreover have "seg_read ((?V @ ?I) @ r) (i * ?k) ?k = Some (vector_of vs ?v)"
      using seg_read_block[OF l assms(3), of "?I @ r"] by simp
    moreover have "nat ((int (?k + 4) - 4) * int (length ids) + 4 * int i) = length ids * ?k + i * 4"
      "nat ((int (?k + 4) - 4) * int i) = i * ?k"
      by (simp_all add: mult.commute nat_add_distrib nat_mult_distrib)
    ultimately show ?thesis using True assms(4,5) dec
      by (simp add: parse_element_def ParsePostingListRearrange_def posting_bytes_def del: append_assoc of_nat_add)
  next
    case False
    let ?f = "\<lambda>v. int_encode 4 v @ vector_of vs v"
    have "seg_read (concat (map ?f ids) @ r) (i * (?k + 4)) (?k + 4) = Some (?f ?v)"
      by (rule seg_read_block) (use l assms(3) in auto)
    note b = seg_read_seg_read[OF this]
    have "seg_read (concat (map ?f ids) @ r) (i * (?k + 4)) 4 = Some (int_encode 4 ?v)"
      using b[of 0 4] by (simp add: seg_read_def)
    moreover have "seg_read (concat (map ?f ids) @ r) (i * (?k + 4) + 4) ?k = Some (vector_of vs ?v)"
      using b[of 4 ?k] l assms(3) by (simp add: seg_read_def)
    moreover have "nat (int (?k + 4) * int i) = i * (?k + 4)" "nat (int (?k + 4) * int i + 4) = i * (?k + 4) + 4"
      by (simp_all add: mult.commute nat_add_distrib nat_mult_distrib)
    ultimately show ?thesis using False assms(4,5) dec
      by (simp add: parse_element_def ParsePostingList_def posting_bytes_def del: of_nat_add)
  qed
qed

lemma parse_elements_ok:
  assumes "\<forall>i \<in> set is. parse_element vt s data n i = Some (f i)"
  shows "parse_elements vt s data n is = Some (map f is)"
  using assms by (induction "is") simp_all

subsection \<open>A file that is written and loaded\<close>

text \<open>The room for a file: its head, the postings, and less than a page of padding for each posting, the head and the end.\<close>

definition file_room :: "nat list \<Rightarrow> nat \<Rightarrow> nat" where
  "file_room sizes space = header_size (length sizes) + sum_list (map (\<lambda>n. n * space) sizes) + (length sizes + 2) * page_bytes"

definition table_page :: "nat list \<Rightarrow> nat" where
  "table_page sizes = (header_size (length sizes) + padding_size (header_size (length sizes))) div page_bytes"

definition place_of :: "nat list \<Rightarrow> (nat \<times> nat) option list \<Rightarrow> nat \<Rightarrow> nat \<times> nat" where
  "place_of sizes places i = (if 0 < sizes ! i then the (places ! i) else (0, 0))"

definition entry_bytes :: "nat list \<Rightarrow> nat \<Rightarrow> (nat \<times> nat) option list \<Rightarrow> nat \<Rightarrow> bytes list" where
  "entry_bytes sizes space places i = (case place_of sizes places i of (pg, off) \<Rightarrow>
     [int_encode 4 (int pg), le_encode 2 off, int_encode 4 (int (sizes ! i)),
      le_encode 2 (sizes ! i * space div page_bytes + (if sizes ! i * space mod page_bytes \<noteq> 0 then 1 else 0))])"

definition head_bytes :: "nat list \<Rightarrow> vector_set \<Rightarrow> bytes" where
  "head_bytes sizes vs = concat [int_encode 4 (int (length sizes)), int_encode 4 (vs_count vs), int_encode 4 (vs_dimension vs),
     int_encode 4 (int (table_page sizes))]"

definition table_bytes :: "nat list \<Rightarrow> nat \<Rightarrow> (nat \<times> nat) option list \<Rightarrow> bytes" where
  "table_bytes sizes space places = concat (map (\<lambda>i. concat (entry_bytes sizes space places i)) [0 ..< length sizes])"

text \<open>What the contents hold of a posting: its place in whole pages of the contents, and its data at that place.\<close>

definition holds :: "bool \<Rightarrow> Selection \<Rightarrow> vector_set \<Rightarrow> nat list \<Rightarrow> (nat \<times> nat) option list \<Rightarrow> bytes \<Rightarrow> nat \<Rightarrow> bool" where
  "holds rearrange sel vs sizes places C i \<longleftrightarrow>
     (case place_of sizes places i of (pg, off) \<Rightarrow> off < page_bytes \<and>
        seg_read C (pg * page_bytes + off) (sizes ! i * (vs_perVectorDataSize vs + 4)) =
          Some (posting_bytes rearrange vs (assigned sel (int i) (sizes ! i))))"

lemma table_page_bytes: "table_page sizes * page_bytes = header_size (length sizes) + padding_size (header_size (length sizes))"
  using padded(1) by (simp add: table_page_def)

lemma length_head_bytes: "length (head_bytes sizes vs) = 16"
  by (simp add: head_bytes_def)

lemma length_table_bytes: "length (table_bytes sizes space places) = 12 * length sizes"
  by (simp add: table_bytes_def length_concat entry_bytes_def comp_def case_prod_unfold sum_list_triv)

lemma list_meta_entry:
  assumes "i < length sizes" "0 < sizes ! i \<Longrightarrow> places ! i \<noteq> None"
  shows "list_meta sizes (map (\<lambda>n. n * space) sizes) places i = Some (entry_bytes sizes space places i)"
  using assms by (auto simp: list_meta_def entry_bytes_def place_of_def)

lemma placement_of_sizes:
  assumes "0 < space"
  shows "\<exists>p. SelectPostingOffset (map (\<lambda>n. n * space) sizes) = Some p \<and>
    distinct (pg_order p) \<and> set (pg_order p) = {i. i < length sizes \<and> 0 < sizes ! i} \<and>
    chain (target (pg_place p)) ((!) (map (\<lambda>n. n * space) sizes)) 0 (pg_order p) \<and>
    (\<forall>i \<in> set (pg_order p). \<exists>pg off. pg_place p ! i = Some (pg, off) \<and> off < page_bytes)"
proof -
  let ?bs = "map (\<lambda>n. n * space) sizes"
  obtain p where p: "SelectPostingOffset ?bs = Some p" "packed ?bs p" "pg_rest p = []" using SelectPostingOffset_packs by blast
  have "distinct (pg_order p)" "chain (target (pg_place p)) ((!) ?bs) 0 (pg_order p)" "\<forall>i \<in> set (pg_order p). tight (pg_place p) ?bs i"
    using p(2) unfolding packed_def by blast+
  moreover have "set (pg_order p) \<union> (nat \<circ> pm_id) ` set (pg_rest p) = {i. i < length ?bs \<and> ?bs ! i \<noteq> 0}"
    using p(2) unfolding packed_def by blast
  then have "set (pg_order p) = {i. i < length ?bs \<and> ?bs ! i \<noteq> 0}" using p(3) by simp
  moreover have "\<dots> = {i. i < length sizes \<and> 0 < sizes ! i}" using assms by (intro Collect_cong conj_cong) auto
  ultimately show ?thesis using p(1) unfolding tight_def by metis
qed

lemma build_file_writes:
  assumes "assignment_ok sel vs sizes" "vectors_ok vs" "file_room sizes (vs_perVectorDataSize vs + 4) \<le> os_room os" "os_written os = []"
  shows "\<exists>places C. build_file rearrange sizes sel vs os = Some (append_os os
      (head_bytes sizes vs @ table_bytes sizes (vs_perVectorDataSize vs + 4) places @ zeros (padding_size (header_size (length sizes))) @ C)) \<and>
    page_bytes dvd length C \<and> length C \<le> file_room sizes (vs_perVectorDataSize vs + 4) \<and>
    (\<forall>i < length sizes. holds rearrange sel vs sizes places C i)"
proof -
  let ?sp = "vs_perVectorDataSize vs + 4" and ?n = "length sizes"
  let ?bs = "map (\<lambda>n. n * ?sp) sizes" and ?pad = "padding_size (header_size ?n)"
  let ?d = "\<lambda>i. posting_bytes rearrange vs (assigned sel (int i) (sizes ! i))"
  let ?full = "\<lambda>i n. GetPostingListFullData sel vs rearrange (int (i + 0)) n"
  obtain p where p: "SelectPostingOffset ?bs = Some p" "distinct (pg_order p)" "set (pg_order p) = {i. i < ?n \<and> 0 < sizes ! i}"
    "chain (target (pg_place p)) ((!) ?bs) 0 (pg_order p)" "\<forall>i \<in> set (pg_order p). \<exists>pg off. pg_place p ! i = Some (pg, off) \<and> off < page_bytes"
    using placement_of_sizes[of ?sp sizes] by auto
  let ?pl = "pg_place p" and ?fin = "chain_end (target (pg_place p)) ((!) ?bs) 0 (pg_order p)"
  have pl: "?pl ! i \<noteq> None" if "i < ?n" "0 < sizes ! i" for i using p(3,5) that by force
  have d: "?full i (sizes ! i) = Some (?d i)" "length (?d i) = sizes ! i * ?sp" if "i < ?n" for i
    using GetPostingListFullData_ok[OF assms(1,2) that] length_posting_bytes[OF assigned_ok(2)[OF assms(1) that] assms(2)]
      assigned_ok(1)[OF assms(1) that] by simp_all
  have each: "\<forall>i \<in> set (pg_order p). ?pl ! i \<noteq> None \<and> 0 < sizes ! i \<and> ?bs ! i = sizes ! i * ?sp \<and> ?full i (sizes ! i) = Some (?d i) \<and> length (?d i) = ?bs ! i"
    using p(3) pl d by simp
  from write_contents_writes[of ?pl "(!) ?bs" 0 "pg_order p" sizes ?sp ?full ?d, OF p(4) each] obtain C where C: "length C = ?fin"
    "\<forall>i \<in> set (pg_order p). seg_read C (target ?pl i) (?bs ! i) = Some (?d i)"
    "\<And>os. length C \<le> os_room os \<Longrightarrow> write_contents ?full ?sp sizes ?pl (pg_order p) 0 os = Some (?fin, append_os os C)"
    by auto
  have "?fin \<le> (\<Sum>i \<leftarrow> pg_order p. ?bs ! i + page_bytes)" using chain_end_bound[OF p(4)] by simp
  also have "\<dots> \<le> sum_list ?bs + ?n * page_bytes" using sum_order_bound[OF p(2), of ?bs] p(3) by auto
  finally have e: "?fin \<le> sum_list ?bs + ?n * page_bytes" .
  let ?C = "C @ zeros (padding_size ?fin)"
  have room: "16 + 12 * ?n + ?pad + length ?C \<le> file_room sizes ?sp"
    using e C(1) padded(2)[of ?fin] padded(2)[of "header_size ?n"] by (simp add: file_room_def header_size_def algebra_simps)
  let ?w1 = "head_bytes sizes vs" and ?w2 = "table_bytes sizes ?sp ?pl" and ?w3 = "zeros ?pad"
  have "\<forall>i \<in> set [0 ..< ?n]. list_meta sizes ?bs ?pl i = Some (entry_bytes sizes ?sp ?pl i)"
    using pl by (auto intro!: list_meta_entry)
  note metas = write_metas_append_os[OF this, folded table_bytes_def]
  have hs: "header_size ?n = 16 + 12 * ?n" by (simp add: header_size_def)
  note lens = length_head_bytes[of sizes vs] length_table_bytes[of sizes ?sp ?pl]
  have s1: "write_all [int_encode 4 (int ?n), int_encode 4 (vs_count vs), int_encode 4 (vs_dimension vs),
      int_encode 4 (int ((header_size ?n + ?pad) div page_bytes))] os = Some (append_os os ?w1)"
    unfolding head_bytes_def table_page_def[symmetric] by (rule write_all_append_os) (use room assms(3) in simp)
  have s2: "write_metas sizes ?bs ?pl [0 ..< ?n] (append_os os ?w1) = Some (append_os os (?w1 @ ?w2))"
    using metas[of "append_os os ?w1"] room assms(3) lens by simp
  have s3: "write_padding ?pad (append_os os (?w1 @ ?w2)) = Some (append_os os (?w1 @ ?w2 @ ?w3))"
    using write_padding_append_os[of ?pad "append_os os (?w1 @ ?w2)"] room assms(3) lens by simp
  have s4: "write_contents ?full ?sp sizes ?pl (pg_order p) 0 (append_os os (?w1 @ ?w2 @ ?w3)) = Some (?fin, append_os os (?w1 @ ?w2 @ ?w3 @ C))"
    using C(3)[of "append_os os (?w1 @ ?w2 @ ?w3)"] room assms(3) lens by simp
  have s5: "write_padding (padding_size ?fin) (append_os os (?w1 @ ?w2 @ ?w3 @ C)) = Some (append_os os (?w1 @ ?w2 @ ?w3 @ ?C))"
    using write_padding_append_os[of "padding_size ?fin" "append_os os (?w1 @ ?w2 @ ?w3 @ C)"] room assms(3) lens by simp
  have tell: "length (os_written (append_os os (?w1 @ ?w2 @ ?w3))) = header_size ?n + ?pad" using lens hs assms(4) by simp
  have "build_file rearrange sizes sel vs os = Some (append_os os (?w1 @ ?w2 @ ?w3 @ ?C))"
    unfolding build_file_def OutputSSDIndexFile_def Let_def
    by (simp only: p(1) s1 s2 s3 s4 s5 tell Option.bind.simps prod.case simp_thms if_False)
  moreover have "holds rearrange sel vs sizes ?pl ?C i" if i: "i < ?n" for i
  proof (cases "0 < sizes ! i")
    case True
    then have o: "i \<in> set (pg_order p)" using p(3) i by simp
    then obtain pg off where po: "?pl ! i = Some (pg, off)" "off < page_bytes" using p(5) by blast
    then have "seg_read C (pg * page_bytes + off) (sizes ! i * ?sp) = Some (?d i)" using C(2) o i by (force simp: target_def)
    then show ?thesis using True po by (simp add: holds_def place_of_def seg_read_extend)
  next
    case False
    then have "?d i = []" using d(2)[OF i] by simp
    then show ?thesis using False page_bytes_pos by (simp add: holds_def place_of_def seg_read_def)
  qed
  moreover have "page_bytes dvd length ?C" using padded(1) C(1) by simp
  moreover have "length ?C \<le> file_room sizes ?sp" using room by simp
  ultimately show ?thesis by (intro exI[of _ ?pl] exI[of _ ?C] conjI allI impI)
qed

text \<open>The sizes that the integers of the file and the limit of pages allow.\<close>

definition search_page_limit :: "nat \<Rightarrow> int \<Rightarrow> int \<Rightarrow> int \<Rightarrow> int" where
  "search_page_limit vt m_searchPostingPageLimit m_postingVectorLimit m_dim =
     max m_searchPostingPageLimit ((m_postingVectorLimit * (m_dim * int vt + 4) + int page_bytes - 1) div int page_bytes)"

definition file_ok :: "nat \<Rightarrow> int \<Rightarrow> nat list \<Rightarrow> vector_set \<Rightarrow> bool" where
  "file_ok vt limit sizes vs \<longleftrightarrow>
     0 \<le> vs_count vs \<and> 0 \<le> vs_dimension vs \<and> vs_dimension vs < 2 ^ 31 \<and> vs_perVectorDataSize vs = nat (vs_dimension vs) * vt \<and>
     file_room sizes (vs_perVectorDataSize vs + 4) < 2 ^ 31 * page_bytes \<and> length sizes < 2 ^ 31 \<and> limit < 2 ^ 15 \<and>
     (\<forall>n \<in> set sizes. n < 2 ^ 31 \<and> int (n * (vs_perVectorDataSize vs + 4)) \<le> limit * int page_bytes)"

definition info_of :: "nat list \<Rightarrow> nat \<Rightarrow> (nat \<times> nat) option list \<Rightarrow> nat \<Rightarrow> ListInfo" where
  "info_of sizes space places i = (case place_of sizes places i of (pg, off) \<Rightarrow> list_info space (table_page sizes) pg off (sizes ! i))"

lemma table_page_bound: "file_room sizes space < 2 ^ 31 * page_bytes \<Longrightarrow> table_page sizes < 2 ^ 31"
proof -
  assume r: "file_room sizes space < 2 ^ 31 * page_bytes"
  have "table_page sizes * page_bytes \<le> file_room sizes space"
    unfolding table_page_bytes using padded(2)[of "header_size (length sizes)"] by (simp add: file_room_def add_mult_distrib)
  then have "table_page sizes * page_bytes < 2 ^ 31 * page_bytes" using r by (rule order.strict_trans1)
  then show ?thesis by (simp only: mult_less_cancel2)
qed

lemma pages_enough: "b \<le> (b div page_bytes + (if b mod page_bytes \<noteq> 0 then 1 else 0)) * page_bytes"
proof (cases "b mod page_bytes = 0")
  case True
  then show ?thesis using div_mult_mod_eq[of b page_bytes] by simp
next
  case False
  then show ?thesis using div_mult_mod_eq[of b page_bytes] mod_less_divisor[OF page_bytes_pos, of b]
    by (simp only: if_True not_False_eq_True add_mult_distrib)
qed

lemma load_entry:
  assumes "file_ok vt limit sizes vs" "i < length sizes" "holds rearrange sel vs sizes places C i"
    "length C \<le> file_room sizes (vs_perVectorDataSize vs + 4)"
  defines "space \<equiv> vs_perVectorDataSize vs + 4"
  shows "load_list (int space) (int (table_page sizes)) limit (concat (entry_bytes sizes space places i) @ is) = Some (info_of sizes space places i, is)"
proof -
  obtain pg off where po: "place_of sizes places i = (pg, off)" by (cases "place_of sizes places i")
  let ?b = "sizes ! i * space" and ?pc = "sizes ! i * space div page_bytes + (if sizes ! i * space mod page_bytes \<noteq> 0 then 1 else 0)"
  have h: "off < page_bytes" "pg * page_bytes + off + ?b \<le> length C"
    using assms(3) po by (auto simp: holds_def seg_read_def space_def split: if_splits)
  have r: "file_room sizes space < 2 ^ 31 * page_bytes" using assms(1) unfolding file_ok_def space_def by blast
  have n: "sizes ! i < 2 ^ 31" "int ?b \<le> limit * int page_bytes" "limit < 2 ^ 15"
    using assms(1) nth_mem[OF assms(2)] unfolding file_ok_def space_def by blast+
  have "pg * page_bytes < 2 ^ 31 * page_bytes" using h(2) assms(4) r unfolding space_def by linarith
  then have pg: "pg < 2 ^ 31" by (simp only: mult_less_cancel2)
  have "int ?b \<le> int (2 ^ 15 * page_bytes)" using n(2) mult_right_mono[of limit "2 ^ 15" "int page_bytes"] n(3) by simp
  then have "?b \<le> 2 ^ 15 * page_bytes" by (simp only: of_nat_le_iff)
  then have "?b div page_bytes \<le> 2 ^ 15" using div_le_mono[of ?b "2 ^ 15 * page_bytes" page_bytes] page_bytes_pos by simp
  then have pc: "?pc < 2 ^ 16" by simp
  have sp: "0 < space" by (simp add: space_def)
  show ?thesis unfolding entry_bytes_def info_of_def po prod.case
    by (rule load_list_ok[OF pg h(1) n(1) pc sp table_page_bound[OF r] pages_enough n(2,3)])
qed

lemma LoadIndex_ok:
  assumes "file_ok vt limit sizes vs" "vectors_ok vs" "\<forall>i < length sizes. holds rearrange sel vs sizes places C i"
    "length C \<le> file_room sizes (vs_perVectorDataSize vs + 4)" "limit = search_page_limit vt spl pvl mdim"
  defines "space \<equiv> vs_perVectorDataSize vs + 4"
  assumes f: "f = head_bytes sizes vs @ table_bytes sizes space places @ remd"
  shows "LoadIndex vt spl pvl mdim rearrange [f] = Some \<lparr>s_vectorInfoSize = int space, s_iDataDimension = vs_dimension vs,
    s_listInfos = map (info_of sizes space places) [0 ..< length sizes], s_indexFiles = [f], s_totalListCount = int (length sizes),
    s_oneContext = True, s_listPerFile = int (length sizes), s_rearrange = rearrange\<rparr>"
proof -
  have "\<forall>i \<in> set [0 ..< length sizes]. \<forall>r. load_list (int space) (int (table_page sizes)) limit (concat (entry_bytes sizes space places i) @ r) =
      Some (info_of sizes space places i, r)"
    using load_entry[OF assms(1) _ _ assms(4)] assms(3) by (auto simp: space_def)
  from load_lists_ok[OF this] have ll: "load_lists (int space) (int (table_page sizes)) limit (length sizes) (table_bytes sizes space places @ remd) =
      Some (map (info_of sizes space places) [0 ..< length sizes], remd)"
    by (simp add: table_bytes_def)
  have b: "length sizes < 2 ^ 31" "0 \<le> vs_count vs" "vs_count vs < 2 ^ 31" "0 \<le> vs_dimension vs" "vs_dimension vs < 2 ^ 31" "table_page sizes < 2 ^ 31"
    using assms(1,2) table_page_bound[of sizes space] by (auto simp: file_ok_def vectors_ok_def space_def)
  have rd: "ReadInt (int_encode 4 (int (length sizes)) @ xs) = Some (int (length sizes), xs)" "ReadInt (int_encode 4 (vs_count vs) @ xs) = Some (vs_count vs, xs)"
    "ReadInt (int_encode 4 (vs_dimension vs) @ xs) = Some (vs_dimension vs, xs)"
    "ReadInt (int_encode 4 (int (table_page sizes)) @ xs) = Some (int (table_page sizes), xs)" for xs
    by (rule ReadInt_append; use b in simp)+
  have vis: "vs_dimension vs * int vt + 4 = int space" using assms(1) by (simp add: file_ok_def space_def)
  show ?thesis unfolding LoadIndex_def Let_def search_page_limit_def[symmetric] assms(5)[symmetric]
    by (simp add: LoadingHeadInfo_def f head_bytes_def rd vis ll)
qed

lemma read_pages_ok:
  assumes "holds rearrange sel vs sizes places C i" "page_bytes dvd length C" "i < length sizes"
  defines "space \<equiv> vs_perVectorDataSize vs + 4"
  assumes "s_listInfos s ! i = info_of sizes space places i" "i < length (s_listInfos s)" "s_oneContext s"
    "s_indexFiles s = [H @ C]" "length H = table_page sizes * page_bytes"
  shows "\<exists>buffer r. read_pages s i = Some buffer \<and>
    drop (pageOffset (s_listInfos s ! i)) buffer = posting_bytes rearrange vs (assigned sel (int i) (sizes ! i)) @ r \<and>
    seg_read buffer (pageOffset (s_listInfos s ! i)) (sizes ! i * space) = Some (posting_bytes rearrange vs (assigned sel (int i) (sizes ! i)))"
proof -
  obtain pg off where po: "place_of sizes places i = (pg, off)" by (cases "place_of sizes places i")
  let ?sz = "sizes ! i * space" and ?d = "posting_bytes rearrange vs (assigned sel (int i) (sizes ! i))"
  let ?n = "(?sz + off + (page_bytes - 1)) div page_bytes"
  have h: "off < page_bytes" "seg_read C (pg * page_bytes + off) ?sz = Some ?d"
    using assms(1) po by (simp_all add: holds_def space_def)
  have le: "pg * page_bytes + off + ?sz \<le> length C" using h(2) by (auto simp: seg_read_def split: if_splits)
  obtain k where k: "length C = k * page_bytes" using assms(2) by (metis dvdE mult.commute)
  have "?sz + off + (page_bytes - 1) < (k - pg + 1) * page_bytes"
  proof -
    have "pg * page_bytes \<le> k * page_bytes" using le k by linarith
    then have "(k - pg) * page_bytes + pg * page_bytes = k * page_bytes" by (simp add: diff_mult_distrib)
    then have "?sz + off \<le> (k - pg) * page_bytes" using le k by linarith
    then show ?thesis using page_bytes_pos by (simp add: add_mult_distrib)
  qed
  then have "?n < k - pg + 1" by (rule less_mult_imp_div_less)
  then have "(pg + ?n) * page_bytes \<le> k * page_bytes \<or> ?n = 0" by (intro disjCI mult_le_mono1) simp
  moreover have "pg * page_bytes \<le> length C" using le by simp
  ultimately have "pg * page_bytes + ?n * page_bytes \<le> length C" using k by (auto simp: add_mult_distrib)
  then obtain buffer where b: "seg_read C (pg * page_bytes) (?n * page_bytes) = Some buffer" by (auto simp: seg_read_def)
  have "s_listInfos s ! i = list_info space (table_page sizes) pg off (sizes ! i)" using assms(5) po by (simp add: info_of_def)
  then have l: "listOffset (s_listInfos s ! i) = table_page sizes * page_bytes + pg * page_bytes" "listPageCount (s_listInfos s ! i) = ?n"
    "pageOffset (s_listInfos s ! i) = off" by (simp_all add: list_info_def add_mult_distrib)
  have "read_pages s i = Some buffer"
    using assms(6-9) b seg_read_shift[OF assms(9), of C "pg * page_bytes" "?n * page_bytes"] by (simp add: read_pages_def Let_def l)
  moreover have "off + ?sz \<le> ?n * page_bytes"
  proof -
    have "?n * page_bytes + (?sz + off + (page_bytes - 1)) mod page_bytes = ?sz + off + (page_bytes - 1)" by (rule div_mult_mod_eq)
    moreover have "(?sz + off + (page_bytes - 1)) mod page_bytes \<le> page_bytes - 1" using mod_less_divisor[OF page_bytes_pos] by (simp add: Suc_leI less_Suc_eq_le Suc_diff_1 page_bytes_def)
    ultimately show ?thesis by linarith
  qed
  from seg_read_seg_read[OF b this] have "seg_read buffer off ?sz = Some ?d" using h(2) by simp
  moreover from this have "drop off buffer = ?d @ drop ?sz (drop off buffer)"
    using append_take_drop_id[of ?sz "drop off buffer"] by (auto simp: seg_read_def split: if_splits)
  ultimately show ?thesis unfolding l(3) by blast
qed

text \<open>One searcher serves every posting.\<close>

lemma static_index_reads:
  assumes "assignment_ok sel vs sizes" "vectors_ok vs"
    "file_ok vt (search_page_limit vt m_searchPostingPageLimit m_postingVectorLimit m_dim) sizes vs"
    "file_room sizes (vs_perVectorDataSize vs + 4) \<le> os_room os" "os_written os = []"
  shows "\<exists>os' s. build_file rearrange sizes sel vs os = Some os' \<and>
    LoadIndex vt m_searchPostingPageLimit m_postingVectorLimit m_dim rearrange [os_written os'] = Some s \<and>
    (\<forall>i < length sizes. listEleCount (s_listInfos s ! i) = int (sizes ! i) \<and>
      GetWritePosting s i False = Some (posting_bytes rearrange vs (assigned sel (int i) (sizes ! i))) \<and>
      GetPostingDebug vt s i = Some (map (\<lambda>v. (v, vector_of vs v)) (assigned sel (int i) (sizes ! i))))"
proof -
  let ?sp = "vs_perVectorDataSize vs + 4"
  obtain places C where w: "build_file rearrange sizes sel vs os = Some (append_os os
      (head_bytes sizes vs @ table_bytes sizes ?sp places @ zeros (padding_size (header_size (length sizes))) @ C))"
    "page_bytes dvd length C" "length C \<le> file_room sizes ?sp" "\<forall>i < length sizes. holds rearrange sel vs sizes places C i"
    using build_file_writes[OF assms(1,2,4,5)] by blast
  let ?H = "head_bytes sizes vs @ table_bytes sizes ?sp places @ zeros (padding_size (header_size (length sizes)))"
  let ?s = "\<lparr>s_vectorInfoSize = int ?sp, s_iDataDimension = vs_dimension vs,
    s_listInfos = map (info_of sizes ?sp places) [0 ..< length sizes], s_indexFiles = [?H @ C], s_totalListCount = int (length sizes),
    s_oneContext = True, s_listPerFile = int (length sizes), s_rearrange = rearrange\<rparr>"
  have load: "LoadIndex vt m_searchPostingPageLimit m_postingVectorLimit m_dim rearrange [?H @ C] = Some ?s"
    by (rule LoadIndex_ok[OF assms(3,2) w(4,3) refl]) simp
  have H: "length ?H = table_page sizes * page_bytes"
    unfolding table_page_bytes by (simp add: length_head_bytes length_table_bytes header_size_def)
  have "listEleCount (s_listInfos ?s ! i) = int (sizes ! i) \<and>
      GetWritePosting ?s i False = Some (posting_bytes rearrange vs (assigned sel (int i) (sizes ! i))) \<and>
      GetPostingDebug vt ?s i = Some (map (\<lambda>v. (v, vector_of vs v)) (assigned sel (int i) (sizes ! i)))" if i: "i < length sizes" for i
  proof -
    let ?ids = "assigned sel (int i) (sizes ! i)"
    have li: "s_listInfos ?s ! i = info_of sizes ?sp places i" "i < length (s_listInfos ?s)" using i by simp_all
    obtain buffer r where b: "read_pages ?s i = Some buffer"
      "drop (pageOffset (s_listInfos ?s ! i)) buffer = posting_bytes rearrange vs ?ids @ r"
      "seg_read buffer (pageOffset (s_listInfos ?s ! i)) (sizes ! i * ?sp) = Some (posting_bytes rearrange vs ?ids)"
      using read_pages_ok[of rearrange sel vs sizes places C i ?s ?H] w(2,4) i li H by auto
    have n: "listEleCount (s_listInfos ?s ! i) = int (sizes ! i)" unfolding li(1) by (simp add: info_of_def list_info_def split: prod.split)
    have "GetWritePosting ?s i False = Some (posting_bytes rearrange vs ?ids)"
      using b(3) unfolding GetWritePosting_def b(1) Let_def n by (simp add: nat_mult_distrib del: of_nat_add)
    moreover have "GetPostingDebug vt ?s i = Some (map (\<lambda>v. (v, vector_of vs v)) ?ids)"
    proof -
      have l: "length ?ids = sizes ! i" by (rule assigned_ok(1)[OF assms(1) i])
      have "nat (s_iDataDimension ?s * int vt) = vs_perVectorDataSize vs" using assms(3) by (simp add: file_ok_def nat_mult_distrib)
      then have "\<forall>j \<in> set [0 ..< sizes ! i]. parse_element vt ?s (posting_bytes rearrange vs ?ids @ r) (int (sizes ! i)) j = Some (?ids ! j, vector_of vs (?ids ! j))"
        using parse_element_ok[OF assigned_ok(2)[OF assms(1) i] assms(2), of _ ?s vt r] l by simp
      note parsed = parse_elements_ok[OF this]
      have "map (\<lambda>j. (?ids ! j, vector_of vs (?ids ! j))) [0 ..< sizes ! i] = map (\<lambda>v. (v, vector_of vs v)) ?ids"
        by (rule nth_equalityI) (simp_all add: l)
      then show ?thesis by (simp only: GetPostingDebug_def b(1,2) Let_def Option.bind.simps n nat_int parsed)
    qed
    ultimately show ?thesis using n by blast
  qed
  then show ?thesis using w(1) load assms(5)
    by (intro exI[of _ "append_os os (?H @ C)"] exI[of _ ?s]) simp
qed



end
