(* ===== verification/Static_Search.thy ===== *)
theory Static_Search
  imports Static_Index Result_Set Visited_Set
begin

text \<open>
  The search over the postings of the static searcher (\<^verbatim>\<open>ExtraStaticSearcher::SearchIndex\<close> with its macro
  \<^verbatim>\<open>ProcessPosting\<close>, in \<^verbatim>\<open>inc/Core/SPANN/ExtraStaticSearcher.h\<close>): the postings that the head index has chosen are read one after the other,
  vectors seen before are dropped, and the others are offered to the result set at their distance.

  The reads are synchronous; \<open>dst\<close> is the distance of the query to the bytes of a vector. \<^const>\<open>None\<close> is the exception of a
  short read, an access outside a buffer, or the hash set of seen vectors running out of fuel.
\<close>

subsection \<open>The search\<close>

record ExtraWorkSpace =
  m_postingIDs :: "nat list"
  m_deduper :: OptHashPosVector

record SearchStats =
  m_totalListElementsCount :: int
  m_diskIOCount :: int
  m_diskAccessCount :: int

text \<open>The state of a search: the workspace's set of seen vectors, the results, and the count of the elements.\<close>

record posting_scan =
  sc_deduper :: OptHashPosVector
  sc_results :: QueryResult
  sc_listElements :: int

text \<open>One element of a posting, its number and its vector at hand.\<close>

definition scan_element :: "nat \<Rightarrow> (bytes \<Rightarrow> dist) \<Rightarrow> int \<times> bytes \<Rightarrow> posting_scan \<Rightarrow> posting_scan option" where
  "scan_element fuel dst x sc =
     (case x of (vectorID, vec) \<Rightarrow>
      do {
        (seen, ded) \<leftarrow> oh_CheckAndSet fuel vectorID (sc_deduper sc);
        Some (if seen then sc\<lparr>sc_deduper := ded, sc_listElements := sc_listElements sc - 1\<rparr>
              else sc\<lparr>sc_deduper := ded, sc_results := snd (qrs_AddPoint vectorID (dst vec) (sc_results sc))\<rparr>)
      })"

fun ProcessPosting :: "nat \<Rightarrow> (bytes \<Rightarrow> dist) \<Rightarrow> nat \<Rightarrow> searcher \<Rightarrow> bytes \<Rightarrow> int \<Rightarrow> nat list \<Rightarrow> posting_scan \<Rightarrow> posting_scan option" where
  "ProcessPosting fuel dst vt s data n [] sc = Some sc"
| "ProcessPosting fuel dst vt s data n (i # is) sc =
     do {
       x \<leftarrow> parse_element vt s data n i;
       sc \<leftarrow> scan_element fuel dst x sc;
       ProcessPosting fuel dst vt s data n is sc
     }"

fun search_postings ::
  "nat \<Rightarrow> (bytes \<Rightarrow> dist) \<Rightarrow> nat \<Rightarrow> searcher \<Rightarrow> nat list \<Rightarrow> SearchStats \<times> posting_scan \<Rightarrow> (SearchStats \<times> posting_scan) option" where
  "search_postings fuel dst vt s [] st = Some st"
| "search_postings fuel dst vt s (curPostingID # pis) (stats, sc) =
     do {
       buffer \<leftarrow> read_pages s curPostingID;
       let l = s_listInfos s ! curPostingID;
           stats = stats\<lparr>m_diskAccessCount := m_diskAccessCount stats + int (listPageCount l),
                         m_diskIOCount := m_diskIOCount stats + 1\<rparr>;
           sc = sc\<lparr>sc_listElements := sc_listElements sc + listEleCount l\<rparr>
       in do {
         sc \<leftarrow> ProcessPosting fuel dst vt s (drop (pageOffset l) buffer) (listEleCount l) [0 ..< nat (listEleCount l)] sc;
         search_postings fuel dst vt s pis (stats, sc)
       }
     }"

text \<open>\<^verbatim>\<open>SearchIndex\<close>.\<close>

definition SearchPostings ::
  "nat \<Rightarrow> (bytes \<Rightarrow> dist) \<Rightarrow> nat \<Rightarrow> searcher \<Rightarrow> ExtraWorkSpace \<Rightarrow> QueryResult \<Rightarrow> (ExtraWorkSpace \<times> QueryResult \<times> SearchStats) option" where
  "SearchPostings fuel dst vt s ws q =
     do {
       (stats, sc) \<leftarrow> search_postings fuel dst vt s (m_postingIDs ws)
          (\<lparr>m_totalListElementsCount = 0, m_diskIOCount = 0, m_diskAccessCount = 0\<rparr>,
           \<lparr>sc_deduper = m_deduper ws, sc_results = q, sc_listElements = 0\<rparr>);
       Some (ws\<lparr>m_deduper := sc_deduper sc\<rparr>, (sc_results sc)\<lparr>m_scanned := sc_listElements sc\<rparr>,
             stats\<lparr>m_totalListElementsCount := sc_listElements sc\<rparr>)
     }"

subsection \<open>Elements that come for the first time\<close>

fun scan_all :: "nat \<Rightarrow> (bytes \<Rightarrow> dist) \<Rightarrow> (int \<times> bytes) list \<Rightarrow> posting_scan \<Rightarrow> posting_scan option" where
  "scan_all fuel dst [] sc = Some sc"
| "scan_all fuel dst (x # xs) sc = do { sc \<leftarrow> scan_element fuel dst x sc; scan_all fuel dst xs sc }"

fun unseen :: "int set \<Rightarrow> (int \<times> 'a) list \<Rightarrow> (int \<times> 'a) list" where
  "unseen V [] = []"
| "unseen V (x # xs) = (if fst x \<in> V then unseen V xs else x # unseen (insert (fst x) V) xs)"

lemma set_unseen: "fst ` set (unseen V xs) = fst ` set xs - V"
  by (induction V xs rule: unseen.induct) auto

lemma distinct_unseen: "distinct (map fst (unseen V xs)) \<and> fst ` set (unseen V xs) \<inter> V = {}"
  by (induction V xs rule: unseen.induct) auto

lemma unseen_sub: "set (unseen V xs) \<subseteq> set xs"
  by (induction V xs rule: unseen.induct) auto

lemma scan_all_append: "scan_all fuel dst (xs @ ys) sc = do { sc \<leftarrow> scan_all fuel dst xs sc; scan_all fuel dst ys sc }"
  by (induction xs arbitrary: sc) (auto split: Option.bind_splits)

text \<open>Elements that can be parsed are scanned.\<close>

lemma ProcessPosting_parsed:
  "parse_elements vt s data n is = Some xs \<Longrightarrow> ProcessPosting fuel dst vt s data n is sc = scan_all fuel dst xs sc"
  by (induction "is" arbitrary: xs sc) (auto split: Option.bind_splits)

lemma scan_all_counts:
  "scan_all fuel dst xs (sc\<lparr>sc_listElements := n\<rparr>) =
     map_option (\<lambda>sc'. sc'\<lparr>sc_listElements := sc_listElements sc' + (n - sc_listElements sc)\<rparr>) (scan_all fuel dst xs sc)"
proof (induction xs arbitrary: sc n)
  case (Cons x xs)
  obtain v w where x: "x = (v, w)" by force
  show ?case
  proof (cases "oh_CheckAndSet fuel v (sc_deduper sc)")
    case (Some r)
    obtain seen ded where r: "r = (seen, ded)" by force
    let ?sc = "if seen then sc\<lparr>sc_deduper := ded, sc_listElements := sc_listElements sc - 1\<rparr>
              else sc\<lparr>sc_deduper := ded, sc_results := snd (qrs_AddPoint v (dst w) (sc_results sc))\<rparr>"
    let ?n = "if seen then n - 1 else n"
    have "scan_element fuel dst x (sc\<lparr>sc_listElements := n\<rparr>) = Some (?sc\<lparr>sc_listElements := ?n\<rparr>)"
      "scan_element fuel dst x sc = Some ?sc" using Some r x by (simp_all add: scan_element_def)
    moreover have "?n - sc_listElements ?sc = n - sc_listElements sc" by simp
    ultimately show ?thesis using Cons.IH[of ?n ?sc] by simp
  qed (simp add: scan_element_def x)
qed simp

lemma scan_all_spec:
  assumes "oh_inv (sc_deduper sc)" "\<forall>x \<in> set xs. fst x \<noteq> -1" "visit_all fuel (map fst xs) (sc_deduper sc) \<noteq> None"
  defines "new \<equiv> unseen (visited (sc_deduper sc)) xs"
  shows "\<exists>ded. scan_all fuel dst xs sc = Some \<lparr>sc_deduper = ded, sc_results = qrs_AddPoints (map (\<lambda>(v, w). (v, dst w)) new) (sc_results sc),
      sc_listElements = sc_listElements sc + int (length new) - int (length xs)\<rparr>"
  using assms(1-3) unfolding new_def
proof (induction xs arbitrary: sc)
  case Nil
  then show ?case by (cases sc) (simp add: qrs_AddPoints_def)
next
  case (Cons x xs)
  obtain v w where x: "x = (v, w)" by force
  obtain seen ded where c: "oh_CheckAndSet fuel v (sc_deduper sc) = Some (seen, ded)"
    using Cons.prems(3) x by (cases "oh_CheckAndSet fuel v (sc_deduper sc)") auto
  note d = oh_CheckAndSet_spec[OF Cons.prems(1) _ c]
  have v: "v \<noteq> -1" using Cons.prems(2) x by simp
  have rest: "visit_all fuel (map fst xs) ded \<noteq> None" "\<forall>x \<in> set xs. fst x \<noteq> -1" using Cons.prems(2,3) c x by simp_all
  show ?case
  proof (cases seen)
    case True
    let ?sc = "sc\<lparr>sc_deduper := ded, sc_listElements := sc_listElements sc - 1\<rparr>"
    have "visited ded = visited (sc_deduper sc)" "v \<in> visited (sc_deduper sc)" using d[OF v] True by auto
    then show ?thesis using Cons.IH[of ?sc] rest d[OF v] c True x by (auto simp: scan_element_def)
  next
    case False
    let ?sc = "sc\<lparr>sc_deduper := ded, sc_results := snd (qrs_AddPoint v (dst w) (sc_results sc))\<rparr>"
    have "visited ded = insert v (visited (sc_deduper sc))" "v \<notin> visited (sc_deduper sc)" using d[OF v] False by auto
    then show ?thesis using Cons.IH[of ?sc] rest d[OF v] c False x by (auto simp: scan_element_def qrs_AddPoints_def)
  qed
qed

lemma search_postings_scan:
  assumes "\<forall>pid \<in> set pids. GetPostingDebug vt s pid = Some (el pid) \<and> listEleCount (s_listInfos s ! pid) = int (length (el pid))"
  shows "search_postings fuel dst vt s pids (stats, sc) =
    map_option (\<lambda>sc'. (stats\<lparr>m_diskIOCount := m_diskIOCount stats + int (length pids),
        m_diskAccessCount := m_diskAccessCount stats + (\<Sum>pid \<leftarrow> pids. int (listPageCount (s_listInfos s ! pid)))\<rparr>,
      sc'\<lparr>sc_listElements := sc_listElements sc' + int (length (concat (map el pids)))\<rparr>)) (scan_all fuel dst (concat (map el pids)) sc)"
  using assms
proof (induction pids arbitrary: stats sc)
  case (Cons pid pids)
  let ?l = "s_listInfos s ! pid"
  obtain buffer where b: "read_pages s pid = Some buffer"
    "parse_elements vt s (drop (pageOffset ?l) buffer) (listEleCount ?l) [0 ..< nat (listEleCount ?l)] = Some (el pid)"
    using Cons.prems by (auto simp: GetPostingDebug_def Let_def split: Option.bind_splits)
  note p = ProcessPosting_parsed[OF b(2)]
  have n: "listEleCount ?l = int (length (el pid))" using Cons.prems by simp
  show ?case
  proof (cases "scan_all fuel dst (el pid) sc")
    case None
    then show ?thesis using b(1) p scan_all_counts[of fuel dst "el pid" _ sc] by (simp add: Let_def scan_all_append)
  next
    case (Some sc1)
    let ?sc1 = "sc1\<lparr>sc_listElements := sc_listElements sc1 + int (length (el pid))\<rparr>"
    let ?st = "stats\<lparr>m_diskAccessCount := m_diskAccessCount stats + int (listPageCount ?l), m_diskIOCount := m_diskIOCount stats + 1\<rparr>"
    have "search_postings fuel dst vt s (pid # pids) (stats, sc) = search_postings fuel dst vt s pids (?st, ?sc1)"
      using b(1) p scan_all_counts[of fuel dst "el pid" "sc_listElements sc + listEleCount ?l" sc] Some n by (simp add: Let_def)
    also have "\<dots> = map_option (\<lambda>sc'. (?st\<lparr>m_diskIOCount := m_diskIOCount ?st + int (length pids),
        m_diskAccessCount := m_diskAccessCount ?st + (\<Sum>pid \<leftarrow> pids. int (listPageCount (s_listInfos s ! pid)))\<rparr>,
      sc'\<lparr>sc_listElements := sc_listElements sc' + int (length (concat (map el pids)))\<rparr>)) (scan_all fuel dst (concat (map el pids)) ?sc1)"
      using Cons.prems by (intro Cons.IH) simp
    finally have e: "search_postings fuel dst vt s (pid # pids) (stats, sc) = map_option (\<lambda>sc'. (?st\<lparr>m_diskIOCount := m_diskIOCount ?st + int (length pids),
        m_diskAccessCount := m_diskAccessCount ?st + (\<Sum>pid \<leftarrow> pids. int (listPageCount (s_listInfos s ! pid)))\<rparr>,
      sc'\<lparr>sc_listElements := sc_listElements sc' + int (length (concat (map el pids)))\<rparr>)) (scan_all fuel dst (concat (map el pids)) ?sc1)" .
    have c: "scan_all fuel dst (concat (map el pids)) ?sc1 = map_option (\<lambda>sc'. sc'\<lparr>sc_listElements := sc_listElements sc' + int (length (el pid))\<rparr>)
        (scan_all fuel dst (concat (map el pids)) sc1)"
      using scan_all_counts[of fuel dst "concat (map el pids)" "sc_listElements ?sc1" sc1] by simp
    have a: "scan_all fuel dst (concat (map el (pid # pids))) sc = scan_all fuel dst (concat (map el pids)) sc1"
      using Some by (simp add: scan_all_append)
    show ?thesis unfolding e c a by (cases "scan_all fuel dst (concat (map el pids)) sc1") simp_all
  qed
qed simp

subsection \<open>Properties\<close>

text \<open>The vectors in the postings that are searched, in the order of the scan.\<close>

definition candidates :: "Selection \<Rightarrow> nat list \<Rightarrow> nat list \<Rightarrow> int list" where
  "candidates sel sizes pids = concat (map (\<lambda>pid. assigned sel (int pid) (sizes ! pid)) pids)"

lemma candidates_nonneg:
  "assignment_ok sel vs sizes \<Longrightarrow> \<forall>pid \<in> set pids. pid < length sizes \<Longrightarrow> v \<in> set (candidates sel sizes pids) \<Longrightarrow> 0 \<le> v"
  using assigned_ok(2)[of sel vs sizes] by (fastforce simp: candidates_def has_vector_def)

lemma unseen_candidates:
  fixes ids :: "int list" and f :: "int \<Rightarrow> bytes" and g :: "bytes \<Rightarrow> dist"
  defines "new \<equiv> unseen {} (map (\<lambda>v. (v, f v)) ids)"
  shows "mset (map prod.swap (map (\<lambda>(v, w). (v, g w)) new)) = mset (map (\<lambda>v. (g (f v), v)) (remdups ids))"
    "length new = card (set ids)"
proof -
  have d: "distinct (map fst new)" "set (map fst new) = set ids"
    using distinct_unseen[of "{}" "map (\<lambda>v. (v, f v)) ids"] set_unseen[of "{}" "map (\<lambda>v. (v, f v)) ids"] by (simp_all add: new_def image_image)
  have "\<forall>x \<in> set new. snd x = f (fst x)" using unseen_sub[of "{}" "map (\<lambda>v. (v, f v)) ids"] by (auto simp: new_def)
  then have "map prod.swap (map (\<lambda>(v, w). (v, g w)) new) = map (\<lambda>v. (g (f v), v)) (map fst new)" by (auto simp: case_prod_unfold)
  moreover have "mset (map fst new) = mset (remdups ids)" using d set_eq_iff_mset_eq_distinct[OF d(1) distinct_remdups[of ids]] by simp
  ultimately show "mset (map prod.swap (map (\<lambda>(v, w). (v, g w)) new)) = mset (map (\<lambda>v. (g (f v), v)) (remdups ids))" by (simp only: mset_map)
  show "length new = card (set ids)" using distinct_card[OF d(1)] d(2) by simp
qed

text \<open>
  C2. The static index of SPANN, from its construction to an answer. A file that \<^verbatim>\<open>BuildIndex\<close> writes from an assignment of vectors
  to postings and \<^verbatim>\<open>LoadIndex\<close> loads is searched by \<^verbatim>\<open>SearchIndex\<close> for any list of postings: it reads each of them once, and after \<^verbatim>\<open>SortResult\<close>
  the results are the best \<open>k\<close> of all the vectors assigned to these postings, each at its distance and counted once
  however many of the postings hold it; the count of scanned elements is the number of these vectors. The hash set of
  seen vectors is empty at the start and does not run out of fuel.
\<close>

theorem static_search_best:
  assumes "assignment_ok sel vs sizes" "vectors_ok vs"
    "file_ok vt (search_page_limit vt m_searchPostingPageLimit m_postingVectorLimit m_dim) sizes vs"
    "file_room sizes (vs_perVectorDataSize vs + 4) \<le> os_room os" "os_written os = []"
    "\<forall>pid \<in> set pids. pid < length sizes" "0 < k" "oh_inv ded" "visited ded = {}" "visit_all fuel (candidates sel sizes pids) ded \<noteq> None"
  shows "\<exists>os' s ws q stats. build_file rearrange sizes sel vs os = Some os' \<and>
    LoadIndex vt m_searchPostingPageLimit m_postingVectorLimit m_dim rearrange [os_written os'] = Some s \<and>
    SearchPostings fuel dst vt s \<lparr>m_postingIDs = pids, m_deduper = ded\<rparr> (qr_Init k w) = Some (ws, q, stats) \<and>
    map br_key (m_results (qrs_SortResult q)) =
      best k (map (\<lambda>v. (dst (vector_of vs v), v)) (remdups (candidates sel sizes pids)) @ replicate k (MaxDist, -1)) \<and>
    m_scanned q = int (card (set (candidates sel sizes pids))) \<and> m_diskIOCount stats = int (length pids)"
proof -
  let ?ids = "candidates sel sizes pids"
  let ?el = "\<lambda>pid. map (\<lambda>v. (v, vector_of vs v)) (assigned sel (int pid) (sizes ! pid))"
  obtain os' s where s: "build_file rearrange sizes sel vs os = Some os'"
    "LoadIndex vt m_searchPostingPageLimit m_postingVectorLimit m_dim rearrange [os_written os'] = Some s"
    "\<forall>i < length sizes. listEleCount (s_listInfos s ! i) = int (sizes ! i) \<and> GetPostingDebug vt s i = Some (?el i)"
    using static_index_reads[OF assms(1-5)] by blast
  have el: "\<forall>pid \<in> set pids. GetPostingDebug vt s pid = Some (?el pid) \<and> listEleCount (s_listInfos s ! pid) = int (length (?el pid))"
    using s(3) assms(6) assigned_ok(1)[OF assms(1)] by simp
  have cc: "concat (map ?el pids) = map (\<lambda>v. (v, vector_of vs v)) ?ids" by (simp add: candidates_def map_concat comp_def)
  let ?sc = "\<lparr>sc_deduper = ded, sc_results = qr_Init k w, sc_listElements = 0\<rparr>"
  let ?new = "unseen {} (map (\<lambda>v. (v, vector_of vs v)) ?ids)"
  have ne: "\<forall>x \<in> set (map (\<lambda>v. (v, vector_of vs v)) ?ids). fst x \<noteq> -1"
    using candidates_nonneg[OF assms(1,6)] by force
  have "map fst (map (\<lambda>v. (v, vector_of vs v)) ?ids) = ?ids" by (simp add: comp_def)
  then obtain ded' where sc: "scan_all fuel dst (concat (map ?el pids)) ?sc =
      Some \<lparr>sc_deduper = ded', sc_results = qrs_AddPoints (map (\<lambda>(v, w). (v, dst w)) ?new) (qr_Init k w),
        sc_listElements = int (length ?new) - int (length ?ids)\<rparr>"
    using scan_all_spec[of ?sc "map (\<lambda>v. (v, vector_of vs v)) ?ids" fuel dst, OF _ ne] assms(8-10) unfolding cc by auto
  let ?q = "qrs_AddPoints (map (\<lambda>(v, w). (v, dst w)) ?new) (qr_Init k w)"
  note u = unseen_candidates(1)[of dst "vector_of vs" ?ids] unseen_candidates(2)[of "vector_of vs" ?ids]
  have "\<exists>ws stats. SearchPostings fuel dst vt s \<lparr>m_postingIDs = pids, m_deduper = ded\<rparr> (qr_Init k w) =
      Some (ws, ?q\<lparr>m_scanned := int (card (set ?ids))\<rparr>, stats) \<and> m_diskIOCount stats = int (length pids)"
    unfolding SearchPostings_def using search_postings_scan[OF el, of fuel dst] sc cc u(2) by simp
  moreover have "best k (map prod.swap (map (\<lambda>(v, w). (v, dst w)) ?new) @ replicate k (MaxDist, -1)) =
      best k (map (\<lambda>v. (dst (vector_of vs v), v)) (remdups ?ids) @ replicate k (MaxDist, -1))"
    by (rule best_mset_cong) (simp only: mset_append u(1))
  then have "map br_key (m_results (qrs_SortResult (?q\<lparr>m_scanned := int (card (set ?ids))\<rparr>))) =
      best k (map (\<lambda>v. (dst (vector_of vs v), v)) (remdups ?ids) @ replicate k (MaxDist, -1))"
    using added_points_best(1)[OF assms(7), of "map (\<lambda>(v, w). (v, dst w)) ?new" w] by (simp add: qrs_SortResult_def)
  ultimately show ?thesis using s(1,2) by fastforce
qed

lemma static_search_best_witness:
  "\<exists>os' s ws q stats. build_file False [2, 1]
       \<lparr>m_start = 0, m_selections = [\<lparr>e_node = 0, e_distance = 1, e_tonode = 1\<rparr>, \<lparr>e_node = 0, e_distance = 2, e_tonode = 2\<rparr>,
          \<lparr>e_node = 1, e_distance = 1, e_tonode = 0\<rparr>]\<rparr>
       \<lparr>vs_data = [1, 2, 3, 4, 5, 6], vs_dimension = 2, vs_count = 3, vs_perVectorDataSize = 2\<rparr> \<lparr>os_written = [], os_room = 20000\<rparr> = Some os' \<and>
     LoadIndex 1 3 0 2 False [os_written os'] = Some s \<and>
     SearchPostings 1 (\<lambda>b. of_nat (unat (b ! 0))) 1 s \<lparr>m_postingIDs = [0, 1, 0], m_deduper = oh_Init (\<lambda>_. 0) 4 0\<rparr> (qr_Init 2 False) = Some (ws, q, stats) \<and>
     map br_key (m_results (qrs_SortResult q)) = [(1, 0), (3, 1)] \<and> m_scanned q = 3"
proof -
  let ?sel = "\<lparr>m_start = 0, m_selections = [\<lparr>e_node = 0, e_distance = 1, e_tonode = 1\<rparr>, \<lparr>e_node = 0, e_distance = 2, e_tonode = 2\<rparr>,
          \<lparr>e_node = 1, e_distance = 1, e_tonode = 0\<rparr>]\<rparr>"
  let ?vs = "\<lparr>vs_data = [1, 2, 3, 4, 5, 6], vs_dimension = 2, vs_count = 3, vs_perVectorDataSize = 2\<rparr>"
  let ?dst = "\<lambda>b. of_nat (unat (b ! 0))" and ?ded = "oh_Init (\<lambda>_. 0) 4 0"
  have a: "assignment_ok ?sel ?vs [2, 1]" "vectors_ok ?vs" by (simp_all add: assignment_ok_def vectors_ok_def has_vector_def nth_Cons')
  have f: "file_ok 1 (search_page_limit 1 3 0 2) [2, 1] ?vs" "file_room [2, 1] (vs_perVectorDataSize ?vs + 4) \<le> 20000"
    by (simp_all add: file_ok_def search_page_limit_def file_room_def header_size_def page_bytes_def)
  have c: "candidates ?sel [2, 1] [0, 1, 0] = [1, 2, 0, 1, 2]" by code_simp
  have v: "visit_all 1 [1, 2, 0, 1, 2] ?ded \<noteq> None" by code_simp
  have ded: "oh_inv ?ded" "visited ?ded = {}" using oh_Init_inv[of "\<lambda>_. 0" 4 0] by simp_all
  have b: "best 2 (map (\<lambda>v. (?dst (vector_of ?vs v), v)) (remdups [1, 2, 0, 1, 2]) @ replicate 2 (MaxDist, -1)) = [(1, 0), (3, 1)]" by code_simp
  have "card (set [1, 2, 0, 1, 2 :: int]) = 3" by code_simp
  then show ?thesis
    using static_search_best[of ?sel ?vs "[2, 1]" 1 3 0 2 "\<lparr>os_written = [], os_room = 20000\<rparr>" "[0, 1, 0]" 2 ?ded 1 False ?dst False]
      a f ded v unfolding c b by auto
qed

end
