(* ===== verification/Iterative_Search.thy ===== *)
theory Iterative_Search
  imports Static_Search
begin

text \<open>
  The iterative search of the static searcher (\<^verbatim>\<open>SearchIndexWithoutParsing\<close>, \<^verbatim>\<open>SearchNextInPosting\<close> and the macro
  \<^verbatim>\<open>ProcessPostingOffset\<close>, in \<^verbatim>\<open>inc/Core/SPANN/ExtraStaticSearcher.h\<close>): the postings are read once, and then every call gives one more result,
  a head vector or the next vector of a posting that was not seen before and passes the filter.

  A head is its number and distance; the filter of the caller, with the metadata of a vector, is a predicate on its number,
  \<^const>\<open>None\<close> when it is not set. An outer \<^const>\<open>None\<close> is a failed read, an access outside a buffer, the hash set running out of fuel,
  or a loop that does not end.
\<close>

subsection \<open>The search\<close>

text \<open>The pages of the postings with the entries of their lists, as the disk requests keep them.\<close>

fun SearchIndexWithoutParsing :: "searcher \<Rightarrow> nat list \<Rightarrow> (ListInfo \<times> bytes) list option" where
  "SearchIndexWithoutParsing s [] = Some []"
| "SearchIndexWithoutParsing s (curPostingID # pis) =
     do {
       buffer \<leftarrow> read_pages s curPostingID;
       bs \<leftarrow> SearchIndexWithoutParsing s pis;
       Some ((s_listInfos s ! curPostingID, buffer) # bs)
     }"

record cursor =
  m_ri :: nat
  m_pi :: nat
  m_offset :: nat
  cu_deduper :: OptHashPosVector
  cu_results :: QueryResult

definition passes :: "(int \<Rightarrow> bool) option \<Rightarrow> int \<Rightarrow> bool" where
  "passes filterFunc v = (case filterFunc of None \<Rightarrow> True | Some f \<Rightarrow> f v)"

text \<open>\<open>head && head->VID != -1\<close> and the filter.\<close>

definition head_ok :: "(int \<Rightarrow> bool) option \<Rightarrow> (int \<times> dist) list \<Rightarrow> nat \<Rightarrow> bool" where
  "head_ok filterFunc heads ri \<longleftrightarrow> ri < length heads \<and> fst (heads ! ri) \<noteq> -1 \<and> passes filterFunc (fst (heads ! ri))"

definition add_head :: "(int \<times> dist) list \<Rightarrow> cursor \<Rightarrow> cursor" where
  "add_head heads cu = (case heads ! m_ri cu of (v, d) \<Rightarrow>
     cu\<lparr>m_ri := m_ri cu + 1, cu_results := snd (qrs_AddPoint v d (cu_results cu))\<rparr>)"

text \<open>The loop over a posting from \<^verbatim>\<open>m_offset\<close> on: it stops after the first element that is new and passes.\<close>

fun process_elements ::
  "nat \<Rightarrow> (int \<Rightarrow> bool) option \<Rightarrow> (bytes \<Rightarrow> dist) \<Rightarrow> nat \<Rightarrow> searcher \<Rightarrow> bytes \<Rightarrow> int \<Rightarrow> nat list \<Rightarrow> cursor \<Rightarrow> (bool \<times> cursor) option" where
  "process_elements fuel flt dst vt s data n [] cu = Some (False, cu)"
| "process_elements fuel flt dst vt s data n (i # is) cu =
     do {
       (v, w) \<leftarrow> parse_element vt s data n i;
       (seen, ded) \<leftarrow> oh_CheckAndSet fuel v (cu_deduper cu);
       let cu = cu\<lparr>m_offset := i + 1, cu_deduper := ded\<rparr>;
       if seen \<or> \<not> passes flt v then process_elements fuel flt dst vt s data n is cu
       else Some (True, cu\<lparr>cu_results := snd (qrs_AddPoint v (dst w) (cu_results cu))\<rparr>)
     }"

definition ProcessPostingOffset ::
  "nat \<Rightarrow> (int \<Rightarrow> bool) option \<Rightarrow> (bytes \<Rightarrow> dist) \<Rightarrow> nat \<Rightarrow> searcher \<Rightarrow> ListInfo \<times> bytes \<Rightarrow> cursor \<Rightarrow> (bool \<times> cursor) option" where
  "ProcessPostingOffset fuel flt dst vt s post cu =
     (case post of (l, buffer) \<Rightarrow>
      do {
        (found, cu) \<leftarrow> process_elements fuel flt dst vt s (drop (pageOffset l) buffer) (listEleCount l)
                          [m_offset cu ..< nat (listEleCount l)] cu;
        Some (found, if int (m_offset cu) = listEleCount l then cu\<lparr>m_pi := m_pi cu + 1, m_offset := 0\<rparr> else cu)
      })"

text \<open>The \<^verbatim>\<open>while\<close> loop, over the postings from \<^verbatim>\<open>m_pi\<close> on. A round that finds nothing and stays at its posting is repeated for ever.\<close>

fun next_loop ::
  "nat \<Rightarrow> (int \<Rightarrow> bool) option \<Rightarrow> (bytes \<Rightarrow> dist) \<Rightarrow> nat \<Rightarrow> searcher \<Rightarrow> (int \<times> dist) list \<Rightarrow> (ListInfo \<times> bytes) list \<Rightarrow> cursor \<Rightarrow> (bool \<times> cursor) option" where
  "next_loop fuel flt dst vt s heads [] cu = Some (False, cu)"
| "next_loop fuel flt dst vt s heads (post # posts) cu =
     (if head_ok flt heads (m_ri cu) \<and> m_ri cu \<le> m_pi cu then Some (True, add_head heads cu)
      else do {
        (found, cu') \<leftarrow> ProcessPostingOffset fuel flt dst vt s post cu;
        if found then Some (True, cu')
        else if m_pi cu' = m_pi cu then None
        else next_loop fuel flt dst vt s heads posts cu'
      })"

text \<open>One call: whether there was a result, the other outcome being \<^verbatim>\<open>VectorNotFound\<close>.\<close>

definition SearchNextInPosting ::
  "nat \<Rightarrow> (int \<Rightarrow> bool) option \<Rightarrow> (bytes \<Rightarrow> dist) \<Rightarrow> nat \<Rightarrow> searcher \<Rightarrow> (int \<times> dist) list \<Rightarrow> (ListInfo \<times> bytes) list \<Rightarrow> cursor \<Rightarrow> (bool \<times> cursor) option" where
  "SearchNextInPosting fuel flt dst vt s heads posts cu =
     do {
       (found, cu) \<leftarrow> next_loop fuel flt dst vt s heads (drop (m_pi cu) posts) cu;
       let (found, cu) = (if \<not> found \<and> head_ok flt heads (m_ri cu) then (True, add_head heads cu) else (found, cu));
       Some (found, if found then cu\<lparr>cu_results := (cu_results cu)\<lparr>m_scanned := m_scanned (cu_results cu) + 1\<rparr>\<rparr> else cu)
     }"

text \<open>The first call reads the postings (\<^verbatim>\<open>SearchIterativeNext\<close>).\<close>

definition start_cursor :: "OptHashPosVector \<Rightarrow> QueryResult \<Rightarrow> cursor" where
  "start_cursor ded q = \<lparr>m_ri = 0, m_pi = 0, m_offset = 0, cu_deduper = ded, cu_results = q\<rparr>"

subsection \<open>What is left of a search\<close>

text \<open>The postings that were read, and their elements.\<close>

definition parses :: "nat \<Rightarrow> searcher \<Rightarrow> ListInfo \<times> bytes \<Rightarrow> (int \<times> bytes) list \<Rightarrow> bool" where
  "parses vt s post e \<longleftrightarrow> (case post of (l, buffer) \<Rightarrow> listEleCount l = int (length e) \<and>
     (\<forall>i < length e. parse_element vt s (drop (pageOffset l) buffer) (listEleCount l) i = Some (e ! i))) \<and> (\<forall>x \<in> set e. fst x \<noteq> -1)"

text \<open>The elements from offset \<open>k\<close> of the first of the postings \<open>els\<close> on.\<close>

fun remaining :: "(int \<times> bytes) list list \<Rightarrow> nat \<Rightarrow> (int \<times> bytes) list" where
  "remaining [] k = []"
| "remaining (e # es) k = drop k e @ concat es"

definition good_at :: "nat \<Rightarrow> (int \<times> bytes) list list \<Rightarrow> cursor \<Rightarrow> bool" where
  "good_at fuel els cu \<longleftrightarrow> (case els of [] \<Rightarrow> m_offset cu = 0 | e # es \<Rightarrow> m_offset cu \<le> length e) \<and> oh_inv (cu_deduper cu) \<and>
     visit_all fuel (map fst (remaining els (m_offset cu))) (cu_deduper cu) \<noteq> None"

definition left_at :: "(int \<times> bytes) list list \<Rightarrow> cursor \<Rightarrow> (int \<times> bytes) list" where
  "left_at els cu = unseen (visited (cu_deduper cu)) (remaining els (m_offset cu))"

text \<open>One element of the postings has come out, and \<open>els'\<close> are the postings from the new place on.\<close>

definition gave_element :: "(bytes \<Rightarrow> dist) \<Rightarrow> (int \<times> bytes) list list \<Rightarrow> cursor \<Rightarrow> (int \<times> bytes) list list \<Rightarrow> cursor \<Rightarrow> bool" where
  "gave_element dst els cu els' cu' \<longleftrightarrow> m_ri cu' = m_ri cu \<and>
     (\<exists>v w. left_at els cu = (v, w) # left_at els' cu' \<and> cu_results cu' = snd (qrs_AddPoint v (dst w) (cu_results cu)))"

definition gave_head :: "(int \<times> dist) list \<Rightarrow> (int \<times> bytes) list list \<Rightarrow> cursor \<Rightarrow> (int \<times> bytes) list list \<Rightarrow> cursor \<Rightarrow> bool" where
  "gave_head heads els cu els' cu' \<longleftrightarrow> head_ok None heads (m_ri cu) \<and> m_ri cu' = m_ri cu + 1 \<and> left_at els' cu' = left_at els cu \<and>
     cu_results cu' = snd (qrs_AddPoint (fst (heads ! m_ri cu)) (snd (heads ! m_ri cu)) (cu_results cu))"

lemma process_elements_step:
  assumes "\<forall>i < length e. parse_element vt s data n i = Some (e ! i)" "\<forall>x \<in> set e. fst x \<noteq> -1"
    "m_offset cu = k" "k \<le> length e" "oh_inv (cu_deduper cu)" "visit_all fuel (map fst (drop k e @ rst)) (cu_deduper cu) \<noteq> None"
  shows "\<exists>found cu'. process_elements fuel None dst vt s data n [k ..< length e] cu = Some (found, cu') \<and>
    m_pi cu' = m_pi cu \<and> m_ri cu' = m_ri cu \<and> m_offset cu' \<le> length e \<and> oh_inv (cu_deduper cu') \<and>
    visit_all fuel (map fst (drop (m_offset cu') e @ rst)) (cu_deduper cu') \<noteq> None \<and>
    (if found
     then \<exists>v w. unseen (visited (cu_deduper cu)) (drop k e @ rst) = (v, w) # unseen (visited (cu_deduper cu')) (drop (m_offset cu') e @ rst) \<and>
            cu_results cu' = snd (qrs_AddPoint v (dst w) (cu_results cu))
     else m_offset cu' = length e \<and> unseen (visited (cu_deduper cu)) (drop k e @ rst) = unseen (visited (cu_deduper cu')) rst \<and>
            cu_results cu' = cu_results cu)"
  using assms(3-6)
proof (induction "length e - k" arbitrary: k cu)
  case 0
  then show ?case by (intro exI[of _ False] exI[of _ cu]) simp
next
  case (Suc d)
  then have k: "k < length e" by simp
  obtain v w where x: "e ! k = (v, w)" by force
  have dr: "drop k e = (v, w) # drop (Suc k) e" using Cons_nth_drop_Suc[OF k] x by simp
  have up: "[k ..< length e] = k # [Suc k ..< length e]" by (rule upt_conv_Cons[OF k])
  obtain seen ded where c: "oh_CheckAndSet fuel v (cu_deduper cu) = Some (seen, ded)"
    using Suc.prems(4) dr by (cases "oh_CheckAndSet fuel v (cu_deduper cu)") auto
  have v: "v \<noteq> -1" using assms(2) x nth_mem[OF k] by force
  note sp = oh_CheckAndSet_spec[OF Suc.prems(3) v c]
  have va: "visit_all fuel (map fst (drop (Suc k) e @ rst)) ded \<noteq> None" using Suc.prems(4) dr c by simp
  let ?cu = "cu\<lparr>m_offset := Suc k, cu_deduper := ded\<rparr>"
  show ?case
  proof (cases seen)
    case True
    have st: "process_elements fuel None dst vt s data n [k ..< length e] cu = process_elements fuel None dst vt s data n [Suc k ..< length e] ?cu"
      using True c x assms(1) k by (simp add: up)
    have vis: "visited ded = visited (cu_deduper cu)" "v \<in> visited (cu_deduper cu)" using sp True by auto
    then have u: "unseen (visited (cu_deduper cu)) (drop k e @ rst) = unseen (visited ded) (drop (Suc k) e @ rst)" by (simp add: dr)
    have f: "m_pi ?cu = m_pi cu" "m_ri ?cu = m_ri cu" "cu_results ?cu = cu_results cu" "cu_deduper ?cu = ded" by simp_all
    have pre: "d = length e - Suc k" "m_offset ?cu = Suc k" "Suc k \<le> length e" "oh_inv (cu_deduper ?cu)"
      "visit_all fuel (map fst (drop (Suc k) e @ rst)) (cu_deduper ?cu) \<noteq> None" using Suc.hyps(2) k sp va by simp_all
    show ?thesis using Suc.hyps(1)[OF pre] unfolding st u f .
  next
    case False
    have "process_elements fuel None dst vt s data n [k ..< length e] cu = Some (True, ?cu\<lparr>cu_results := snd (qrs_AddPoint v (dst w) (cu_results cu))\<rparr>)"
      using False c x assms(1) k by (simp add: up passes_def)
    moreover have "unseen (visited (cu_deduper cu)) (drop k e @ rst) = (v, w) # unseen (visited ded) (drop (Suc k) e @ rst)"
      using sp False by (auto simp: dr)
    ultimately show ?thesis using k sp va
      by (intro exI[of _ True] exI[of _ "?cu\<lparr>cu_results := snd (qrs_AddPoint v (dst w) (cu_results cu))\<rparr>"]) simp
  qed
qed

lemma ProcessPostingOffset_step:
  assumes "parses vt s post e" "good_at fuel (e # es) cu"
  shows "\<exists>found cu' els'. ProcessPostingOffset fuel None dst vt s post cu = Some (found, cu') \<and> good_at fuel els' cu' \<and>
    (if found then gave_element dst (e # es) cu els' cu' \<and> (els' = e # es \<and> m_pi cu' = m_pi cu \<or> els' = es \<and> m_pi cu' = m_pi cu + 1)
     else els' = es \<and> m_pi cu' = m_pi cu + 1 \<and> m_ri cu' = m_ri cu \<and> left_at (e # es) cu = left_at es cu' \<and> cu_results cu' = cu_results cu)"
proof -
  obtain l buffer where post: "post = (l, buffer)" by force
  have p: "listEleCount l = int (length e)" "\<forall>i < length e. parse_element vt s (drop (pageOffset l) buffer) (listEleCount l) i = Some (e ! i)"
    "\<forall>x \<in> set e. fst x \<noteq> -1" using assms(1) by (auto simp: parses_def post)
  have g: "m_offset cu \<le> length e" "oh_inv (cu_deduper cu)" "visit_all fuel (map fst (drop (m_offset cu) e @ concat es)) (cu_deduper cu) \<noteq> None"
    using assms(2) by (simp_all add: good_at_def)
  obtain found cu1 where c: "process_elements fuel None dst vt s (drop (pageOffset l) buffer) (listEleCount l) [m_offset cu ..< length e] cu = Some (found, cu1)"
    "m_pi cu1 = m_pi cu" "m_ri cu1 = m_ri cu" "m_offset cu1 \<le> length e" "oh_inv (cu_deduper cu1)"
    "visit_all fuel (map fst (drop (m_offset cu1) e @ concat es)) (cu_deduper cu1) \<noteq> None"
    "if found
     then \<exists>v w. unseen (visited (cu_deduper cu)) (drop (m_offset cu) e @ concat es) = (v, w) # unseen (visited (cu_deduper cu1)) (drop (m_offset cu1) e @ concat es) \<and>
            cu_results cu1 = snd (qrs_AddPoint v (dst w) (cu_results cu))
     else m_offset cu1 = length e \<and> unseen (visited (cu_deduper cu)) (drop (m_offset cu) e @ concat es) = unseen (visited (cu_deduper cu1)) (concat es) \<and>
            cu_results cu1 = cu_results cu"
    using process_elements_step[OF p(2,3) refl g] by blast
  have r0: "remaining es 0 = concat es" by (cases es) simp_all
  let ?cu2 = "cu1\<lparr>m_pi := m_pi cu1 + 1, m_offset := 0\<rparr>"
  show ?thesis
  proof (cases "m_offset cu1 = length e")
    case True
    have "ProcessPostingOffset fuel None dst vt s post cu = Some (found, ?cu2)" using c(1) True by (simp add: ProcessPostingOffset_def post p(1))
    moreover have "good_at fuel es ?cu2" using c(5,6) True r0 by (cases es) (simp_all add: good_at_def)
    ultimately show ?thesis using c True r0
      by (intro exI[of _ found] exI[of _ ?cu2] exI[of _ es]) (auto simp: gave_element_def left_at_def split: if_splits)
  next
    case False
    then have f: "found" using c(7) by (cases found) auto
    have "ProcessPostingOffset fuel None dst vt s post cu = Some (found, cu1)" using c(1) False by (simp add: ProcessPostingOffset_def post p(1))
    moreover have "good_at fuel (e # es) cu1" using c(4-6) by (simp add: good_at_def)
    ultimately show ?thesis using c f
      by (intro exI[of _ found] exI[of _ cu1] exI[of _ "e # es"]) (auto simp: gave_element_def left_at_def)
  qed
qed

lemma next_loop_step:
  assumes "list_all2 (parses vt s) posts els" "good_at fuel els cu"
  shows "\<exists>found cu' els'. next_loop fuel None dst vt s heads posts cu = Some (found, cu') \<and>
    good_at fuel els' cu' \<and> m_pi cu \<le> m_pi cu' \<and> m_pi cu' \<le> m_pi cu + length els \<and> els' = drop (m_pi cu' - m_pi cu) els \<and>
    (if found then gave_element dst els cu els' cu' \<or> gave_head heads els cu els' cu'
     else els' = [] \<and> left_at els cu = [] \<and> m_ri cu' = m_ri cu \<and> cu_results cu' = cu_results cu \<and> left_at [] cu' = [])"
  using assms
proof (induction posts arbitrary: els cu)
  case Nil
  then show ?case by (intro exI[of _ False] exI[of _ cu] exI[of _ "[]"]) (simp add: left_at_def)
next
  case (Cons post posts)
  obtain e es where els: "els = e # es" "parses vt s post e" "list_all2 (parses vt s) posts es"
    using Cons.prems(1) by (auto simp: list_all2_Cons1)
  show ?case
  proof (cases "head_ok None heads (m_ri cu) \<and> m_ri cu \<le> m_pi cu")
    case True
    have "good_at fuel els (add_head heads cu)" "m_pi (add_head heads cu) = m_pi cu" "gave_head heads els cu els (add_head heads cu)"
      using Cons.prems(2) True by (auto simp: good_at_def gave_head_def left_at_def add_head_def split: prod.split list.splits)
    then show ?thesis using True by (intro exI[of _ True] exI[of _ "add_head heads cu"] exI[of _ els]) simp
  next
    case nohead: False
    obtain found cu1 els1 where p: "ProcessPostingOffset fuel None dst vt s post cu = Some (found, cu1)" "good_at fuel els1 cu1"
      "if found then gave_element dst (e # es) cu els1 cu1 \<and> (els1 = e # es \<and> m_pi cu1 = m_pi cu \<or> els1 = es \<and> m_pi cu1 = m_pi cu + 1)
       else els1 = es \<and> m_pi cu1 = m_pi cu + 1 \<and> m_ri cu1 = m_ri cu \<and> left_at (e # es) cu = left_at es cu1 \<and> cu_results cu1 = cu_results cu"
      using ProcessPostingOffset_step[OF els(2)] Cons.prems(2) els(1) by blast
    show ?thesis
    proof (cases found)
      case True
      then show ?thesis using p nohead els(1)
        by (intro exI[of _ True] exI[of _ cu1] exI[of _ els1]) auto
    next
      case False
      then have n: "els1 = es" "m_pi cu1 = m_pi cu + 1" "m_ri cu1 = m_ri cu" "left_at els cu = left_at es cu1" "cu_results cu1 = cu_results cu"
        using p(3) els(1) by simp_all
      have nl: "next_loop fuel None dst vt s heads (post # posts) cu = next_loop fuel None dst vt s heads posts cu1"
        using p(1) False nohead n(2) by auto
      obtain found' cu' els' where i: "next_loop fuel None dst vt s heads posts cu1 = Some (found', cu')" "good_at fuel els' cu'"
        "m_pi cu1 \<le> m_pi cu'" "m_pi cu' \<le> m_pi cu1 + length es" "els' = drop (m_pi cu' - m_pi cu1) es"
        "if found' then gave_element dst es cu1 els' cu' \<or> gave_head heads es cu1 els' cu'
         else els' = [] \<and> left_at es cu1 = [] \<and> m_ri cu' = m_ri cu1 \<and> cu_results cu' = cu_results cu1 \<and> left_at [] cu' = []"
        using Cons.IH[OF els(3)] p(2) n(1) by blast
      have "els' = drop (m_pi cu' - m_pi cu) els" using i(3,5) n(2) els(1) by (simp add: drop_Cons')
      moreover have "gave_element dst es cu1 els' cu' \<Longrightarrow> gave_element dst els cu els' cu'" "gave_head heads es cu1 els' cu' \<Longrightarrow> gave_head heads els cu els' cu'"
        using n(3-5) by (simp_all add: gave_element_def gave_head_def)
      ultimately show ?thesis unfolding nl using i n els(1)
        by (intro exI[of _ found'] exI[of _ cu'] exI[of _ els']) (auto split: if_splits)
    qed
  qed
qed

subsection \<open>Calls one after the other\<close>

text \<open>The heads up to the first that is not set, and all that can still come out of a search, heads and elements.\<close>

definition heads_left :: "(int \<times> dist) list \<Rightarrow> nat \<Rightarrow> (int \<times> dist) list" where
  "heads_left heads ri = takeWhile (\<lambda>h. fst h \<noteq> -1) (drop ri heads)"

definition pending :: "(bytes \<Rightarrow> dist) \<Rightarrow> (int \<times> dist) list \<Rightarrow> (int \<times> bytes) list list \<Rightarrow> cursor \<Rightarrow> (int \<times> dist) multiset" where
  "pending dst heads els cu = mset (heads_left heads (m_ri cu)) + mset (map (\<lambda>(v, w). (v, dst w)) (left_at (drop (m_pi cu) els) cu))"

definition in_place :: "nat \<Rightarrow> (int \<times> bytes) list list \<Rightarrow> cursor \<Rightarrow> bool" where
  "in_place fuel els cu \<longleftrightarrow> m_pi cu \<le> length els \<and> good_at fuel (drop (m_pi cu) els) cu"

definition unscanned :: "QueryResult \<Rightarrow> QueryResult" where
  "unscanned q = q\<lparr>m_scanned := 0\<rparr>"

lemma AddPoint_scanned:
  "snd (qrs_AddPoint v d (q\<lparr>m_scanned := x\<rparr>)) = (snd (qrs_AddPoint v d q))\<lparr>m_scanned := x\<rparr>"
  "m_scanned (snd (qrs_AddPoint v d q)) = m_scanned q"
  by (simp_all add: qrs_AddPoint_def Let_def)

lemma unscanned_AddPoint: "unscanned q = unscanned q' \<Longrightarrow> unscanned (snd (qrs_AddPoint v d q)) = unscanned (snd (qrs_AddPoint v d q'))"
  unfolding unscanned_def AddPoint_scanned(1)[symmetric] by simp

lemma AddPoints_Cons: "qrs_AddPoints ((v, d) # ps) q = qrs_AddPoints ps (snd (qrs_AddPoint v d q))"
  by (simp add: qrs_AddPoints_def)

lemma unscanned_AddPoints: "unscanned q = unscanned q' \<Longrightarrow> unscanned (qrs_AddPoints ps q) = unscanned (qrs_AddPoints ps q')"
proof (induction ps arbitrary: q q')
  case (Cons p ps)
  obtain v d where p: "p = (v, d)" by force
  show ?case unfolding p AddPoints_Cons by (rule Cons.IH[OF unscanned_AddPoint[OF Cons.prems]])
qed (simp add: qrs_AddPoints_def)

lemma unscanned_update [simp]: "unscanned (q\<lparr>m_scanned := x\<rparr>) = unscanned q"
  by (simp add: unscanned_def)

lemma heads_left_step:
  "head_ok None heads ri \<Longrightarrow> heads_left heads ri = heads ! ri # heads_left heads (ri + 1)"
  "\<not> head_ok None heads ri \<Longrightarrow> heads_left heads ri = []"
proof -
  show "head_ok None heads ri \<Longrightarrow> heads_left heads ri = heads ! ri # heads_left heads (ri + 1)"
    by (simp add: head_ok_def heads_left_def flip: Cons_nth_drop_Suc)
  show "\<not> head_ok None heads ri \<Longrightarrow> heads_left heads ri = []"
    by (cases "ri < length heads") (simp_all add: head_ok_def passes_def heads_left_def flip: Cons_nth_drop_Suc)
qed

text \<open>A call gives one of the results that are pending, as long as there is one.\<close>

lemma SearchNextInPosting_step:
  assumes "list_all2 (parses vt s) posts els" "in_place fuel els cu"
  shows "\<exists>found cu'. SearchNextInPosting fuel None dst vt s heads posts cu = Some (found, cu') \<and> in_place fuel els cu' \<and>
    (if found
     then \<exists>p. pending dst heads els cu = add_mset p (pending dst heads els cu') \<and>
            unscanned (cu_results cu') = unscanned (snd (qrs_AddPoint (fst p) (snd p) (cu_results cu))) \<and>
            m_scanned (cu_results cu') = m_scanned (cu_results cu) + 1
     else pending dst heads els cu = {#})"
proof -
  let ?els = "drop (m_pi cu) els"
  have le: "m_pi cu \<le> length els" and g: "good_at fuel ?els cu" using assms(2) by (simp_all add: in_place_def)
  have la: "list_all2 (parses vt s) (drop (m_pi cu) posts) ?els" by (rule list_all2_dropI[OF assms(1)])
  obtain found cu1 els1 where n: "next_loop fuel None dst vt s heads (drop (m_pi cu) posts) cu = Some (found, cu1)"
    "good_at fuel els1 cu1" "m_pi cu \<le> m_pi cu1" "m_pi cu1 \<le> m_pi cu + length ?els" "els1 = drop (m_pi cu1 - m_pi cu) ?els"
    "if found then gave_element dst ?els cu els1 cu1 \<or> gave_head heads ?els cu els1 cu1
     else els1 = [] \<and> left_at ?els cu = [] \<and> m_ri cu1 = m_ri cu \<and> cu_results cu1 = cu_results cu \<and> left_at [] cu1 = []"
    using next_loop_step[OF la g] by blast
  have e1: "els1 = drop (m_pi cu1) els" using n(3,5) by simp
  have p1: "in_place fuel els cu1" using n(2,4) le e1 by (simp add: in_place_def)
  let ?inc = "\<lambda>cu. cu\<lparr>cu_results := (cu_results cu)\<lparr>m_scanned := m_scanned (cu_results cu) + 1\<rparr>\<rparr>"
  have inc: "in_place fuel els (?inc cu') = in_place fuel els cu'" "pending dst heads els (?inc cu') = pending dst heads els cu'" for cu'
    by (simp_all add: in_place_def good_at_def pending_def left_at_def split: list.split)
  have fin: ?thesis if "SearchNextInPosting fuel None dst vt s heads posts cu = Some (True, ?inc cu')" "in_place fuel els cu'"
    "pending dst heads els cu = add_mset p (pending dst heads els cu')" "cu_results cu' = snd (qrs_AddPoint (fst p) (snd p) (cu_results cu))" for cu' p
  proof -
    have "m_scanned (cu_results cu') = m_scanned (cu_results cu)" unfolding that(4) by (rule AddPoint_scanned(2))
    then have u: "unscanned (cu_results (?inc cu')) = unscanned (snd (qrs_AddPoint (fst p) (snd p) (cu_results cu)))"
      "m_scanned (cu_results (?inc cu')) = m_scanned (cu_results cu) + 1" using that(4) by simp_all
    have "in_place fuel els (?inc cu')" using that(2) inc(1) by blast
    moreover have "pending dst heads els cu = add_mset p (pending dst heads els (?inc cu'))" unfolding inc(2) by (rule that(3))
    ultimately show ?thesis using that(1) u by (intro exI[of _ True] exI[of _ "?inc cu'"]) (simp only: if_True, blast)
  qed
  show ?thesis
  proof (cases found)
    case True
    then have r: "SearchNextInPosting fuel None dst vt s heads posts cu = Some (True, ?inc cu1)"
      using n(1) by (simp add: SearchNextInPosting_def)
    consider (element) "gave_element dst ?els cu els1 cu1" | (head) "gave_head heads ?els cu els1 cu1" using n(6) True by auto
    then have "\<exists>p. pending dst heads els cu = add_mset p (pending dst heads els cu1) \<and> cu_results cu1 = snd (qrs_AddPoint (fst p) (snd p) (cu_results cu))"
    proof cases
      case element
      then obtain v w where "left_at ?els cu = (v, w) # left_at els1 cu1" "cu_results cu1 = snd (qrs_AddPoint v (dst w) (cu_results cu))"
        "m_ri cu1 = m_ri cu" by (auto simp: gave_element_def)
      then show ?thesis by (intro exI[of _ "(v, dst w)"]) (simp add: pending_def e1)
    next
      case head
      then show ?thesis using heads_left_step(1)[of heads "m_ri cu"]
        by (intro exI[of _ "heads ! m_ri cu"]) (simp add: pending_def e1 gave_head_def)
    qed
    then show ?thesis using fin[OF r p1] by blast
  next
    case nf: False
    then have f: "left_at ?els cu = []" "left_at (drop (m_pi cu1) els) cu1 = []" "m_ri cu1 = m_ri cu" "cu_results cu1 = cu_results cu" using n(6) e1 by simp_all
    show ?thesis
    proof (cases "head_ok None heads (m_ri cu1)")
      case True
      let ?cu2 = "add_head heads cu1"
      have r: "SearchNextInPosting fuel None dst vt s heads posts cu = Some (True, ?inc ?cu2)"
        using n(1) nf True by (simp add: SearchNextInPosting_def)
      have a: "m_ri ?cu2 = m_ri cu1 + 1" "left_at (drop (m_pi ?cu2) els) ?cu2 = left_at (drop (m_pi cu1) els) cu1" "in_place fuel els ?cu2"
        "cu_results ?cu2 = snd (qrs_AddPoint (fst (heads ! m_ri cu1)) (snd (heads ! m_ri cu1)) (cu_results cu1))"
        using p1 by (auto simp: add_head_def left_at_def in_place_def good_at_def split: prod.split list.splits)
      then have "pending dst heads els cu = add_mset (heads ! m_ri cu1) (pending dst heads els ?cu2)"
        using heads_left_step(1)[OF True] f by (simp add: pending_def)
      then show ?thesis by (rule fin[OF r a(3)]) (simp only: a(4) f(3,4))
    next
      case False
      have "SearchNextInPosting fuel None dst vt s heads posts cu = Some (False, cu1)" using n(1) nf False by (simp add: SearchNextInPosting_def)
      moreover have "pending dst heads els cu = {#}" using f False heads_left_step(2)[of heads "m_ri cu"] by (simp add: pending_def)
      ultimately show ?thesis using p1 by (intro exI[of _ False] exI[of _ cu1]) simp
    qed
  qed
qed

text \<open>So many calls that each give a result.\<close>

fun results_of ::
  "nat \<Rightarrow> (int \<Rightarrow> bool) option \<Rightarrow> (bytes \<Rightarrow> dist) \<Rightarrow> nat \<Rightarrow> searcher \<Rightarrow> (int \<times> dist) list \<Rightarrow> (ListInfo \<times> bytes) list \<Rightarrow> nat \<Rightarrow> cursor \<Rightarrow> cursor option" where
  "results_of fuel flt dst vt s heads posts 0 cu = Some cu"
| "results_of fuel flt dst vt s heads posts (Suc n) cu =
     do {
       (found, cu) \<leftarrow> SearchNextInPosting fuel flt dst vt s heads posts cu;
       if found then results_of fuel flt dst vt s heads posts n cu else None
     }"

lemma results_of_all:
  assumes "list_all2 (parses vt s) posts els" "in_place fuel els cu" "n = size (pending dst heads els cu)"
  shows "\<exists>cu' pts. results_of fuel None dst vt s heads posts n cu = Some cu' \<and> mset pts = pending dst heads els cu \<and>
    unscanned (cu_results cu') = unscanned (qrs_AddPoints pts (cu_results cu)) \<and> m_scanned (cu_results cu') = m_scanned (cu_results cu) + int n \<and>
    (\<exists>cu''. SearchNextInPosting fuel None dst vt s heads posts cu' = Some (False, cu''))"
  using assms(2,3)
proof (induction n arbitrary: cu)
  case 0
  then have z: "pending dst heads els cu = {#}" by simp
  obtain found cu'' where "SearchNextInPosting fuel None dst vt s heads posts cu = Some (found, cu'')" "found \<Longrightarrow> pending dst heads els cu \<noteq> {#}"
    using SearchNextInPosting_step[OF assms(1) 0(1), of dst heads] by (metis add_mset_not_empty)
  then show ?case using z by (intro exI[of _ cu] exI[of _ "[]"]) (auto simp: qrs_AddPoints_def)
next
  case (Suc n)
  obtain found cu1 where c: "SearchNextInPosting fuel None dst vt s heads posts cu = Some (found, cu1)" "in_place fuel els cu1"
    "if found then \<exists>p. pending dst heads els cu = add_mset p (pending dst heads els cu1) \<and>
            unscanned (cu_results cu1) = unscanned (snd (qrs_AddPoint (fst p) (snd p) (cu_results cu))) \<and>
            m_scanned (cu_results cu1) = m_scanned (cu_results cu) + 1
     else pending dst heads els cu = {#}"
    using SearchNextInPosting_step[OF assms(1) Suc.prems(1), of dst heads] by blast
  have f: found using c(3) Suc.prems(2) by (cases found) auto
  then obtain v d where p: "pending dst heads els cu = add_mset (v, d) (pending dst heads els cu1)"
    "unscanned (cu_results cu1) = unscanned (snd (qrs_AddPoint v d (cu_results cu)))" "m_scanned (cu_results cu1) = m_scanned (cu_results cu) + 1"
    using c(3) by auto
  have "n = size (pending dst heads els cu1)" using Suc.prems(2) p(1) by simp
  from Suc.IH[OF c(2) this] obtain cu' pts where i: "results_of fuel None dst vt s heads posts n cu1 = Some cu'" "mset pts = pending dst heads els cu1"
    "unscanned (cu_results cu') = unscanned (qrs_AddPoints pts (cu_results cu1))" "m_scanned (cu_results cu') = m_scanned (cu_results cu1) + int n"
    "\<exists>cu''. SearchNextInPosting fuel None dst vt s heads posts cu' = Some (False, cu'')" by blast
  have "unscanned (cu_results cu') = unscanned (qrs_AddPoints ((v, d) # pts) (cu_results cu))"
    unfolding i(3) AddPoints_Cons by (rule unscanned_AddPoints[OF p(2)])
  then show ?case using c(1) f i p(1,3) by (intro exI[of _ cu'] exI[of _ "(v, d) # pts"]) simp
qed

subsection \<open>Properties\<close>

lemma parse_elements_nth:
  "parse_elements vt s data n is = Some xs \<Longrightarrow> length xs = length is \<and> (\<forall>j < length is. parse_element vt s data n (is ! j) = Some (xs ! j))"
proof (induction "is" arbitrary: xs)
  case (Cons i "is")
  then obtain x ys where "parse_element vt s data n i = Some x" "parse_elements vt s data n is = Some ys" "xs = x # ys"
    by (auto split: Option.bind_splits)
  then show ?case using Cons.IH[of ys] by (auto simp: nth_Cons split: nat.split)
qed simp

lemma read_postings:
  assumes "\<forall>pid \<in> set pids. GetPostingDebug vt s pid = Some (el pid) \<and> listEleCount (s_listInfos s ! pid) = int (length (el pid)) \<and>
    (\<forall>x \<in> set (el pid). fst x \<noteq> -1)"
  shows "\<exists>posts. SearchIndexWithoutParsing s pids = Some posts \<and> list_all2 (parses vt s) posts (map el pids)"
  using assms
proof (induction pids)
  case (Cons pid pids)
  obtain posts where p: "SearchIndexWithoutParsing s pids = Some posts" "list_all2 (parses vt s) posts (map el pids)"
    using Cons by auto
  let ?l = "s_listInfos s ! pid"
  obtain buffer where b: "read_pages s pid = Some buffer"
    "parse_elements vt s (drop (pageOffset ?l) buffer) (listEleCount ?l) [0 ..< nat (listEleCount ?l)] = Some (el pid)"
    using Cons.prems by (auto simp: GetPostingDebug_def Let_def split: Option.bind_splits)
  have "parses vt s (?l, buffer) (el pid)" using parse_elements_nth[OF b(2)] Cons.prems by (simp add: parses_def)
  then show ?case using p b(1) by simp
qed simp

lemma SortResult_unscanned: "unscanned q = unscanned q' \<Longrightarrow> m_results (qrs_SortResult q) = m_results (qrs_SortResult q')"
  by (cases q; cases q') (simp add: unscanned_def qrs_SortResult_def)




end
