(* ===== verification/Wire_Format.thy ===== *)
theory Wire_Format
  imports Binary_Io "HOL-Library.Monad_Syntax"
begin

unbundle bit_operations_syntax

text \<open>
  The wire format of the search service: the primitive writers and readers of
  \<^verbatim>\<open>inc/Socket/SimpleSerialization.h\<close>, the queries and results of \<^verbatim>\<open>src/Socket/RemoteSearchQuery.cpp\<close>, and the
  packets of \<^verbatim>\<open>src/Socket/Packet.cpp\<close>.

  A pointer into a buffer is the buffer with a position; \<^const>\<open>None\<close> is an access outside the buffer, or the
  exception of an allocation of a negative size. The machine is little-endian. An enumeration is the byte of its
  underlying type, and a float travels as its bit pattern, which the code only copies. The number of results of a
  query result is the length of its list.
\<close>

type_synonym ptr = "bytes \<times> nat"

subsection \<open>Primitive values\<close>

definition write_bytes :: "bytes \<Rightarrow> ptr \<Rightarrow> ptr option" where
  "write_bytes w s = (if w = [] then Some s else map_option (\<lambda>mem. (mem, snd s + length w)) (seg_write (fst s) (snd s) w))"

definition read_bytes :: "nat \<Rightarrow> ptr \<Rightarrow> (bytes \<times> ptr) option" where
  "read_bytes n s = (if n = 0 then Some ([], s) else map_option (\<lambda>w. (w, (fst s, snd s + n))) (seg_read (fst s) (snd s) n))"

text \<open>The templates for a fundamental type, here for the words whose width is a multiple of 8.\<close>

definition SimpleWriteBuffer :: "'a::len word \<Rightarrow> ptr \<Rightarrow> ptr option" where
  "SimpleWriteBuffer p_val = write_bytes (le_encode (LENGTH('a) div 8) (unat p_val))"

definition SimpleReadBuffer :: "ptr \<Rightarrow> ('a::len word \<times> ptr) option" where
  "SimpleReadBuffer s = map_option (\<lambda>(w, s'). (word_of_nat (le_decode w), s')) (read_bytes (LENGTH('a) div 8) s)"

definition EstimateBufferSize :: "'a::len word \<Rightarrow> nat" where
  "EstimateBufferSize p_val = LENGTH('a) div 8"

definition write_bool :: "bool \<Rightarrow> ptr \<Rightarrow> ptr option" where
  "write_bool b = SimpleWriteBuffer (if b then 1 else 0 :: u8)"

definition read_bool :: "ptr \<Rightarrow> (bool \<times> ptr) option" where
  "read_bool s = map_option (\<lambda>(w, s'). (w \<noteq> (0 :: u8), s')) (SimpleReadBuffer s)"

text \<open>The specialisations for \<^verbatim>\<open>std::string\<close> and \<^verbatim>\<open>ByteArray\<close>: the length, then the bytes.\<close>

definition write_string :: "bytes \<Rightarrow> ptr \<Rightarrow> ptr option" where
  "write_string p_val s = do {
     s1 \<leftarrow> SimpleWriteBuffer (word_of_nat (length p_val) :: u32) s;
     write_bytes p_val s1 }"

definition read_string :: "ptr \<Rightarrow> (bytes \<times> ptr) option" where
  "read_string s = do {
     (len :: u32, s1) \<leftarrow> SimpleReadBuffer s;
     if len > 0 then read_bytes (unat len) s1 else Some ([], s1) }"

definition estimate_string :: "bytes \<Rightarrow> nat" where
  "estimate_string p_val = 4 + length p_val"

text \<open>Shared pointers: a flag, then the value.\<close>

definition SimpleWriteSharedPtrBuffer :: "('a \<Rightarrow> ptr \<Rightarrow> ptr option) \<Rightarrow> 'a option \<Rightarrow> ptr \<Rightarrow> ptr option" where
  "SimpleWriteSharedPtrBuffer wr p_val s =
     (case p_val of None \<Rightarrow> write_bool False s | Some x \<Rightarrow> do { s1 \<leftarrow> write_bool True s; wr x s1 })"

definition SimpleReadSharedPtrBuffer :: "(ptr \<Rightarrow> ('a \<times> ptr) option) \<Rightarrow> ptr \<Rightarrow> ('a option \<times> ptr) option" where
  "SimpleReadSharedPtrBuffer rd s = do {
     (isNotNull, s1) \<leftarrow> read_bool s;
     if isNotNull then do { (x, s2) \<leftarrow> rd s1; Some (Some x, s2) } else Some (None, s1) }"

definition EstimateSharedPtrBufferSize :: "('a \<Rightarrow> nat) \<Rightarrow> 'a option \<Rightarrow> nat" where
  "EstimateSharedPtrBufferSize est p_val = 1 + (case p_val of None \<Rightarrow> 0 | Some x \<Rightarrow> est x)"

text \<open>The loops over the elements of a vector.\<close>

fun write_each :: "('a \<Rightarrow> ptr \<Rightarrow> ptr option) \<Rightarrow> 'a list \<Rightarrow> ptr \<Rightarrow> ptr option" where
  "write_each wr [] s = Some s"
| "write_each wr (x # xs) s = do { s1 \<leftarrow> wr x s; write_each wr xs s1 }"

fun read_each :: "(ptr \<Rightarrow> ('a \<times> ptr) option) \<Rightarrow> nat \<Rightarrow> ptr \<Rightarrow> ('a list \<times> ptr) option" where
  "read_each rd 0 s = Some ([], s)"
| "read_each rd (Suc n) s = do { (x, s1) \<leftarrow> rd s; (xs, s2) \<leftarrow> read_each rd n s1; Some (x # xs, s2) }"

subsection \<open>Queries and results\<close>

definition MajorVersion :: u16 where "MajorVersion = 1"

definition MirrorVersion :: u16 where "MirrorVersion = 0"

record RemoteQuery =
  rq_type :: u8
  rq_queryString :: bytes

definition rq_EstimateBufferSize :: "RemoteQuery \<Rightarrow> nat" where
  "rq_EstimateBufferSize q =
     EstimateBufferSize MajorVersion + EstimateBufferSize MirrorVersion + EstimateBufferSize (rq_type q) + estimate_string (rq_queryString q)"

definition rq_Write :: "RemoteQuery \<Rightarrow> ptr \<Rightarrow> ptr option" where
  "rq_Write q s = do {
     s1 \<leftarrow> SimpleWriteBuffer MajorVersion s;
     s2 \<leftarrow> SimpleWriteBuffer MirrorVersion s1;
     s3 \<leftarrow> SimpleWriteBuffer (rq_type q) s2;
     write_string (rq_queryString q) s3 }"

text \<open>The readers of messages return \<^const>\<open>None\<close> inside for the null pointer of a version that does not match.\<close>

definition rq_Read :: "ptr \<Rightarrow> (RemoteQuery \<times> ptr) option option" where
  "rq_Read s = do {
     (majorVer :: u16, s1) \<leftarrow> SimpleReadBuffer s;
     (mirrorVer :: u16, s2) \<leftarrow> SimpleReadBuffer s1;
     if majorVer \<noteq> MajorVersion then Some None
     else do {
       (type, s3) \<leftarrow> SimpleReadBuffer s2;
       (str, s4) \<leftarrow> read_string s3;
       Some (Some (\<lparr>rq_type = type, rq_queryString = str\<rparr>, s4)) } }"

record WireResult =
  wr_VID :: u32
  wr_Dist :: u32
  wr_Meta :: bytes

record IndexSearchResult =
  is_indexName :: bytes
  is_withMeta :: bool
  is_results :: "WireResult list"

record RemoteSearchResult =
  rs_status :: u8
  rs_allIndexResults :: "IndexSearchResult list"

definition estimate_key :: "WireResult \<Rightarrow> nat" where
  "estimate_key r = EstimateBufferSize (wr_VID r) + EstimateBufferSize (wr_Dist r)"

definition estimate_index :: "IndexSearchResult \<Rightarrow> nat" where
  "estimate_index x =
     estimate_string (is_indexName x) + 4 + 1 + (\<Sum>r \<leftarrow> is_results x. estimate_key r) +
     (if is_withMeta x then \<Sum>r \<leftarrow> is_results x. estimate_string (wr_Meta r) else 0)"

definition rs_EstimateBufferSize :: "RemoteSearchResult \<Rightarrow> nat" where
  "rs_EstimateBufferSize r =
     EstimateBufferSize MajorVersion + EstimateBufferSize MirrorVersion + EstimateBufferSize (rs_status r) + 4 +
     (\<Sum>x \<leftarrow> rs_allIndexResults r. estimate_index x)"

definition write_key :: "WireResult \<Rightarrow> ptr \<Rightarrow> ptr option" where
  "write_key r s = do { s1 \<leftarrow> SimpleWriteBuffer (wr_VID r) s; SimpleWriteBuffer (wr_Dist r) s1 }"

definition read_key :: "ptr \<Rightarrow> (WireResult \<times> ptr) option" where
  "read_key s = do {
     (vid, s1) \<leftarrow> SimpleReadBuffer s; (d, s2) \<leftarrow> SimpleReadBuffer s1;
     Some (\<lparr>wr_VID = vid, wr_Dist = d, wr_Meta = []\<rparr>, s2) }"

definition write_index :: "IndexSearchResult \<Rightarrow> ptr \<Rightarrow> ptr option" where
  "write_index x s = do {
     s1 \<leftarrow> write_string (is_indexName x) s;
     s2 \<leftarrow> SimpleWriteBuffer (word_of_nat (length (is_results x)) :: u32) s1;
     s3 \<leftarrow> write_bool (is_withMeta x) s2;
     s4 \<leftarrow> write_each write_key (is_results x) s3;
     if is_withMeta x then write_each (\<lambda>r. write_string (wr_Meta r)) (is_results x) s4 else Some s4 }"

definition read_index :: "ptr \<Rightarrow> (IndexSearchResult \<times> ptr) option" where
  "read_index s = do {
     (name, s1) \<leftarrow> read_string s;
     (resNum :: u32, s2) \<leftarrow> SimpleReadBuffer s1;
     (withMeta, s3) \<leftarrow> read_bool s2;
     if sint resNum < 0 then None
     else do {
       (res, s4) \<leftarrow> read_each read_key (unat resNum) s3;
       (metas, s5) \<leftarrow> (if withMeta then read_each read_string (unat resNum) s4 else Some (replicate (unat resNum) [], s4));
       Some (\<lparr>is_indexName = name, is_withMeta = withMeta, is_results = map2 (\<lambda>r m. r\<lparr>wr_Meta := m\<rparr>) res metas\<rparr>, s5) } }"

definition rs_Write :: "RemoteSearchResult \<Rightarrow> ptr \<Rightarrow> ptr option" where
  "rs_Write r s = do {
     s1 \<leftarrow> SimpleWriteBuffer MajorVersion s;
     s2 \<leftarrow> SimpleWriteBuffer MirrorVersion s1;
     s3 \<leftarrow> SimpleWriteBuffer (rs_status r) s2;
     s4 \<leftarrow> SimpleWriteBuffer (word_of_nat (length (rs_allIndexResults r)) :: u32) s3;
     write_each write_index (rs_allIndexResults r) s4 }"

definition rs_Read :: "ptr \<Rightarrow> (RemoteSearchResult \<times> ptr) option option" where
  "rs_Read s = do {
     (majorVer :: u16, s1) \<leftarrow> SimpleReadBuffer s;
     (mirrorVer :: u16, s2) \<leftarrow> SimpleReadBuffer s1;
     if majorVer \<noteq> MajorVersion then Some None
     else do {
       (status, s3) \<leftarrow> SimpleReadBuffer s2;
       (len :: u32, s4) \<leftarrow> SimpleReadBuffer s3;
       (res, s5) \<leftarrow> read_each read_index (unat len) s4;
       Some (Some (\<lparr>rs_status = status, rs_allIndexResults = res\<rparr>, s5)) } }"

subsection \<open>Packets\<close>

text \<open>The types of packets, the bytes of \<^verbatim>\<open>enum class PacketType\<close>.\<close>

definition Undefined :: u8 where "Undefined = 0x00"
definition HeartbeatRequest :: u8 where "HeartbeatRequest = 0x01"
definition RegisterRequest :: u8 where "RegisterRequest = 0x02"
definition SearchRequest :: u8 where "SearchRequest = 0x03"
definition ResponseMask :: u8 where "ResponseMask = 0x80"
definition HeartbeatResponse :: u8 where "HeartbeatResponse = ResponseMask OR HeartbeatRequest"
definition RegisterResponse :: u8 where "RegisterResponse = ResponseMask OR RegisterRequest"
definition SearchResponse :: u8 where "SearchResponse = ResponseMask OR SearchRequest"

definition IsRequestPacket :: "u8 \<Rightarrow> bool" where
  "IsRequestPacket p_type = (if Undefined = p_type \<or> ResponseMask = p_type then False else p_type AND ResponseMask = 0)"

definition IsResponsePacket :: "u8 \<Rightarrow> bool" where
  "IsResponsePacket p_type = (if Undefined = p_type \<or> ResponseMask = p_type then False else p_type AND ResponseMask \<noteq> 0)"

definition GetCrosspondingResponseType :: "u8 \<Rightarrow> u8" where
  "GetCrosspondingResponseType p_type =
     (if Undefined = p_type \<or> ResponseMask = p_type then Undefined else p_type OR ResponseMask)"

record PacketHeader =
  ph_packetType :: u8
  ph_processStatus :: u8
  ph_bodyLength :: u32
  ph_connectionID :: u32
  ph_resourceID :: u32

definition c_invalidConnectionID :: u32 where "c_invalidConnectionID = 0"
definition c_invalidResourceID :: u32 where "c_invalidResourceID = 0"
definition status_Ok :: u8 where "status_Ok = 0x00"
definition status_Dropped :: u8 where "status_Dropped = 0x02"
definition status_Failed :: u8 where "status_Failed = 0x03"

definition header_new :: PacketHeader where
  "header_new = \<lparr>ph_packetType = Undefined, ph_processStatus = status_Ok, ph_bodyLength = 0,
     ph_connectionID = c_invalidConnectionID, ph_resourceID = c_invalidResourceID\<rparr>"

definition c_bufferSize :: nat where "c_bufferSize = 16"

text \<open>\<^verbatim>\<open>WriteBuffer\<close> returns \<^verbatim>\<open>p_buffer - buff\<close> as a \<^verbatim>\<open>size_t\<close>.\<close>

definition ph_WriteBuffer :: "PacketHeader \<Rightarrow> ptr \<Rightarrow> (u64 \<times> bytes) option" where
  "ph_WriteBuffer h s = do {
     s1 \<leftarrow> SimpleWriteBuffer (ph_packetType h) s;
     s2 \<leftarrow> SimpleWriteBuffer (ph_processStatus h) s1;
     s3 \<leftarrow> SimpleWriteBuffer (ph_bodyLength h) s2;
     s4 \<leftarrow> SimpleWriteBuffer (ph_connectionID h) s3;
     s5 \<leftarrow> SimpleWriteBuffer (ph_resourceID h) s4;
     Some (word_of_int (int (snd s) - int (snd s5)), fst s5) }"

definition ph_ReadBuffer :: "ptr \<Rightarrow> PacketHeader option" where
  "ph_ReadBuffer s = do {
     (t, s1) \<leftarrow> SimpleReadBuffer s;
     (p, s2) \<leftarrow> SimpleReadBuffer s1;
     (b, s3) \<leftarrow> SimpleReadBuffer s2;
     (c, s4) \<leftarrow> SimpleReadBuffer s3;
     (r, s5) \<leftarrow> SimpleReadBuffer s4;
     Some \<lparr>ph_packetType = t, ph_processStatus = p, ph_bodyLength = b, ph_connectionID = c, ph_resourceID = r\<rparr> }"

text \<open>A packet; the buffer is \<^const>\<open>None\<close> before it is allocated. \<open>mem\<close> is the content of fresh memory.\<close>

record Packet =
  pk_header :: PacketHeader
  pk_buffer :: "bytes option"
  pk_capacity :: u32

definition pk_BufferLength :: "Packet \<Rightarrow> u32" where
  "pk_BufferLength p = word_of_nat c_bufferSize + ph_bodyLength (pk_header p)"

definition pk_AllocateBuffer :: "(nat \<Rightarrow> u8) \<Rightarrow> u32 \<Rightarrow> Packet \<Rightarrow> Packet" where
  "pk_AllocateBuffer mem p_bodyCapacity p =
     (let cap = word_of_nat c_bufferSize + p_bodyCapacity in
      p\<lparr>pk_capacity := cap, pk_buffer := Some (map mem [0 ..< unat cap])\<rparr>)"

text \<open>\<^verbatim>\<open>Body()\<close>: a pointer behind the header, or the null pointer.\<close>

definition pk_Body :: "Packet \<Rightarrow> ptr option" where
  "pk_Body p =
     (case pk_buffer p of
        Some b \<Rightarrow> if c_bufferSize < unat (pk_capacity p) then Some (b, c_bufferSize) else None
      | None \<Rightarrow> None)"

subsection \<open>Codecs\<close>

lemma write_bytes_append: "do { s1 \<leftarrow> write_bytes w s; write_bytes v s1 } = write_bytes (w @ v) s"
  by (cases s) (auto simp: write_bytes_def seg_write_def min_absorb2 ac_simps split: if_splits)

text \<open>A writer and a reader of a type of values: the writer stores the bytes of the value, the reader gives back the
  values in \<open>ok\<close>, and the estimate is the number of bytes.\<close>

locale codec =
  fixes wr :: "'a \<Rightarrow> ptr \<Rightarrow> ptr option" and rd :: "ptr \<Rightarrow> ('a \<times> ptr) option" and est :: "'a \<Rightarrow> nat"
    and enc :: "'a \<Rightarrow> bytes" and ok :: "'a \<Rightarrow> bool"
  assumes wr_enc: "wr x = write_bytes (enc x)"
    and rd_enc: "ok x \<Longrightarrow> drop p mem = enc x @ rest \<Longrightarrow> rd (mem, p) = Some (x, (mem, p + length (enc x)))"
    and est_enc: "est x = length (enc x)"
begin

lemma write_each_enc: "write_each wr xs s = write_bytes (concat (map enc xs)) s"
proof (induction xs arbitrary: s)
  case (Cons x xs)
  then have "write_each wr xs = write_bytes (concat (map enc xs))" by (intro ext)
  then show ?case using write_bytes_append[of "enc x" s "concat (map enc xs)"] wr_enc[of x] by simp
qed (simp add: write_bytes_def)

lemma rd_step:
  assumes "ok x" "drop p mem = enc x @ rest"
  shows "rd (mem, p) = Some (x, (mem, p + length (enc x)))" "drop (p + length (enc x)) mem = rest"
proof -
  show "rd (mem, p) = Some (x, (mem, p + length (enc x)))" by (rule rd_enc[OF assms])
  have "drop (length (enc x)) (drop p mem) = rest" unfolding assms(2) by simp
  then show "drop (p + length (enc x)) mem = rest" by (simp add: add.commute)
qed

lemma read_each_enc:
  "\<forall>x \<in> set xs. ok x \<Longrightarrow> drop p mem = concat (map enc xs) @ rest \<Longrightarrow>
     read_each rd (length xs) (mem, p) = Some (xs, (mem, p + length (concat (map enc xs))))"
proof (induction xs arbitrary: p)
  case (Cons x xs)
  have d: "drop p mem = enc x @ (concat (map enc xs) @ rest)" "ok x" using Cons.prems by simp_all
  note r = rd_step[OF d(2,1)]
  show ?case using Cons.IH[OF _ r(2)] Cons.prems(1) r(1) by (simp add: add.assoc)
qed simp

lemma sum_est: "(\<Sum>x \<leftarrow> xs. est x) = length (concat (map enc xs))"
  by (induction xs) (auto simp: est_enc)

end

lemma write_bytes_spec:
  assumes "p + length w \<le> length mem"
  obtains mem' where "write_bytes w (mem, p) = Some (mem', p + length w)" "length mem' = length mem" "take p mem' = take p mem"
    "drop p mem' = w @ drop (p + length w) mem"
  using assms that[of "take p mem @ w @ drop (p + length w) mem"]
  by (cases "w = []") (simp_all add: write_bytes_def seg_write_def)

lemma read_bytes_enc: "drop p mem = w @ rest \<Longrightarrow> read_bytes (length w) (mem, p) = Some (w, (mem, p + length w))"
proof -
  assume d: "drop p mem = w @ rest"
  have "length w \<le> length mem - p" using arg_cong[OF d, of length] by simp
  then show ?thesis using d by (auto simp: read_bytes_def seg_read_def)
qed

definition word_enc :: "'a::len word \<Rightarrow> bytes" where
  "word_enc w = le_encode (LENGTH('a) div 8) (unat w)"

definition string_enc :: "bytes \<Rightarrow> bytes" where
  "string_enc b = word_enc (word_of_nat (length b) :: u32) @ b"

lemma word_codec:
  assumes "8 * (LENGTH('a::len) div 8) = LENGTH('a)"
  shows "codec (SimpleWriteBuffer :: 'a word \<Rightarrow> _) SimpleReadBuffer EstimateBufferSize word_enc (\<lambda>_. True)"
proof
  fix x :: "'a word" and p mem rest
  let ?k = "LENGTH('a) div 8"
  show "SimpleWriteBuffer x = write_bytes (word_enc x)" by (simp add: SimpleWriteBuffer_def word_enc_def)
  show "EstimateBufferSize x = length (word_enc x)" by (simp add: EstimateBufferSize_def word_enc_def)
  assume "drop p mem = word_enc x @ rest"
  then have r: "read_bytes ?k (mem, p) = Some (word_enc x, (mem, p + ?k))"
    using read_bytes_enc[of p mem "word_enc x" rest] by (simp add: word_enc_def)
  have "(2 :: nat) ^ LENGTH('a) = 2 ^ (8 * ?k)" using assms by simp
  also have "\<dots> = 256 ^ ?k" by (simp add: power_mult)
  finally have "(256 :: nat) ^ ?k = 2 ^ LENGTH('a)" by simp
  then have "le_decode (word_enc x) = unat x" by (simp add: word_enc_def le_decode_encode unsigned_less)
  then show "SimpleReadBuffer (mem, p) = Some (x, (mem, p + length (word_enc x)))"
    using r by (simp add: SimpleReadBuffer_def word_enc_def)
qed

interpretation cu8: codec "SimpleWriteBuffer :: u8 \<Rightarrow> _" SimpleReadBuffer EstimateBufferSize word_enc "\<lambda>_. True"
  by (rule word_codec) simp

interpretation cu16: codec "SimpleWriteBuffer :: u16 \<Rightarrow> _" SimpleReadBuffer EstimateBufferSize word_enc "\<lambda>_. True"
  by (rule word_codec) simp

interpretation cu32: codec "SimpleWriteBuffer :: u32 \<Rightarrow> _" SimpleReadBuffer EstimateBufferSize word_enc "\<lambda>_. True"
  by (rule word_codec) simp

interpretation cbool: codec write_bool read_bool "\<lambda>_. 1" "\<lambda>b. word_enc (if b then 1 else 0 :: u8)" "\<lambda>_. True"
proof
  fix b p mem rest
  show "write_bool b = write_bytes (word_enc (if b then 1 else 0 :: u8))" by (simp add: write_bool_def cu8.wr_enc)
  show "1 = length (word_enc (if b then 1 else 0 :: u8))" by (simp add: word_enc_def)
  assume "drop p mem = word_enc (if b then 1 else 0 :: u8) @ rest"
  from cu8.rd_enc[OF TrueI this] show "read_bool (mem, p) = Some (b, (mem, p + length (word_enc (if b then 1 else 0 :: u8))))"
    by (simp add: read_bool_def split: if_splits)
qed

interpretation cstr: codec write_string read_string estimate_string string_enc "\<lambda>b. length b < 2 ^ 32"
proof
  fix b :: bytes and p mem rest
  let ?l = "word_of_nat (length b) :: u32"
  show "write_string b = write_bytes (string_enc b)"
    using write_bytes_append[of "word_enc ?l" _ b] by (intro ext) (simp add: write_string_def string_enc_def cu32.wr_enc)
  show "estimate_string b = length (string_enc b)" by (simp add: estimate_string_def string_enc_def word_enc_def)
  assume b: "length b < 2 ^ 32" and d: "drop p mem = string_enc b @ rest"
  have u: "unat ?l = length b" using b by (simp add: unat_of_nat)
  have "drop p mem = word_enc ?l @ (b @ rest)" using d by (simp add: string_enc_def)
  note r = cu32.rd_step[OF TrueI this]
  have "read_bytes (length b) (mem, p + length (word_enc ?l)) = Some (b, (mem, p + length (word_enc ?l) + length b))"
    by (rule read_bytes_enc[OF r(2)])
  moreover have "?l > 0 \<longleftrightarrow> b \<noteq> []" using u by (simp add: word_less_nat_alt)
  ultimately show "read_string (mem, p) = Some (b, (mem, p + length (string_enc b)))"
    using r(1) u by (auto simp: read_string_def string_enc_def add.assoc read_bytes_def)
qed

definition key_enc :: "WireResult \<Rightarrow> bytes" where
  "key_enc r = word_enc (wr_VID r) @ word_enc (wr_Dist r)"

interpretation ckey: codec write_key read_key estimate_key key_enc "\<lambda>r. wr_Meta r = []"
proof
  fix r p mem rest
  show "write_key r = write_bytes (key_enc r)"
    using write_bytes_append[of "word_enc (wr_VID r)" _ "word_enc (wr_Dist r)"]
    by (intro ext) (simp add: write_key_def key_enc_def cu32.wr_enc)
  show "estimate_key r = length (key_enc r)" by (simp add: estimate_key_def key_enc_def cu32.est_enc)
  assume m: "wr_Meta r = []" and d: "drop p mem = key_enc r @ rest"
  have "drop p mem = word_enc (wr_VID r) @ (word_enc (wr_Dist r) @ rest)" using d by (simp add: key_enc_def)
  note r1 = cu32.rd_step[OF TrueI this]
  note r2 = cu32.rd_step[OF TrueI r1(2)]
  show "read_key (mem, p) = Some (r, (mem, p + length (key_enc r)))"
    using r1(1) r2(1) m by (simp add: read_key_def key_enc_def add.assoc)
qed

definition wire_ok :: "IndexSearchResult \<Rightarrow> bool" where
  "wire_ok x \<longleftrightarrow> length (is_indexName x) < 2 ^ 32 \<and> length (is_results x) < 2 ^ 31 \<and>
     (\<forall>r \<in> set (is_results x). length (wr_Meta r) < 2 ^ 32 \<and> (\<not> is_withMeta x \<longrightarrow> wr_Meta r = []))"

definition index_enc :: "IndexSearchResult \<Rightarrow> bytes" where
  "index_enc x = string_enc (is_indexName x) @ word_enc (word_of_nat (length (is_results x)) :: u32) @
     word_enc (if is_withMeta x then 1 else 0 :: u8) @ concat (map key_enc (is_results x)) @
     (if is_withMeta x then concat (map string_enc (map wr_Meta (is_results x))) else [])"

lemma write_each_map: "write_each (\<lambda>x. wr (f x)) xs = write_each wr (map f xs)"
  by (induction xs) (auto intro!: ext)

lemma map2_meta: "map2 (\<lambda>r m. r\<lparr>wr_Meta := m\<rparr>) (map (\<lambda>r. r\<lparr>wr_Meta := []\<rparr>) rs) (map wr_Meta rs) = rs"
  by (induction rs) auto

lemma sint_small_u32: "n < 2 ^ 31 \<Longrightarrow> 0 \<le> sint (word_of_nat n :: u32) \<and> unat (word_of_nat n :: u32) = n"
  by (simp add: sint_uint uint_nat unat_of_nat signed_take_bit_int_eq_self)

interpretation cidx: codec write_index read_index estimate_index index_enc wire_ok
proof
  fix x :: IndexSearchResult and p mem rest
  let ?n = "word_of_nat (length (is_results x)) :: u32" and ?rs = "is_results x"
  let ?name = "string_enc (is_indexName x)" and ?b = "word_enc (if is_withMeta x then 1 else 0 :: u8)"
  let ?keys = "concat (map key_enc ?rs)" and ?metas = "if is_withMeta x then concat (map string_enc (map wr_Meta ?rs)) else []"
  show "write_index x = write_bytes (index_enc x)"
  proof
    fix s
    have m: "(if is_withMeta x then write_each (\<lambda>r. write_string (wr_Meta r)) ?rs s4 else Some s4) = write_bytes ?metas s4" for s4
      unfolding write_each_map cstr.write_each_enc by (simp add: write_bytes_def)
    show "write_index x s = write_bytes (index_enc x) s"
      unfolding write_index_def index_enc_def m unfolding cstr.wr_enc cu32.wr_enc cbool.wr_enc ckey.write_each_enc
      by (simp only: write_bytes_append append_assoc)
  qed
  show "estimate_index x = length (index_enc x)"
    using ckey.sum_est[of ?rs] cstr.sum_est[of "map wr_Meta ?rs"] cstr.est_enc[of "is_indexName x"]
    by (simp add: estimate_index_def index_enc_def word_enc_def comp_def)
  assume ok: "wire_ok x" and d: "drop p mem = index_enc x @ rest"
  have n: "\<not> sint ?n < 0" "unat ?n = length ?rs" using ok sint_small_u32[of "length ?rs"] by (auto simp: wire_ok_def not_less)
  have "drop p mem = ?name @ (word_enc ?n @ ?b @ ?keys @ ?metas @ rest)" using d by (simp add: index_enc_def)
  note r1 = cstr.rd_step[OF _ this]
  have len: "length (is_indexName x) < 2 ^ 32" using ok by (simp add: wire_ok_def)
  note r1 = r1[OF len]
  note r2 = cu32.rd_step[OF TrueI r1(2)]
  note r3 = cbool.rd_step[OF TrueI r2(2)]
  let ?p3 = "p + length ?name + length (word_enc ?n) + length ?b"
  let ?st = "map (\<lambda>r. r\<lparr>wr_Meta := []\<rparr>) ?rs"
  have st: "map key_enc ?st = map key_enc ?rs" by (simp add: key_enc_def)
  have r4: "read_each read_key (length ?rs) (mem, ?p3) = Some (?st, (mem, ?p3 + length ?keys))"
    using ckey.read_each_enc[of ?st ?p3 mem "?metas @ rest"] r3(2) unfolding st by simp
  have d4: "drop (?p3 + length ?keys) mem = ?metas @ rest"
    using arg_cong[OF r3(2), of "drop (length ?keys)"] by (simp add: add.commute)
  have r5: "(if is_withMeta x then read_each read_string (length ?rs) (mem, ?p3 + length ?keys)
      else Some (replicate (length ?rs) [], (mem, ?p3 + length ?keys))) =
      Some (map wr_Meta ?rs, (mem, ?p3 + length ?keys + length ?metas))"
  proof (cases "is_withMeta x")
    case True
    then show ?thesis using cstr.read_each_enc[of "map wr_Meta ?rs" "?p3 + length ?keys" mem rest] d4 ok
      by (auto simp: wire_ok_def)
  next
    case False
    then have "map wr_Meta ?rs = replicate (length ?rs) []" using ok by (intro nth_equalityI) (auto simp: wire_ok_def)
    then show ?thesis using False by simp
  qed
  show "read_index (mem, p) = Some (x, (mem, p + length (index_enc x)))"
    using r1(1) r2(1) r3(1) r4 r5 n map2_meta[of ?rs]
    by (cases "is_withMeta x") (simp_all add: read_index_def index_enc_def add.assoc)
qed

subsection \<open>Messages\<close>

definition query_enc :: "RemoteQuery \<Rightarrow> bytes" where
  "query_enc q = word_enc MajorVersion @ word_enc MirrorVersion @ word_enc (rq_type q) @ string_enc (rq_queryString q)"

definition result_enc :: "RemoteSearchResult \<Rightarrow> bytes" where
  "result_enc r = word_enc MajorVersion @ word_enc MirrorVersion @ word_enc (rs_status r) @
     word_enc (word_of_nat (length (rs_allIndexResults r)) :: u32) @ concat (map index_enc (rs_allIndexResults r))"

definition result_ok :: "RemoteSearchResult \<Rightarrow> bool" where
  "result_ok r \<longleftrightarrow> length (rs_allIndexResults r) < 2 ^ 32 \<and> (\<forall>x \<in> set (rs_allIndexResults r). wire_ok x)"

lemma rq_Write_enc: "rq_Write q s = write_bytes (query_enc q) s"
  unfolding rq_Write_def query_enc_def cu8.wr_enc cu16.wr_enc cstr.wr_enc by (simp only: write_bytes_append append_assoc)

lemma rs_Write_enc: "rs_Write r s = write_bytes (result_enc r) s"
  unfolding rs_Write_def result_enc_def cu8.wr_enc cu16.wr_enc cu32.wr_enc cidx.write_each_enc
  by (simp only: write_bytes_append append_assoc)

lemma length_query_enc: "rq_EstimateBufferSize q = length (query_enc q)"
  by (simp add: rq_EstimateBufferSize_def query_enc_def cu8.est_enc cu16.est_enc cstr.est_enc)

lemma length_result_enc: "rs_EstimateBufferSize r = length (result_enc r)"
  by (simp add: rs_EstimateBufferSize_def result_enc_def cu8.est_enc cu16.est_enc cidx.sum_est word_enc_def)

lemma rq_Read_enc:
  assumes "length (rq_queryString q) < 2 ^ 32" "drop p mem = query_enc q @ rest"
  shows "rq_Read (mem, p) = Some (Some (q, (mem, p + length (query_enc q))))"
proof -
  have "drop p mem = word_enc MajorVersion @ (word_enc MirrorVersion @ word_enc (rq_type q) @ string_enc (rq_queryString q) @ rest)"
    using assms(2) by (simp add: query_enc_def)
  note r1 = cu16.rd_step[OF TrueI this]
  note r2 = cu16.rd_step[OF TrueI r1(2)]
  note r3 = cu8.rd_step[OF TrueI r2(2)]
  note r4 = cstr.rd_step[OF assms(1) r3(2)]
  show ?thesis using r1(1) r2(1) r3(1) r4(1) by (simp add: rq_Read_def query_enc_def add.assoc)
qed

lemma rs_Read_enc:
  assumes "result_ok r" "drop p mem = result_enc r @ rest"
  shows "rs_Read (mem, p) = Some (Some (r, (mem, p + length (result_enc r))))"
proof -
  let ?xs = "rs_allIndexResults r"
  have u: "unat (word_of_nat (length ?xs) :: u32) = length ?xs" using assms(1) by (simp add: result_ok_def unat_of_nat)
  have "drop p mem = word_enc MajorVersion @ (word_enc MirrorVersion @ word_enc (rs_status r) @
      word_enc (word_of_nat (length ?xs) :: u32) @ concat (map index_enc ?xs) @ rest)"
    using assms(2) by (simp add: result_enc_def)
  note r1 = cu16.rd_step[OF TrueI this]
  note r2 = cu16.rd_step[OF TrueI r1(2)]
  note r3 = cu8.rd_step[OF TrueI r2(2)]
  note r4 = cu32.rd_step[OF TrueI r3(2)]
  have ok: "\<forall>x \<in> set ?xs. wire_ok x" using assms(1) by (simp add: result_ok_def)
  note r5 = cidx.read_each_enc[OF ok r4(2)]
  show ?thesis using r1(1) r2(1) r3(1) r4(1) r5 u by (simp add: rs_Read_def result_enc_def add.assoc)
qed

definition header_enc :: "PacketHeader \<Rightarrow> bytes" where
  "header_enc h = word_enc (ph_packetType h) @ word_enc (ph_processStatus h) @ word_enc (ph_bodyLength h) @
     word_enc (ph_connectionID h) @ word_enc (ph_resourceID h)"

lemma length_header_enc: "length (header_enc h) = 14"
  by (simp add: header_enc_def word_enc_def)

lemma bind_assoc_pair: "do { s1 \<leftarrow> x; Some (f s1) } = map_option f x"
  by (cases x) simp_all

lemma ph_WriteBuffer_enc:
  "ph_WriteBuffer h s = map_option (\<lambda>s'. (word_of_int (int (snd s) - int (snd s')), fst s')) (write_bytes (header_enc h) s)"
proof -
  have "write_bytes (header_enc h) s = do {
     s1 \<leftarrow> write_bytes (word_enc (ph_packetType h)) s;
     s2 \<leftarrow> write_bytes (word_enc (ph_processStatus h)) s1;
     s3 \<leftarrow> write_bytes (word_enc (ph_bodyLength h)) s2;
     s4 \<leftarrow> write_bytes (word_enc (ph_connectionID h)) s3;
     write_bytes (word_enc (ph_resourceID h)) s4 }"
    unfolding header_enc_def by (simp only: write_bytes_append append_assoc)
  then show ?thesis
    unfolding ph_WriteBuffer_def cu8.wr_enc cu32.wr_enc
    by (simp add: map_option_case split: Option.bind_split option.splits)
qed

lemma ph_ReadBuffer_enc: "drop p mem = header_enc h @ rest \<Longrightarrow> ph_ReadBuffer (mem, p) = Some h"
proof -
  assume "drop p mem = header_enc h @ rest"
  then have "drop p mem = word_enc (ph_packetType h) @ (word_enc (ph_processStatus h) @ word_enc (ph_bodyLength h) @
     word_enc (ph_connectionID h) @ word_enc (ph_resourceID h) @ rest)" by (simp add: header_enc_def)
  note r1 = cu8.rd_step[OF TrueI this]
  note r2 = cu8.rd_step[OF TrueI r1(2)]
  note r3 = cu32.rd_step[OF TrueI r2(2)]
  note r4 = cu32.rd_step[OF TrueI r3(2)]
  note r5 = cu32.rd_step[OF TrueI r4(2)]
  show ?thesis using r1(1) r2(1) r3(1) r4(1) r5(1) by (simp add: ph_ReadBuffer_def)
qed

text \<open>A codec of values gives one of shared pointers.\<close>

lemma shared_codec:
  assumes "codec wr rd est enc ok"
  shows "codec (SimpleWriteSharedPtrBuffer wr) (SimpleReadSharedPtrBuffer rd) (EstimateSharedPtrBufferSize est)
    (\<lambda>v. word_enc (if v \<noteq> None then 1 else 0 :: u8) @ (case v of None \<Rightarrow> [] | Some x \<Rightarrow> enc x)) (\<lambda>v. \<forall>x. v = Some x \<longrightarrow> ok x)"
    (is "codec ?wr ?rd ?est ?enc ?ok")
proof
  fix v p mem rest
  show "?wr v = write_bytes (?enc v)"
    using write_bytes_append[of "word_enc (1 :: u8)" _ "enc (the v)"]
    by (intro ext) (auto simp: SimpleWriteSharedPtrBuffer_def cbool.wr_enc codec.wr_enc[OF assms] split: option.splits)
  show "?est v = length (?enc v)"
    by (auto simp: EstimateSharedPtrBufferSize_def codec.est_enc[OF assms] word_enc_def split: option.splits)
  assume ok: "?ok v" and d: "drop p mem = ?enc v @ rest"
  have "drop p mem = word_enc (if v \<noteq> None then 1 else 0 :: u8) @ ((case v of None \<Rightarrow> [] | Some x \<Rightarrow> enc x) @ rest)"
    using d by simp
  note r = cbool.rd_step[OF TrueI this]
  show "?rd (mem, p) = Some (v, (mem, p + length (?enc v)))"
  proof (cases v)
    case None
    then show ?thesis using r(1) by (simp add: SimpleReadSharedPtrBuffer_def)
  next
    case (Some x)
    then have "rd (mem, p + length (word_enc (1 :: u8))) = Some (x, (mem, p + length (word_enc (1 :: u8)) + length (enc x)))"
      using codec.rd_enc[OF assms, of x] ok r(2) by simp
    then show ?thesis using Some r(1) by (simp add: SimpleReadSharedPtrBuffer_def add.assoc)
  qed
qed

interpretation cshared: codec "SimpleWriteSharedPtrBuffer write_string" "SimpleReadSharedPtrBuffer read_string"
  "EstimateSharedPtrBufferSize estimate_string"
  "\<lambda>v. word_enc (if v \<noteq> None then 1 else 0 :: u8) @ (case v of None \<Rightarrow> [] | Some x \<Rightarrow> string_enc x)"
  "\<lambda>v. \<forall>x. v = Some x \<longrightarrow> length x < 2 ^ 32"
  by (rule shared_codec) unfold_locales

text \<open>A message in a buffer that has room for it.\<close>

lemma message_in_place:
  assumes "p + length w \<le> length mem"
  obtains mem' where "write_bytes w (mem, p) = Some (mem', p + length w)" "length mem' = length mem" "take p mem' = take p mem"
    "drop (p + length w) mem' = drop (p + length w) mem" "drop p mem' = w @ drop (p + length w) mem"
proof -
  obtain mem' where m: "write_bytes w (mem, p) = Some (mem', p + length w)" "length mem' = length mem" "take p mem' = take p mem"
    "drop p mem' = w @ drop (p + length w) mem" using write_bytes_spec[OF assms] .
  have "drop (length w) (drop p mem') = drop (p + length w) mem" unfolding m(4) by simp
  then show thesis using that[OF m(1-3) _ m(4)] by (simp add: add.commute)
qed

subsection \<open>Properties\<close>

definition sample_remote :: RemoteSearchResult where
  "sample_remote = \<lparr>rs_status = 0, rs_allIndexResults = [
     \<lparr>is_indexName = [0x61], is_withMeta = True,
      is_results = [\<lparr>wr_VID = 7, wr_Dist = 0x3f800000, wr_Meta = [1, 2]\<rparr>, \<lparr>wr_VID = -1, wr_Dist = 0, wr_Meta = []\<rparr>]\<rparr>]\<rparr>"

text \<open>C18. A search result of the service takes exactly the space that \<^verbatim>\<open>EstimateBufferSize\<close> computes: written into a
  buffer with that room it fills it, leaves every other byte alone, and \<^verbatim>\<open>Read\<close> gives back the same result and ends at
  the same place. This holds when the lengths fit into the 32 bits they are sent in.\<close>

theorem remote_result_roundtrip:
  assumes "result_ok r" "p + rs_EstimateBufferSize r \<le> length mem"
  shows "\<exists>mem'. rs_Write r (mem, p) = Some (mem', p + rs_EstimateBufferSize r) \<and>
     rs_Read (mem', p) = Some (Some (r, (mem', p + rs_EstimateBufferSize r))) \<and>
     length mem' = length mem \<and> take p mem' = take p mem \<and>
     drop (p + rs_EstimateBufferSize r) mem' = drop (p + rs_EstimateBufferSize r) mem"
proof -
  have l: "p + length (result_enc r) \<le> length mem" using assms(2) by (simp add: length_result_enc)
  obtain mem' where m: "write_bytes (result_enc r) (mem, p) = Some (mem', p + length (result_enc r))" "length mem' = length mem"
    "take p mem' = take p mem" "drop (p + length (result_enc r)) mem' = drop (p + length (result_enc r)) mem"
    "drop p mem' = result_enc r @ drop (p + length (result_enc r)) mem"
    using message_in_place[OF l] .
  show ?thesis
    using m(1-4) rs_Read_enc[OF assms(1) m(5)] unfolding rs_Write_enc length_result_enc by (intro exI[of _ mem']) simp
qed

theorem remote_result_roundtrip_witness:
  "\<exists>mem'. rs_Write sample_remote (replicate 50 0, 3) = Some (mem', 48) \<and> rs_Read (mem', 3) = Some (Some (sample_remote, (mem', 48)))"
proof -
  have "result_ok sample_remote" by (simp add: result_ok_def wire_ok_def sample_remote_def)
  moreover have "rs_EstimateBufferSize sample_remote = 45" by code_simp
  ultimately show ?thesis using remote_result_roundtrip[of sample_remote 3 "replicate 50 0"] by auto
qed

end
