(* ===== verification/Search_Service.thy ===== *)
theory Search_Service
  imports Wire_Format
begin

unbundle bit_operations_syntax

text \<open>
  The messages of the search service: the request that \<^verbatim>\<open>ClientWrapper::SendQueryAsync\<close> builds, the reading and
  dispatch of packets in \<^verbatim>\<open>src/Socket/Connection.cpp\<close>, the server's \<^verbatim>\<open>SearchHanlder\<close> and
  \<^verbatim>\<open>SearchHanlderCallback\<close> (\<^verbatim>\<open>src/Server/SearchService.cpp\<close>) and the client's \<^verbatim>\<open>SearchResponseHanlder\<close>
  (\<^verbatim>\<open>src/Client/ClientWrapper.cpp\<close>).

  A TCP stream is the list of its bytes; sending a packet appends \<^verbatim>\<open>BufferLength()\<close> bytes of its buffer. The handlers that
  the two sides register are outside the connection: a packet for them is an event. \<open>mem\<close> is the content of fresh
  memory, and \<^const>\<open>None\<close> is an access through the null pointer or outside a buffer.
\<close>

subsection \<open>Sending\<close>

definition packet_new :: "PacketHeader \<Rightarrow> Packet" where
  "packet_new h = \<lparr>pk_header = h, pk_buffer = None, pk_capacity = 0\<rparr>"

text \<open>The packet of a query, with the resource under which the callback is kept.\<close>

definition request_packet :: "(nat \<Rightarrow> u8) \<Rightarrow> u32 \<Rightarrow> RemoteQuery \<Rightarrow> Packet option" where
  "request_packet mem rid q =
     (let h = header_new\<lparr>ph_connectionID := c_invalidConnectionID, ph_packetType := SearchRequest,
                ph_processStatus := status_Ok, ph_resourceID := rid, ph_bodyLength := word_of_nat (rq_EstimateBufferSize q)\<rparr>;
          p = pk_AllocateBuffer mem (ph_bodyLength h) (packet_new h) in
      do {
        body \<leftarrow> pk_Body p;
        (b, _) \<leftarrow> rq_Write q body;
        (_, b') \<leftarrow> ph_WriteBuffer h (b, 0);
        Some (p\<lparr>pk_buffer := Some b'\<rparr>) })"

text \<open>A packet without a body.\<close>

definition bare_packet :: "(nat \<Rightarrow> u8) \<Rightarrow> PacketHeader \<Rightarrow> Packet option" where
  "bare_packet mem h =
     (let p = pk_AllocateBuffer mem 0 (packet_new h) in
      do {
        buf \<leftarrow> pk_buffer p;
        (_, b) \<leftarrow> ph_WriteBuffer h (buf, 0);
        Some (p\<lparr>pk_buffer := Some b\<rparr>) })"

definition sent_bytes :: "Packet \<Rightarrow> bytes option" where
  "sent_bytes p = do { b \<leftarrow> pk_buffer p; seg_read b 0 (unat (pk_BufferLength p)) }"

subsection \<open>Receiving\<close>

text \<open>\<^verbatim>\<open>HandleReadHeader\<close> and \<^verbatim>\<open>AsyncReadBody\<close>: sixteen bytes of header, then the body into a fresh buffer. The
  packet \<open>m_packetRead\<close> of the connection is reused.\<close>

datatype receive_result = NeedMore | NullBody | Received Packet bytes

definition receive :: "(nat \<Rightarrow> u8) \<Rightarrow> Packet \<Rightarrow> bytes \<Rightarrow> receive_result" where
  "receive mem m_packetRead stream =
     (case ReadBinary c_bufferSize stream of
        None \<Rightarrow> NeedMore
      | Some (hdr, rest) \<Rightarrow>
          (case ph_ReadBuffer (hdr, 0) of
             None \<Rightarrow> NeedMore
           | Some h \<Rightarrow>
               let p = m_packetRead\<lparr>pk_header := h\<rparr> in
               if ph_bodyLength h > 0 then
                 (let p1 = pk_AllocateBuffer mem (ph_bodyLength h) p in
                  case pk_Body p1 of
                    None \<Rightarrow> NullBody
                  | Some (b, off) \<Rightarrow>
                      (case ReadBinary (unat (ph_bodyLength h)) rest of
                         None \<Rightarrow> NeedMore
                       | Some (body, rest') \<Rightarrow>
                           (case seg_write b off body of
                              None \<Rightarrow> NullBody
                            | Some b' \<Rightarrow> Received (p1\<lparr>pk_buffer := Some b'\<rparr>) rest')))
               else Received p rest))"

subsection \<open>Dispatch\<close>

record Connection =
  co_connectionID :: u32
  co_remoteConnectionID :: u32
  co_packetRead :: Packet

text \<open>What a received packet leads to: a packet sent on this connection, one sent on the connection with the given
  identifier if the manager still has it, or a call of a registered handler.\<close>

datatype event = SendHere Packet | SendTo u32 Packet | Deliver u32 Packet

definition HandleHeartbeatRequest :: "(nat \<Rightarrow> u8) \<Rightarrow> Connection \<Rightarrow> event option" where
  "HandleHeartbeatRequest mem c =
     (let cid = ph_connectionID (pk_header (co_packetRead c));
          h = header_new\<lparr>ph_packetType := HeartbeatResponse, ph_processStatus := status_Ok\<rparr> in
      if 0 = cid \<or> co_connectionID c = cid then map_option SendHere (bare_packet mem h)
      else map_option (SendTo cid) (bare_packet mem (h\<lparr>ph_connectionID := cid\<rparr>)))"

definition HandleRegisterRequest :: "(nat \<Rightarrow> u8) \<Rightarrow> Connection \<Rightarrow> event option" where
  "HandleRegisterRequest mem c =
     map_option SendHere (bare_packet mem (header_new\<lparr>ph_packetType := RegisterResponse, ph_processStatus := status_Ok,
       ph_connectionID := co_connectionID c, ph_resourceID := ph_resourceID (pk_header (co_packetRead c))\<rparr>))"

definition HandleRegisterResponse :: "Connection \<Rightarrow> Connection" where
  "HandleRegisterResponse c = c\<lparr>co_remoteConnectionID := ph_connectionID (pk_header (co_packetRead c))\<rparr>"

definition HandleNoHandlerResponse :: "(nat \<Rightarrow> u8) \<Rightarrow> Connection \<Rightarrow> event list option" where
  "HandleNoHandlerResponse mem c =
     (let h = pk_header (co_packetRead c); packetType = ph_packetType h in
      if \<not> IsRequestPacket packetType then Some []
      else map_option (\<lambda>p. [SendHere p]) (bare_packet mem (header_new\<lparr>
        ph_packetType := GetCrosspondingResponseType packetType, ph_processStatus := status_Dropped,
        ph_connectionID := co_connectionID c, ph_resourceID := ph_resourceID h\<rparr>)))"

text \<open>\<^verbatim>\<open>HandleReadBody\<close> without an error: the connection's own handlers, then the registered one (\<open>registered\<close> are the
  types in \<^verbatim>\<open>c_handlerMap\<close>), to which the packet is moved.\<close>

definition HandleReadBody :: "(nat \<Rightarrow> u8) \<Rightarrow> (u8 \<Rightarrow> bool) \<Rightarrow> Connection \<Rightarrow> (event list \<times> Connection) option" where
  "HandleReadBody mem registered c =
     (let t = ph_packetType (pk_header (co_packetRead c)) in
      do {
        (evs, c1, found) \<leftarrow>
          (if t = HeartbeatRequest then map_option (\<lambda>e. ([e], c, True)) (HandleHeartbeatRequest mem c)
           else if t = HeartbeatResponse then Some ([], c, True)
           else if t = RegisterRequest then map_option (\<lambda>e. ([e], c, True)) (HandleRegisterRequest mem c)
           else if t = RegisterResponse then Some ([], HandleRegisterResponse c, True)
           else Some ([], c, False));
        let (evs2, c2, found2) =
          (if registered t
           then (evs @ [Deliver (co_connectionID c1) (co_packetRead c1)],
                 c1\<lparr>co_packetRead := (co_packetRead c1)\<lparr>pk_buffer := None\<rparr>\<rparr>, True)
           else (evs, c1, found));
        if found2 then Some (evs2, c2)
        else map_option (\<lambda>es. (evs2 @ es, c2)) (HandleNoHandlerResponse mem c2) })"

subsection \<open>The two sides of a search\<close>

text \<open>\<^verbatim>\<open>SearchHanlder\<close>: \<^const>\<open>None\<close> inside when the packet is dropped, otherwise the packet that is kept for the answer and
  the query string that is executed.\<close>

definition SearchHanlder :: "u32 \<Rightarrow> Packet \<Rightarrow> (Packet \<times> bytes) option option" where
  "SearchHanlder p_localConnectionID p_packet =
     (if ph_bodyLength (pk_header p_packet) = 0 then Some None
      else
        (let p = (if c_invalidConnectionID = ph_connectionID (pk_header p_packet)
                  then p_packet\<lparr>pk_header := (pk_header p_packet)\<lparr>ph_connectionID := p_localConnectionID\<rparr>\<rparr> else p_packet) in
         do {
           body \<leftarrow> pk_Body p;
           r \<leftarrow> rq_Read body;
           Some (map_option (\<lambda>(q, _). (p, rq_queryString q)) r) }))"

text \<open>\<^verbatim>\<open>SearchHanlderCallback\<close>: the answer to the packet, on the results of the execution (\<^const>\<open>None\<close> is the null context).\<close>

definition SearchHanlderCallback :: "(nat \<Rightarrow> u8) \<Rightarrow> IndexSearchResult list option \<Rightarrow> Packet \<Rightarrow> Packet option" where
  "SearchHanlderCallback mem p_exeContext p_srcPacket =
     (let h = header_new\<lparr>ph_packetType := SearchResponse, ph_processStatus := status_Ok,
            ph_connectionID := ph_connectionID (pk_header p_srcPacket), ph_resourceID := ph_resourceID (pk_header p_srcPacket)\<rparr> in
      case p_exeContext of
        None \<Rightarrow> bare_packet mem (h\<lparr>ph_processStatus := status_Failed\<rparr>)
      | Some results \<Rightarrow>
          (let remoteResult = \<lparr>rs_status = 0, rs_allIndexResults = results\<rparr>;
               p = pk_AllocateBuffer mem (word_of_nat (rs_EstimateBufferSize remoteResult)) (packet_new h) in
           do {
             body \<leftarrow> pk_Body p;
             (b, bodyEnd) \<leftarrow> rs_Write remoteResult body;
             let h' = h\<lparr>ph_bodyLength := word_of_nat (bodyEnd - snd body)\<rparr>;
             (_, b') \<leftarrow> ph_WriteBuffer h' (b, 0);
             Some (p\<lparr>pk_header := h', pk_buffer := Some b'\<rparr>) }))"

text \<open>\<^verbatim>\<open>SearchResponseHanlder\<close>: what the callback of the request is called with.\<close>

definition status_FailedExecute :: u8 where "status_FailedExecute = 3"
definition status_Timeout :: u8 where "status_Timeout = 1"

definition response_result :: "Packet \<Rightarrow> RemoteSearchResult option" where
  "response_result p =
     (if ph_processStatus (pk_header p) \<noteq> status_Ok \<or> 0 = ph_bodyLength (pk_header p)
      then Some \<lparr>rs_status = status_FailedExecute, rs_allIndexResults = []\<rparr>
      else do {
        body \<leftarrow> pk_Body p;
        r \<leftarrow> rs_Read body;
        Some (case r of None \<Rightarrow> \<lparr>rs_status = status_Timeout, rs_allIndexResults = []\<rparr> | Some (x, _) \<Rightarrow> x) })"

text \<open>A whole exchange: the client sends a query, the server reads it behind whatever its connection read before,
  executes it, and sends the answer, which the client reads. The result is the resource that the answer names and what
  its callback gets.\<close>

definition deliver :: "(nat \<Rightarrow> u8) \<Rightarrow> Packet \<Rightarrow> Packet \<Rightarrow> bytes \<Rightarrow> Packet option" where
  "deliver mem p m_packetRead rest = do {
     bs \<leftarrow> sent_bytes p;
     (case receive mem m_packetRead (bs @ rest) of Received p' r \<Rightarrow> if r = rest then Some p' else None | _ \<Rightarrow> None) }"

definition search_exchange ::
  "(nat \<Rightarrow> u8) \<Rightarrow> (bytes \<Rightarrow> IndexSearchResult list) \<Rightarrow> u32 \<Rightarrow> RemoteQuery \<Rightarrow> u32 \<Rightarrow> Packet \<times> bytes \<Rightarrow> Packet \<times> bytes \<Rightarrow>
     (u8 \<times> u32 \<times> RemoteSearchResult) option" where
  "search_exchange mem exec rid q cid server client = do {
     request \<leftarrow> request_packet mem rid q;
     p \<leftarrow> deliver mem request (fst server) (snd server);
     handled \<leftarrow> SearchHanlder cid p;
     (src, queryString) \<leftarrow> handled;
     answer \<leftarrow> SearchHanlderCallback mem (Some (exec queryString)) src;
     p' \<leftarrow> deliver mem answer (fst client) (snd client);
     r \<leftarrow> response_result p';
     Some (ph_packetType (pk_header p'), ph_resourceID (pk_header p'), r) }"

subsection \<open>Packets on the wire\<close>

definition carries :: "PacketHeader \<Rightarrow> bytes \<Rightarrow> bytes \<Rightarrow> bool" where
  "carries h w b \<longleftrightarrow> (\<exists>pad. length pad = 2 \<and> b = header_enc h @ pad @ w)"

lemma unat_cap: "16 + n < 2 ^ 32 \<Longrightarrow> unat (word_of_nat c_bufferSize + word_of_nat n :: u32) = 16 + n"
proof -
  assume n: "16 + n < 2 ^ 32"
  have "(word_of_nat c_bufferSize + word_of_nat n :: u32) = word_of_nat (16 + n)" by (simp add: c_bufferSize_def)
  then show ?thesis using n by (simp only: unat_of_nat) simp
qed

lemma fill_packet:
  assumes "length b = 16 + length w"
  obtains b1 b2 r where "write_bytes w (b, 16) = Some (b1, 16 + length w)" "ph_WriteBuffer h (b1, 0) = Some (r, b2)" "carries h w b2"
proof -
  have l: "16 + length w \<le> length b" using assms by simp
  obtain b1 where b1: "write_bytes w (b, 16) = Some (b1, 16 + length w)" "length b1 = length b"
    "drop 16 b1 = w @ drop (16 + length w) b" using message_in_place[OF l] by metis
  have d: "drop 16 b1 = w" using b1(3) assms by simp
  have "0 + length (header_enc h) \<le> length b1" using b1(2) assms by (simp add: length_header_enc)
  then obtain b2 where b2: "write_bytes (header_enc h) (b1, 0) = Some (b2, 0 + length (header_enc h))"
    "drop 0 b2 = header_enc h @ drop (0 + length (header_enc h)) b1" using message_in_place by metis
  have "drop 2 (drop 14 b1) = w" using d by simp
  then have "drop 14 b1 = take 2 (drop 14 b1) @ w" using append_take_drop_id[of 2 "drop 14 b1"] by simp
  moreover have "length (take 2 (drop 14 b1)) = 2" using b1(2) assms by simp
  ultimately have "carries h w b2" using b2(2) unfolding carries_def length_header_enc
    by (intro exI[of _ "take 2 (drop 14 b1)"]) simp
  then show thesis using that[OF b1(1) _] b2(1) by (simp add: ph_WriteBuffer_enc)
qed

lemma carries_length: "carries h w b \<Longrightarrow> length b = 16 + length w"
  by (auto simp: carries_def length_header_enc)

lemma carries_body: "carries h w b \<Longrightarrow> drop 16 b = w"
  by (auto simp: carries_def length_header_enc)

lemma sent_carries:
  assumes "carries (pk_header p) w b" "pk_buffer p = Some b" "ph_bodyLength (pk_header p) = word_of_nat (length w)" "16 + length w < 2 ^ 32"
  shows "sent_bytes p = Some b"
  using unat_cap[OF assms(4)] carries_length[OF assms(1)] assms(2,3)
  by (simp add: sent_bytes_def pk_BufferLength_def seg_read_def)

lemma receive_carries:
  assumes "carries h w b" "ph_bodyLength h = word_of_nat (length w)" "16 + length w < 2 ^ 32" "w \<noteq> []"
  obtains p where "receive mem pk (b @ rest) = Received p rest" "pk_header p = h" "\<exists>b'. pk_Body p = Some (b', 16) \<and> drop 16 b' = w"
proof -
  let ?n = "word_of_nat (length w) :: u32"
  let ?p1 = "pk_AllocateBuffer mem ?n (pk\<lparr>pk_header := h\<rparr>)"
  obtain pad where pad: "length pad = 2" "b = header_enc h @ pad @ w" using assms(1) by (auto simp: carries_def)
  have r1: "ReadBinary c_bufferSize (b @ rest) = Some (header_enc h @ pad, w @ rest)"
    using pad ReadBinary_append[of "header_enc h @ pad" 16 "w @ rest"] by (simp add: length_header_enc c_bufferSize_def)
  have h: "ph_ReadBuffer (header_enc h @ pad, 0) = Some h" by (rule ph_ReadBuffer_enc[where rest = pad]) simp
  have n: "unat ?n = length w" "?n > 0" using assms(3,4) by (simp_all add: unat_of_nat word_less_nat_alt)
  have cap: "unat (word_of_nat c_bufferSize + ?n) = 16 + length w" by (rule unat_cap[OF assms(3)])
  let ?b = "map mem [0 ..< 16 + length w]"
  have body: "pk_Body ?p1 = Some (?b, 16)"
    using cap assms(4) by (simp add: pk_Body_def pk_AllocateBuffer_def Let_def c_bufferSize_def)
  have r2: "ReadBinary (length w) (w @ rest) = Some (w, rest)" by simp
  let ?b' = "take 16 ?b @ w"
  have w: "seg_write ?b 16 w = Some ?b'" by (simp add: seg_write_def)
  have "receive mem pk (b @ rest) = Received (?p1\<lparr>pk_buffer := Some ?b'\<rparr>) rest"
    unfolding receive_def r1 using h assms(2) n body r2 w by (simp add: Let_def)
  moreover have "pk_Body (?p1\<lparr>pk_buffer := Some ?b'\<rparr>) = Some (?b', 16)"
    using cap assms(4) by (simp add: pk_Body_def pk_AllocateBuffer_def Let_def c_bufferSize_def)
  moreover have "drop 16 ?b' = w" by simp
  ultimately show thesis using that[of "?p1\<lparr>pk_buffer := Some ?b'\<rparr>"] by (simp add: pk_AllocateBuffer_def Let_def)
qed

lemma deliver_carries:
  assumes "carries (pk_header p) w b" "pk_buffer p = Some b" "ph_bodyLength (pk_header p) = word_of_nat (length w)" "16 + length w < 2 ^ 32" "w \<noteq> []"
  obtains p' where "deliver mem p pk rest = Some p'" "pk_header p' = pk_header p" "\<exists>b'. pk_Body p' = Some (b', 16) \<and> drop 16 b' = w"
proof -
  obtain p' where "receive mem pk (b @ rest) = Received p' rest" "pk_header p' = pk_header p" "\<exists>b'. pk_Body p' = Some (b', 16) \<and> drop 16 b' = w"
    using receive_carries[OF assms(1,3-5)] .
  then show thesis using that[of p'] sent_carries[OF assms(1-4)] by (simp add: deliver_def)
qed

lemma allocated_body:
  assumes "16 + n < 2 ^ 32" "0 < n"
  shows "pk_Body (pk_AllocateBuffer mem (word_of_nat n) (packet_new h)) = Some (map mem [0 ..< 16 + n], 16)"
  using unat_cap[OF assms(1)] assms(2) by (simp add: pk_Body_def pk_AllocateBuffer_def packet_new_def Let_def c_bufferSize_def)

lemma request_packet_carries:
  assumes "16 + rq_EstimateBufferSize q < 2 ^ 32"
  obtains p b where "request_packet mem rid q = Some p" "pk_buffer p = Some b" "carries (pk_header p) (query_enc q) b"
    "ph_bodyLength (pk_header p) = word_of_nat (length (query_enc q))" "ph_resourceID (pk_header p) = rid"
proof -
  let ?n = "length (query_enc q)"
  let ?h = "header_new\<lparr>ph_connectionID := c_invalidConnectionID, ph_packetType := SearchRequest, ph_processStatus := status_Ok,
      ph_resourceID := rid, ph_bodyLength := word_of_nat ?n\<rparr>"
  have n: "16 + ?n < 2 ^ 32" "0 < ?n" using assms by (simp_all add: length_query_enc) (simp add: query_enc_def word_enc_def)
  note b = allocated_body[OF n, of mem ?h]
  have "length (map mem [0 ..< 16 + ?n]) = 16 + ?n" by simp
  then obtain b1 b2 r where w: "write_bytes (query_enc q) (map mem [0 ..< 16 + ?n], 16) = Some (b1, 16 + ?n)"
    "ph_WriteBuffer ?h (b1, 0) = Some (r, b2)" "carries ?h (query_enc q) b2" using fill_packet by metis
  have "request_packet mem rid q = Some ((pk_AllocateBuffer mem (word_of_nat ?n) (packet_new ?h))\<lparr>pk_buffer := Some b2\<rparr>)"
    unfolding request_packet_def length_query_enc Let_def using b w(1,2) by (simp add: rq_Write_enc)
  then show thesis using that[of _ b2] w(3) by (simp add: pk_AllocateBuffer_def Let_def packet_new_def)
qed

lemma answer_packet_carries:
  fixes rs :: "IndexSearchResult list"
  defines "R \<equiv> \<lparr>rs_status = 0, rs_allIndexResults = rs\<rparr>"
  assumes "16 + rs_EstimateBufferSize R < 2 ^ 32"
  obtains p b where "SearchHanlderCallback mem (Some rs) src = Some p" "pk_buffer p = Some b" "carries (pk_header p) (result_enc R) b"
    "ph_bodyLength (pk_header p) = word_of_nat (length (result_enc R))" "ph_resourceID (pk_header p) = ph_resourceID (pk_header src)"
    "ph_packetType (pk_header p) = SearchResponse" "ph_processStatus (pk_header p) = status_Ok"
proof -
  let ?n = "length (result_enc R)"
  let ?hd = "header_new\<lparr>ph_packetType := SearchResponse, ph_processStatus := status_Ok,
            ph_connectionID := ph_connectionID (pk_header src), ph_resourceID := ph_resourceID (pk_header src)\<rparr>"
  let ?h = "?hd\<lparr>ph_bodyLength := word_of_nat ?n\<rparr>"
  have n: "16 + ?n < 2 ^ 32" "0 < ?n" using assms by (simp_all add: length_result_enc) (simp add: result_enc_def word_enc_def)
  note b = allocated_body[OF n, of mem ?hd]
  have "length (map mem [0 ..< 16 + ?n]) = 16 + ?n" by simp
  then obtain b1 b2 r where w: "write_bytes (result_enc R) (map mem [0 ..< 16 + ?n], 16) = Some (b1, 16 + ?n)"
    "ph_WriteBuffer ?h (b1, 0) = Some (r, b2)" "carries ?h (result_enc R) b2" using fill_packet by metis
  have "SearchHanlderCallback mem (Some rs) src =
      Some ((pk_AllocateBuffer mem (word_of_nat ?n) (packet_new ?hd))\<lparr>pk_header := ?h, pk_buffer := Some b2\<rparr>)"
    unfolding SearchHanlderCallback_def length_result_enc Let_def using b w(1,2) unfolding R_def by (simp add: rs_Write_enc)
  then show thesis using that[of _ b2] w(3) by (simp add: pk_AllocateBuffer_def Let_def packet_new_def)
qed

lemma search_exchange_returns:
  fixes exec :: "bytes \<Rightarrow> IndexSearchResult list"
  defines "R \<equiv> \<lambda>q. \<lparr>rs_status = 0, rs_allIndexResults = exec (rq_queryString q)\<rparr>"
  assumes "16 + rq_EstimateBufferSize q < 2 ^ 32" "16 + rs_EstimateBufferSize (R q) < 2 ^ 32" "result_ok (R q)"
  shows "search_exchange mem exec rid q cid server client = Some (SearchResponse, rid, R q)"
proof -
  obtain p b where p: "request_packet mem rid q = Some p" "pk_buffer p = Some b" "carries (pk_header p) (query_enc q) b"
    "ph_bodyLength (pk_header p) = word_of_nat (length (query_enc q))" "ph_resourceID (pk_header p) = rid"
    using request_packet_carries[OF assms(2)] .
  have lq: "16 + length (query_enc q) < 2 ^ 32" using assms(2) by (simp add: length_query_enc)
  have ne: "query_enc q \<noteq> []" "result_enc (R q) \<noteq> []" by (simp_all add: query_enc_def result_enc_def word_enc_def)
  obtain p1 where p1: "deliver mem p (fst server) (snd server) = Some p1" "pk_header p1 = pk_header p"
    "\<exists>b'. pk_Body p1 = Some (b', 16) \<and> drop 16 b' = query_enc q"
    using deliver_carries[OF p(3,2,4) lq ne(1)] .
  obtain b' where b': "pk_Body p1 = Some (b', 16)" "drop 16 b' = query_enc q @ []" using p1(3) by auto
  have sl: "length (rq_queryString q) < 2 ^ 32" using lq by (simp add: query_enc_def string_enc_def)
  have rd: "rq_Read (b', 16) = Some (Some (q, (b', 16 + length (query_enc q))))" by (rule rq_Read_enc[OF sl b'(2)])
  have "unat (word_of_nat (length (query_enc q)) :: u32) = length (query_enc q)" using lq by (simp add: unat_of_nat)
  then have bl: "ph_bodyLength (pk_header p1) \<noteq> 0" using p1(2) p(4) ne(1) by (metis length_0_conv unat_0)
  obtain src where src: "SearchHanlder cid p1 = Some (Some (src, rq_queryString q))" "ph_resourceID (pk_header src) = rid"
  proof -
    have "pk_Body (p1\<lparr>pk_header := h\<rparr>) = pk_Body p1" for h by (simp add: pk_Body_def split: option.split)
    then show thesis using that bl b'(1) rd p1(2) p(5)
      by (cases "c_invalidConnectionID = ph_connectionID (pk_header p1)") (auto simp: SearchHanlder_def Let_def)
  qed
  obtain a ab where a: "SearchHanlderCallback mem (Some (exec (rq_queryString q))) src = Some a" "pk_buffer a = Some ab"
    "carries (pk_header a) (result_enc (R q)) ab" "ph_bodyLength (pk_header a) = word_of_nat (length (result_enc (R q)))"
    "ph_resourceID (pk_header a) = ph_resourceID (pk_header src)" "ph_packetType (pk_header a) = SearchResponse"
    "ph_processStatus (pk_header a) = status_Ok"
    using answer_packet_carries[of "exec (rq_queryString q)" mem src] assms(3) unfolding R_def by metis
  have lr: "16 + length (result_enc (R q)) < 2 ^ 32" using assms(3) by (simp add: length_result_enc)
  obtain p2 where p2: "deliver mem a (fst client) (snd client) = Some p2" "pk_header p2 = pk_header a"
    "\<exists>b'. pk_Body p2 = Some (b', 16) \<and> drop 16 b' = result_enc (R q)"
    using deliver_carries[OF a(3,2,4) lr ne(2)] .
  obtain rb where rb: "pk_Body p2 = Some (rb, 16)" "drop 16 rb = result_enc (R q) @ []" using p2(3) by auto
  have "unat (word_of_nat (length (result_enc (R q))) :: u32) = length (result_enc (R q))" using lr by (simp add: unat_of_nat)
  then have rl: "ph_bodyLength (pk_header p2) \<noteq> 0" using p2(2) a(4) ne(2) by (metis length_0_conv unat_0)
  have "response_result p2 = Some (R q)"
    using rb(1) rl a(7) p2(2) rs_Read_enc[OF assms(4) rb(2)] by (simp add: response_result_def)
  then show ?thesis unfolding search_exchange_def using p(1) p1(1) src a(1,5,6) p2(1,2) by simp
qed

lemma bare_packet_carries:
  obtains p b where "bare_packet mem h = Some p" "pk_header p = h" "pk_buffer p = Some b" "carries h [] b"
proof -
  let ?m = "map mem [0 ..< 16]"
  have "length ?m = 16 + length ([] :: bytes)" by simp
  then obtain b1 b2 r where w: "write_bytes [] (?m, 16) = Some (b1, 16 + length ([] :: bytes))" "ph_WriteBuffer h (b1, 0) = Some (r, b2)"
    "carries h [] b2" by (rule fill_packet)
  have b1: "b1 = ?m" using w(1) by (simp add: write_bytes_def)
  have p: "pk_AllocateBuffer mem 0 (packet_new h) = \<lparr>pk_header = h, pk_buffer = Some ?m, pk_capacity = 16\<rparr>"
    by (simp add: pk_AllocateBuffer_def Let_def packet_new_def c_bufferSize_def)
  have "bare_packet mem h = Some (\<lparr>pk_header = h, pk_buffer = Some b2, pk_capacity = 16\<rparr>)"
    using w(2) unfolding b1 bare_packet_def Let_def p by simp
  then show thesis using that w(3) by simp
qed

lemma bare_packet_some: "\<exists>p. bare_packet mem h = Some p \<and> pk_header p = h"
  by (rule bare_packet_carries[of mem h]) blast

lemma request_types:
  assumes "IsRequestPacket t"
  shows "IsResponsePacket (GetCrosspondingResponseType t)" "t \<noteq> HeartbeatResponse" "t \<noteq> RegisterResponse"
proof -
  have t: "t \<noteq> 0" "t AND 0x80 = 0" using assms by (auto simp: IsRequestPacket_def Undefined_def ResponseMask_def split: if_splits)
  have "(t OR 0x80) AND 0x80 = (0x80 :: u8)" by (simp add: bit_eq_iff bit_simps)
  moreover have "t OR 0x80 \<noteq> 0x80"
  proof
    assume e: "t OR 0x80 = 0x80"
    have "t = (t OR 0x80) AND NOT 0x80 OR (t AND 0x80)" by (auto simp: bit_eq_iff bit_simps)
    also have "\<dots> = 0" unfolding e t(2) by simp
    finally show False using t(1) by simp
  qed
  ultimately show "IsResponsePacket (GetCrosspondingResponseType t)"
    using t by (auto simp: IsResponsePacket_def GetCrosspondingResponseType_def Undefined_def ResponseMask_def or_eq_0_iff)
  show "t \<noteq> HeartbeatResponse" "t \<noteq> RegisterResponse"
    using t(2) by (auto simp: HeartbeatResponse_def RegisterResponse_def ResponseMask_def HeartbeatRequest_def RegisterRequest_def)
qed

lemma dropped_response:
  assumes "IsRequestPacket (ph_packetType (pk_header (co_packetRead c)))"
  shows "\<exists>p. HandleNoHandlerResponse mem c = Some [SendHere p] \<and>
    pk_header p = header_new\<lparr>ph_packetType := GetCrosspondingResponseType (ph_packetType (pk_header (co_packetRead c))),
       ph_processStatus := status_Dropped, ph_connectionID := co_connectionID c, ph_resourceID := ph_resourceID (pk_header (co_packetRead c))\<rparr>"
proof -
  let ?h = "header_new\<lparr>ph_packetType := GetCrosspondingResponseType (ph_packetType (pk_header (co_packetRead c))),
       ph_processStatus := status_Dropped, ph_connectionID := co_connectionID c, ph_resourceID := ph_resourceID (pk_header (co_packetRead c))\<rparr>"
  obtain p where "bare_packet mem ?h = Some p" "pk_header p = ?h" using bare_packet_some by blast
  then show ?thesis using assms by (simp add: HandleNoHandlerResponse_def Let_def)
qed

lemma own_requests:
  "\<exists>e. HandleHeartbeatRequest mem c = Some e" "\<exists>e. HandleRegisterRequest mem c = Some e"
proof -
  have b: "\<exists>p. bare_packet mem h = Some p" for h using bare_packet_some by blast
  show "\<exists>e. HandleHeartbeatRequest mem c = Some e"
    unfolding HandleHeartbeatRequest_def Let_def
    using b[of "header_new\<lparr>ph_packetType := HeartbeatResponse, ph_processStatus := status_Ok\<rparr>"]
      b[of "header_new\<lparr>ph_packetType := HeartbeatResponse, ph_processStatus := status_Ok, ph_connectionID := ph_connectionID (pk_header (co_packetRead c))\<rparr>"]
    by (elim exE) simp
  show "\<exists>e. HandleRegisterRequest mem c = Some e"
    unfolding HandleRegisterRequest_def using b by (simp add: option.map_disc_iff flip: not_None_eq)
qed

subsection \<open>Properties\<close>

text \<open>C4. A query reaches the server and its results the client: for every query and every result whose messages fit
  into a packet, the exchange succeeds, whatever the two connections have read before and whatever follows in their
  streams; the server executes exactly the query string that was sent, and the client gets exactly the results,
  under the resource of its request.\<close>

theorem search_exchange_complete:
  assumes "16 + rq_EstimateBufferSize q < 2 ^ 32" "16 + rs_EstimateBufferSize \<lparr>rs_status = 0, rs_allIndexResults = exec (rq_queryString q)\<rparr> < 2 ^ 32"
    and "result_ok \<lparr>rs_status = 0, rs_allIndexResults = exec (rq_queryString q)\<rparr>"
  shows "search_exchange mem exec rid q cid server client =
     Some (SearchResponse, rid, \<lparr>rs_status = 0, rs_allIndexResults = exec (rq_queryString q)\<rparr>)"
  using search_exchange_returns[of q exec] assms by simp

theorem search_exchange_complete_witness:
  "search_exchange (\<lambda>_. 0) (\<lambda>_. rs_allIndexResults sample_remote) 9 \<lparr>rq_type = 0, rq_queryString = [0x31, 0x7c, 0x32]\<rparr> 1
     (packet_new header_new, [5]) (packet_new header_new, []) = Some (SearchResponse, 9, sample_remote)"
proof -
  have r: "\<lparr>rs_status = 0, rs_allIndexResults = rs_allIndexResults sample_remote\<rparr> = sample_remote" by (simp add: sample_remote_def)
  have e: "rs_EstimateBufferSize sample_remote = 45" "rq_EstimateBufferSize \<lparr>rq_type = 0, rq_queryString = [0x31, 0x7c, 0x32]\<rparr> = 12"
    by code_simp+
  have "result_ok sample_remote" by (simp add: result_ok_def wire_ok_def sample_remote_def)
  then show ?thesis
    using search_exchange_complete[of "\<lparr>rq_type = 0, rq_queryString = [0x31, 0x7c, 0x32]\<rparr>" "\<lambda>_. rs_allIndexResults sample_remote"] e r
    by simp
qed



text \<open>The length of a body is not checked: for a header that announces a body of \<open>2 ^ 32 - 16\<close> bytes or more, the
  capacity of the buffer wraps around, \<^verbatim>\<open>Body()\<close> is the null pointer, and the connection reads the body through it.\<close>

theorem packet_length_overflow:
  assumes "2 ^ 32 \<le> 16 + unat (ph_bodyLength h)" "length pad = 2"
  shows "receive mem pk (header_enc h @ pad @ rest) = NullBody"
proof -
  let ?n = "ph_bodyLength h"
  have r: "ReadBinary c_bufferSize ((header_enc h @ pad) @ rest) = Some (header_enc h @ pad, rest)"
    by (rule ReadBinary_append) (simp add: length_header_enc assms(2) c_bufferSize_def)
  have h: "ph_ReadBuffer (header_enc h @ pad, 0) = Some h" by (rule ph_ReadBuffer_enc[where rest = pad]) simp
  have "unat (word_of_nat c_bufferSize + ?n) = (16 + unat ?n) mod 2 ^ 32" by (simp add: unat_word_ariths c_bufferSize_def)
  also have "\<dots> = 16 + unat ?n - 2 ^ 32" using assms(1) unsigned_less[of ?n, where 'a = nat] by (subst mod_if) simp
  finally have "\<not> c_bufferSize < unat (word_of_nat c_bufferSize + ?n)" using unsigned_less[of ?n, where 'a = nat] by (simp add: c_bufferSize_def)
  then have "pk_Body (pk_AllocateBuffer mem ?n p) = None" for p by (simp add: pk_Body_def pk_AllocateBuffer_def Let_def)
  moreover have "?n > 0" using assms(1) by (simp add: word_less_nat_alt)
  ultimately show ?thesis using r h by (simp add: receive_def Let_def)
qed

theorem packet_length_overflow_witness:
  "receive (\<lambda>_. 0) (packet_new header_new) (header_enc (header_new\<lparr>ph_bodyLength := 0xFFFFFFFF\<rparr>) @ [0, 0] @ [1, 2, 3]) = NullBody"
  using packet_length_overflow[of "header_new\<lparr>ph_bodyLength := 0xFFFFFFFF\<rparr>" "[0, 0]"] by simp

end
