(* ===== verification/Client_Requests.thy ===== *)
theory Client_Requests
  imports Search_Service
begin

unbundle bit_operations_syntax

text \<open>
  The client of the search service: the table of pending requests (\<^verbatim>\<open>inc/Socket/ResourceManager.h\<close>) and the requests
  themselves (\<^verbatim>\<open>src/Client/ClientWrapper.cpp\<close>).

  A callback is a number; the calls that were made, with their results, are kept in the state. The code runs in
  several threads: the callers of \<^verbatim>\<open>SendQueryAsync\<close>, the socket threads that deliver responses and the outcome of a
  transmission, and the thread that looks for expired requests. Each entry of the code into the client is one step
  here; the loop of the timeout thread takes a step for its search and one for each expired request, so
  responses may come in between. A moment is a number of milliseconds, and a run of the timeout thread reads the clock
  once for each request it looks at.
\<close>

subsection \<open>The table of resources\<close>

record ResourceItem =
  it_resourceID :: u32
  it_expireTime :: nat

record 'r ResourceManager =
  rm_nextResourceID :: u32
  rm_resources :: "u32 \<rightharpoonup> 'r"
  rm_timeoutList :: "ResourceItem list"
  rm_timeoutItemCount :: u32

definition rm_new :: "'r ResourceManager" where
  "rm_new = \<lparr>rm_nextResourceID = 1, rm_resources = Map.empty, rm_timeoutList = [], rm_timeoutItemCount = 0\<rparr>"

text \<open>The loop over \<^verbatim>\<open>fetch_add\<close> that skips the invalid identifier: the identifier and the next value.\<close>

function fetch_rid :: "u32 \<Rightarrow> u32 \<times> u32" where
  "fetch_rid n = (if c_invalidResourceID = n then fetch_rid (n + 1) else (n, n + 1))"
  by pat_completeness auto
termination by (relation "measure (\<lambda>n. if n = 0 then 1 else 0)") (auto simp: c_invalidResourceID_def)

declare fetch_rid.simps [simp del]

text \<open>\<^verbatim>\<open>emplace\<close> keeps an entry that is there already.\<close>

definition rm_Add :: "'r \<Rightarrow> u32 \<Rightarrow> nat \<Rightarrow> 'r ResourceManager \<Rightarrow> u32 \<times> 'r ResourceManager" where
  "rm_Add p_resource p_timeoutMilliseconds now m =
     (case fetch_rid (rm_nextResourceID m) of (rid, nx) \<Rightarrow>
      let m1 = m\<lparr>rm_nextResourceID := nx,
                 rm_resources := (if rm_resources m rid = None then (rm_resources m)(rid \<mapsto> p_resource) else rm_resources m)\<rparr> in
      (rid,
       if p_timeoutMilliseconds > 0
       then m1\<lparr>rm_timeoutList := rm_timeoutList m1 @ [\<lparr>it_resourceID = rid, it_expireTime = now + unat p_timeoutMilliseconds\<rparr>],
               rm_timeoutItemCount := rm_timeoutItemCount m1 + 1\<rparr>
       else m1))"

definition rm_GetAndRemove :: "u32 \<Rightarrow> 'r ResourceManager \<Rightarrow> 'r option \<times> 'r ResourceManager" where
  "rm_GetAndRemove rid m = (rm_resources m rid, m\<lparr>rm_resources := (rm_resources m)(rid := None)\<rparr>)"

definition rm_Remove :: "u32 \<Rightarrow> 'r ResourceManager \<Rightarrow> 'r ResourceManager" where
  "rm_Remove rid m = m\<lparr>rm_resources := (rm_resources m)(rid := None)\<rparr>"

text \<open>The inner loop of \<^verbatim>\<open>StartCheckTimeout\<close>: the items at the front of the list that have expired.\<close>

fun take_expired :: "(nat \<Rightarrow> nat) \<Rightarrow> ResourceItem list \<Rightarrow> ResourceItem list \<times> ResourceItem list" where
  "take_expired clock [] = ([], [])"
| "take_expired clock (it # its) =
     (if it_expireTime it \<le> clock 0
      then (case take_expired (\<lambda>k. clock (Suc k)) its of (out, rest) \<Rightarrow> (it # out, rest))
      else ([], it # its))"

definition rm_check :: "(nat \<Rightarrow> nat) \<Rightarrow> 'r ResourceManager \<Rightarrow> ResourceItem list \<times> 'r ResourceManager" where
  "rm_check clock m =
     (if rm_timeoutItemCount m > 0
      then (case take_expired clock (rm_timeoutList m) of (out, rest) \<Rightarrow>
              (out, m\<lparr>rm_timeoutList := rest, rm_timeoutItemCount := rm_timeoutItemCount m - word_of_nat (length out)\<rparr>))
      else ([], m))"

subsection \<open>The client\<close>

text \<open>Beside its members: the expired requests that the timeout thread still has to serve, the transmissions that
  have not ended, and the calls of callbacks so far.\<close>

record ClientWrapper =
  cw_callbackManager :: "nat ResourceManager"
  cw_unfinishedJobCount :: u32
  cw_isWaitingFinish :: bool
  cw_connections :: "(u32 \<times> u32) list"
  cw_spinCount :: u32
  cw_timeouted :: "ResourceItem list"
  cw_sending :: "(u32 \<times> Packet \<times> nat) list"
  cw_called :: "(nat \<times> RemoteSearchResult) list"

definition client_new :: "(u32 \<times> u32) list \<Rightarrow> u32 \<Rightarrow> ClientWrapper" where
  "client_new conns spin = \<lparr>cw_callbackManager = rm_new, cw_unfinishedJobCount = 0, cw_isWaitingFinish = False, cw_connections = conns,
     cw_spinCount = spin, cw_timeouted = [], cw_sending = [], cw_called = []\<rparr>"

definition status_FailedNetwork :: u8 where "status_FailedNetwork = 2"

definition call_back :: "nat \<Rightarrow> RemoteSearchResult \<Rightarrow> ClientWrapper \<Rightarrow> ClientWrapper" where
  "call_back cb r s = s\<lparr>cw_called := cw_called s @ [(cb, r)]\<rparr>"

definition DecreaseUnfnishedJobCount :: "ClientWrapper \<Rightarrow> ClientWrapper" where
  "DecreaseUnfnishedJobCount s =
     (let s1 = s\<lparr>cw_unfinishedJobCount := cw_unfinishedJobCount s - 1\<rparr> in
      if 0 = cw_unfinishedJobCount s1 \<and> cw_isWaitingFinish s1 then s1\<lparr>cw_isWaitingFinish := False\<rparr> else s1)"

text \<open>\<^verbatim>\<open>WaitAllFinished\<close> up to the point where it waits.\<close>

definition WaitAllFinished :: "ClientWrapper \<Rightarrow> ClientWrapper" where
  "WaitAllFinished s = (if cw_unfinishedJobCount s > 0 then s\<lparr>cw_isWaitingFinish := True\<rparr> else s)"

text \<open>The search for a live connection: \<open>tries\<close> is what \<^verbatim>\<open>triedCount\<close> leaves. \<^const>\<open>None\<close>: there are no connections, and the
  remainder by zero is taken.\<close>

fun spin_connection :: "(u32 \<times> u32) list \<Rightarrow> nat \<Rightarrow> u32 \<Rightarrow> nat \<times> u32" where
  "spin_connection conns tries spin =
     (let pos = unat spin mod length conns in
      if c_invalidConnectionID = fst (conns ! pos) \<and> 0 < tries then spin_connection conns (tries - 1) (spin + 1)
      else (pos, spin + 1))"

declare spin_connection.simps [simp del]

definition GetConnection :: "ClientWrapper \<Rightarrow> ((u32 \<times> u32) \<times> ClientWrapper) option" where
  "GetConnection s =
     (let conns = cw_connections s in
      if length conns = 1 then Some (hd conns, s)
      else if conns = [] then None
      else (case spin_connection conns (length conns) (cw_spinCount s) of (pos, spin) \<Rightarrow> Some (conns ! pos, s\<lparr>cw_spinCount := spin\<rparr>)))"

definition SendQueryAsync :: "(nat \<Rightarrow> u8) \<Rightarrow> RemoteQuery \<Rightarrow> nat option \<Rightarrow> u32 \<Rightarrow> nat \<Rightarrow> ClientWrapper \<Rightarrow> ClientWrapper option" where
  "SendQueryAsync mem p_query p_callback m_searchTimeout now s =
     (case p_callback of
        None \<Rightarrow> Some s
      | Some cb \<Rightarrow> do {
          (conn, s1) \<leftarrow> GetConnection s;
          let (rid, m) = rm_Add cb m_searchTimeout now (cw_callbackManager s1);
          packet \<leftarrow> request_packet mem rid p_query;
          Some (s1\<lparr>cw_callbackManager := m, cw_unfinishedJobCount := cw_unfinishedJobCount s1 + 1,
                   cw_sending := cw_sending s1 @ [(fst conn, packet, cb)]\<rparr>) })"

text \<open>\<^verbatim>\<open>connectCallback\<close>, when the transmission \<open>i\<close> ends.\<close>

definition connectCallback :: "nat \<Rightarrow> bool \<Rightarrow> ClientWrapper \<Rightarrow> ClientWrapper" where
  "connectCallback i p_connectSucc s =
     (let s1 = s\<lparr>cw_sending := take i (cw_sending s) @ drop (i + 1) (cw_sending s)\<rparr> in
      if \<not> p_connectSucc
      then DecreaseUnfnishedJobCount (call_back (snd (snd (cw_sending s ! i))) \<lparr>rs_status = status_FailedNetwork, rs_allIndexResults = []\<rparr> s1)
      else s1)"

definition SearchResponseHanlder :: "Packet \<Rightarrow> ClientWrapper \<Rightarrow> ClientWrapper option" where
  "SearchResponseHanlder p_packet s =
     (case rm_GetAndRemove (ph_resourceID (pk_header p_packet)) (cw_callbackManager s) of (callback, m) \<Rightarrow>
      let s1 = s\<lparr>cw_callbackManager := m\<rparr> in
      case callback of
        None \<Rightarrow> Some s1
      | Some cb \<Rightarrow> do { r \<leftarrow> response_result p_packet; Some (DecreaseUnfnishedJobCount (call_back cb r s1)) })"

definition timeoutCallback :: "nat \<Rightarrow> ClientWrapper \<Rightarrow> ClientWrapper" where
  "timeoutCallback cb s = call_back cb \<lparr>rs_status = status_Timeout, rs_allIndexResults = []\<rparr> (DecreaseUnfnishedJobCount s)"

text \<open>The thread of \<^verbatim>\<open>StartCheckTimeout\<close>: its search, when it has served all it found before, and serving one item.\<close>

definition check_timeouts :: "(nat \<Rightarrow> nat) \<Rightarrow> ClientWrapper \<Rightarrow> ClientWrapper" where
  "check_timeouts clock s = (case rm_check clock (cw_callbackManager s) of (out, m) \<Rightarrow> s\<lparr>cw_callbackManager := m, cw_timeouted := out\<rparr>)"

definition serve_timeout :: "ClientWrapper \<Rightarrow> ClientWrapper" where
  "serve_timeout s =
     (case cw_timeouted s of
        [] \<Rightarrow> s
      | it # its \<Rightarrow>
          (case rm_GetAndRemove (it_resourceID it) (cw_callbackManager s) of (resource, m) \<Rightarrow>
           let s1 = s\<lparr>cw_callbackManager := m, cw_timeouted := its\<rparr> in
           case resource of None \<Rightarrow> s1 | Some cb \<Rightarrow> timeoutCallback cb s1))"

text \<open>The handler of a register response: the remote identifier of the first connection with this local one.\<close>

fun set_remote :: "u32 \<Rightarrow> u32 \<Rightarrow> (u32 \<times> u32) list \<Rightarrow> (u32 \<times> u32) list" where
  "set_remote cid remote [] = []"
| "set_remote cid remote (c # cs) = (if fst c = cid then (fst c, remote) # cs else c # set_remote cid remote cs)"

text \<open>\<^verbatim>\<open>HandleDeadConnection\<close>; \<open>outcomes\<close> are what the calls of \<^verbatim>\<open>ConnectToServer\<close> return: an identifier, and whether the address
  could not be resolved. \<^const>\<open>None\<close>: it is still trying.\<close>

fun reconnect :: "(u32 \<times> bool) list \<Rightarrow> u32 option" where
  "reconnect [] = None"
| "reconnect ((cid, failedResolve) # outcomes) =
     (if failedResolve then Some cid else if c_invalidConnectionID = cid then reconnect outcomes else Some cid)"

fun HandleDeadConnection :: "u32 \<Rightarrow> (u32 \<times> bool) list \<Rightarrow> (u32 \<times> u32) list \<Rightarrow> (u32 \<times> u32) list option" where
  "HandleDeadConnection p_cid outcomes [] = Some []"
| "HandleDeadConnection p_cid outcomes (c # cs) =
     (if fst c = p_cid then map_option (\<lambda>cid. (cid, c_invalidConnectionID) # cs) (reconnect outcomes)
      else map_option ((#) c) (HandleDeadConnection p_cid outcomes cs))"

subsection \<open>Runs\<close>

datatype client_event =
    Send RemoteQuery "nat option" u32 nat
  | Sent nat bool
  | Response Packet
  | CheckTimeouts "nat \<Rightarrow> nat"
  | ServeTimeout
  | WaitFinished
  | Registered u32 Packet
  | Dead u32 "(u32 \<times> bool) list"

inductive client_step :: "(nat \<Rightarrow> u8) \<Rightarrow> ClientWrapper \<Rightarrow> client_event \<Rightarrow> ClientWrapper \<Rightarrow> bool" for mem where
  send: "SendQueryAsync mem q cb t now s = Some s' \<Longrightarrow> client_step mem s (Send q cb t now) s'"
| sent: "i < length (cw_sending s) \<Longrightarrow> client_step mem s (Sent i ok) (connectCallback i ok s)"
| response: "SearchResponseHanlder p s = Some s' \<Longrightarrow> client_step mem s (Response p) s'"
| check: "cw_timeouted s = [] \<Longrightarrow> client_step mem s (CheckTimeouts clock) (check_timeouts clock s)"
| serve: "cw_timeouted s \<noteq> [] \<Longrightarrow> client_step mem s ServeTimeout (serve_timeout s)"
| wait: "client_step mem s WaitFinished (WaitAllFinished s)"
| registered: "client_step mem s (Registered cid p)
    (s\<lparr>cw_connections := set_remote cid (ph_connectionID (pk_header p)) (cw_connections s)\<rparr>)"
| dead: "HandleDeadConnection cid outcomes (cw_connections s) = Some conns \<Longrightarrow>
    client_step mem s (Dead cid outcomes) (s\<lparr>cw_connections := conns\<rparr>)"

inductive client_run :: "(nat \<Rightarrow> u8) \<Rightarrow> ClientWrapper \<Rightarrow> client_event list \<Rightarrow> ClientWrapper \<Rightarrow> bool" for mem where
  stop: "client_run mem s [] s"
| step: "client_run mem s es s' \<Longrightarrow> client_step mem s' e s'' \<Longrightarrow> client_run mem s (es @ [e]) s''"

text \<open>The callbacks of the requests of a run, in order.\<close>

fun requests :: "client_event list \<Rightarrow> nat list" where
  "requests [] = []"
| "requests (Send q (Some cb) t now # es) = cb # requests es"
| "requests (e # es) = requests es"

definition transmitted :: "client_event list \<Rightarrow> bool" where
  "transmitted es \<longleftrightarrow> (\<forall>i. Sent i False \<notin> set es)"

definition pending :: "ClientWrapper \<Rightarrow> u32 \<rightharpoonup> nat" where
  "pending s = rm_resources (cw_callbackManager s)"


subsection \<open>The invariant of a run without failed transmissions\<close>

text \<open>\<open>cbs\<close> are the callbacks of the requests so far and \<open>done\<close> those that were called.\<close>

definition requests_inv :: "u32 \<Rightarrow> (u32 \<rightharpoonup> nat) \<Rightarrow> u32 \<Rightarrow> bool \<Rightarrow> nat list \<Rightarrow> nat list \<Rightarrow> bool" where
  "requests_inv nx pend unfinished waiting called cbs \<longleftrightarrow>
     nx = word_of_nat (length cbs + 1) \<and> dom pend \<subseteq> word_of_nat ` {1 .. length cbs} \<and>
     unfinished = word_of_nat (card (dom pend)) \<and> inj_on pend (dom pend) \<and> distinct called \<and>
     ran pend \<inter> set called = {} \<and> ran pend \<union> set called = set cbs \<and> (waiting \<longrightarrow> dom pend \<noteq> {})"

abbreviation client_inv :: "ClientWrapper \<Rightarrow> nat list \<Rightarrow> bool" where
  "client_inv s cbs \<equiv> requests_inv (rm_nextResourceID (cw_callbackManager s)) (pending s) (cw_unfinishedJobCount s)
     (cw_isWaitingFinish s) (map fst (cw_called s)) cbs"

lemma requests_inv_finite: "requests_inv nx pend u w d cbs \<Longrightarrow> finite (dom pend) \<and> card (dom pend) \<le> length cbs"
proof -
  assume "requests_inv nx pend u w d cbs"
  then have sub: "dom pend \<subseteq> word_of_nat ` {1 .. length cbs}" by (simp add: requests_inv_def)
  have "card (dom pend) \<le> card (word_of_nat ` {1 .. length cbs} :: u32 set)" using sub by (intro card_mono) simp_all
  also have "\<dots> \<le> length cbs" using card_image_le[of "{1 .. length cbs}" word_of_nat] by simp
  finally show ?thesis using sub finite_subset by blast
qed

lemma word_of_nat_inj: "m < 2 ^ 32 \<Longrightarrow> n < 2 ^ 32 \<Longrightarrow> (word_of_nat m :: u32) = word_of_nat n \<longleftrightarrow> m = n"
proof -
  assume "m < 2 ^ 32" "n < 2 ^ 32"
  then have "unat (word_of_nat m :: u32) = m" "unat (word_of_nat n :: u32) = n" by (simp_all add: unat_of_nat)
  then show ?thesis by metis
qed

lemma fresh_rid:
  assumes "requests_inv nx pend u w d cbs" "length cbs + 1 < 2 ^ 32"
  shows "fetch_rid nx = (nx, nx + 1)" "pend nx = None"
proof -
  have nx: "nx = word_of_nat (length cbs + 1)" using assms(1) by (simp add: requests_inv_def)
  have "nx \<noteq> 0" using word_of_nat_inj[of "length cbs + 1" 0] assms(2) unfolding nx by simp
  then show "fetch_rid nx = (nx, nx + 1)" by (simp add: fetch_rid.simps[of nx] c_invalidResourceID_def)
  have "nx \<notin> word_of_nat ` {1 .. length cbs}"
  proof
    assume "nx \<in> word_of_nat ` {1 .. length cbs}"
    then obtain k where "k \<le> length cbs" "nx = word_of_nat k" by auto
    then show False using word_of_nat_inj[of "length cbs + 1" k] assms(2) unfolding nx by simp
  qed
  then show "pend nx = None" using assms(1) by (auto simp: requests_inv_def)
qed

lemma requests_inv_add:
  assumes "requests_inv nx pend u w d cbs" "length cbs + 1 < 2 ^ 32" "cb \<notin> set cbs"
  shows "requests_inv (nx + 1) (pend(nx \<mapsto> cb)) (u + 1) w d (cbs @ [cb])"
proof -
  note n = fresh_rid(2)[OF assms(1,2)]
  note i = assms(1)[unfolded requests_inv_def]
  have fin: "finite (dom pend)" using requests_inv_finite[OF assms(1)] by simp
  have d: "nx \<notin> dom pend" using n by auto
  have c: "card (dom (pend(nx \<mapsto> cb))) = Suc (card (dom pend))" using fin d by simp
  have e: "dom (pend(nx \<mapsto> cb)) = insert nx (dom pend)" by simp
  have sub: "dom (pend(nx \<mapsto> cb)) \<subseteq> word_of_nat ` {1 .. length (cbs @ [cb])}"
  proof -
    have "nx \<in> word_of_nat ` {1 .. length (cbs @ [cb])}" using i by (intro image_eqI[of _ _ "length cbs + 1"]) simp_all
    moreover have "word_of_nat ` {1 .. length cbs} \<subseteq> (word_of_nat ` {1 .. length (cbs @ [cb])} :: u32 set)" by (intro image_mono) simp
    moreover have "dom pend \<subseteq> word_of_nat ` {1 .. length cbs}" using i by blast
    ultimately show ?thesis unfolding e insert_subset by (intro conjI) (assumption, rule subset_trans)
  qed
  have r: "ran (pend(nx \<mapsto> cb)) = insert cb (ran pend)" using n by simp
  have "cb \<notin> ran pend" using i assms(3) by blast
  then have "pend x \<noteq> Some cb" for x by (auto intro: ranI)
  moreover have "inj_on pend (dom pend)" using i by blast
  ultimately have "inj_on (pend(nx \<mapsto> cb)) (dom (pend(nx \<mapsto> cb)))" unfolding e using d by (auto simp: inj_on_def)
  moreover have "insert cb (ran pend) \<inter> set d = {}" "insert cb (ran pend) \<union> set d = set (cbs @ [cb])" using i assms(3) by auto
  ultimately show ?thesis unfolding requests_inv_def c r using i sub by (simp del: dom_fun_upd add: ac_simps)
qed

lemma requests_inv_finish:
  assumes "requests_inv nx pend u w d cbs" "pend rid = Some cb" "length cbs < 2 ^ 32"
  shows "requests_inv nx (pend(rid := None)) (u - 1) (if u - 1 = 0 then False else w) (d @ [cb]) cbs"
proof -
  note i = assms(1)[unfolded requests_inv_def]
  have fin: "finite (dom pend)" "card (dom pend) \<le> length cbs" using requests_inv_finite[OF assms(1)] by simp_all
  have rid: "rid \<in> dom pend" using assms(2) by auto
  have c: "card (dom pend) = Suc (card (dom pend - {rid}))" using fin(1) rid by (metis card.remove)
  have u: "u - 1 = word_of_nat (card (dom pend - {rid}))" using i c by simp
  have z: "u - 1 = 0 \<longleftrightarrow> dom pend - {rid} = {}"
    using word_of_nat_inj[of "card (dom pend - {rid})" 0] c fin assms(3) unfolding u by (simp add: card_eq_0_iff)
  have "ran pend = insert cb (ran (pend(rid := None)))"
    using assms(2) by (auto simp: ran_def) (metis option.inject)
  moreover have "cb \<notin> ran (pend(rid := None))"
  proof
    assume "cb \<in> ran (pend(rid := None))"
    then obtain k where "k \<noteq> rid" "pend k = Some cb" by (auto simp: ran_def split: if_splits)
    then have "k = rid" using i assms(2) inj_onD[of pend "dom pend" k rid] by (simp add: domI)
    with \<open>k \<noteq> rid\<close> show False by simp
  qed
  ultimately have r: "ran pend = insert cb (ran (pend(rid := None)))" "cb \<notin> ran (pend(rid := None))" .
  have "inj_on (pend(rid := None)) (dom pend - {rid})" using i by (auto simp: inj_on_def)
  moreover have "(if u - 1 = 0 then False else w) \<longrightarrow> dom pend - {rid} \<noteq> {}" using z by simp
  moreover have "dom (pend(rid := None)) = dom pend - {rid}" by simp
  moreover have "distinct (d @ [cb])" "ran (pend(rid := None)) \<inter> set (d @ [cb]) = {}" "ran (pend(rid := None)) \<union> set (d @ [cb]) = set cbs"
    using i r by auto
  moreover have "dom pend - {rid} \<subseteq> word_of_nat ` {1 .. length cbs}" using i by blast
  ultimately show ?thesis unfolding requests_inv_def using i u by presburger
qed

lemma requests_inv_none: "requests_inv nx pend u w d cbs \<Longrightarrow> pend rid = None \<Longrightarrow> requests_inv nx (pend(rid := None)) u w d cbs"
  by (simp add: fun_upd_idem)

subsection \<open>Steps\<close>

lemmas client_defs = pending_def call_back_def rm_GetAndRemove_def

lemma Decrease_simps [simp]:
  "cw_unfinishedJobCount (DecreaseUnfnishedJobCount s) = cw_unfinishedJobCount s - 1"
  "cw_isWaitingFinish (DecreaseUnfnishedJobCount s) = (if cw_unfinishedJobCount s - 1 = 0 then False else cw_isWaitingFinish s)"
  "cw_callbackManager (DecreaseUnfnishedJobCount s) = cw_callbackManager s"
  "cw_called (DecreaseUnfnishedJobCount s) = cw_called s" "cw_timeouted (DecreaseUnfnishedJobCount s) = cw_timeouted s"
  "cw_sending (DecreaseUnfnishedJobCount s) = cw_sending s"
  by (auto simp: DecreaseUnfnishedJobCount_def Let_def)

text \<open>The transitions of the invariant's view of the client: a request is added, or a pending one is called.\<close>

lemma GetConnection_same:
  "GetConnection s = Some (conn, s') \<Longrightarrow> s' = s\<lparr>cw_spinCount := cw_spinCount s'\<rparr>"
  by (auto simp: GetConnection_def Let_def split: if_splits prod.splits)

lemma send_inv:
  assumes "client_inv s cbs" "length cbs + 1 < 2 ^ 32" "cb \<notin> set cbs" "SendQueryAsync mem q (Some cb) t now s = Some s'"
  shows "client_inv s' (cbs @ [cb])"
proof -
  obtain conn s1 where g: "GetConnection s = Some (conn, s1)" using assms(4) by (auto simp: SendQueryAsync_def split: bind_splits)
  obtain k where s1: "s1 = s\<lparr>cw_spinCount := k\<rparr>" using GetConnection_same[OF g] by blast
  obtain m where a: "rm_Add cb t now (cw_callbackManager s) = (rm_nextResourceID (cw_callbackManager s), m)"
    "rm_nextResourceID m = rm_nextResourceID (cw_callbackManager s) + 1"
    "rm_resources m = (pending s)(rm_nextResourceID (cw_callbackManager s) \<mapsto> cb)"
    using fresh_rid[OF assms(1,2)] by (simp add: rm_Add_def Let_def pending_def)
  obtain sd where "s' = s\<lparr>cw_spinCount := k, cw_callbackManager := m, cw_unfinishedJobCount := cw_unfinishedJobCount s + 1, cw_sending := sd\<rparr>"
    using assms(4) g a(1) unfolding s1 by (auto simp: SendQueryAsync_def split: bind_splits)
  then have "pending s' = rm_resources m" "rm_nextResourceID (cw_callbackManager s') = rm_nextResourceID m"
    "cw_unfinishedJobCount s' = cw_unfinishedJobCount s + 1" "cw_isWaitingFinish s' = cw_isWaitingFinish s" "cw_called s' = cw_called s"
    by (simp_all add: pending_def)
  then show ?thesis using requests_inv_add[OF assms(1-3)] a(2,3) by simp
qed

lemma finish_inv:
  assumes "client_inv s cbs" "pending s rid = Some cb" "length cbs < 2 ^ 32"
    and "pending s' = (pending s)(rid := None)" "rm_nextResourceID (cw_callbackManager s') = rm_nextResourceID (cw_callbackManager s)"
    and "cw_unfinishedJobCount s' = cw_unfinishedJobCount s - 1"
    and "cw_isWaitingFinish s' = (if cw_unfinishedJobCount s - 1 = 0 then False else cw_isWaitingFinish s)"
    and "map fst (cw_called s') = map fst (cw_called s) @ [cb]"
  shows "client_inv s' cbs"
  using requests_inv_finish[OF assms(1-3)] by (simp only: assms(4-8))

lemma client_step_inv:
  assumes "client_step mem s e s'" "client_inv s cbs" "length (cbs @ requests [e]) < 2 ^ 32" "distinct (cbs @ requests [e])" "\<forall>i. e \<noteq> Sent i False"
  shows "client_inv s' (cbs @ requests [e])"
  using assms(1)
proof cases
  case (send q cb t now)
  show ?thesis
  proof (cases cb)
    case None
    then show ?thesis using send assms(2) by (simp add: SendQueryAsync_def)
  next
    case (Some c)
    then show ?thesis using send send_inv[OF assms(2), of c mem q t now s'] assms(3,4) by simp
  qed
next
  case (sent i ok)
  then show ?thesis using assms(2,5) by (cases ok) (simp_all add: connectCallback_def Let_def pending_def)
next
  case (response p)
  let ?rid = "ph_resourceID (pk_header p)"
  show ?thesis
  proof (cases "pending s ?rid")
    case None
    then show ?thesis using response assms(2) by (simp add: SearchResponseHanlder_def client_defs fun_upd_idem)
  next
    case (Some cb)
    obtain r where "s' = DecreaseUnfnishedJobCount (call_back cb r (s\<lparr>cw_callbackManager := snd (rm_GetAndRemove ?rid (cw_callbackManager s))\<rparr>))"
      using response Some by (auto simp: SearchResponseHanlder_def client_defs split: bind_splits)
    then have "client_inv s' cbs" using assms(3) by (intro finish_inv[OF assms(2) Some]) (simp_all add: client_defs)
    then show ?thesis using response(1) by simp
  qed
next
  case (check clock)
  then show ?thesis using assms(2) by (simp add: check_timeouts_def rm_check_def pending_def split: prod.splits)
next
  case serve
  then obtain it its where it: "cw_timeouted s = it # its" by (cases "cw_timeouted s") auto
  show ?thesis
  proof (cases "pending s (it_resourceID it)")
    case None
    then show ?thesis using serve it assms(2) by (simp add: serve_timeout_def client_defs fun_upd_idem)
  next
    case (Some cb)
    then have "client_inv s' cbs" using assms(3) serve it
      by (intro finish_inv[OF assms(2) Some]) (simp_all add: serve_timeout_def timeoutCallback_def client_defs Let_def)
    then show ?thesis using serve(1) by simp
  qed
next
  case wait
  then show ?thesis using assms(2) by (auto simp: WaitAllFinished_def requests_inv_def pending_def word_gt_0)
next
  case (registered cid p)
  then show ?thesis using assms(2) by (simp add: pending_def)
next
  case (dead cid outcomes conns)
  then show ?thesis using assms(2) by (simp add: pending_def)
qed


lemma requests_append: "requests (es @ fs) = requests es @ requests fs"
  by (induction es rule: requests.induct) auto

lemma client_run_inv:
  assumes "client_run mem (client_new conns spin) es s" "distinct (requests es)" "length (requests es) < 2 ^ 32" "transmitted es"
  shows "client_inv s (requests es)"
  using assms
proof (induction "client_new conns spin" es s rule: client_run.induct)
  case stop
  show ?case by (simp add: client_new_def rm_new_def pending_def requests_inv_def)
next
  case (step es s' e s'')
  have d: "distinct (requests es @ requests [e])" "length (requests es @ requests [e]) < 2 ^ 32" using step.prems by (simp_all only: requests_append)
  have t: "transmitted es" "\<forall>i. e \<noteq> Sent i False" using step.prems(3) by (auto simp: transmitted_def)
  have "client_inv s' (requests es)" using step.hyps(2) d t(1) by simp
  from client_step_inv[OF step.hyps(3) this d(2,1) t(2)] show ?case by (simp only: requests_append)
qed

lemma client_inv_count: "client_inv s cbs \<Longrightarrow> length cbs < 2 ^ 32 \<Longrightarrow> unat (cw_unfinishedJobCount s) = card (dom (pending s))"
proof -
  assume i: "client_inv s cbs" and n: "length cbs < 2 ^ 32"
  have "cw_unfinishedJobCount s = word_of_nat (card (dom (pending s)))" using i by (simp add: requests_inv_def)
  moreover have "card (dom (pending s)) < 2 ^ 32" using requests_inv_finite[OF i] n by linarith
  ultimately show ?thesis by (simp add: unat_of_nat)
qed

lemma client_run_append: "client_run mem s' fs s'' \<Longrightarrow> client_run mem s es s' \<Longrightarrow> client_run mem s (es @ fs) s''"
  by (induction rule: client_run.induct) (auto intro: client_run.step simp flip: append_assoc)

subsection \<open>Timeouts\<close>

text \<open>Every pending request is in the list of timeouts, or among those the timeout thread is about to serve.\<close>

definition timed :: "client_event list \<Rightarrow> bool" where
  "timed es \<longleftrightarrow> (\<forall>q cb now. Send q cb 0 now \<notin> set es)"

definition timers_inv :: "ClientWrapper \<Rightarrow> nat \<Rightarrow> bool" where
  "timers_inv s n \<longleftrightarrow>
     (let m = cw_callbackManager s in
      rm_timeoutItemCount m = word_of_nat (length (rm_timeoutList m)) \<and> length (rm_timeoutList m) \<le> n \<and>
      (\<forall>rid cb. rm_resources m rid = Some cb \<longrightarrow> rid \<in> it_resourceID ` set (rm_timeoutList m @ cw_timeouted s)))"

lemma take_expired_append: "take_expired clock its = (out, rest) \<Longrightarrow> its = out @ rest"
  by (induction clock its arbitrary: out rest rule: take_expired.induct) (auto split: if_splits prod.splits)

lemma rm_check_split:
  assumes "rm_check clock m = (out, m')" "rm_timeoutItemCount m = word_of_nat (length (rm_timeoutList m))"
  shows "rm_timeoutList m = out @ rm_timeoutList m'" "rm_resources m' = rm_resources m"
    "rm_timeoutItemCount m' = word_of_nat (length (rm_timeoutList m'))"
  using assms take_expired_append[of clock "rm_timeoutList m"] by (auto simp: rm_check_def split: if_splits prod.splits)

lemma send_timers:
  assumes "timers_inv s n" "SendQueryAsync mem q (Some cb) t now s = Some s'" "t \<noteq> 0"
  shows "timers_inv s' (Suc n)"
proof -
  obtain conn s1 where g: "GetConnection s = Some (conn, s1)" using assms(2) by (auto simp: SendQueryAsync_def split: bind_splits)
  obtain k where s1: "s1 = s\<lparr>cw_spinCount := k\<rparr>" using GetConnection_same[OF g] by blast
  obtain rid m where a: "rm_Add cb t now (cw_callbackManager s) = (rid, m)" by fastforce
  obtain sd where s': "s' = s\<lparr>cw_spinCount := k, cw_callbackManager := m, cw_unfinishedJobCount := cw_unfinishedJobCount s + 1, cw_sending := sd\<rparr>"
    using assms(2) g a unfolding s1 by (auto simp: SendQueryAsync_def split: bind_splits)
  have "rm_timeoutList m = rm_timeoutList (cw_callbackManager s) @ [\<lparr>it_resourceID = rid, it_expireTime = now + unat t\<rparr>]"
    "rm_timeoutItemCount m = rm_timeoutItemCount (cw_callbackManager s) + 1"
    "\<forall>x y. rm_resources m x = Some y \<longrightarrow> x = rid \<or> (\<exists>z. rm_resources (cw_callbackManager s) x = Some z)"
    using a assms(3) by (auto simp: rm_Add_def Let_def word_gt_0 split: prod.splits if_splits)
  then show ?thesis using assms(1) unfolding timers_inv_def Let_def s' by fastforce
qed

lemma client_step_timers:
  assumes "client_step mem s e s'" "timers_inv s n" "timed [e]"
  shows "timers_inv s' (n + length (requests [e]))"
  using assms(1)
proof cases
  case (send q cb t now)
  then show ?thesis using send_timers[OF assms(2), of mem q _ t now s'] assms(2,3)
    by (cases cb) (auto simp: timed_def SendQueryAsync_def)
next
  case (check clock)
  obtain out m where "rm_check clock (cw_callbackManager s) = (out, m)" by fastforce
  then show ?thesis using rm_check_split[of clock "cw_callbackManager s" out m] assms(2) check
    by (auto simp: timers_inv_def check_timeouts_def Let_def)
next
  case serve
  then obtain it its where "cw_timeouted s = it # its" by (cases "cw_timeouted s") auto
  then show ?thesis using assms(2) serve
    by (auto simp: timers_inv_def Let_def serve_timeout_def timeoutCallback_def client_defs split: option.splits)
qed (use assms(2) in \<open>auto simp: timers_inv_def Let_def connectCallback_def SearchResponseHanlder_def WaitAllFinished_def client_defs split: if_splits option.splits bind_splits\<close>)


lemma client_run_timers:
  assumes "client_run mem (client_new conns spin) es s" "timed es"
  shows "timers_inv s (length (requests es))"
  using assms
proof (induction "client_new conns spin" es s rule: client_run.induct)
  case stop
  show ?case by (simp add: timers_inv_def client_new_def rm_new_def Let_def)
next
  case (step es s' e s'')
  have "timed es" "timed [e]" using step.prems by (auto simp: timed_def)
  then have "timers_inv s'' (length (requests es) + length (requests [e]))"
    using client_step_timers[OF step.hyps(3) step.hyps(2)] by simp
  then show ?case by (simp only: requests_append length_append)
qed

lemma serve_all:
  "\<exists>s'. client_run mem s (replicate (length (cw_timeouted s)) ServeTimeout) s' \<and> cw_timeouted s' = [] \<and>
     rm_timeoutList (cw_callbackManager s') = rm_timeoutList (cw_callbackManager s) \<and>
     rm_timeoutItemCount (cw_callbackManager s') = rm_timeoutItemCount (cw_callbackManager s)"
proof (induction "cw_timeouted s" arbitrary: s)
  case Nil
  then show ?case by (intro exI[of _ s]) (simp add: client_run.stop)
next
  case (Cons it its)
  let ?s = "serve_timeout s"
  have t: "cw_timeouted ?s = its" "rm_timeoutList (cw_callbackManager ?s) = rm_timeoutList (cw_callbackManager s)"
    "rm_timeoutItemCount (cw_callbackManager ?s) = rm_timeoutItemCount (cw_callbackManager s)"
    using Cons.hyps(2) by (auto simp: serve_timeout_def timeoutCallback_def client_defs Let_def split: list.splits option.splits)
  obtain s' where s': "client_run mem ?s (replicate (length its) ServeTimeout) s'" "cw_timeouted s' = []"
    "rm_timeoutList (cw_callbackManager s') = rm_timeoutList (cw_callbackManager ?s)"
    "rm_timeoutItemCount (cw_callbackManager s') = rm_timeoutItemCount (cw_callbackManager ?s)"
    using Cons.hyps(1)[of ?s] t(1) by auto
  have "cw_timeouted s \<noteq> []" using Cons.hyps(2) by auto
  then have "client_run mem s ([] @ [ServeTimeout]) ?s" by (rule client_run.step[OF client_run.stop client_step.serve])
  from client_run_append[OF s'(1) this] show ?case using s' t Cons.hyps(2)[symmetric] by auto
qed

lemma take_expired_all: "\<forall>it \<in> set its. \<forall>k. it_expireTime it \<le> clock k \<Longrightarrow> take_expired clock its = (its, [])"
  by (induction clock its rule: take_expired.induct) auto

lemma rm_check_all:
  assumes "\<forall>it \<in> set (rm_timeoutList m). \<forall>k. it_expireTime it \<le> clock k" "rm_timeoutItemCount m = word_of_nat (length (rm_timeoutList m))"
    and "length (rm_timeoutList m) < 2 ^ 32"
  shows "\<exists>out m'. rm_check clock m = (out, m') \<and> rm_timeoutList m' = []"
proof -
  have "rm_timeoutItemCount m > 0 \<longleftrightarrow> rm_timeoutList m \<noteq> []"
    using assms(2,3) word_of_nat_inj[of "length (rm_timeoutList m)" 0] by (simp add: word_gt_0)
  then show ?thesis using take_expired_all[OF assms(1)] by (simp add: rm_check_def)
qed

text \<open>The timeout thread alone, once the clock is past every deadline.\<close>

definition timeout_run :: "(nat \<Rightarrow> nat) \<Rightarrow> nat \<Rightarrow> nat \<Rightarrow> client_event list" where
  "timeout_run clock i j = replicate i ServeTimeout @ [CheckTimeouts clock] @ replicate j ServeTimeout"

lemma timeout_run_drains:
  assumes "timers_inv s n" "n < 2 ^ 32" "\<forall>it \<in> set (rm_timeoutList (cw_callbackManager s)). \<forall>k. it_expireTime it \<le> clock k"
  obtains i j s' where "client_run mem s (timeout_run clock i j) s'" "rm_timeoutList (cw_callbackManager s') = []" "cw_timeouted s' = []"
proof -
  obtain s1 where s1: "client_run mem s (replicate (length (cw_timeouted s)) ServeTimeout) s1" "cw_timeouted s1 = []"
    "rm_timeoutList (cw_callbackManager s1) = rm_timeoutList (cw_callbackManager s)"
    "rm_timeoutItemCount (cw_callbackManager s1) = rm_timeoutItemCount (cw_callbackManager s)"
    using serve_all by blast
  have "\<exists>out m'. rm_check clock (cw_callbackManager s1) = (out, m') \<and> rm_timeoutList m' = []"
    using assms by (intro rm_check_all) (auto simp: s1(3,4) timers_inv_def Let_def)
  then have l: "rm_timeoutList (cw_callbackManager (check_timeouts clock s1)) = []" by (auto simp: check_timeouts_def)
  have "client_run mem s1 ([] @ [CheckTimeouts clock]) (check_timeouts clock s1)"
    by (rule client_run.step[OF client_run.stop client_step.check[OF s1(2)]])
  then have r: "client_run mem s (replicate (length (cw_timeouted s)) ServeTimeout @ [CheckTimeouts clock]) (check_timeouts clock s1)"
    using client_run_append s1(1) by fastforce
  obtain s2 where s2: "client_run mem (check_timeouts clock s1) (replicate (length (cw_timeouted (check_timeouts clock s1))) ServeTimeout) s2"
    "cw_timeouted s2 = []" "rm_timeoutList (cw_callbackManager s2) = []"
    using serve_all[of mem "check_timeouts clock s1"] l by auto
  show thesis using that[OF _ s2(3,2)] client_run_append[OF s2(1) r] unfolding timeout_run_def by fastforce
qed

lemma timeout_run_events: "requests (timeout_run clock i j) = []" "transmitted (timeout_run clock i j)" "timed (timeout_run clock i j)"
proof -
  have "requests (replicate i ServeTimeout) = []" for i by (induction i) auto
  then show "requests (timeout_run clock i j) = []" by (simp add: timeout_run_def requests_append)
  show "transmitted (timeout_run clock i j)" "timed (timeout_run clock i j)" by (auto simp: timeout_run_def transmitted_def timed_def)
qed

subsection \<open>The choice of a connection\<close>

lemma spin_connection_live:
  assumes "conns \<noteq> []" "unat spin + tries < 2 ^ 32 - 1" "k \<le> tries" "fst (conns ! ((unat spin + k) mod length conns)) \<noteq> c_invalidConnectionID"
  shows "\<exists>pos spin'. spin_connection conns tries spin = (pos, spin') \<and> pos < length conns \<and> fst (conns ! pos) \<noteq> c_invalidConnectionID"
  using assms(2-4)
proof (induction tries arbitrary: spin k)
  case 0
  then show ?case using assms(1) by (simp add: spin_connection.simps[of conns 0] Let_def)
next
  case (Suc tries)
  show ?case
  proof (cases "fst (conns ! (unat spin mod length conns)) = c_invalidConnectionID")
    case True
    then have "k \<noteq> 0" using Suc.prems(3) by (cases k) auto
    then obtain j where k: "k = Suc j" by (cases k) auto
    have u: "unat (spin + 1) = unat spin + 1" using Suc.prems(1) by (simp add: unat_word_ariths)
    have "\<exists>pos spin'. spin_connection conns tries (spin + 1) = (pos, spin') \<and> pos < length conns \<and> fst (conns ! pos) \<noteq> c_invalidConnectionID"
      using Suc.prems k u by (intro Suc.IH[of "spin + 1" j]) simp_all
    then show ?thesis using True by (simp add: spin_connection.simps[of conns "Suc tries"] Let_def)
  next
    case False
    then show ?thesis using assms(1) by (simp add: spin_connection.simps[of conns "Suc tries"] Let_def)
  qed
qed

text \<open>As long as some connection is live, a request is sent on a live one; near the wrap-around of the counter the positions
  need not come up in turn.\<close>

lemma GetConnection_live:
  assumes "c \<in> set (cw_connections s)" "fst c \<noteq> c_invalidConnectionID" "unat (cw_spinCount s) + length (cw_connections s) < 2 ^ 32 - 1"
  shows "\<exists>conn s'. GetConnection s = Some (conn, s') \<and> conn \<in> set (cw_connections s) \<and> fst conn \<noteq> c_invalidConnectionID"
proof (cases "length (cw_connections s) = 1")
  case True
  then obtain d where "cw_connections s = [d]" by (auto simp: length_Suc_conv)
  then show ?thesis using assms(1,2) by (simp add: GetConnection_def)
next
  case False
  let ?cs = "cw_connections s" and ?n = "unat (cw_spinCount s)"
  have ne: "?cs \<noteq> []" using assms(1) by auto
  obtain p where p: "p < length ?cs" "?cs ! p = c" using assms(1) by (auto simp: in_set_conv_nth)
  obtain k where k: "k \<le> length ?cs" "(?n + k) mod length ?cs = p"
  proof -
    let ?l = "length ?cs"
    let ?k = "(p + (?l - ?n mod ?l)) mod ?l"
    have "(?n + ?k) mod ?l = (?n + (p + (?l - ?n mod ?l))) mod ?l" by (rule mod_add_right_eq)
    also have "\<dots> = (?n mod ?l + (p + (?l - ?n mod ?l))) mod ?l" by (simp only: mod_add_left_eq)
    also have "\<dots> = (p + ?l) mod ?l"
    proof -
      have "?n mod ?l < ?l" using ne by simp
      then have "?n mod ?l + (p + (?l - ?n mod ?l)) = p + ?l" by linarith
      then show ?thesis by (rule arg_cong)
    qed
    also have "\<dots> = p" using p(1) by simp
    finally have "(?n + ?k) mod ?l = p" .
    moreover have "?k \<le> ?l" using ne by (simp add: less_imp_le)
    ultimately show thesis using that by blast
  qed
  have "fst (?cs ! ((?n + k) mod length ?cs)) \<noteq> c_invalidConnectionID" using k(2) p(2) assms(2) by simp
  from spin_connection_live[OF ne assms(3) k(1) this] obtain pos spin where
    "spin_connection ?cs (length ?cs) (cw_spinCount s) = (pos, spin)" "pos < length ?cs" "fst (?cs ! pos) \<noteq> c_invalidConnectionID" by blast
  then show ?thesis using False ne by (simp add: GetConnection_def Let_def)
qed

text \<open>A request on one connection.\<close>

definition sample_query :: RemoteQuery where
  "sample_query = \<lparr>rq_type = 0, rq_queryString = [0x31, 0x7c, 0x32]\<rparr>"

definition sample_sent :: ClientWrapper where
  "sample_sent = the (SendQueryAsync (\<lambda>_. 0) sample_query (Some 7) 1000 0 (client_new [(5, 0)] 0))"

lemma sample_run: "client_run (\<lambda>_. 0) (client_new [(5, 0)] 0) ([] @ [Send sample_query (Some 7) 1000 0]) sample_sent"
proof -
  have "\<not> Option.is_none (SendQueryAsync (\<lambda>_. 0) sample_query (Some 7) 1000 0 (client_new [(5, 0)] 0))" by code_simp
  then have "SendQueryAsync (\<lambda>_. 0) sample_query (Some 7) 1000 0 (client_new [(5, 0)] 0) = Some sample_sent"
    by (auto simp: sample_sent_def Option.is_none_def)
  then show ?thesis by (rule client_run.step[OF client_run.stop client_step.send])
qed

subsection \<open>Properties\<close>






text \<open>When a transmission fails the request stays in the table: \<^verbatim>\<open>connectCallback\<close> calls the callback and lowers the counter, the timeout does
  both again, the counter passes zero, and \<^verbatim>\<open>WaitAllFinished\<close> then waits although nothing is pending.\<close>

lemma failed_transmission_called_twice:
  "\<exists>s. client_run (\<lambda>_. 0) (client_new [(5, 0)] 0)
       [Send sample_query (Some 7) 1000 0, Sent 0 False, CheckTimeouts (\<lambda>_. 1000), ServeTimeout, WaitFinished] s \<and>
     map fst (cw_called s) = [7, 7] \<and> cw_unfinishedJobCount s = 0xFFFFFFFF \<and> cw_isWaitingFinish s \<and> (\<forall>rid. pending s rid = None)"
proof -
  let ?f = "connectCallback 0 False sample_sent"
  let ?c = "check_timeouts (\<lambda>_. 1000) ?f"
  let ?t = "serve_timeout ?c"
  have run: "client_run (\<lambda>_. 0) (client_new [(5, 0)] 0) (([] @ [Send sample_query (Some 7) 1000 0]) @ [Sent 0 False]) ?f"
    by (rule client_run.step[OF sample_run client_step.sent]) code_simp
  have "list_all (\<lambda>_. False) (cw_timeouted ?f)" "map (\<lambda>it. it_resourceID it) (cw_timeouted ?c) = [1]" by code_simp+
  then have e: "cw_timeouted ?f = []" "cw_timeouted ?c \<noteq> []" by (auto simp: list_all_iff)
  have k: "map fst (cw_called (WaitAllFinished ?t)) = [7, 7]" "cw_unfinishedJobCount (WaitAllFinished ?t) = 0xFFFFFFFF" "cw_isWaitingFinish (WaitAllFinished ?t)"
    by code_simp+
  have "pending (WaitAllFinished ?t) = (pending sample_sent)(1 := None)"
  proof -
    have "pending ?c = pending sample_sent"
      by (simp add: check_timeouts_def rm_check_def connectCallback_def client_defs Let_def split: prod.splits)
    moreover obtain it where "cw_timeouted ?c = [it]" "it_resourceID it = 1"
      using \<open>map (\<lambda>it. it_resourceID it) (cw_timeouted ?c) = [1]\<close> by auto
    ultimately show ?thesis
      by (simp add: WaitAllFinished_def serve_timeout_def timeoutCallback_def client_defs Let_def split: option.splits)
  qed
  moreover have "dom (pending sample_sent) \<subseteq> {1}"
    using client_run_inv[OF sample_run] by (simp add: requests_inv_def transmitted_def)
  ultimately have "pending (WaitAllFinished ?t) rid = None" for rid by (auto simp: dom_def)
  then show ?thesis
    using k client_run.step[OF client_run.step[OF client_run.step[OF run client_step.check[OF e(1)]] client_step.serve[OF e(2)]] client_step.wait]
    by (intro exI[of _ "WaitAllFinished ?t"]) simp
qed

end
