(* ===== verification/Connection_Pool.thy ===== *)
theory Connection_Pool
  imports Wire_Format
begin

unbundle bit_operations_syntax

text \<open>
  The connections of a server or client: \<^verbatim>\<open>src/Socket/ConnectionManager.cpp\<close>. A connection is its identifier, and its slot the
  low eight bits of it. Each call runs alone; the sockets, and starting and stopping a connection, are outside the model.
\<close>

subsection \<open>Operations\<close>

record ConnectionItem =
  ci_isEmpty :: bool
  ci_connection :: "u32 option"

record ConnectionManager =
  cm_nextConnectionID :: u32
  cm_connectionCount :: u32
  cm_connections :: "ConnectionItem list"

definition c_connectionPoolSize :: u32 where "c_connectionPoolSize = 0x100"

definition c_connectionPoolMask :: u32 where "c_connectionPoolMask = c_connectionPoolSize - 1"

definition cm_new :: ConnectionManager where
  "cm_new = \<lparr>cm_nextConnectionID = 1, cm_connectionCount = 0,
     cm_connections = replicate (unat c_connectionPoolSize) \<lparr>ci_isEmpty = True, ci_connection = None\<rparr>\<rparr>"

definition GetPosition :: "u32 \<Rightarrow> nat" where
  "GetPosition p_connectionID = unat (p_connectionID AND c_connectionPoolMask)"

text \<open>The loop that claims a slot; \<^const>\<open>None\<close> when the fuel runs out.\<close>

fun claim_slot :: "nat \<Rightarrow> ConnectionManager \<Rightarrow> (u32 \<times> ConnectionManager) option" where
  "claim_slot 0 m = None"
| "claim_slot (Suc fuel) m =
     (let currID = cm_nextConnectionID m; m1 = m\<lparr>cm_nextConnectionID := currID + 1\<rparr>;
          it = cm_connections m ! GetPosition currID in
      if c_invalidConnectionID \<noteq> currID \<and> ci_isEmpty it
      then Some (currID, m1\<lparr>cm_connections := (cm_connections m)[GetPosition currID := it\<lparr>ci_isEmpty := False\<rparr>]\<rparr>)
      else if cm_connectionCount m \<ge> c_connectionPoolSize then Some (c_invalidConnectionID, m1)
      else claim_slot fuel m1)"

definition AddConnection :: "nat \<Rightarrow> ConnectionManager \<Rightarrow> (u32 \<times> ConnectionManager) option" where
  "AddConnection fuel m =
     (case claim_slot fuel m of
        None \<Rightarrow> None
      | Some (currID, m1) \<Rightarrow>
          if currID = c_invalidConnectionID then Some (c_invalidConnectionID, m1)
          else
            (let p = GetPosition currID in
             Some (currID, m1\<lparr>cm_connectionCount := cm_connectionCount m1 + 1,
               cm_connections := (cm_connections m1)[p := (cm_connections m1 ! p)\<lparr>ci_connection := Some currID\<rparr>]\<rparr>)))"

text \<open>\<^verbatim>\<open>RemoveConnection\<close>: the connection that is stopped (\<^const>\<open>None\<close> when the slot was empty), and the manager. The event on removing is
  called with the argument, not with the connection that was found.\<close>

definition RemoveConnection :: "u32 \<Rightarrow> ConnectionManager \<Rightarrow> u32 option \<times> ConnectionManager" where
  "RemoveConnection p_connectionID m =
     (let position = GetPosition p_connectionID; it = cm_connections m ! position in
      if ci_isEmpty it then (None, m)
      else (ci_connection it, m\<lparr>cm_connectionCount := cm_connectionCount m - 1,
              cm_connections := (cm_connections m)[position := it\<lparr>ci_isEmpty := True, ci_connection := None\<rparr>]\<rparr>))"

definition FindConnection :: "ConnectionManager \<Rightarrow> u32 \<Rightarrow> u32 option" where
  "FindConnection m p_connectionID =
     (case ci_connection (cm_connections m ! GetPosition p_connectionID) of
        None \<Rightarrow> None
      | Some ret \<Rightarrow> if ret \<noteq> p_connectionID then None else Some ret)"

definition StopAll :: "ConnectionManager \<Rightarrow> u32 list" where
  "StopAll m = concat (map (\<lambda>it. case ci_connection it of None \<Rightarrow> [] | Some c \<Rightarrow> [c]) (cm_connections m))"

subsection \<open>The invariant\<close>

definition slot_ok :: "nat \<Rightarrow> ConnectionItem \<Rightarrow> bool" where
  "slot_ok i it \<longleftrightarrow>
     (case ci_connection it of
        None \<Rightarrow> ci_isEmpty it
      | Some c \<Rightarrow> \<not> ci_isEmpty it \<and> c \<noteq> c_invalidConnectionID \<and> GetPosition c = i)"

definition used :: "ConnectionItem list \<Rightarrow> nat set" where
  "used its = {i. i < 256 \<and> \<not> ci_isEmpty (its ! i)}"

definition pool_inv :: "ConnectionManager \<Rightarrow> bool" where
  "pool_inv m \<longleftrightarrow> length (cm_connections m) = 256 \<and>
     cm_connectionCount m = word_of_nat (card (used (cm_connections m))) \<and> (\<forall>i < 256. slot_ok i (cm_connections m ! i))"

lemma GetPosition_mod: "GetPosition c = unat c mod 256"
proof -
  have "c AND 0xFF = take_bit 8 c" by (simp add: take_bit_eq_mask mask_eq_exp_minus_1)
  then have "unat (c AND 0xFF) = take_bit 8 (unat c)" by (simp only: unsigned_take_bit_eq)
  then show ?thesis by (simp add: GetPosition_def c_connectionPoolMask_def c_connectionPoolSize_def take_bit_eq_mod)
qed

lemma GetPosition_less: "GetPosition c < 256"
  by (simp add: GetPosition_mod)

lemma pool_slot:
  assumes "pool_inv m" "i < 256"
  shows "ci_isEmpty (cm_connections m ! i) \<longleftrightarrow> ci_connection (cm_connections m ! i) = None"
    "ci_connection (cm_connections m ! i) = Some c \<Longrightarrow> GetPosition c = i \<and> c \<noteq> c_invalidConnectionID"
  using assms by (auto simp: pool_inv_def slot_ok_def split: option.splits)

lemma used_bound: "finite (used its)" "used its \<subseteq> {..< 256}" "card (used its) \<le> 256"
proof -
  show u: "used its \<subseteq> {..< 256}" by (auto simp: used_def)
  show "finite (used its)" by (rule finite_subset[OF u]) simp
  show "card (used its) \<le> 256" using card_mono[OF _ u] by simp
qed

lemma pool_full:
  assumes "pool_inv m"
  shows "cm_connectionCount m \<ge> c_connectionPoolSize \<longleftrightarrow> (\<forall>i < 256. \<not> ci_isEmpty (cm_connections m ! i))"
proof -
  let ?U = "used (cm_connections m)"
  have u: "unat (cm_connectionCount m) = card ?U" using assms used_bound(3)[of "cm_connections m"] by (simp add: pool_inv_def unat_of_nat)
  have "card ?U \<ge> 256 \<longleftrightarrow> ?U = {..< 256}"
  proof
    assume "256 \<le> card ?U"
    then have "card ?U = card {..< 256 :: nat}" using used_bound(3)[of "cm_connections m"] by simp
    then show "?U = {..< 256}" using card_subset_eq[OF _ used_bound(2)] by simp
  qed simp
  also have "\<dots> \<longleftrightarrow> (\<forall>i < 256. \<not> ci_isEmpty (cm_connections m ! i))" by (auto simp: used_def)
  finally show ?thesis using u by (simp add: word_le_nat_alt c_connectionPoolSize_def)
qed

subsection \<open>Claiming a slot\<close>

lemma pool_inv_next: "pool_inv (m\<lparr>cm_nextConnectionID := n\<rparr>) = pool_inv m"
  by (simp add: pool_inv_def)

lemma unat_add_small: "unat (n + word_of_nat k :: u32) = (unat n + k) mod 2 ^ 32"
  by (simp add: unat_word_ariths unat_of_nat mod_add_right_eq)

text \<open>Among 512 identifiers in a row, every slot comes up with one that is valid.\<close>

lemma slot_comes_up: "p < 256 \<Longrightarrow> \<exists>k < 512. GetPosition (n + word_of_nat k) = p \<and> n + word_of_nat k \<noteq> c_invalidConnectionID"
proof -
  assume p: "p < 256"
  let ?r = "\<lambda>k. (unat n + k) mod 2 ^ 32"
  have pos: "GetPosition (n + word_of_nat k) = (unat n + k) mod 256" for k
    unfolding GetPosition_mod unat_add_small by (simp add: mod_mod_cancel)
  obtain k where k: "k < 256" "(unat n + k) mod 256 = p"
  proof -
    have "(unat n + (p + (256 - unat n mod 256)) mod 256) mod 256 = (unat n + (p + (256 - unat n mod 256))) mod 256"
      by (rule mod_add_right_eq)
    also have "\<dots> = (unat n mod 256 + (p + (256 - unat n mod 256))) mod 256" by (simp only: mod_add_left_eq)
    also have "\<dots> = (p + 256) mod 256"
    proof -
      have "unat n mod 256 < 256" by simp
      then have "unat n mod 256 + (p + (256 - unat n mod 256)) = p + 256" by linarith
      then show ?thesis by (rule arg_cong)
    qed
    also have "\<dots> = p" using p by simp
    finally have "(unat n + (p + (256 - unat n mod 256)) mod 256) mod 256 = p" .
    then show thesis using that[of "(p + (256 - unat n mod 256)) mod 256"] by simp
  qed
  have z: "n + word_of_nat j = c_invalidConnectionID \<longleftrightarrow> ?r j = 0" for j
    using unat_add_small[of n j] by (simp add: c_invalidConnectionID_def unat_eq_zero flip: unat_0_iff)
  show ?thesis
  proof (cases "?r k = 0")
    case True
    have "?r (k + 256) = 256"
    proof -
      have "?r (k + 256) = (?r k + 256) mod 2 ^ 32" by (simp add: mod_add_left_eq flip: add.assoc)
      then show ?thesis using True by simp
    qed
    moreover have "(unat n + (k + 256)) mod 256 = p" using k(2) by (simp flip: add.assoc)
    ultimately show ?thesis using pos[of "k + 256"] z[of "k + 256"] k(1) by (intro exI[of _ "k + 256"]) simp
  next
    case False
    then show ?thesis using pos[of k] z[of k] k by (intro exI[of _ k]) simp
  qed
qed

definition claimed :: "ConnectionManager \<Rightarrow> u32 \<Rightarrow> ConnectionManager" where
  "claimed m c = m\<lparr>cm_nextConnectionID := c + 1,
     cm_connections := (cm_connections m)[GetPosition c := (cm_connections m ! GetPosition c)\<lparr>ci_isEmpty := False\<rparr>]\<rparr>"

lemma claim_slot_returns:
  assumes "pool_inv m" "k < fuel" "ci_isEmpty (cm_connections m ! GetPosition (cm_nextConnectionID m + word_of_nat k))"
    and "cm_nextConnectionID m + word_of_nat k \<noteq> c_invalidConnectionID"
  shows "\<exists>c. claim_slot fuel m = Some (c, claimed m c) \<and> ci_isEmpty (cm_connections m ! GetPosition c) \<and> c \<noteq> c_invalidConnectionID"
  using assms
proof (induction fuel arbitrary: m k)
  case (Suc fuel)
  let ?n = "cm_nextConnectionID m"
  let ?m = "m\<lparr>cm_nextConnectionID := ?n + 1\<rparr>"
  have nf: "\<not> cm_connectionCount m \<ge> c_connectionPoolSize" using pool_full[OF Suc.prems(1)] Suc.prems(3) GetPosition_less by blast
  show ?case
  proof (cases "c_invalidConnectionID \<noteq> ?n \<and> ci_isEmpty (cm_connections m ! GetPosition ?n)")
    case True
    then show ?thesis by (intro exI[of _ ?n]) (auto simp: Let_def claimed_def)
  next
    case False
    then have c: "claim_slot (Suc fuel) m = claim_slot fuel ?m" using nf unfolding claim_slot.simps Let_def by (simp only: if_False)
    have "k \<noteq> 0" using False Suc.prems(3,4) by (cases k) auto
    then obtain k' where k: "k = Suc k'" by (cases k) auto
    have s: "?n + 1 + word_of_nat k' = ?n + word_of_nat k" by (simp add: k ac_simps)
    have cl: "claimed ?m x = claimed m x" for x by (simp add: claimed_def)
    have "pool_inv ?m" using Suc.prems(1) by (simp add: pool_inv_next)
    then show ?thesis using Suc.IH[of ?m k'] Suc.prems(2-4) s k unfolding c by (simp add: cl)
  qed
qed simp

lemma claim_slot_full:
  assumes "pool_inv m" "\<forall>i < 256. \<not> ci_isEmpty (cm_connections m ! i)"
  shows "claim_slot (Suc fuel) m = Some (c_invalidConnectionID, m\<lparr>cm_nextConnectionID := cm_nextConnectionID m + 1\<rparr>)"
  using pool_full[OF assms(1)] assms(2) GetPosition_less[of "cm_nextConnectionID m"] by (simp add: Let_def)

subsection \<open>Changing a slot\<close>

lemma used_insert: "length its = 256 \<Longrightarrow> i < 256 \<Longrightarrow> \<not> ci_isEmpty it \<Longrightarrow> used (its[i := it]) = insert i (used its)"
  by (auto simp: used_def nth_list_update)

lemma used_remove: "length its = 256 \<Longrightarrow> i < 256 \<Longrightarrow> ci_isEmpty it \<Longrightarrow> used (its[i := it]) = used its - {i}"
  by (auto simp: used_def nth_list_update split: if_splits)

lemma FindConnection_update:
  assumes "length (cm_connections m) = 256" "i < 256" "cm_connections m' = (cm_connections m)[i := it]"
  shows "FindConnection m' c = (if GetPosition c = i then if ci_connection it = Some c then Some c else None else FindConnection m c)"
  using assms GetPosition_less[of c] by (auto simp: FindConnection_def nth_list_update split: option.splits)

lemma FindConnection_slot:
  assumes "pool_inv m" "GetPosition c = i"
  shows "FindConnection m c = (if ci_connection (cm_connections m ! i) = Some c then Some c else None)"
  using assms by (auto simp: FindConnection_def split: option.splits)

lemma AddConnection_claimed:
  assumes "pool_inv m" "ci_isEmpty (cm_connections m ! GetPosition c)" "c \<noteq> c_invalidConnectionID" "claim_slot fuel m = Some (c, claimed m c)"
  shows "\<exists>m'. AddConnection fuel m = Some (c, m') \<and> pool_inv m' \<and> FindConnection m c = None \<and>
     (\<forall>d. FindConnection m' d = (if d = c then Some c else FindConnection m d))"
proof -
  let ?p = "GetPosition c"
  let ?it = "(cm_connections m ! ?p)\<lparr>ci_isEmpty := False, ci_connection := Some c\<rparr>"
  let ?m = "m\<lparr>cm_nextConnectionID := c + 1, cm_connectionCount := cm_connectionCount m + 1, cm_connections := (cm_connections m)[?p := ?it]\<rparr>"
  have l: "length (cm_connections m) = 256" "?p < 256" using assms(1) GetPosition_less by (simp_all add: pool_inv_def)
  have a: "AddConnection fuel m = Some (c, ?m)" using assms(3,4) l by (simp add: AddConnection_def claimed_def Let_def)
  have e: "ci_connection (cm_connections m ! ?p) = None" using pool_slot(1)[OF assms(1) l(2)] assms(2) by simp
  have "?p \<notin> used (cm_connections m)" using assms(2) by (simp add: used_def)
  then have "card (used ((cm_connections m)[?p := ?it])) = Suc (card (used (cm_connections m)))"
    using used_insert[OF l, of ?it] used_bound(1) by simp
  then have "pool_inv ?m" using assms(1,3) l by (auto simp: pool_inv_def slot_ok_def nth_list_update)
  moreover have "FindConnection ?m d = (if d = c then Some c else FindConnection m d)" for d
    using FindConnection_update[OF l, of ?m ?it d] FindConnection_slot[OF assms(1), of d ?p] e by auto
  moreover have "FindConnection m c = None" using FindConnection_slot[OF assms(1) refl, of c] e by simp
  ultimately show ?thesis using a by blast
qed

subsection \<open>Properties\<close>

text \<open>C33. The manager as a map from identifiers to connections: adding a connection returns after at most 512 identifiers; while a slot is
  free it gives a valid identifier that no connection has, under which the new connection is found, and every other identifier finds
  what it found before; when all 256 slots are taken it gives the invalid identifier and changes no connection.\<close>

theorem connection_added:
  assumes "pool_inv m"
  shows "\<exists>c m'. AddConnection 512 m = Some (c, m') \<and> pool_inv m' \<and>
    (if \<forall>i < 256. \<not> ci_isEmpty (cm_connections m ! i)
     then c = c_invalidConnectionID \<and> (\<forall>d. FindConnection m' d = FindConnection m d)
     else c \<noteq> c_invalidConnectionID \<and> FindConnection m c = None \<and> (\<forall>d. FindConnection m' d = (if d = c then Some c else FindConnection m d)))"
proof (cases "\<forall>i < 256. \<not> ci_isEmpty (cm_connections m ! i)")
  case True
  let ?m = "m\<lparr>cm_nextConnectionID := cm_nextConnectionID m + 1\<rparr>"
  have "AddConnection 512 m = Some (c_invalidConnectionID, ?m)"
    using claim_slot_full[OF assms True, of 511] by (simp add: AddConnection_def)
  moreover have "FindConnection ?m d = FindConnection m d" for d by (simp add: FindConnection_def)
  moreover have "pool_inv ?m" using assms by (simp add: pool_inv_next)
  ultimately show ?thesis using True by auto
next
  case False
  then obtain p where p: "p < 256" "ci_isEmpty (cm_connections m ! p)" by blast
  obtain k where k: "k < 512" "GetPosition (cm_nextConnectionID m + word_of_nat k) = p" "cm_nextConnectionID m + word_of_nat k \<noteq> c_invalidConnectionID"
    using slot_comes_up[OF p(1)] by blast
  obtain c where c: "claim_slot 512 m = Some (c, claimed m c)" "ci_isEmpty (cm_connections m ! GetPosition c)" "c \<noteq> c_invalidConnectionID"
    using claim_slot_returns[OF assms k(1)] k p(2) by auto
  show ?thesis using AddConnection_claimed[OF assms c(2,3,1)] c(3) False by auto
qed

theorem connection_added_witness:
  "pool_inv cm_new \<and> (\<exists>c m'. AddConnection 512 cm_new = Some (c, m') \<and> c \<noteq> c_invalidConnectionID \<and> FindConnection m' c = Some c)"
proof -
  have e: "\<forall>i < 256. ci_isEmpty (cm_connections cm_new ! i)" by (simp add: cm_new_def c_connectionPoolSize_def)
  then have "used (cm_connections cm_new) = {}" by (auto simp: used_def)
  then have i: "pool_inv cm_new" by (simp add: pool_inv_def slot_ok_def cm_new_def c_connectionPoolSize_def)
  have f: "(\<forall>i < 256. \<not> ci_isEmpty (cm_connections cm_new ! i)) = False" using e by (metis zero_less_numeral)
  show ?thesis using connection_added[OF i] i unfolding f if_False by auto
qed

text \<open>Removing a connection that the manager has removes that one. With the identifier of a connection that is gone, it removes the
  connection that has the slot by now.\<close>

lemma connection_removed:
  assumes "pool_inv m" "FindConnection m c = Some c"
  shows "fst (RemoveConnection c m) = Some c \<and> pool_inv (snd (RemoveConnection c m)) \<and>
    (\<forall>d. FindConnection (snd (RemoveConnection c m)) d = (if d = c then None else FindConnection m d))"
proof -
  let ?p = "GetPosition c"
  let ?it = "(cm_connections m ! ?p)\<lparr>ci_isEmpty := True, ci_connection := None\<rparr>"
  let ?m = "m\<lparr>cm_connectionCount := cm_connectionCount m - 1, cm_connections := (cm_connections m)[?p := ?it]\<rparr>"
  have l: "length (cm_connections m) = 256" "?p < 256" using assms(1) GetPosition_less by (simp_all add: pool_inv_def)
  have s: "ci_connection (cm_connections m ! ?p) = Some c" using assms(2) by (auto simp: FindConnection_def split: option.splits if_splits)
  then have ne: "\<not> ci_isEmpty (cm_connections m ! ?p)" using pool_slot(1)[OF assms(1) l(2)] by simp
  have r: "RemoveConnection c m = (Some c, ?m)" using ne s by (simp add: RemoveConnection_def Let_def)
  have "?p \<in> used (cm_connections m)" using ne l by (simp add: used_def)
  then have "card (used (cm_connections m)) = Suc (card (used ((cm_connections m)[?p := ?it])))"
    using used_remove[OF l, of ?it] card.remove[OF used_bound(1)] by simp
  then have "pool_inv ?m" using assms(1) l by (auto simp: pool_inv_def slot_ok_def nth_list_update)
  moreover have "FindConnection ?m d = (if d = c then None else FindConnection m d)" for d
    using FindConnection_update[OF l, of ?m ?it d] FindConnection_slot[OF assms(1), of d ?p] s by auto
  ultimately show ?thesis using r by simp
qed

lemma stale_identifier_removes:
  assumes "pool_inv m" "FindConnection m d = Some d" "GetPosition c = GetPosition d" "c \<noteq> d"
  shows "FindConnection m c = None \<and> fst (RemoveConnection c m) = Some d \<and> FindConnection (snd (RemoveConnection c m)) d = None"
proof -
  have s: "ci_connection (cm_connections m ! GetPosition d) = Some d" using assms(2) by (auto simp: FindConnection_def split: option.splits if_splits)
  have "RemoveConnection c m = RemoveConnection d m" using assms(3) by (simp add: RemoveConnection_def)
  then show ?thesis using connection_removed[OF assms(1,2)] FindConnection_slot[OF assms(1,3)] s assms(4) by simp
qed

end
