(* ===== verification/Base64.thy ===== *)
theory Base64
  imports Binary_Io
begin

unbundle bit_operations_syntax

text \<open>
  The Base64 codec of \<^verbatim>\<open>src/Helper/Base64Encode.cpp\<close>, which the service uses for query vectors: \<^verbatim>\<open>Encode\<close>,
  \<^verbatim>\<open>Decode\<close> and the two capacity functions. A character is its byte; the output is the list of the bytes that
  the code stores through \<^verbatim>\<open>p_out\<close> one after the other, so \<^verbatim>\<open>p_outLen\<close> is its length. A result \<^const>\<open>None\<close> is a
  read outside the input or outside \<^verbatim>\<open>c_decTable\<close>: the index of the table is a \<^verbatim>\<open>char\<close>, which is signed, cast to
  \<^verbatim>\<open>size_t\<close>, so only the characters below 128 have an entry.
\<close>

subsection \<open>The code\<close>

definition c_encTable :: bytes where
  "c_encTable = map of_char ''ABCDEFGHIJKLMNOPQRSTUVWXYZabcdefghijklmnopqrstuvwxyz0123456789+/''"

definition c_decTable :: bytes where
  "c_decTable =
     replicate 0x20 64 @
     [64, 64, 64, 64, 64, 64, 64, 64, 64, 64, 64, 62, 64, 64, 64, 63,
      52, 53, 54, 55, 56, 57, 58, 59, 60, 61, 64, 64, 64, 64, 64, 64,
      64, 0, 1, 2, 3, 4, 5, 6, 7, 8, 9, 10, 11, 12, 13, 14,
      15, 16, 17, 18, 19, 20, 21, 22, 23, 24, 25, 64, 64, 64, 64, 64,
      64, 26, 27, 28, 29, 30, 31, 32, 33, 34, 35, 36, 37, 38, 39, 40,
      41, 42, 43, 44, 45, 46, 47, 48, 49, 50, 51, 64, 64, 64, 64, 64] @
     replicate 0x80 64"

definition c_paddingChar :: u8 where
  "c_paddingChar = of_char CHR ''=''"

definition enc_at :: "u8 \<Rightarrow> u8" where
  "enc_at i = c_encTable ! unat i"

definition dec_at :: "u8 \<Rightarrow> u8 option" where
  "dec_at c = (if c < 128 then Some (c_decTable ! unat c) else None)"

text \<open>\<^verbatim>\<open>Encode\<close>: three bytes at a time, then the switch on what is left.\<close>

fun b64_Encode :: "bytes \<Rightarrow> bytes" where
  "b64_Encode (a # b # c # rest) =
     enc_at (drop_bit 2 a) #
     enc_at (push_bit 4 (a AND 0x03) OR drop_bit 4 (b AND 0xf0)) #
     enc_at (push_bit 2 (b AND 0x0f) OR drop_bit 6 (c AND 0xc0)) #
     enc_at (c AND 0x3f) # b64_Encode rest"
| "b64_Encode [a] = [enc_at (drop_bit 2 a), enc_at (push_bit 4 (a AND 0x03)), c_paddingChar, c_paddingChar]"
| "b64_Encode [a, b] =
     [enc_at (drop_bit 2 a), enc_at (push_bit 4 (a AND 0x03) OR drop_bit 4 (b AND 0xf0)),
      enc_at (push_bit 2 (b AND 0x0f)), c_paddingChar]"
| "b64_Encode [] = []"

text \<open>The last group of \<^verbatim>\<open>Decode\<close>. The result is the value returned and the bytes written.\<close>

definition dec_last :: "bytes \<Rightarrow> (bool \<times> bytes) option" where
  "dec_last p_in =
     (case p_in of
        [c0, c1, c2, c3] \<Rightarrow>
          (case (dec_at c0, dec_at c1, dec_at c2, dec_at c3) of
             (Some u0, Some u1, Some u2, Some u3) \<Rightarrow>
               let o0 = push_bit 2 u0 OR drop_bit 4 u1;
                   o1 = push_bit 4 u1 OR drop_bit 2 u2;
                   o2 = push_bit 6 u2 OR u3 in
               Some (if u0 > 63 \<or> u1 > 63 \<or> (c_paddingChar = c2 \<and> c_paddingChar \<noteq> c3) then (False, [])
                     else if u2 > 63 \<and> c_paddingChar \<noteq> c2 then (False, [])
                     else if u3 > 63 \<and> c_paddingChar \<noteq> c3 then (False, [])
                     else if c_paddingChar = c2 then (u1 AND 0x0F = 0, [o0])
                     else if c_paddingChar = c3 then (u3 AND 0x03 = 0, [o0, o1])
                     else (True, [o0, o1, o2]))
           | _ \<Rightarrow> None)
      | _ \<Rightarrow> None)"

text \<open>The loop \<^verbatim>\<open>while (p_inLen > 4)\<close>; \<open>out\<close> is what has been written.\<close>

fun dec_loop :: "bytes \<Rightarrow> bytes \<Rightarrow> (bool \<times> bytes) option" where
  "dec_loop (c0 # c1 # c2 # c3 # c4 # cs) out =
     (case (dec_at c0, dec_at c1, dec_at c2, dec_at c3) of
        (Some u0, Some u1, Some u2, Some u3) \<Rightarrow>
          if u0 > 63 \<or> u1 > 63 \<or> u2 > 63 \<or> u3 > 63 then Some (False, out)
          else dec_loop (c4 # cs) (out @ [push_bit 2 u0 OR drop_bit 4 u1, push_bit 4 u1 OR drop_bit 2 u2, push_bit 6 u2 OR u3])
      | _ \<Rightarrow> None)"
| "dec_loop p_in out = map_option (\<lambda>(ok, last). (ok, out @ last)) (dec_last p_in)"

definition b64_Decode :: "bytes \<Rightarrow> (bool \<times> bytes) option" where
  "b64_Decode p_in = (if length p_in AND 0x03 \<noteq> 0 then Some (False, []) else dec_loop p_in [])"

definition CapacityForEncode :: "nat \<Rightarrow> nat" where
  "CapacityForEncode p_inLen = ((p_inLen + 2) div 3) * 4"

definition CapacityForDecode :: "nat \<Rightarrow> nat" where
  "CapacityForDecode p_inLen = (p_inLen div 4) * 3 + ((p_inLen mod 4) * 2) div 3"

subsection \<open>Specification\<close>

text \<open>The last sextet of a text with one padding character carries bits that no encoder writes.\<close>

definition stray_bits :: "bytes \<Rightarrow> bool" where
  "stray_bits s \<longleftrightarrow> last s = c_paddingChar \<and> s ! (length s - 2) \<noteq> c_paddingChar \<and>
     (case dec_at (s ! (length s - 2)) of None \<Rightarrow> False | Some u \<Rightarrow> u AND 0x03 \<noteq> 0)"

subsection \<open>Groups\<close>

lemma dec_enc_table: "map dec_at c_encTable = map (\<lambda>i. Some (of_nat i)) [0 ..< 64]" "c_paddingChar \<notin> set c_encTable"
  by code_simp+

lemma dec_at_pad: "dec_at c_paddingChar = Some 64"
  by code_simp

lemma dec_enc:
  assumes "i \<le> 63"
  shows "dec_at (enc_at i) = Some i" "enc_at i \<noteq> c_paddingChar"
proof -
  have "unat i < 64" using assms by (simp add: word_le_nat_alt)
  moreover have l: "length c_encTable = 64" by (simp add: c_encTable_def)
  ultimately have "dec_at (enc_at i) = Some (of_nat (unat i))" "enc_at i \<in> set c_encTable"
    using arg_cong[OF dec_enc_table(1), of "\<lambda>xs. xs ! unat i"] by (simp_all add: enc_at_def)
  then show "dec_at (enc_at i) = Some i" "enc_at i \<noteq> c_paddingChar" using dec_enc_table(2) by auto
qed

lemma u8_eqI:
  fixes x y :: u8
  assumes "\<forall>n \<in> set [0, 1, 2, 3, 4, 5, 6, 7]. bit x n = bit y n"
  shows "x = y"
proof (rule bit_word_eqI)
  fix n :: nat assume "n < LENGTH(8)"
  then have "n \<in> set [0, 1, 2, 3, 4, 5, 6, 7]" by auto
  then show "bit x n = bit y n" using assms by blast
qed

lemma and_63: "x AND 0x3f = x \<Longrightarrow> x \<le> (63 :: u8)"
  by (metis word_and_le1)

lemma bit_beyond: "8 \<le> n \<Longrightarrow> \<not> bit (a :: u8) n"
  using bit_imp_le_length[of a n] by auto

lemmas u8_bits = bit_simps bit_beyond

lemma Suc_numerals: "Suc (Suc 0) = 2" "Suc 2 = 3"
  by simp_all

lemma sextet_le:
  "drop_bit 2 a \<le> (63 :: u8)"
  "push_bit 4 (a AND 0x03) OR drop_bit 4 (b AND 0xf0) \<le> (63 :: u8)"
  "push_bit 2 (b AND 0x0f) OR drop_bit 6 (c AND 0xc0) \<le> (63 :: u8)"
  "push_bit 4 (a AND 0x03) \<le> (63 :: u8)" "push_bit 2 (b AND 0x0f) \<le> (63 :: u8)" "c AND 0x3f \<le> (63 :: u8)"
  by (rule and_63, rule u8_eqI, simp add: u8_bits, (simp add: Suc_numerals)?)+

lemma regroup:
  fixes a b c :: u8
  shows "push_bit 2 (drop_bit 2 a) OR drop_bit 4 (push_bit 4 (a AND 0x03) OR drop_bit 4 (b AND 0xf0)) = a"
    "push_bit 4 (push_bit 4 (a AND 0x03) OR drop_bit 4 (b AND 0xf0)) OR
       drop_bit 2 (push_bit 2 (b AND 0x0f) OR drop_bit 6 (c AND 0xc0)) = b"
    "push_bit 6 (push_bit 2 (b AND 0x0f) OR drop_bit 6 (c AND 0xc0)) OR (c AND 0x3f) = c"
    "push_bit 2 (drop_bit 2 a) OR drop_bit 4 (push_bit 4 (a AND 0x03)) = a"
    "push_bit 4 (push_bit 4 (a AND 0x03) OR drop_bit 4 (b AND 0xf0)) OR drop_bit 2 (push_bit 2 (b AND 0x0f)) = b"
    "push_bit 4 (a AND 0x03) AND 0x0F = 0"
  by (rule u8_eqI, simp add: u8_bits, (simp add: Suc_numerals)?)+

lemma length_Encode: "length (b64_Encode bs) = CapacityForEncode (length bs)"
proof (induction bs rule: b64_Encode.induct)
  case (1 a b c rest)
  have "(length (a # b # c # rest) + 2) div 3 = Suc ((length rest + 2) div 3)" by simp
  then show ?case using 1 by (simp add: CapacityForEncode_def)
qed (simp_all add: CapacityForEncode_def)

lemma Encode_nonempty: "bs \<noteq> [] \<Longrightarrow> b64_Encode bs \<noteq> []"
  by (cases bs rule: b64_Encode.cases) auto

lemma length_and_3: "n AND 0x03 = n mod (4 :: nat)"
  using take_bit_eq_mask[of 2 n] by (simp add: take_bit_eq_mod mask_eq_exp_minus_1)

lemma dec_last_enc:
  assumes "x0 \<le> 63" "x1 \<le> 63" "x2 \<le> 63" "x3 \<le> 63"
  shows "dec_last [enc_at x0, enc_at x1, enc_at x2, enc_at x3] =
      Some (True, [push_bit 2 x0 OR drop_bit 4 x1, push_bit 4 x1 OR drop_bit 2 x2, push_bit 6 x2 OR x3])"
    "dec_last [enc_at x0, enc_at x1, enc_at x2, c_paddingChar] = Some (True, [push_bit 2 x0 OR drop_bit 4 x1, push_bit 4 x1 OR drop_bit 2 x2])"
    "dec_last [enc_at x0, enc_at x1, c_paddingChar, c_paddingChar] = Some (x1 AND 0x0F = 0, [push_bit 2 x0 OR drop_bit 4 x1])"
  using dec_enc[OF assms(1)] dec_enc[OF assms(2)] dec_enc[OF assms(3)] dec_enc[OF assms(4)] assms
  by (simp_all add: dec_last_def dec_at_pad Let_def leD)

lemma dec_loop_enc:
  assumes "x0 \<le> 63" "x1 \<le> 63" "x2 \<le> 63" "x3 \<le> 63" "cs \<noteq> []"
  shows "dec_loop (enc_at x0 # enc_at x1 # enc_at x2 # enc_at x3 # cs) out =
      dec_loop cs (out @ [push_bit 2 x0 OR drop_bit 4 x1, push_bit 4 x1 OR drop_bit 2 x2, push_bit 6 x2 OR x3])"
  using dec_enc(1)[OF assms(1)] dec_enc(1)[OF assms(2)] dec_enc(1)[OF assms(3)] dec_enc(1)[OF assms(4)] assms
  by (cases cs) (simp_all add: leD)

lemma dec_loop_four: "dec_loop [c0, c1, c2, c3] out = map_option (\<lambda>(ok, last). (ok, out @ last)) (dec_last [c0, c1, c2, c3])"
  by simp

lemma dec_loop_Encode: "bs \<noteq> [] \<Longrightarrow> dec_loop (b64_Encode bs) out = Some (True, out @ bs)"
proof (induction bs arbitrary: out rule: b64_Encode.induct)
  case (1 a b c rest)
  note full = sextet_le(1,2,3,6)
  show ?case
  proof (cases "rest = []")
    case True
    show ?thesis unfolding True b64_Encode.simps dec_loop_four dec_last_enc(1)[OF full] regroup by simp
  next
    case False
    show ?thesis
      unfolding b64_Encode.simps(1) dec_loop_enc[OF full Encode_nonempty[OF False]] regroup 1(1)[OF False] by simp
  qed
next
  case (2 a)
  show ?case unfolding b64_Encode.simps dec_loop_four dec_last_enc(3)[OF sextet_le(1,4) sextet_le(1,1)] regroup by simp
next
  case (3 a b)
  show ?case unfolding b64_Encode.simps dec_loop_four dec_last_enc(2)[OF sextet_le(1,2,5,1)] regroup by simp
qed simp

lemma Decode_Encode: "bs \<noteq> [] \<Longrightarrow> b64_Decode (b64_Encode bs) = Some (True, bs)"
  using dec_loop_Encode[of bs "[]"] by (simp add: b64_Decode_def length_and_3 length_Encode CapacityForEncode_def)

subsection \<open>From the text back\<close>

lemma distinct_filter_nth:
  "distinct (filter P xs) \<Longrightarrow> i < length xs \<Longrightarrow> j < length xs \<Longrightarrow> P (xs ! i) \<Longrightarrow> xs ! i = xs ! j \<Longrightarrow> i = j"
proof (induction xs arbitrary: i j)
  case (Cons x xs)
  have "x \<noteq> xs ! k" if "P x" "k < length xs" for k using Cons.prems(1) that by (auto dest: nth_mem)
  then show ?case using Cons.IH[of "i - 1" "j - 1"] Cons.prems
    by (cases i; cases j) (auto split: if_splits)
qed simp

lemma dec_table_distinct: "distinct (filter (\<lambda>u. u \<le> 63) c_decTable)" "length c_decTable = 256"
  by code_simp+

lemma enc_dec:
  assumes "dec_at c = Some u" "u \<le> 63"
  shows "enc_at u = c"
proof -
  have d: "dec_at (enc_at u) = Some u" by (rule dec_enc(1)[OF assms(2)])
  have r: "x < 128 \<Longrightarrow> unat x < length c_decTable" for x :: u8
    using unsigned_less[of x, where 'a = nat] by (simp add: dec_table_distinct(2))
  have "unat (enc_at u) = unat c"
    using assms d r by (intro distinct_filter_nth[OF dec_table_distinct(1)]) (auto simp: dec_at_def split: if_splits)
  then show ?thesis by (simp add: word_unat_eq_iff)
qed

lemma sextet_bits: "u \<le> (63 :: u8) \<Longrightarrow> \<not> bit u 6 \<and> \<not> bit u 7"
proof -
  assume "u \<le> 63"
  then have "unat u < 64" by (simp add: word_le_nat_alt)
  then have "\<not> bit (unat u) 6" "\<not> bit (unat u) 7" by (simp_all add: bit_iff_odd)
  then show ?thesis by (simp_all add: bit_unsigned_iff)
qed

lemma regroup_back:
  fixes u0 u1 u2 u3 :: u8
  assumes "u0 \<le> 63" "u1 \<le> 63" "u2 \<le> 63" "u3 \<le> 63"
  shows "drop_bit 2 (push_bit 2 u0 OR drop_bit 4 u1) = u0"
    "push_bit 4 ((push_bit 2 u0 OR drop_bit 4 u1) AND 0x03) OR drop_bit 4 ((push_bit 4 u1 OR drop_bit 2 u2) AND 0xf0) = u1"
    "push_bit 2 ((push_bit 4 u1 OR drop_bit 2 u2) AND 0x0f) OR drop_bit 6 ((push_bit 6 u2 OR u3) AND 0xc0) = u2"
    "(push_bit 6 u2 OR u3) AND 0x3f = u3"
    "u1 AND 0x0F = 0 \<Longrightarrow> push_bit 4 ((push_bit 2 u0 OR drop_bit 4 u1) AND 0x03) = u1"
    "push_bit 2 ((push_bit 4 u1 OR drop_bit 2 u2) AND 0x0f) = u2 \<longleftrightarrow> u2 AND 0x03 = 0"
proof -
  note b = sextet_bits[OF assms(1)] sextet_bits[OF assms(2)] sextet_bits[OF assms(3)] sextet_bits[OF assms(4)]
  show "drop_bit 2 (push_bit 2 u0 OR drop_bit 4 u1) = u0"
    "push_bit 4 ((push_bit 2 u0 OR drop_bit 4 u1) AND 0x03) OR drop_bit 4 ((push_bit 4 u1 OR drop_bit 2 u2) AND 0xf0) = u1"
    "push_bit 2 ((push_bit 4 u1 OR drop_bit 2 u2) AND 0x0f) OR drop_bit 6 ((push_bit 6 u2 OR u3) AND 0xc0) = u2"
    "(push_bit 6 u2 OR u3) AND 0x3f = u3"
    using b by (rule_tac [!] u8_eqI, simp_all add: u8_bits) (simp_all add: Suc_numerals)
  show "push_bit 4 ((push_bit 2 u0 OR drop_bit 4 u1) AND 0x03) = u1" if "u1 AND 0x0F = 0"
  proof -
    have "bit (u1 AND 0x0F) n = False" for n using that by simp
    from this[of 0] this[of 1] this[of 2] this[of 3] show ?thesis
      using b by (intro u8_eqI) (simp add: u8_bits, (simp add: Suc_numerals)?)
  qed
  show "push_bit 2 ((push_bit 4 u1 OR drop_bit 2 u2) AND 0x0f) = u2 \<longleftrightarrow> u2 AND 0x03 = 0"
  proof
    assume e: "push_bit 2 ((push_bit 4 u1 OR drop_bit 2 u2) AND 0x0f) = u2"
    have "bit (push_bit 2 ((push_bit 4 u1 OR drop_bit 2 u2) AND 0x0f)) n = bit u2 n" for n using e by (rule arg_cong)
    from this[of 0] this[of 1] show "u2 AND 0x03 = 0" by (intro u8_eqI) (simp add: u8_bits)
  next
    assume z: "u2 AND 0x03 = 0"
    have "bit (u2 AND 0x03) n = False" for n using z by simp
    from this[of 0] this[of 1] show "push_bit 2 ((push_bit 4 u1 OR drop_bit 2 u2) AND 0x0f) = u2"
      using b by (intro u8_eqI) (simp add: u8_bits, (simp add: Suc_numerals)?)
  qed
qed

lemma dec_at_pad_gt: "dec_at c_paddingChar = Some u \<Longrightarrow> \<not> u \<le> 63"
  by (simp add: dec_at_pad)

lemma dec_last_sound:
  assumes "dec_last s = Some (ok, out)"
  shows "length s = 4 \<and> length out \<le> 3 \<and> (ok \<longrightarrow> (b64_Encode out = s \<longleftrightarrow> \<not> stray_bits s))"
proof -
  obtain c0 c1 c2 c3 u0 u1 u2 u3 where s: "s = [c0, c1, c2, c3]"
    and d: "dec_at c0 = Some u0" "dec_at c1 = Some u1" "dec_at c2 = Some u2" "dec_at c3 = Some u3"
    using assms by (auto simp: dec_last_def split: list.splits option.splits)
  show ?thesis
  proof (cases ok)
    case True
    then have u: "u0 \<le> 63" "u1 \<le> 63" using assms d by (auto simp: s dec_last_def Let_def not_less split: if_splits)
    have e: "enc_at u0 = c0" "enc_at u1 = c1" using enc_dec d u by auto
    show ?thesis
    proof (cases "c2 = c_paddingChar")
      case p: True
      then have o: "c3 = c_paddingChar" "u1 AND 0x0F = 0" "out = [push_bit 2 u0 OR drop_bit 4 u1]"
        using True assms d by (auto simp: s dec_last_def Let_def split: if_splits)
      have "b64_Encode out = s"
        unfolding o(3) b64_Encode.simps regroup_back(1)[OF u u] regroup_back(5)[OF u u o(2)] e s p o(1) ..
      then show ?thesis using p o by (simp add: s stray_bits_def)
    next
      case n: False
      then have u2: "u2 \<le> 63" using True assms d by (auto simp: s dec_last_def Let_def not_less split: if_splits)
      have e2: "enc_at u2 = c2" using enc_dec d(3) u2 .
      show ?thesis
      proof (cases "c3 = c_paddingChar")
        case p: True
        then have o: "out = [push_bit 2 u0 OR drop_bit 4 u1, push_bit 4 u1 OR drop_bit 2 u2]"
          using True n assms d by (auto simp: s dec_last_def Let_def split: if_splits)
        let ?v = "push_bit 2 ((push_bit 4 u1 OR drop_bit 2 u2) AND 0x0f)"
        have "enc_at ?v = c2 \<longleftrightarrow> ?v = u2"
          using dec_enc(1)[OF sextet_le(5)] d(3) e2 by (metis option.inject)
        then have "enc_at ?v = c2 \<longleftrightarrow> u2 AND 0x03 = 0" unfolding regroup_back(6)[OF u u2 u2] .
        moreover have "b64_Encode out = [c0, c1, enc_at ?v, c_paddingChar]"
          unfolding o b64_Encode.simps regroup_back(1)[OF u u] regroup_back(2)[OF u u2 u2] e ..
        ultimately show ?thesis using p n d(3) o by (simp add: s stray_bits_def)
      next
        case p: False
        then have u3: "u3 \<le> 63" and o: "out = [push_bit 2 u0 OR drop_bit 4 u1, push_bit 4 u1 OR drop_bit 2 u2, push_bit 6 u2 OR u3]"
          using True n assms d by (auto simp: s dec_last_def Let_def not_less split: if_splits)
        have "b64_Encode out = s"
          unfolding o b64_Encode.simps regroup_back(1-4)[OF u u2 u3] e e2 enc_dec[OF d(4) u3] s ..
        then show ?thesis using p o by (simp add: s stray_bits_def)
      qed
    qed
  qed (use assms d in \<open>auto simp: s dec_last_def Let_def split: if_splits\<close>)
qed

lemma stray_bits_shift: "2 \<le> length cs \<Longrightarrow> stray_bits (ds @ cs) = stray_bits cs"
  by (auto simp: stray_bits_def last_append nth_append)

lemma dec_loop_sound:
  "dec_loop s out0 = Some (ok, out) \<Longrightarrow> length s mod 4 = 0 \<Longrightarrow>
     \<exists>new. out = out0 @ new \<and> length new \<le> length s div 4 * 3 \<and> (ok \<longrightarrow> (b64_Encode new = s \<longleftrightarrow> \<not> stray_bits s))"
proof (induction s out0 rule: dec_loop.induct)
  case (1 c0 c1 c2 c3 c4 cs out0)
  let ?r = "c4 # cs"
  obtain u0 u1 u2 u3 where d: "dec_at c0 = Some u0" "dec_at c1 = Some u1" "dec_at c2 = Some u2" "dec_at c3 = Some u3"
    using 1(2) by (auto split: option.splits)
  show ?case
  proof (cases "u0 > 63 \<or> u1 > 63 \<or> u2 > 63 \<or> u3 > 63")
    case True
    then show ?thesis using 1(2) d by auto
  next
    case False
    then have u: "u0 \<le> 63" "u1 \<le> 63" "u2 \<le> 63" "u3 \<le> 63" by (auto simp: not_less)
    let ?g = "[push_bit 2 u0 OR drop_bit 4 u1, push_bit 4 u1 OR drop_bit 2 u2, push_bit 6 u2 OR u3]"
    have "length (c0 # c1 # c2 # c3 # ?r) = length ?r + 4" by simp
    then have l: "length ?r mod 4 = 0" "length (c0 # c1 # c2 # c3 # ?r) div 4 = Suc (length ?r div 4)" using 1(3) by presburger+
    have "dec_loop ?r (out0 @ ?g) = Some (ok, out)" using 1(2) d False by simp
    from 1(1)[OF refl d(1) refl d(2) refl d(3) d(4) False this l(1)]
    obtain new where n: "out = (out0 @ ?g) @ new" "length new \<le> length ?r div 4 * 3" "ok \<longrightarrow> (b64_Encode new = ?r \<longleftrightarrow> \<not> stray_bits ?r)"
      by auto
    have e: "b64_Encode (?g @ new) = c0 # c1 # c2 # c3 # b64_Encode new"
      unfolding append_Cons append_Nil b64_Encode.simps regroup_back(1-4)[OF u]
        enc_dec[OF d(1) u(1)] enc_dec[OF d(2) u(2)] enc_dec[OF d(3) u(3)] enc_dec[OF d(4) u(4)] ..
    have "2 \<le> length ?r" using l(1) by (cases cs) auto
    then have "stray_bits (c0 # c1 # c2 # c3 # ?r) = stray_bits ?r" using stray_bits_shift[of ?r "[c0, c1, c2, c3]"] by simp
    then show ?thesis using n e l(2) by (intro exI[of _ "?g @ new"]) simp
  qed
qed (use dec_last_sound in \<open>fastforce simp: \<close>)+

lemma Decode_sound:
  assumes "b64_Decode s = Some (ok, out)"
  shows "length out \<le> CapacityForDecode (length s)" "ok \<Longrightarrow> b64_Encode out = s \<longleftrightarrow> \<not> stray_bits s"
proof -
  have "length out \<le> CapacityForDecode (length s) \<and> (ok \<longrightarrow> (b64_Encode out = s \<longleftrightarrow> \<not> stray_bits s))"
  proof (cases "length s AND 0x03 = 0")
    case True
    then have m: "length s mod 4 = 0" by (simp add: length_and_3)
    have "dec_loop s [] = Some (ok, out)" using assms True by (simp add: b64_Decode_def)
    from dec_loop_sound[OF this m] show ?thesis by (auto simp: CapacityForDecode_def)
  qed (use assms in \<open>simp add: b64_Decode_def\<close>)
  then show "length out \<le> CapacityForDecode (length s)" "ok \<Longrightarrow> b64_Encode out = s \<longleftrightarrow> \<not> stray_bits s" by blast+
qed

subsection \<open>Properties\<close>

text \<open>Base64: the encoder writes as many characters as \<^verbatim>\<open>CapacityForEncode\<close> says, and decoding gives back
  every non-empty byte array; the text of the empty array is empty, and decoding it reads four characters behind the
  end of the input.\<close>

theorem base64_roundtrip:
  "length (b64_Encode bs) = CapacityForEncode (length bs) \<and>
   b64_Decode (b64_Encode bs) = (if bs = [] then None else Some (True, bs))"
  using Decode_Encode[of bs] length_Encode[of bs] by (auto simp: b64_Decode_def dec_last_def)

text \<open>The decoder writes no more bytes than \<^verbatim>\<open>CapacityForDecode\<close> says, whether it accepts the text or not. A
  text that it accepts is the encoding of its result, except for texts with one padding character whose last sextet
  carries bits that are dropped: the code tests the bits of the padding instead.\<close>

theorem base64_decode_accepts:
  assumes "b64_Decode s = Some (ok, out)"
  shows "length out \<le> CapacityForDecode (length s) \<and> (ok \<longrightarrow> (b64_Encode out = s \<longleftrightarrow> \<not> stray_bits s))"
  using Decode_sound[OF assms] by blast

theorem base64_decode_accepts_witness:
  "b64_Decode (map of_char ''QUJ='') = Some (True, [0x41, 0x42]) \<and> b64_Encode [0x41, 0x42] \<noteq> map of_char ''QUJ=''"
proof -
  have d: "b64_Decode (map of_char ''QUJ='') = Some (True, [0x41, 0x42])" and t: "stray_bits (map of_char ''QUJ='')" by code_simp+
  show ?thesis using base64_decode_accepts[OF d] d t by simp
qed

end
