(* ===== verification/Query_Parser.thy ===== *)
theory Query_Parser
  imports Base64
begin

unbundle bit_operations_syntax

text \<open>
  The text queries of the service: \<^verbatim>\<open>QueryParser::Parse\<close> of \<^verbatim>\<open>src/Server/QueryParser.cpp\<close>, and the extraction of the index
  names and of the query vector in \<^verbatim>\<open>src/Server/SearchExecutionContext.cpp\<close>.

  The parser works on a copy of the query that ends with a zero byte, and cuts it into C strings by writing zeros; its
  results are pointers into this copy, here positions in the buffer. It is used on a fresh \<^verbatim>\<open>QueryParser\<close>, as each
  execution context makes one. \<^verbatim>\<open>isspace\<close> and \<^verbatim>\<open>isupper\<close> are those of the C locale.
\<close>

subsection \<open>Parsing\<close>

datatype State = OptionNameBegin | OptionName | OptionValueBegin | OptionValue | Vector | VectorBase64 | StateNone

definition chr :: "char \<Rightarrow> u8" where
  "chr c = of_char c"

definition isspace :: "u8 \<Rightarrow> bool" where
  "isspace c \<longleftrightarrow> c = 0x20 \<or> (0x09 \<le> c \<and> c \<le> 0x0d)"

definition isupper :: "u8 \<Rightarrow> bool" where
  "isupper c \<longleftrightarrow> 0x41 \<le> c \<and> c \<le> 0x5a"

record scanner =
  sc_state :: State
  sc_optionName :: "nat option"
  sc_vectorBegin :: "nat option"
  sc_vectorEnd :: "nat option"
  sc_estDimension :: nat
  sc_options :: "(nat option \<times> nat) list"
  sc_base64 :: "nat option"
  sc_base64Length :: int

definition scanner_init :: scanner where
  "scanner_init = \<lparr>sc_state = StateNone, sc_optionName = None, sc_vectorBegin = None, sc_vectorEnd = None, sc_estDimension = 0,
     sc_options = [], sc_base64 = None, sc_base64Length = 0\<rparr>"

text \<open>The end of a token: at a space or at the end of the text.\<close>

definition end_token :: "nat \<Rightarrow> scanner \<Rightarrow> scanner" where
  "end_token iter s =
     (if sc_state s = Vector then s\<lparr>sc_estDimension := sc_estDimension s + 1, sc_vectorEnd := Some iter\<rparr>
      else if sc_state s = VectorBase64 then s\<lparr>sc_base64Length := int iter - int (case sc_base64 s of None \<Rightarrow> 0 | Some b \<Rightarrow> b)\<rparr>
      else s)"

text \<open>One step of the loop on the character \<open>c\<close> at position \<open>iter\<close>: the character that stands there afterwards.\<close>

definition scan_step :: "u8 list \<Rightarrow> nat \<Rightarrow> u8 \<Rightarrow> scanner \<Rightarrow> u8 \<times> scanner" where
  "scan_step sep iter c s =
     (if isspace c then (0, (end_token iter s)\<lparr>sc_state := StateNone\<rparr>)
      else
        (case sc_state s of
           StateNone \<Rightarrow>
             if c = chr CHR ''$'' then (c, s\<lparr>sc_state := OptionNameBegin\<rparr>)
             else if c = chr CHR ''#'' then (c, s\<lparr>sc_state := VectorBase64, sc_base64 := Some (iter + 1)\<rparr>)
             else (c, s\<lparr>sc_state := Vector, sc_vectorBegin := Some iter\<rparr>)
         | OptionNameBegin \<Rightarrow> (c, s\<lparr>sc_optionName := Some iter, sc_state := OptionName\<rparr>)
         | OptionName \<Rightarrow>
             if c = chr CHR '':'' \<or> c = chr CHR ''='' then (0, s\<lparr>sc_state := OptionValueBegin\<rparr>)
             else if isupper c then (c OR 0x20, s)
             else (c, s)
         | OptionValueBegin \<Rightarrow> (c, s\<lparr>sc_state := OptionValue, sc_options := sc_options s @ [(sc_optionName s, iter)]\<rparr>)
         | Vector \<Rightarrow> if c \<in> set sep then (0, s\<lparr>sc_estDimension := sc_estDimension s + 1\<rparr>) else (c, s)
         | _ \<Rightarrow> (c, s)))"

text \<open>The loop up to the first zero: the buffer it leaves, the place where it ends, and the state.\<close>

fun scan :: "u8 list \<Rightarrow> nat \<Rightarrow> bytes \<Rightarrow> scanner \<Rightarrow> bytes \<times> nat \<times> scanner" where
  "scan sep iter [] s = ([], iter, s)"
| "scan sep iter (c # cs) s =
     (if c = 0 then (c # cs, iter, s)
      else
        (case scan_step sep iter c s of (c', s') \<Rightarrow>
         case scan sep (iter + 1) cs s' of (out, e, s'') \<Rightarrow> (c' # out, e, s'')))"

text \<open>The starts of the elements between \<open>b\<close> and \<open>e\<close>.\<close>

function skip_while :: "(u8 \<Rightarrow> bool) \<Rightarrow> bytes \<Rightarrow> nat \<Rightarrow> nat \<Rightarrow> nat" where
  "skip_while P buf b e = (if b < e \<and> P (buf ! b) then skip_while P buf (b + 1) e else b)"
  by pat_completeness auto
termination by (relation "measure (\<lambda>(P, buf, b, e). e - b)") auto

declare skip_while.simps [simp del]

lemma skip_while_le: "b \<le> skip_while P buf b e"
  by (induction P buf b e rule: skip_while.induct) (subst skip_while.simps, auto)

lemma skip_while_progress: "b < e \<Longrightarrow> P (buf ! b) \<Longrightarrow> b < skip_while P buf b e"
  using skip_while_le[of "b + 1" P buf e] by (subst skip_while.simps) simp

function elements :: "bytes \<Rightarrow> nat \<Rightarrow> nat \<Rightarrow> nat list" where
  "elements buf b e =
     (if b < e then
        (let b1 = skip_while (\<lambda>c. c = 0) buf b e in
         if e \<le> b1 then [] else b1 # elements buf (skip_while (\<lambda>c. c \<noteq> 0) buf b1 e) e)
      else [])"
  by pat_completeness auto
termination
proof (relation "measure (\<lambda>(buf, b, e). e - b)")
  fix buf :: bytes and b e b1 :: nat
  assume b: "b < e" "b1 = skip_while (\<lambda>c. c = 0) buf b e" "\<not> e \<le> b1"
  have z: "\<not> (k < e \<and> P (buf ! k))" if "k = skip_while P buf b e" for k P b
    using that by (induction P buf b e rule: skip_while.induct) (metis skip_while.simps)
  have "buf ! b1 \<noteq> 0" using z[OF b(2)] b(3) by auto
  then have "b1 < skip_while (\<lambda>c. c \<noteq> 0) buf b1 e" using b(3) by (intro skip_while_progress) auto
  moreover have "b \<le> b1" using skip_while_le[of b "\<lambda>c. c = 0" buf e] b(2) by simp
  ultimately show "((buf, skip_while (\<lambda>c. c \<noteq> 0) buf b1 e, e), buf, b, e) \<in> measure (\<lambda>(buf, b, e). e - b)" using b(1) by simp
qed simp

declare elements.simps [simp del]

record QueryParser =
  qp_options :: "(nat option \<times> nat) list"
  qp_vectorElements :: "nat list"
  qp_vectorBase64 :: "nat option"
  qp_vectorBase64Length :: int
  qp_dataHolder :: bytes

definition c_defaultVectorSeparator :: "u8 list" where
  "c_defaultVectorSeparator = [chr CHR ''|'']"

definition Parse :: "u8 list option \<Rightarrow> bytes \<Rightarrow> ErrorCode \<times> QueryParser" where
  "Parse p_vectorSeparator p_query =
     (let sep = (case p_vectorSeparator of None \<Rightarrow> c_defaultVectorSeparator | Some x \<Rightarrow> x) in
      case scan sep 0 (p_query @ [0]) scanner_init of (buf, iter, s0) \<Rightarrow>
      let s = end_token iter s0;
          p = \<lparr>qp_options = sc_options s, qp_vectorElements = [], qp_vectorBase64 = sc_base64 s,
               qp_vectorBase64Length = sc_base64Length s, qp_dataHolder = buf\<rparr> in
      case sc_vectorBegin s of
        None \<Rightarrow> (Success, p)
      | Some b \<Rightarrow>
          if sc_estDimension s = 0 then (Success, p)
          else
            (let els = elements buf b (case sc_vectorEnd s of None \<Rightarrow> 0 | Some e \<Rightarrow> e) in
             (if els = [] then Fail else Success, p\<lparr>qp_vectorElements := els\<rparr>)))"

text \<open>The C string at a position.\<close>

definition cstr :: "bytes \<Rightarrow> nat \<Rightarrow> bytes" where
  "cstr buf i = takeWhile (\<lambda>c. c \<noteq> 0) (drop i buf)"

subsection \<open>Conversions\<close>

text \<open>\<^verbatim>\<open>strtoll\<close> and \<^verbatim>\<open>strtoull\<close> in base 10: leading space, a sign, digits; the value and the text behind it. \<^const>\<open>None\<close>: no
  digits.\<close>

definition isdigit :: "u8 \<Rightarrow> bool" where
  "isdigit c \<longleftrightarrow> 0x30 \<le> c \<and> c \<le> 0x39"

definition digits_value :: "bytes \<Rightarrow> int" where
  "digits_value ds = foldl (\<lambda>v d. 10 * v + (int (unat d) - 48)) 0 ds"

definition str_integer :: "bytes \<Rightarrow> (bool \<times> int \<times> bytes) option" where
  "str_integer p_str =
     (let s = dropWhile isspace p_str;
          neg = (s \<noteq> [] \<and> hd s = chr CHR ''-'');
          t = (if s \<noteq> [] \<and> (hd s = chr CHR ''-'' \<or> hd s = chr CHR ''+'') then tl s else s);
          ds = takeWhile isdigit t in
      if ds = [] then None else Some (neg, digits_value ds, dropWhile isdigit t))"

definition ConvertStringToSignedInt :: "nat \<Rightarrow> bytes \<Rightarrow> int option" where
  "ConvertStringToSignedInt bits p_str =
     (case str_integer p_str of
        None \<Rightarrow> None
      | Some (neg, m, rest) \<Rightarrow>
          (let val = (if neg then - m else m) in
           if val < - (2 ^ 63) \<or> val \<ge> 2 ^ 63 \<or> rest \<noteq> [] then None
           else if val < - (2 ^ (bits - 1)) \<or> val > 2 ^ (bits - 1) - 1 then None
           else Some val))"

definition ConvertStringToUnsignedInt :: "nat \<Rightarrow> bytes \<Rightarrow> int option" where
  "ConvertStringToUnsignedInt bits p_str =
     (case str_integer p_str of
        None \<Rightarrow> None
      | Some (neg, m, rest) \<Rightarrow>
          if m \<ge> 2 ^ 64 \<or> rest \<noteq> [] then None
          else (let val = (if neg then (- m) mod 2 ^ 64 else m) in if val > 2 ^ bits - 1 then None else Some val))"

text \<open>\<^verbatim>\<open>ConvertToString\<close>: \<^verbatim>\<open>std::to_string\<close> of an integer.\<close>

fun digits_of :: "nat \<Rightarrow> bytes" where
  "digits_of n = (if n < 10 then [of_nat (48 + n)] else digits_of (n div 10) @ [of_nat (48 + n mod 10)])"

declare digits_of.simps [simp del]

definition ConvertToString :: "int \<Rightarrow> bytes" where
  "ConvertToString v = (if v < 0 then chr CHR ''-'' # digits_of (nat (- v)) else digits_of (nat v))"

definition tryConv :: "u8 \<Rightarrow> u8" where
  "tryConv c = (if 0x61 \<le> c \<and> c \<le> 0x7a then c - 32 else c)"

fun StrEqualIgnoreCase :: "bytes \<Rightarrow> bytes \<Rightarrow> bool" where
  "StrEqualIgnoreCase (a # l) (b # r) = (if tryConv a \<noteq> tryConv b then False else StrEqualIgnoreCase l r)"
| "StrEqualIgnoreCase l r = (l = [] \<and> r = [])"

definition ascii :: "string \<Rightarrow> bytes" where
  "ascii s = map of_char s"

definition ConvertStringTo_bool :: "bytes \<Rightarrow> bool option" where
  "ConvertStringTo_bool p_str =
     (if StrEqualIgnoreCase p_str (ascii ''true'') then Some True
      else if StrEqualIgnoreCase p_str (ascii ''false'') then Some False else None)"

datatype VectorValueType = Int8 | UInt8 | Int16 | Float | UndefinedType

definition ConvertStringTo_type :: "bytes \<Rightarrow> VectorValueType option" where
  "ConvertStringTo_type p_str =
     (if StrEqualIgnoreCase p_str (ascii ''Int8'') then Some Int8
      else if StrEqualIgnoreCase p_str (ascii ''UInt8'') then Some UInt8
      else if StrEqualIgnoreCase p_str (ascii ''Int16'') then Some Int16
      else if StrEqualIgnoreCase p_str (ascii ''Float'') then Some Float else None)"

definition GetValueTypeSize :: "VectorValueType \<Rightarrow> nat" where
  "GetValueTypeSize t = (case t of Int8 \<Rightarrow> 1 | UInt8 \<Rightarrow> 1 | Int16 \<Rightarrow> 2 | Float \<Rightarrow> 4 | UndefinedType \<Rightarrow> 0)"

text \<open>The bytes of one element; \<open>flt\<close> is the conversion of a float, as the bytes of its representation.\<close>

definition ConvertStringTo_element :: "(bytes \<Rightarrow> bytes option) \<Rightarrow> VectorValueType \<Rightarrow> bytes \<Rightarrow> bytes option" where
  "ConvertStringTo_element flt t p_str =
     (case t of
        Int8 \<Rightarrow> map_option (int_encode 1) (ConvertStringToSignedInt 8 p_str)
      | UInt8 \<Rightarrow> map_option (int_encode 1) (ConvertStringToUnsignedInt 8 p_str)
      | Int16 \<Rightarrow> map_option (int_encode 2) (ConvertStringToSignedInt 16 p_str)
      | Float \<Rightarrow> flt p_str
      | UndefinedType \<Rightarrow> None)"

fun ConvertVectorFromString :: "(bytes \<Rightarrow> bytes option) \<Rightarrow> VectorValueType \<Rightarrow> bytes list \<Rightarrow> bytes option" where
  "ConvertVectorFromString flt t [] = Some []"
| "ConvertVectorFromString flt t (x # xs) =
     (case ConvertStringTo_element flt t x of
        None \<Rightarrow> None
      | Some b \<Rightarrow> map_option ((@) b) (ConvertVectorFromString flt t xs))"

subsection \<open>The execution context\<close>

record SearchExecutionContext =
  ec_parser :: QueryParser
  ec_indexNames :: "bytes list"
  ec_vector :: bytes
  ec_vectorDimension :: nat
  ec_inputValueType :: VectorValueType
  ec_extractMetadata :: bool
  ec_resultNum :: int

definition context_new :: "int \<Rightarrow> SearchExecutionContext" where
  "context_new defaultMaxResultNumber = \<lparr>ec_parser = \<lparr>qp_options = [], qp_vectorElements = [], qp_vectorBase64 = None,
       qp_vectorBase64Length = 0, qp_dataHolder = []\<rparr>, ec_indexNames = [], ec_vector = [], ec_vectorDimension = 0,
     ec_inputValueType = UndefinedType, ec_extractMetadata = False, ec_resultNum = defaultMaxResultNumber\<rparr>"

definition ParseQuery :: "u8 list \<Rightarrow> bytes \<Rightarrow> SearchExecutionContext \<Rightarrow> ErrorCode \<times> SearchExecutionContext" where
  "ParseQuery m_vectorSeparator p_query c = (case Parse (Some m_vectorSeparator) p_query of (e, p) \<Rightarrow> (e, c\<lparr>ec_parser := p\<rparr>))"

text \<open>The names between the commas.\<close>

function split_names :: "bytes \<Rightarrow> bytes list" where
  "split_names v =
     (if v = [] then []
      else
        (let name = takeWhile (\<lambda>c. c \<noteq> chr CHR '','') v; rest = dropWhile (\<lambda>c. c \<noteq> chr CHR '','') v in
         (if name \<noteq> [] then [name] else []) @ split_names (tl rest)))"
  by pat_completeness auto
termination
proof (relation "measure length")
  fix v name rest :: bytes
  assume v: "v \<noteq> []" "rest = dropWhile (\<lambda>c. c \<noteq> chr CHR '','') v"
  have "0 < length v" using v(1) by simp
  moreover have "length rest \<le> length v" unfolding v(2) by (rule length_dropWhile_le)
  ultimately show "(tl rest, v) \<in> measure length" unfolding in_measure length_tl by linarith
qed simp

declare split_names.simps [simp del]

definition apply_option :: "bytes \<times> bytes \<Rightarrow> SearchExecutionContext \<Rightarrow> SearchExecutionContext" where
  "apply_option opt c =
     (case opt of (name, v) \<Rightarrow>
        if StrEqualIgnoreCase name (ascii ''indexname'') then c\<lparr>ec_indexNames := ec_indexNames c @ split_names v\<rparr>
        else if StrEqualIgnoreCase name (ascii ''datatype'') then
          (case ConvertStringTo_type v of None \<Rightarrow> c | Some t \<Rightarrow> c\<lparr>ec_inputValueType := t\<rparr>)
        else if StrEqualIgnoreCase name (ascii ''extractmetadata'') then
          (case ConvertStringTo_bool v of None \<Rightarrow> c | Some b \<Rightarrow> c\<lparr>ec_extractMetadata := b\<rparr>)
        else if StrEqualIgnoreCase name (ascii ''resultnum'') then
          (case ConvertStringToSignedInt 32 v of None \<Rightarrow> c | Some n \<Rightarrow> c\<lparr>ec_resultNum := n\<rparr>)
        else c)"

text \<open>The options as strings; the name pointer of an option is set.\<close>

definition option_strings :: "QueryParser \<Rightarrow> (bytes \<times> bytes) list" where
  "option_strings p = map (\<lambda>(n, v). (case n of None \<Rightarrow> [] | Some i \<Rightarrow> cstr (qp_dataHolder p) i, cstr (qp_dataHolder p) v)) (qp_options p)"

definition element_strings :: "QueryParser \<Rightarrow> bytes list" where
  "element_strings p = map (cstr (qp_dataHolder p)) (qp_vectorElements p)"

definition ExtractOption :: "SearchExecutionContext \<Rightarrow> SearchExecutionContext" where
  "ExtractOption c = fold apply_option (option_strings (ec_parser c)) c"

text \<open>\<^verbatim>\<open>ExtractVector\<close>; \<^const>\<open>None\<close> is an access outside a buffer, or the remainder by the size of an undefined type.\<close>

definition ExtractVector :: "(bytes \<Rightarrow> bytes option) \<Rightarrow> VectorValueType \<Rightarrow> SearchExecutionContext \<Rightarrow> (ErrorCode \<times> SearchExecutionContext) option" where
  "ExtractVector flt t c =
     (let p = ec_parser c in
      if qp_vectorElements p \<noteq> [] then
        (if t = UndefinedType then Some (Fail, c)
         else
           (case ConvertVectorFromString flt t (element_strings p) of
              None \<Rightarrow> Some (Fail, c\<lparr>ec_vector := [], ec_vectorDimension := 0\<rparr>)
            | Some v \<Rightarrow> Some (Success, c\<lparr>ec_vector := v, ec_vectorDimension := length (qp_vectorElements p)\<rparr>)))
      else
        (case qp_vectorBase64 p of
           None \<Rightarrow> Some (Fail, c)
         | Some b \<Rightarrow>
             if qp_vectorBase64Length p = 0 then Some (Fail, c)
             else
               (let estLen = nat (qp_vectorBase64Length p) in
                case b64_Decode (take estLen (drop b (qp_dataHolder p))) of
                  None \<Rightarrow> None
                | Some (ok, out) \<Rightarrow>
                    if CapacityForDecode estLen < length out then None
                    else if \<not> ok then Some (Fail, c)
                    else if GetValueTypeSize t = 0 then None
                    else if length out mod GetValueTypeSize t \<noteq> 0 then Some (Fail, c)
                    else Some (Success, c\<lparr>ec_vectorDimension := length out div GetValueTypeSize t, ec_vector := out\<rparr>))))"

subsection \<open>Queries as the client writes them\<close>

text \<open>An option with its name and its value, and the vector as numbers behind each other. The separator is the first
  of the separators.\<close>

definition plain :: "u8 \<Rightarrow> bool" where
  "plain c \<longleftrightarrow> c \<noteq> 0 \<and> \<not> isspace c"

definition option_ok :: "bytes \<times> bytes \<Rightarrow> bool" where
  "option_ok opt \<longleftrightarrow> (case opt of (n, v) \<Rightarrow> n \<noteq> [] \<and> v \<noteq> [] \<and> list_all plain n \<and> list_all plain v \<and>
     chr CHR '':'' \<notin> set (tl n) \<and> chr CHR ''='' \<notin> set (tl n))"

definition print_option :: "bytes \<times> bytes \<Rightarrow> bytes" where
  "print_option opt = (case opt of (n, v) \<Rightarrow> chr CHR ''$'' # n @ chr CHR '':'' # v @ [0x20])"

definition element_ok :: "u8 list \<Rightarrow> bytes \<Rightarrow> bool" where
  "element_ok sep x \<longleftrightarrow> x \<noteq> [] \<and> list_all plain x \<and> set x \<inter> set sep = {}"

fun print_elements :: "u8 \<Rightarrow> bytes list \<Rightarrow> bytes" where
  "print_elements c [] = []"
| "print_elements c [x] = x"
| "print_elements c (x # xs) = x @ c # print_elements c xs"

definition print_query :: "u8 \<Rightarrow> (bytes \<times> bytes) list \<Rightarrow> bytes list \<Rightarrow> bytes" where
  "print_query c opts els = concat (map print_option opts) @ print_elements c els"

text \<open>The parser leaves the first character of an option's name as it is and makes the others lower case.\<close>

definition lower :: "u8 \<Rightarrow> u8" where
  "lower c = (if isupper c then c OR 0x20 else c)"

definition lower_tail :: "bytes \<Rightarrow> bytes" where
  "lower_tail n = hd n # map lower (tl n)"

subsection \<open>Scanning\<close>

text \<open>The loop on a text without zeros.\<close>

fun run :: "u8 list \<Rightarrow> nat \<Rightarrow> bytes \<Rightarrow> scanner \<Rightarrow> bytes \<times> scanner" where
  "run sep i [] s = ([], s)"
| "run sep i (c # cs) s =
     (case scan_step sep i c s of (c', s') \<Rightarrow> case run sep (i + 1) cs s' of (out, s'') \<Rightarrow> (c' # out, s''))"

lemma scan_run:
  "0 \<notin> set q \<Longrightarrow> run sep i q s = (out, s') \<Longrightarrow> scan sep i (q @ [0]) s = (out @ [0], i + length q, s')"
  by (induction sep i q s arbitrary: out rule: run.induct) (auto split: prod.splits)

lemma run_append:
  "run sep i (xs @ ys) s =
     (case run sep i xs s of (o1, s1) \<Rightarrow> case run sep (i + length xs) ys s1 of (o2, s2) \<Rightarrow> (o1 @ o2, s2))"
  by (induction sep i xs s rule: run.induct) (auto split: prod.splits)

lemma run_join:
  "run sep i xs s = (o1, s1) \<Longrightarrow> run sep (i + length xs) ys s1 = (o2, s2) \<Longrightarrow> run sep i (xs @ ys) s = (o1 @ o2, s2)"
  by (simp add: run_append)

lemma length_run: "run sep i q s = (out, s') \<Longrightarrow> length out = length q"
  by (induction sep i q s arbitrary: out rule: run.induct) (auto split: prod.splits)

lemma run_value: "list_all plain v \<Longrightarrow> sc_state s = OptionValue \<Longrightarrow> run sep i v s = (v, s)"
  by (induction sep i v s rule: run.induct) (auto simp: scan_step_def plain_def)

lemma run_name:
  "list_all plain n \<Longrightarrow> sc_state s = OptionName \<Longrightarrow> chr CHR '':'' \<notin> set n \<Longrightarrow> chr CHR ''='' \<notin> set n \<Longrightarrow> run sep i n s = (map lower n, s)"
  by (induction sep i n s rule: run.induct) (auto simp: scan_step_def plain_def lower_def)

lemma chr_plain: "\<not> isspace (chr CHR ''$'')" "\<not> isspace (chr CHR '':'')" "\<not> isspace (chr CHR ''#'')" "isspace 0x20"
  "chr CHR ''#'' \<noteq> chr CHR ''$''" "chr CHR ''#'' \<noteq> 0"
  by code_simp+

lemma run_option:
  assumes "option_ok (n, v)" "sc_state s = StateNone"
  shows "run sep i (print_option (n, v)) s =
    (chr CHR ''$'' # lower_tail n @ 0 # v @ [0],
     s\<lparr>sc_optionName := Some (i + 1), sc_options := sc_options s @ [(Some (i + 1), i + 2 + length n)]\<rparr>)"
proof -
  obtain a n' b v' where n: "n = a # n'" "v = b # v'" using assms(1) by (cases n; cases v) (auto simp: option_ok_def)
  have p: "plain a" "list_all plain n'" "plain b" "list_all plain v'" "chr CHR '':'' \<notin> set n'" "chr CHR ''='' \<notin> set n'"
    using assms(1) by (auto simp: option_ok_def n)
  let ?s1 = "s\<lparr>sc_state := OptionName, sc_optionName := Some (i + 1)\<rparr>"
  let ?s2 = "?s1\<lparr>sc_state := OptionValue, sc_options := sc_options s @ [(Some (i + 1), i + 2 + length n)]\<rparr>"
  let ?h = "[chr CHR ''$'', a]" and ?m = "[chr CHR '':'', b]"
  have r1: "run sep i ?h s = (?h, ?s1)" using p(1) chr_plain assms(2) by (simp add: scan_step_def plain_def)
  have r2: "run sep (i + length ?h) n' ?s1 = (map lower n', ?s1)" using p by (intro run_name) simp_all
  have r3: "run sep (i + length ?h + length n') ?m ?s1 = ([0, b], ?s2)"
    using p(3) chr_plain by (simp add: scan_step_def plain_def n)
  have r4: "run sep (i + length ?h + length n' + length ?m) v' ?s2 = (v', ?s2)" using p by (intro run_value) simp_all
  have r5: "run sep (i + length ?h + length n' + length ?m + length v') [0x20] ?s2 = ([0], ?s2\<lparr>sc_state := StateNone\<rparr>)"
    using chr_plain by (simp add: scan_step_def end_token_def)
  have "?s2\<lparr>sc_state := StateNone\<rparr> = s\<lparr>sc_optionName := Some (i + 1), sc_options := sc_options s @ [(Some (i + 1), i + 2 + length n)]\<rparr>"
    using assms(2) by simp
  with run_join[OF r1 run_join[OF r2 run_join[OF r3 run_join[OF r4 r5]]]] show ?thesis
    by (simp add: print_option_def lower_tail_def n)
qed

lemma run_options:
  assumes "list_all option_ok opts" "sc_state s = StateNone"
  shows "\<exists>out s'. run sep i (concat (map print_option opts)) s = (out, s') \<and> sc_state s' = StateNone \<and>
     length out = length (concat (map print_option opts)) \<and>
     sc_vectorBegin s' = sc_vectorBegin s \<and> sc_vectorEnd s' = sc_vectorEnd s \<and> sc_estDimension s' = sc_estDimension s \<and>
     sc_base64 s' = sc_base64 s \<and> sc_base64Length s' = sc_base64Length s \<and>
     (\<exists>new. sc_options s' = sc_options s @ new \<and>
        (\<forall>before rest. length before = i \<longrightarrow>
           map (\<lambda>(n, v). (cstr (before @ out @ rest) (the n), cstr (before @ out @ rest) v)) new = map (\<lambda>(n, v). (lower_tail n, v)) opts) \<and>
        (\<forall>x \<in> set new. fst x \<noteq> None))"
  using assms
proof (induction opts arbitrary: i s)
  case (Cons opt opts)
  obtain n v where opt: "opt = (n, v)" by (cases opt)
  let ?o = "chr CHR ''$'' # lower_tail n @ 0 # v @ [0]" and ?x = "(Some (i + 1), i + 2 + length n)"
  let ?s = "s\<lparr>sc_optionName := Some (i + 1), sc_options := sc_options s @ [?x]\<rparr>"
  have ok: "option_ok (n, v)" "list_all option_ok opts" using Cons.prems by (simp_all add: opt)
  note r1 = run_option[OF ok(1) Cons.prems(2), of sep i]
  have "sc_state ?s = StateNone" using Cons.prems(2) by simp
  from Cons.IH[OF ok(2) this, of "i + length (print_option (n, v))"] obtain out s' new where
    r2: "run sep (i + length (print_option (n, v))) (concat (map print_option opts)) ?s = (out, s')"
    and s': "sc_state s' = StateNone" "length out = length (concat (map print_option opts))"
      "sc_vectorBegin s' = sc_vectorBegin s \<and> sc_vectorEnd s' = sc_vectorEnd s \<and> sc_estDimension s' = sc_estDimension s \<and>
       sc_base64 s' = sc_base64 s \<and> sc_base64Length s' = sc_base64Length s" "sc_options s' = sc_options s @ [?x] @ new"
    and new: "\<forall>before rest. length before = i + length (print_option (n, v)) \<longrightarrow>
        map (\<lambda>(n, v). (cstr (before @ out @ rest) (the n), cstr (before @ out @ rest) v)) new = map (\<lambda>(n, v). (lower_tail n, v)) opts"
      "\<forall>x \<in> set new. fst x \<noteq> None"
    by auto
  have len: "length ?o = length (print_option (n, v))" using ok(1) by (cases n) (simp_all add: print_option_def lower_tail_def option_ok_def)
  have z: "0 \<notin> set (lower_tail n)" "0 \<notin> set v" "length (lower_tail n) = length n"
  proof -
    have "lower c \<noteq> 0" if "plain c" for c
    proof (cases "isupper c")
      case True
      have "c OR 0x20 \<noteq> 0" by (simp add: or_eq_0_iff)
      then show ?thesis using True by (simp add: lower_def)
    qed (use that in \<open>simp add: lower_def plain_def\<close>)
    then show "0 \<notin> set (lower_tail n)" "0 \<notin> set v" "length (lower_tail n) = length n"
      using ok(1) by (cases n; force simp: option_ok_def lower_tail_def list_all_iff plain_def)+
  qed
  have z': "\<forall>x \<in> set (lower_tail n). x \<noteq> 0" "\<forall>x \<in> set v. x \<noteq> 0" using z by auto
  have c: "cstr (before @ (?o @ out) @ rest) (i + 1) = lower_tail n" "cstr (before @ (?o @ out) @ rest) (i + 2 + length n) = v"
    if "length before = i" for before rest
    using that z(3) z' by (simp_all add: cstr_def takeWhile_append2 takeWhile_tail)
  show ?case
  proof (intro exI conjI)
    show "run sep i (concat (map print_option (opt # opts))) s = (?o @ out, s')"
      using run_join[OF r1 r2] by (simp add: opt)
    show "sc_options s' = sc_options s @ (?x # new)" using s'(4) by simp
    show "\<forall>before rest. length before = i \<longrightarrow>
           map (\<lambda>(n, v). (cstr (before @ (?o @ out) @ rest) (the n), cstr (before @ (?o @ out) @ rest) v)) (?x # new) =
           map (\<lambda>(n, v). (lower_tail n, v)) (opt # opts)"
    proof (intro allI impI)
      fix before rest :: bytes assume b: "length before = i"
      have "length (before @ ?o) = i + length (print_option (n, v))" using b len by simp
      from new(1)[rule_format, OF this, of rest] c[OF b, of rest]
      show "map (\<lambda>(n, v). (cstr (before @ (?o @ out) @ rest) (the n), cstr (before @ (?o @ out) @ rest) v)) (?x # new) =
           map (\<lambda>(n, v). (lower_tail n, v)) (opt # opts)" by (simp add: opt)
    qed
    show "\<forall>x \<in> set (?x # new). fst x \<noteq> None" using new(2) by simp
    show "length (?o @ out) = length (concat (map print_option (opt # opts)))" using len s'(2) by (simp add: opt)
  qed (use s'(1,3) in simp_all)
qed simp

subsection \<open>The vector\<close>

text \<open>The elements with zeros between them.\<close>

fun cut :: "bytes list \<Rightarrow> bytes" where
  "cut [] = []"
| "cut [x] = x"
| "cut (x # xs) = x @ 0 # cut xs"

lemma run_element:
  "list_all plain x \<Longrightarrow> set x \<inter> set sep = {} \<Longrightarrow> sc_state s = Vector \<Longrightarrow> run sep i x s = (x, s)"
  by (induction sep i x s rule: run.induct) (auto simp: scan_step_def plain_def)

lemma run_elements:
  "list_all (element_ok sep) els \<Longrightarrow> c \<in> set sep \<Longrightarrow> plain c \<Longrightarrow> sc_state s = Vector \<Longrightarrow>
     run sep i (print_elements c els) s = (cut els, s\<lparr>sc_estDimension := sc_estDimension s + (length els - 1)\<rparr>)"
proof (induction c els arbitrary: i s rule: print_elements.induct)
  case (2 c x)
  then show ?case using run_element[of x sep s i] by (simp add: element_ok_def)
next
  case (3 c x y ys)
  let ?s = "s\<lparr>sc_estDimension := sc_estDimension s + 1\<rparr>"
  have r1: "run sep i x s = (x, s)" using 3(2,5) by (intro run_element) (simp_all add: element_ok_def)
  have r2: "run sep (i + length x) [c] s = ([0], ?s)" using 3(3,4,5) by (simp add: scan_step_def plain_def)
  have r3: "run sep (i + length x + length [c]) (print_elements c (y # ys)) ?s =
      (cut (y # ys), ?s\<lparr>sc_estDimension := sc_estDimension ?s + (length (y # ys) - 1)\<rparr>)"
    using 3(2-5) by (intro 3(1)) simp_all
  show ?case using run_join[OF r1 run_join[OF r2 r3]] by simp
qed simp

lemma run_vector:
  assumes "list_all (element_ok sep) els" "els \<noteq> []" "c \<in> set sep" "plain c" "sc_state s = StateNone"
    and "hd (hd els) \<noteq> chr CHR ''$''" "hd (hd els) \<noteq> chr CHR ''#''"
  shows "run sep i (print_elements c els) s =
    (cut els, s\<lparr>sc_state := Vector, sc_vectorBegin := Some i, sc_estDimension := sc_estDimension s + (length els - 1)\<rparr>)"
proof -
  obtain a x xs where els: "els = (a # x) # xs" using assms(1,2) by (cases els; cases "hd els") (auto simp: element_ok_def)
  let ?s = "s\<lparr>sc_state := Vector, sc_vectorBegin := Some i\<rparr>"
  have a: "plain a" "list_all plain x" "a \<notin> set sep" using assms(1) by (auto simp: els element_ok_def)
  have f: "scan_step sep i a s = (a, ?s)" using a(1) assms(5-7) by (simp add: scan_step_def plain_def els)
  have v: "scan_step sep i a ?s = (a, ?s)" using a by (simp add: scan_step_def plain_def)
  obtain t where t: "print_elements c els = a # t" by (cases xs) (auto simp: els)
  have "run sep i (print_elements c els) s = run sep i (print_elements c els) ?s" unfolding t by (simp add: f v)
  also have "\<dots> = (cut els, ?s\<lparr>sc_estDimension := sc_estDimension ?s + (length els - 1)\<rparr>)"
    using assms by (intro run_elements) simp_all
  finally show ?thesis by simp
qed

lemma skip_all: "\<forall>c \<in> set x. P c \<Longrightarrow> skip_while P (before @ x @ rest) (length before) (length before + length x + k) =
    skip_while P (before @ x @ rest) (length before + length x) (length before + length x + k)"
proof (induction x arbitrary: before)
  case (Cons a x)
  have "skip_while P ((before @ [a]) @ x @ rest) (length (before @ [a])) (length (before @ [a]) + length x + k) =
     skip_while P ((before @ [a]) @ x @ rest) (length (before @ [a]) + length x) (length (before @ [a]) + length x + k)"
    using Cons by (intro Cons.IH) simp
  moreover have "skip_while P (before @ (a # x) @ rest) (length before) (length before + length (a # x) + k) =
      skip_while P (before @ (a # x) @ rest) (length before + 1) (length before + length (a # x) + k)"
    using Cons.prems by (subst skip_while.simps) (simp add: nth_append)
  ultimately show ?case by simp
qed simp

lemma skip_stop: "\<not> (b < e \<and> P (buf ! b)) \<Longrightarrow> skip_while P buf b e = b"
  by (subst skip_while.simps) auto

lemma cstr_at: "0 \<notin> set x \<Longrightarrow> cstr (before @ x @ 0 # rest) (length before) = x"
proof -
  assume "0 \<notin> set x"
  then have "\<forall>c \<in> set x. c \<noteq> 0" by auto
  then show ?thesis by (simp add: cstr_def takeWhile_append2)
qed

text \<open>The second loop finds the start of every element.\<close>

lemma elements_cut:
  "\<forall>x \<in> set els. x \<noteq> [] \<and> 0 \<notin> set x \<Longrightarrow>
     map (cstr (before @ cut els @ 0 # rest)) (elements (before @ cut els @ 0 # rest) (length before) (length before + length (cut els))) = els"
proof (induction els arbitrary: before rule: cut.induct)
  case (2 x)
  let ?b = "before @ x @ 0 # rest" and ?e = "length before + length x"
  have x: "x \<noteq> []" "0 \<notin> set x" using 2 by simp_all
  have s1: "skip_while (\<lambda>c. c = 0) ?b (length before) ?e = length before"
    using x by (intro skip_stop) (cases x, simp_all add: nth_append)
  have "\<forall>c \<in> set x. c \<noteq> 0" using x(2) by auto
  from skip_all[OF this, of before "0 # rest" 0] have s2: "skip_while (\<lambda>c. c \<noteq> 0) ?b (length before) ?e = ?e"
    using skip_stop[of ?e ?e] by simp
  have "elements ?b (length before) ?e = [length before]"
    using x s1 s2 by (subst elements.simps) (simp add: Let_def, subst elements.simps, simp)
  moreover have "cstr ?b (length before) = x" by (rule cstr_at[OF x(2)])
  ultimately show ?case by simp
next
  case (3 x y ys)
  let ?r = "cut (y # ys)"
  let ?b = "before @ x @ 0 # ?r @ 0 # rest" and ?e = "length before + length x + 1 + length ?r"
  have x: "x \<noteq> []" "0 \<notin> set x" using 3(2) by simp_all
  have s1: "skip_while (\<lambda>c. c = 0) ?b (length before) ?e = length before"
    using x by (intro skip_stop) (cases x, simp_all add: nth_append)
  have "\<forall>c \<in> set x. c \<noteq> 0" using x(2) by auto
  from skip_all[OF this, of before "0 # ?r @ 0 # rest" "1 + length ?r"]
  have s2: "skip_while (\<lambda>c. c \<noteq> 0) ?b (length before) ?e = length before + length x"
    using skip_stop[of "length before + length x" ?e "\<lambda>c. c \<noteq> 0" ?b] by (simp add: nth_append add.assoc)
  have e1: "elements ?b (length before) ?e = length before # elements ?b (length before + length x) ?e"
    using x s1 s2 by (subst elements.simps) (simp add: Let_def)
  have ne: "?r \<noteq> []" using 3(2) by (cases ys) auto
  have e2: "elements ?b (length before + length x) ?e = elements ?b (length before + length x + 1) ?e"
  proof -
    have "skip_while (\<lambda>c. c = 0) ?b (length before + length x) ?e = skip_while (\<lambda>c. c = 0) ?b (length before + length x + 1) ?e"
      by (subst skip_while.simps) (simp add: nth_append)
    then show ?thesis using ne
      by (subst elements.simps, subst (2) elements.simps) (simp add: Let_def)
  qed
  have c: "cstr ?b (length before) = x" by (rule cstr_at[OF x(2)])
  have "map (cstr ((before @ x @ [0]) @ ?r @ 0 # rest)) (elements ((before @ x @ [0]) @ ?r @ 0 # rest) (length (before @ x @ [0]))
      (length (before @ x @ [0]) + length ?r)) = y # ys" using 3(2) by (intro 3(1)) simp
  then show ?case using e1 e2 c by (simp add: add.assoc)
qed (simp add: elements.simps)

lemma cut_nonempty: "els \<noteq> [] \<Longrightarrow> \<forall>x \<in> set els. x \<noteq> [] \<Longrightarrow> cut els \<noteq> []"
  by (cases els rule: cut.cases) auto

lemma no_zero: "list_all plain x \<Longrightarrow> 0 \<notin> set x"
  by (auto simp: list_all_iff plain_def)

lemma print_option_plain: "option_ok opt \<Longrightarrow> 0 \<notin> set (print_option opt)"
proof -
  assume o: "option_ok opt"
  obtain n v where nv: "opt = (n, v)" by (cases opt)
  have "chr CHR ''$'' \<noteq> 0" "chr CHR '':'' \<noteq> 0" by code_simp+
  then show ?thesis using o no_zero[of n] no_zero[of v] by (simp add: nv option_ok_def print_option_def)
qed

lemma print_elements_plain: "list_all (element_ok sep) els \<Longrightarrow> plain c \<Longrightarrow> 0 \<notin> set (print_elements c els)"
  by (induction c els rule: print_elements.induct) (auto simp: element_ok_def plain_def list_all_iff)

text \<open>What the parser finds in the options and the last token \<open>t\<close> of a query, when the scan of \<open>t\<close> is known.\<close>

lemma Parse_tokens:
  assumes "list_all option_ok opts" "0 \<notin> set t" "sep \<noteq> []"
    and "\<And>i s. sc_state s = StateNone \<Longrightarrow> run sep i t s = (out i, f i s) \<and> sc_options (end_token (i + length t) (f i s)) = sc_options s"
  obtains buf i0 s0 p where "scan sep 0 (concat (map print_option opts) @ t @ [0]) scanner_init = (buf @ out i0 @ [0], i0 + length t, f i0 s0)"
    "length buf = i0" "sc_state s0 = StateNone" "sc_vectorBegin s0 = None" "sc_vectorEnd s0 = None" "sc_estDimension s0 = 0" "sc_base64 s0 = None"
    "\<forall>rest. map (\<lambda>(n, v). (case n of None \<Rightarrow> [] | Some j \<Rightarrow> cstr (buf @ rest) j, cstr (buf @ rest) v)) (sc_options s0) = map (\<lambda>(n, v). (lower_tail n, v)) opts"
proof -
  let ?o = "concat (map print_option opts)"
  have "sc_state scanner_init = StateNone" by (simp add: scanner_init_def)
  from run_options[OF assms(1) this, of sep 0] obtain buf s0 new where
    r: "run sep 0 ?o scanner_init = (buf, s0)" and s0: "sc_state s0 = StateNone" "length buf = length ?o"
      "sc_vectorBegin s0 = None" "sc_vectorEnd s0 = None" "sc_estDimension s0 = 0" "sc_base64 s0 = None" "sc_options s0 = new"
    and new: "\<forall>rest. map (\<lambda>(n, v). (cstr ([] @ buf @ rest) (the n), cstr ([] @ buf @ rest) v)) new = map (\<lambda>(n, v). (lower_tail n, v)) opts"
      "\<forall>x \<in> set new. fst x \<noteq> None"
    by (auto simp: scanner_init_def)
  have "0 \<notin> set (?o @ t)" using assms(1,2) print_option_plain by (auto simp: list_all_iff)
  moreover have "run sep 0 (?o @ t) scanner_init = (buf @ out (length ?o), f (length ?o) s0)"
    using run_join[OF r] assms(4)[OF s0(1), of "length ?o"] by simp
  ultimately have "scan sep 0 ((?o @ t) @ [0]) scanner_init = ((buf @ out (length ?o)) @ [0], 0 + length (?o @ t), f (length ?o) s0)"
    by (rule scan_run)
  moreover have "\<forall>rest. map (\<lambda>(n, v). (case n of None \<Rightarrow> [] | Some j \<Rightarrow> cstr (buf @ rest) j, cstr (buf @ rest) v)) (sc_options s0) =
      map (\<lambda>(n, v). (lower_tail n, v)) opts"
  proof
    fix rest
    have "map (\<lambda>(n, v). (case n of None \<Rightarrow> [] | Some j \<Rightarrow> cstr (buf @ rest) j, cstr (buf @ rest) v)) new =
        map (\<lambda>(n, v). (cstr ([] @ buf @ rest) (the n), cstr ([] @ buf @ rest) v)) new"
      using new(2) by (auto split: option.splits)
    then show "map (\<lambda>(n, v). (case n of None \<Rightarrow> [] | Some j \<Rightarrow> cstr (buf @ rest) j, cstr (buf @ rest) v)) (sc_options s0) =
      map (\<lambda>(n, v). (lower_tail n, v)) opts" unfolding s0(7) using new(1)[rule_format, of rest] by (rule trans)
  qed
  ultimately show thesis using that[of buf "length ?o" s0] s0 by simp
qed

lemma Parse_query:
  assumes "list_all option_ok opts" "list_all (element_ok sep) els" "els \<noteq> []" "c \<in> set sep" "plain c"
    and "hd (hd els) \<noteq> chr CHR ''$''" "hd (hd els) \<noteq> chr CHR ''#''"
  obtains p where "Parse (Some sep) (print_query c opts els) = (Success, p)"
    "option_strings p = map (\<lambda>(n, v). (lower_tail n, v)) opts" "element_strings p = els"
proof -
  let ?t = "print_elements c els"
  let ?f = "\<lambda>i s. s\<lparr>sc_state := Vector, sc_vectorBegin := Some i, sc_estDimension := sc_estDimension s + (length els - 1)\<rparr>"
  have z: "0 \<notin> set ?t" "sep \<noteq> []" using print_elements_plain[OF assms(2,5)] assms(4) by auto
  have r: "run sep i ?t s = (cut els, ?f i s) \<and> sc_options (end_token (i + length ?t) (?f i s)) = sc_options s" if "sc_state s = StateNone" for i s
    using run_vector[OF assms(2-5) that assms(6,7)] by (simp add: end_token_def)
  obtain buf i0 s0 where sc: "scan sep 0 (concat (map print_option opts) @ ?t @ [0]) scanner_init = (buf @ cut els @ [0], i0 + length ?t, ?f i0 s0)"
    and b: "length buf = i0" "sc_estDimension s0 = 0"
    and o: "\<forall>rest. map (\<lambda>(n, v). (case n of None \<Rightarrow> [] | Some j \<Rightarrow> cstr (buf @ rest) j, cstr (buf @ rest) v)) (sc_options s0) = map (\<lambda>(n, v). (lower_tail n, v)) opts"
    using Parse_tokens[of opts ?t sep "\<lambda>_. cut els" ?f, OF assms(1) z(1,2) r] by metis
  have len: "length ?t = length (cut els)" using length_run[of sep 0 ?t "scanner_init" "cut els"] r[of scanner_init 0] by (simp add: scanner_init_def)
  let ?els = "elements (buf @ cut els @ [0]) i0 (i0 + length (cut els))"
  have ne: "\<forall>x \<in> set els. x \<noteq> [] \<and> 0 \<notin> set x" using assms(2) no_zero by (auto simp: list_all_iff element_ok_def)
  have el: "map (cstr (buf @ cut els @ [0])) ?els = els" using elements_cut[OF ne, of buf "[]"] b(1) by simp
  then have "?els \<noteq> []" using assms(3) by auto
  let ?p = "\<lparr>qp_options = sc_options s0, qp_vectorElements = ?els, qp_vectorBase64 = sc_base64 s0,
      qp_vectorBase64Length = sc_base64Length s0, qp_dataHolder = buf @ cut els @ [0]\<rparr>"
  have "Parse (Some sep) (print_query c opts els) = (Success, ?p)"
    unfolding Parse_def print_query_def using sc b(2) len \<open>?els \<noteq> []\<close> by (simp add: end_token_def Let_def)
  moreover have "option_strings ?p = map (\<lambda>(n, v). (lower_tail n, v)) opts" 
    unfolding option_strings_def QueryParser.select_convs using o by simp
  moreover have "element_strings ?p = els" using el by (simp add: element_strings_def)
  ultimately show thesis using that by blast
qed

subsection \<open>Numbers\<close>

lemma digit_byte: "d < 10 \<Longrightarrow> unat (of_nat (48 + d) :: u8) = 48 + d"
  by (simp only: unat_of_nat) simp

lemma isdigit_byte: "d < 10 \<Longrightarrow> isdigit (of_nat (48 + d))"
  using digit_byte[of d] by (simp add: isdigit_def word_le_nat_alt)

lemma digits_of_isdigit: "list_all isdigit (digits_of n)" "digits_of n \<noteq> []"
proof -
  have "list_all isdigit (digits_of n) \<and> digits_of n \<noteq> []"
  proof (induction n rule: digits_of.induct)
    case (1 n)
    then show ?case using isdigit_byte[of n] isdigit_byte[of "n mod 10"] by (subst (1 2) digits_of.simps) simp
  qed
  then show "list_all isdigit (digits_of n)" "digits_of n \<noteq> []" by blast+
qed

lemma digits_value_snoc: "digits_value (ds @ [d]) = 10 * digits_value ds + (int (unat d) - 48)"
  by (simp add: digits_value_def)

lemma digits_value_of: "digits_value (digits_of n) = int n"
proof (induction n rule: digits_of.induct)
  case (1 n)
  show ?case
  proof (cases "n < 10")
    case True
    then have "digits_of n = [] @ [of_nat (48 + n)]" by (subst digits_of.simps) simp
    then show ?thesis using digit_byte[OF True] by (simp only: digits_value_snoc) (simp add: digits_value_def)
  next
    case False
    then have "digits_of n = digits_of (n div 10) @ [of_nat (48 + n mod 10)]" by (subst digits_of.simps) simp
    moreover have "digits_value (digits_of (n div 10)) = int (n div 10)" using 1 False by simp
    moreover have "unat (of_nat (48 + n mod 10) :: u8) = 48 + n mod 10" by (rule digit_byte) simp
    moreover have "10 * int (n div 10) + int (n mod 10) = int n"
      using arg_cong[OF mult_div_mod_eq[of 10 n], of int] by (simp only: of_nat_add of_nat_mult of_nat_numeral)
    ultimately show ?thesis by (simp add: digits_value_snoc)
  qed
qed

lemma digit_plain: "isdigit c \<Longrightarrow> plain c" "isdigit c \<Longrightarrow> c \<noteq> chr CHR ''-'' \<and> c \<noteq> chr CHR ''+'' \<and> c \<noteq> chr CHR ''$'' \<and> c \<noteq> chr CHR ''#''"
proof -
  assume d: "isdigit c"
  have "chr CHR ''-'' = 0x2d" "chr CHR ''+'' = 0x2b" "chr CHR ''$'' = 0x24" "chr CHR ''#'' = 0x23" by code_simp+
  then show "c \<noteq> chr CHR ''-'' \<and> c \<noteq> chr CHR ''+'' \<and> c \<noteq> chr CHR ''$'' \<and> c \<noteq> chr CHR ''#''"
    using d by (auto simp: isdigit_def word_le_nat_alt)
  show "plain c" using d by (auto simp: isdigit_def plain_def isspace_def word_le_nat_alt)
qed

lemma minus_plain: "plain (chr CHR ''-'')" "chr CHR ''-'' \<noteq> chr CHR ''$''" "chr CHR ''-'' \<noteq> chr CHR ''#''"
  by code_simp+

lemma str_integer_print: "str_integer (ConvertToString v) = Some (v < 0, \<bar>v\<bar>, [])"
proof -
  have d: "takeWhile isdigit (digits_of n) = digits_of n" "dropWhile isdigit (digits_of n) = []" for n
    using digits_of_isdigit(1)[of n] by (auto simp: list_all_iff takeWhile_eq_all_conv)
  have h: "isdigit (hd (digits_of n))" for n using digits_of_isdigit[of n] by (cases "digits_of n") auto
  have ns: "\<not> isspace (hd (digits_of n))" for n using digit_plain(1)[OF h] by (simp add: plain_def)
  have w: "dropWhile isspace (digits_of n) = digits_of n" for n
    using ns[of n] digits_of_isdigit(2)[of n] by (cases "digits_of n") auto
  show ?thesis
  proof (cases "v < 0")
    case True
    have "\<not> isspace (chr CHR ''-'')" using minus_plain(1) by (simp add: plain_def)
    then show ?thesis using True digits_of_isdigit(2) digits_value_of[of "nat (- v)"]
      by (simp add: ConvertToString_def str_integer_def Let_def d)
  next
    case False
    then show ?thesis using digits_of_isdigit(2) digits_value_of[of "nat v"] digit_plain(2)[OF h[of "nat v"]]
      by (simp add: ConvertToString_def str_integer_def Let_def d w)
  qed
qed

lemma signed_print:
  "0 < bits \<Longrightarrow> bits \<le> 64 \<Longrightarrow> - (2 ^ (bits - 1)) \<le> v \<Longrightarrow> v \<le> 2 ^ (bits - 1) - 1 \<Longrightarrow> ConvertStringToSignedInt bits (ConvertToString v) = Some v"
proof -
  assume b: "0 < bits" "bits \<le> 64" and v: "- (2 ^ (bits - 1)) \<le> v" "v \<le> 2 ^ (bits - 1) - 1"
  have "(2 :: int) ^ (bits - 1) \<le> 2 ^ 63" using b by (intro power_increasing) auto
  then show ?thesis using v by (simp add: ConvertStringToSignedInt_def str_integer_print Let_def)
qed

lemma unsigned_print: "0 \<le> v \<Longrightarrow> v \<le> 255 \<Longrightarrow> ConvertStringToUnsignedInt 8 (ConvertToString v) = Some v"
  by (simp add: ConvertStringToUnsignedInt_def str_integer_print Let_def)

definition in_range :: "VectorValueType \<Rightarrow> int \<Rightarrow> bool" where
  "in_range t v \<longleftrightarrow> (case t of Int8 \<Rightarrow> -128 \<le> v \<and> v \<le> 127 | UInt8 \<Rightarrow> 0 \<le> v \<and> v \<le> 255 | Int16 \<Rightarrow> -32768 \<le> v \<and> v \<le> 32767 | _ \<Rightarrow> False)"

lemma element_print: "in_range t v \<Longrightarrow> ConvertStringTo_element flt t (ConvertToString v) = Some (int_encode (GetValueTypeSize t) v)"
  using signed_print[of 8 v] signed_print[of 16 v] unsigned_print[of v]
  by (cases t) (auto simp: in_range_def ConvertStringTo_element_def GetValueTypeSize_def)

lemma vector_print:
  "\<forall>v \<in> set vs. in_range t v \<Longrightarrow>
     ConvertVectorFromString flt t (map ConvertToString vs) = Some (concat (map (int_encode (GetValueTypeSize t)) vs))"
  by (induction vs) (auto simp: element_print)

lemma ConvertToString_chars: "c \<in> set (ConvertToString v) \<Longrightarrow> isdigit c \<or> c = chr CHR ''-''" "ConvertToString v \<noteq> []"
  using digits_of_isdigit by (auto simp: ConvertToString_def list_all_iff split: if_splits)

lemma ConvertToString_element:
  assumes "\<forall>c \<in> set sep. \<not> isdigit c \<and> c \<noteq> chr CHR ''-''"
  shows "element_ok sep (ConvertToString v)" "hd (ConvertToString v) \<noteq> chr CHR ''$''" "hd (ConvertToString v) \<noteq> chr CHR ''#''"
proof -
  have h: "hd (ConvertToString v) \<in> set (ConvertToString v)" using ConvertToString_chars(2) by (rule hd_in_set)
  show "element_ok sep (ConvertToString v)"
    using ConvertToString_chars(1)[of _ v] ConvertToString_chars(2)[of v] assms digit_plain(1) minus_plain(1) by (auto simp: element_ok_def list_all_iff)
  show "hd (ConvertToString v) \<noteq> chr CHR ''$''" "hd (ConvertToString v) \<noteq> chr CHR ''#''"
    using ConvertToString_chars(1)[OF h] digit_plain(2)[of "hd (ConvertToString v)"] minus_plain(2,3) by auto
qed

subsection \<open>Base64 vectors\<close>

lemma encTable_plain: "list_all plain c_encTable" "plain c_paddingChar"
  by code_simp+

lemma enc_at_plain: "i \<le> 63 \<Longrightarrow> plain (enc_at i)"
proof -
  assume "i \<le> 63"
  then have "unat i < 64" by (simp add: word_le_nat_alt)
  moreover have "length c_encTable = 64" by code_simp
  ultimately show ?thesis using encTable_plain(1) by (simp add: enc_at_def list_all_length)
qed

lemma Encode_plain: "list_all plain (b64_Encode bs)"
  by (induction bs rule: b64_Encode.induct) (simp_all only: b64_Encode.simps list.pred_inject enc_at_plain sextet_le encTable_plain(2) simp_thms)

lemma run_base64: "list_all plain x \<Longrightarrow> sc_state s = VectorBase64 \<Longrightarrow> run sep i x s = (x, s)"
  by (induction sep i x s rule: run.induct) (auto simp: scan_step_def plain_def)

lemma Parse_base64:
  assumes "list_all option_ok opts" "list_all plain x" "sep \<noteq> []"
  obtains p b where "Parse (Some sep) (concat (map print_option opts) @ chr CHR ''#'' # x) = (Success, p)"
    "option_strings p = map (\<lambda>(n, v). (lower_tail n, v)) opts" "qp_vectorElements p = []"
    "qp_vectorBase64 p = Some b" "qp_vectorBase64Length p = int (length x)" "take (length x) (drop b (qp_dataHolder p)) = x"
proof -
  let ?t = "chr CHR ''#'' # x"
  let ?f = "\<lambda>i s. s\<lparr>sc_state := VectorBase64, sc_base64 := Some (i + 1)\<rparr>"
  have z: "0 \<notin> set ?t" using no_zero[OF assms(2)] chr_plain(6) by simp
  have r: "run sep i ?t s = (?t, ?f i s) \<and> sc_options (end_token (i + length ?t) (?f i s)) = sc_options s" if "sc_state s = StateNone" for i s
    using run_base64[OF assms(2), of "?f i s" sep "i + 1"] that chr_plain by (simp add: scan_step_def end_token_def)
  obtain buf i0 s0 where sc: "scan sep 0 (concat (map print_option opts) @ ?t @ [0]) scanner_init = (buf @ ?t @ [0], i0 + length ?t, ?f i0 s0)"
    and b: "length buf = i0" "sc_vectorBegin s0 = None"
    and o: "\<forall>rest. map (\<lambda>(n, v). (case n of None \<Rightarrow> [] | Some j \<Rightarrow> cstr (buf @ rest) j, cstr (buf @ rest) v)) (sc_options s0) = map (\<lambda>(n, v). (lower_tail n, v)) opts"
    using Parse_tokens[of opts ?t sep "\<lambda>_. ?t" ?f, OF assms(1) z assms(3) r] by metis
  let ?p = "\<lparr>qp_options = sc_options s0, qp_vectorElements = [], qp_vectorBase64 = Some (i0 + 1),
      qp_vectorBase64Length = int (length x), qp_dataHolder = buf @ ?t @ [0]\<rparr>"
  have "Parse (Some sep) (concat (map print_option opts) @ ?t) = (Success, ?p)"
    unfolding Parse_def using sc b(2) by (simp add: end_token_def Let_def)
  moreover have "option_strings ?p = map (\<lambda>(n, v). (lower_tail n, v)) opts"
    unfolding option_strings_def QueryParser.select_convs by (rule o[rule_format])
  moreover have "take (length x) (drop (i0 + 1) (qp_dataHolder ?p)) = x" using b(1) by simp
  ultimately show thesis using that[of ?p "i0 + 1"] by simp
qed

subsection \<open>Properties\<close>



text \<open>C20. A query with a base64 vector gives exactly the bytes that were encoded when the size of the value type divides
  their number, and fails otherwise.\<close>

theorem base64_query_roundtrip:
  assumes "list_all option_ok opts" "bs \<noteq> []" "t \<noteq> UndefinedType" "sep \<noteq> []"
  shows "\<exists>p. ParseQuery sep (concat (map print_option opts) @ chr CHR ''#'' # b64_Encode bs) ctx = (Success, ctx\<lparr>ec_parser := p\<rparr>) \<and>
    option_strings p = map (\<lambda>(n, v). (lower_tail n, v)) opts \<and>
    ExtractVector flt t (ctx\<lparr>ec_parser := p\<rparr>) =
      Some (if length bs mod GetValueTypeSize t = 0
            then (Success, ctx\<lparr>ec_parser := p, ec_vector := bs, ec_vectorDimension := length bs div GetValueTypeSize t\<rparr>)
            else (Fail, ctx\<lparr>ec_parser := p\<rparr>))"
proof -
  let ?x = "b64_Encode bs"
  obtain p b where p: "Parse (Some sep) (concat (map print_option opts) @ chr CHR ''#'' # ?x) = (Success, p)"
    "option_strings p = map (\<lambda>(n, v). (lower_tail n, v)) opts" "qp_vectorElements p = []"
    "qp_vectorBase64 p = Some b" "qp_vectorBase64Length p = int (length ?x)" "take (length ?x) (drop b (qp_dataHolder p)) = ?x"
    using Parse_base64[OF assms(1) Encode_plain assms(4)] by metis
  note d = Decode_Encode[OF assms(2)]
  have "length ?x \<noteq> 0" using Encode_nonempty[OF assms(2)] by simp
  moreover have "GetValueTypeSize t \<noteq> 0" using assms(3) by (cases t) (simp_all add: GetValueTypeSize_def)
  ultimately have "ExtractVector flt t (ctx\<lparr>ec_parser := p\<rparr>) =
      Some (if length bs mod GetValueTypeSize t = 0
            then (Success, ctx\<lparr>ec_parser := p, ec_vector := bs, ec_vectorDimension := length bs div GetValueTypeSize t\<rparr>)
            else (Fail, ctx\<lparr>ec_parser := p\<rparr>))"
    using p(3-6) d Decode_sound(1)[OF d] by (simp add: ExtractVector_def Let_def)
  then show ?thesis using p by (intro exI[of _ p]) (simp add: ParseQuery_def)
qed

theorem base64_query_roundtrip_witness:
  "\<exists>p. ParseQuery [chr CHR ''|''] (ascii ''$datatype:Int16 #QUJD'') (context_new 10) = (Success, (context_new 10)\<lparr>ec_parser := p\<rparr>) \<and>
    option_strings p = [(ascii ''datatype'', ascii ''Int16'')] \<and>
    ExtractVector (\<lambda>_. None) Int16 ((context_new 10)\<lparr>ec_parser := p\<rparr>) = Some (Fail, (context_new 10)\<lparr>ec_parser := p\<rparr>)"
proof -
  let ?opts = "[(ascii ''datatype'', ascii ''Int16'')]" and ?bs = "[0x41, 0x42, 0x43] :: bytes"
  have h: "list_all option_ok ?opts" by code_simp
  have q: "concat (map print_option ?opts) @ chr CHR ''#'' # b64_Encode ?bs = ascii ''$datatype:Int16 #QUJD''" by code_simp
  have o: "map (\<lambda>(n, v). (lower_tail n, v)) ?opts = [(ascii ''datatype'', ascii ''Int16'')]" by code_simp
  show ?thesis
    using base64_query_roundtrip[of ?opts ?bs Int16 "[chr CHR ''|'']" "context_new 10" "\<lambda>_. None"] h unfolding q o
    by (simp add: GetValueTypeSize_def)
qed

end
