(* ===== verification/Spec2Isabelle.thy ===== *)
theory Spec2Isabelle
  imports Bkt_Search File_Io Iterative_Search Client_Requests Connection_Pool Query_Parser
begin

text \<open>
  A verification library for SPTAG (Space Partition Tree And Graph), a library and service for approximate
  nearest neighbour search. The sources are under \<^verbatim>\<open>src/AnnService\<close>; file names below are relative to it.

  \<^bold>\<open>The program.\<close> An index keeps vectors in blocked arrays (\<^verbatim>\<open>inc/Core/Common/Dataset.h\<close>), a forest of k-means
  trees and a neighbourhood graph over them. A query starts from seeds found in the forest and follows the
  graph best first: a search workspace holds the queues of nodes and of tree cells, the set of visited nodes
  and the best distances so far, and a result set keeps the best answers. Deleted vectors are marked in a
  label set. The large index SPANN keeps the vectors of a cluster as a posting in a file of 4 KB blocks, behind
  a write-back cache: a block controller allocates the blocks, a mapping says which blocks hold which posting,
  and a checkpoint saves both. A static variant packs the postings into one file that is written once. A service answers queries over TCP: a client writes a query as a text with options and
  a vector, sends it in a packet and keeps a callback for the answer; the server parses the text, searches its
  indexes and sends the results back.

  \<^bold>\<open>The theories.\<close>
  \<^item> \<open>Sptag_Prelude\<close>: machine types, error codes, facts on lists shared by the components.
  \<^item> \<open>Binary_Heap\<close> (\<^verbatim>\<open>inc/Core/Common/Heap.h\<close>): the bounded binary heap, its order invariant, that draining it
    sorts, and what an insertion does when it is full.
  \<^item> \<open>Result_Set\<close> (\<^verbatim>\<open>QueryResultSet.h\<close>, \<^verbatim>\<open>SearchQuery.h\<close>, \<^verbatim>\<open>WorkSpace.h\<close>): the queue of distances and the result set
    hold exactly the best of what was offered; the heaps of the code refine a sorted list.
  \<^item> \<open>Visited_Set\<close> (\<^verbatim>\<open>OptHashPosVector\<close> of \<^verbatim>\<open>WorkSpace.h\<close>): the hash table refines a set, clearing empties it, when
    the insertion returns, and inputs on which its doubling never ends.
  \<^item> \<open>Work_Space\<close> (\<^verbatim>\<open>WorkSpace.h\<close>, \<^verbatim>\<open>FineGrainedLock.h\<close>): the workspace, its reset, the pool of workspaces.
  \<^item> \<open>Bkt_Search\<close> (\<^verbatim>\<open>inc/Core/Common/BKTree.h\<close>, \<^verbatim>\<open>src/Core/BKT/BKTIndex.cpp\<close>): the search of the forest and of the graph
    and the search calls of the index. The main theorem says that a search returns and that its answers are
    the best of live, admissible samples at their true distances. The bounded queues enter through the locale
    \<open>bounded_queue\<close>, interpreted on the heap.
  \<^item> \<open>Binary_Io\<close>, \<open>Dataset\<close> (\<^verbatim>\<open>Dataset.h\<close>): byte buffers and streams; the blocked array as a list of rows, growing,
    saving, loading and refining.
  \<^item> \<open>Labels\<close> (\<^verbatim>\<open>LabelSet.h\<close>, \<^verbatim>\<open>VersionLabel.h\<close>, \<^verbatim>\<open>PostingSizeRecord.h\<close>, \<^verbatim>\<open>Checksum.h\<close>): the label set as a set of
    identifiers (invariant by rule induction over the calls), versions, sizes, and which changes the
    checksum detects; an interleaving of two threads that revives a deleted identifier.
  \<^item> \<open>Block_Controller\<close>, \<open>Posting_Store\<close>, \<open>Lru_Cache\<close>, \<open>File_Io\<close> (\<^verbatim>\<open>ExtraFileController.h\<close> and \<^verbatim>\<open>.cpp\<close>): no block belongs
    to two postings, what is written is read back, a failed call leaves every other posting alone, a checkpoint
    is reloaded; the cache is proved over the laws of the store behind it (a locale), the posting store
    satisfies these laws (its interpretation), and together they refine a map from keys to values.
  \<^item> \<open>Static_Postings\<close>, \<open>Static_Index\<close> (\<^verbatim>\<open>inc/Core/SPANN/ExtraStaticSearcher.h\<close>): the placement of postings in pages; the static
    index file as it is written, loaded and read back, with the assigned vectors in every posting.
  \<^item> \<open>Static_Search\<close>, \<open>Iterative_Search\<close> (same file): the searches over this index. From the assignment of vectors to postings
    to the answers: the results are the best of the vectors in the chosen postings, each counted once; the iterative search
    gives each head and each vector once and then ends, and a head that the filter rejects hides the heads behind it.
  \<^item> \<open>Wire_Format\<close> (\<^verbatim>\<open>inc/Socket/SimpleSerialization.h\<close>, \<^verbatim>\<open>src/Socket/RemoteSearchQuery.cpp\<close>, \<^verbatim>\<open>src/Socket/Packet.cpp\<close>): the messages and
    packets. The locale \<open>codec\<close> says what a writer and a reader of a type owe each other; it is interpreted on
    each of the primitive and composed formats, and the round trip of whole messages rests on it.
  \<^item> \<open>Search_Service\<close> (\<^verbatim>\<open>src/Socket/Connection.cpp\<close>, \<^verbatim>\<open>src/Server/SearchService.cpp\<close>): a query reaches the server and its results the
    client; no request is dropped in silence; what a header with a huge length does.
  \<^item> \<open>Client_Requests\<close> (\<^verbatim>\<open>inc/Socket/ResourceManager.h\<close>, \<^verbatim>\<open>src/Client/ClientWrapper.cpp\<close>): the client as a transition system over all
    interleavings of requests, responses, timeouts and waiting; every callback is called exactly once as long as no
    transmission fails, and twice when one does.
  \<^item> \<open>Connection_Pool\<close> (\<^verbatim>\<open>src/Socket/ConnectionManager.cpp\<close>): the table of connections as a map from identifiers.
  \<^item> \<open>Base64\<close>, \<open>Query_Parser\<close> (\<^verbatim>\<open>src/Helper/Base64Encode.cpp\<close>, \<^verbatim>\<open>src/Server/QueryParser.cpp\<close>, \<^verbatim>\<open>SearchExecutionContext.cpp\<close>,
    \<^verbatim>\<open>inc/Helper/StringConvert.h\<close>): encoding and parsing; a query in either form reads back as it was written.

  \<^bold>\<open>Bounds and fuel.\<close> The doubling of the visited set, the forest search and the main loop of the search run with
  fuel. The search needs as much fuel as there are samples for the main loop and as the forest has cells
  (counted along every path) for the trees; that marking a node as seen returns is a hypothesis here and in the searches over postings, as it does not
  hold for every table. Adding a connection needs at most 512 tries; the
  placement of postings takes at most two rounds for each posting. The other loops recurse on their data and end.

  \<^bold>\<open>Parameters.\<close> The distance of the query to a sample, the float product with 1.1, the metadata and the filter of
  the caller, the content of fresh memory, the outcome of every request to the device and of every attempt to
  connect, the readings of the clock, and the conversion of text to floats. Distances are
  rational numbers, NaN is not among them.

  \<^bold>\<open>Not modelled.\<close> The construction of indexes (clustering, graph refinement), the kd-tree index, the dynamic
  searcher of SPANN and its background threads, compressed and delta-encoded postings, quantizers and SIMD kernels, the RocksDB and SPDK backends, the sockets
  themselves, the aggregator, the command-line programs. Locks are not modelled: every call runs alone, except in the
  interleaving of theory \<open>Labels\<close> and the steps of theory \<open>Client_Requests\<close>.
\<close>

end
